(* ===== verification/Prelude.thy ===== *)
theory Prelude
  imports Main "HOL-Library.Word" "HOL-Library.Sublist"
begin

text \<open>
  The vocabulary of the development.

  \<^item> Machine integers are words of their width (\<open>u8\<close> to \<open>u64\<close>), bytes are \<open>u8\<close>, and a byte
    string (a \<^verbatim>\<open>std::vector<uint8_t>\<close>) is a list of them.
  \<^item> A \<^verbatim>\<open>std::string\<close> is a HOL \<open>string\<close>: both are sequences of eight-bit characters.
    \<open>byte_of_char\<close> and \<open>char_of_byte\<close> are the \<^verbatim>\<open>reinterpret_cast\<close> between the two.
  \<^item> A \<^verbatim>\<open>steady_clock::time_point\<close> is the integer count of its ticks, in nanoseconds; the
    default-constructed one is \<open>0\<close>.
  \<^item> The collection \<open>wire_simps\<close> holds the rewrite rules of the codec.
\<close>

unbundle bit_operations_syntax

named_theorems wire_simps "reader and writer rules of the wire codec"

section \<open>Machine types\<close>

type_synonym u8 = "8 word"
type_synonym u16 = "16 word"
type_synonym u32 = "32 word"
type_synonym u64 = "64 word"
type_synonym bytes = "u8 list"
type_synonym time_point = int

abbreviation milliseconds :: "int \<Rightarrow> int" where
  "milliseconds n \<equiv> n * 1000000"

abbreviation seconds :: "int \<Rightarrow> int" where
  "seconds n \<equiv> n * 1000000000"

lemma mask_literals:
  "(0xFF :: 'a::len word) = mask 8"
  "(0xFFFF :: 'a::len word) = mask 16"
  "(0xFFFFFFFF :: 'a::len word) = mask 32"
  by (simp_all add: mask_eq_exp_minus_1)

lemma unat_u8_less [simp]: "unat (b :: u8) < 256"
  using unsigned_less [of b] by simp

lemma unat_u16_less [simp]: "unat (v :: u16) < 65536"
  using unsigned_less [of v] by simp

lemma unat_of_nat_u8: "n < 256 \<Longrightarrow> unat (of_nat n :: u8) = n"
  by (simp add: unat_of_nat)

lemma unat_of_nat_u16: "n < 65536 \<Longrightarrow> unat (of_nat n :: u16) = n"
  by (simp add: unat_of_nat)

lemma unat_of_nat_u32: "n < 4294967296 \<Longrightarrow> unat (of_nat n :: u32) = n"
  by (simp add: unat_of_nat)

lemma u16_ge_1: "1 \<le> (m :: u16) \<longleftrightarrow> m \<noteq> 0"
  by (metis not_le word_less_1)

section \<open>Characters as bytes\<close>

definition byte_of_char :: "char \<Rightarrow> u8" where
  "byte_of_char c = of_nat (of_char c)"

definition char_of_byte :: "u8 \<Rightarrow> char" where
  "char_of_byte b = char_of (unat b)"

lemma char_of_byte_of_char [simp]: "char_of_byte (byte_of_char c) = c"
  by (simp add: char_of_byte_def byte_of_char_def unat_of_nat)

lemma byte_of_char_of_byte [simp]: "byte_of_char (char_of_byte b) = b"
  by (simp add: char_of_byte_def byte_of_char_def)

lemma map_char_of_byte_of_char [simp]: "map (char_of_byte \<circ> byte_of_char) s = s"
  by (induction s) simp_all

lemma map_byte_of_char_of_byte [simp]: "map (byte_of_char \<circ> char_of_byte) bs = bs"
  by (induction bs) simp_all

section \<open>Lists\<close>

lemma take_length_append_drop: "n = length xs \<Longrightarrow> take n (xs @ ys) = xs \<and> drop n (xs @ ys) = ys"
  by simp

lemma suffix_drop: "suffix (drop n xs) xs"
  by (metis append_take_drop_id suffixI)

lemma sum_list_take_drop: "sum_list (take n xs) + sum_list (drop n xs) = sum_list (xs :: nat list)"
  by (metis append_take_drop_id sum_list_append)

text \<open>Sorting out one element of a non-empty list by its two ends.\<close>

lemma last_take_Suc: "n < length xs \<Longrightarrow> last (take (Suc n) xs) = xs ! n"
  by (simp add: take_Suc_conv_app_nth)

section \<open>Decimal numbers\<close>

text \<open>\<^verbatim>\<open>std::to_string\<close> of an unsigned number: its decimal digits, which determine it.\<close>

fun digits :: "nat \<Rightarrow> string" where
  "digits n = (if n < 10 then [char_of (48 + n)] else digits (n div 10) @ [char_of (48 + n mod 10)])"

declare digits.simps [simp del]

lemma digits_small: "n < 10 \<Longrightarrow> digits n = [char_of (48 + n)]"
  by (simp add: digits.simps)

lemma digits_large: "\<not> n < 10 \<Longrightarrow> digits n = digits (n div 10) @ [char_of (48 + n mod 10)]"
  by (subst digits.simps) simp

lemma digits_nonempty [simp]: "digits n \<noteq> []"
  by (subst digits.simps) simp

lemma char_of_digit:
  assumes "m < 10" "n < 10"
  shows "char_of (48 + m) = (char_of (48 + n) :: char) \<longleftrightarrow> m = (n :: nat)"
proof
  assume "char_of (48 + m) = (char_of (48 + n) :: char)"
  then have "of_char (char_of (48 + m) :: char) = (of_char (char_of (48 + n) :: char) :: nat)" by simp
  with assms show "m = n" by simp
qed simp

lemma digits_inj: "digits m = digits n \<Longrightarrow> m = n"
proof (induction m arbitrary: n rule: digits.induct)
  case (1 m)
  consider "m < 10" "n < 10" | "m < 10" "\<not> n < 10" | "\<not> m < 10" "n < 10" | "\<not> m < 10" "\<not> n < 10" by blast
  then show ?case
  proof cases
    case 1
    with "1.prems" show ?thesis by (simp add: digits_small char_of_digit)
  next
    case 2
    with "1.prems" have "digits (n div 10) = []" by (simp add: digits_small digits_large [of n])
    then show ?thesis by simp
  next
    case 3
    with "1.prems" show ?thesis by (simp add: digits_small digits_large [of m])
  next
    case 4
    with "1.prems" have "digits (m div 10) = digits (n div 10)" "char_of (48 + m mod 10) = (char_of (48 + n mod 10) :: char)"
      by (simp_all add: digits_large [of m] digits_large [of n])
    with "1.IH" [OF 4(1)] have "m div 10 = n div 10" "m mod 10 = n mod 10" by (simp_all add: char_of_digit)
    then show ?thesis by (metis div_mult_mod_eq)
  qed
qed

lemma length_digits: "n < 10 ^ Suc k \<Longrightarrow> length (digits n) \<le> Suc k"
proof (induction k arbitrary: n)
  case 0
  then show ?case by (simp add: digits_small)
next
  case (Suc k)
  show ?case
  proof (cases "n < 10")
    case False
    have "n div 10 < 10 ^ Suc k" using Suc.prems by (simp add: less_mult_imp_div_less)
    from Suc.IH [OF this] False show ?thesis by (simp add: digits_large)
  qed (simp add: digits_small)
qed

end
