(* ===== verification/Wire_Codec.thy ===== *)
theory Wire_Codec
  imports Prelude
begin

text \<open>
  The codec's machinery, from \<^verbatim>\<open>src/WireProtocol.h\<close> and \<^verbatim>\<open>src/WireProtocol.cpp\<close>: the wire
  constants, the little-endian \<open>Writer\<close> and \<open>Reader\<close> with their latched failures, and the
  framing of a message (\<open>EncodeMessage\<close>, \<open>DecodeBody\<close>).

  A statement \<^verbatim>\<open>w.U16(x);\<close> of an \<^verbatim>\<open>Encode\<close> is a function on the writer, and a statement
  \<^verbatim>\<open>r.U16(out.x);\<close> of a \<^verbatim>\<open>Decode\<close> a function on the pair of the record being filled and the
  reader. Two judgements describe them: \<open>emits op bs ok\<close> says that \<open>op\<close> appends exactly \<open>bs\<close>, and
  fails exactly when \<open>ok\<close> does not hold or the payload bound is passed; \<open>takes st out bs out'\<close>
  says that \<open>st\<close> turns \<open>out\<close> into \<open>out'\<close> by reading exactly \<open>bs\<close>, and fails on every strict
  prefix of \<open>bs\<close>. Both compose over blocks and loops, so that a payload's two directions are
  proved by composing the rules of its fields.
\<close>

section \<open>Constants\<close>

abbreviation (input) PROTO_MAJOR :: u16 where "PROTO_MAJOR \<equiv> 1"
abbreviation (input) PROTO_MINOR :: u16 where "PROTO_MINOR \<equiv> 2"

definition MAX_MESSAGE_BYTES :: nat where "MAX_MESSAGE_BYTES = 1048576"
definition HEADER_BYTES :: nat where "HEADER_BYTES = 8"
definition LENGTH_BYTES :: nat where "LENGTH_BYTES = 4"
definition MAX_PAYLOAD_BYTES :: nat where
  "MAX_PAYLOAD_BYTES = MAX_MESSAGE_BYTES - LENGTH_BYTES - HEADER_BYTES"

lemmas bound_defs = MAX_PAYLOAD_BYTES_def MAX_MESSAGE_BYTES_def LENGTH_BYTES_def HEADER_BYTES_def

abbreviation (input) TYPE_HELLO :: u16 where "TYPE_HELLO \<equiv> 1"
abbreviation (input) TYPE_HELLO_ACK :: u16 where "TYPE_HELLO_ACK \<equiv> 2"
abbreviation (input) TYPE_DECLARE :: u16 where "TYPE_DECLARE \<equiv> 3"
abbreviation (input) TYPE_FRAME :: u16 where "TYPE_FRAME \<equiv> 4"
abbreviation (input) TYPE_PING :: u16 where "TYPE_PING \<equiv> 5"
abbreviation (input) TYPE_PONG :: u16 where "TYPE_PONG \<equiv> 6"
abbreviation (input) TYPE_BYE :: u16 where "TYPE_BYE \<equiv> 7"
abbreviation (input) TYPE_SUBSCRIBE :: u16 where "TYPE_SUBSCRIBE \<equiv> 16"
abbreviation (input) TYPE_POLL :: u16 where "TYPE_POLL \<equiv> 17"
abbreviation (input) TYPE_READ_DIRECT :: u16 where "TYPE_READ_DIRECT \<equiv> 18"
abbreviation (input) TYPE_WRITE :: u16 where "TYPE_WRITE \<equiv> 19"
abbreviation (input) TYPE_NVRAM :: u16 where "TYPE_NVRAM \<equiv> 20"
abbreviation (input) TYPE_OVERLAY :: u16 where "TYPE_OVERLAY \<equiv> 32"
abbreviation (input) TYPE_STATUS :: u16 where "TYPE_STATUS \<equiv> 33"
abbreviation (input) TYPE_GAME :: u16 where "TYPE_GAME \<equiv> 48"
abbreviation (input) TYPE_GAME_START_REQUESTED :: u16 where "TYPE_GAME_START_REQUESTED \<equiv> 49"
abbreviation (input) TYPE_TOP_SCORES_REQUEST :: u16 where "TYPE_TOP_SCORES_REQUEST \<equiv> 64"
abbreviation (input) TYPE_TOP_SCORES :: u16 where "TYPE_TOP_SCORES \<equiv> 65"
abbreviation (input) TYPE_PLAYERS :: u16 where "TYPE_PLAYERS \<equiv> 66"
abbreviation (input) TYPE_PLAYER_PICTURE :: u16 where "TYPE_PLAYER_PICTURE \<equiv> 67"
abbreviation (input) TYPE_CREDITS_ADD_REQUESTED :: u16 where "TYPE_CREDITS_ADD_REQUESTED \<equiv> 68"
abbreviation (input) TYPE_CREDITS_STATUS_REQUESTED :: u16 where "TYPE_CREDITS_STATUS_REQUESTED \<equiv> 69"
abbreviation (input) TYPE_CREDITS_DROPPED :: u16 where "TYPE_CREDITS_DROPPED \<equiv> 70"
abbreviation (input) TYPE_CREDITS_STATUS :: u16 where "TYPE_CREDITS_STATUS \<equiv> 71"
abbreviation (input) TYPE_PRICING :: u16 where "TYPE_PRICING \<equiv> 72"

abbreviation (input) FLAG_RESPONSE :: u16 where "FLAG_RESPONSE \<equiv> 1"
abbreviation (input) FLAG_ERROR :: u16 where "FLAG_ERROR \<equiv> 2"

abbreviation (input) ERR_UNSUPPORTED_TYPE :: u16 where "ERR_UNSUPPORTED_TYPE \<equiv> 1"
abbreviation (input) ERR_BAD_TOKEN :: u16 where "ERR_BAD_TOKEN \<equiv> 2"
abbreviation (input) ERR_VERSION_MISMATCH :: u16 where "ERR_VERSION_MISMATCH \<equiv> 3"
abbreviation (input) ERR_BUSY :: u16 where "ERR_BUSY \<equiv> 4"
abbreviation (input) ERR_NOT_DECLARED :: u16 where "ERR_NOT_DECLARED \<equiv> 5"
abbreviation (input) ERR_UNSUPPORTED_OPERATION :: u16 where "ERR_UNSUPPORTED_OPERATION \<equiv> 6"
abbreviation (input) ERR_MALFORMED :: u16 where "ERR_MALFORMED \<equiv> 7"
abbreviation (input) ERR_NO_GAME :: u16 where "ERR_NO_GAME \<equiv> 8"
abbreviation (input) ERR_OUT_OF_RANGE :: u16 where "ERR_OUT_OF_RANGE \<equiv> 9"
abbreviation (input) ERR_TOO_LARGE :: u16 where "ERR_TOO_LARGE \<equiv> 10"
abbreviation (input) ERR_STALE :: u16 where "ERR_STALE \<equiv> 11"
abbreviation (input) ERR_UNSTABLE :: u16 where "ERR_UNSTABLE \<equiv> 12"
abbreviation (input) ERR_NOT_AUTHORED :: u16 where "ERR_NOT_AUTHORED \<equiv> 13"

abbreviation (input) CAP_IDENTIFY_FRAMES :: u32 where "CAP_IDENTIFY_FRAMES \<equiv> 0x1"
abbreviation (input) CAP_MEMORY_READ :: u32 where "CAP_MEMORY_READ \<equiv> 0x2"
abbreviation (input) CAP_MEMORY_WRITE :: u32 where "CAP_MEMORY_WRITE \<equiv> 0x4"
abbreviation (input) CAP_OVERLAY :: u32 where "CAP_OVERLAY \<equiv> 0x20"
abbreviation (input) CAP_AUTHORED_TABLES :: u32 where "CAP_AUTHORED_TABLES \<equiv> 0x80"
abbreviation (input) CAP_LEADERBOARDS :: u32 where "CAP_LEADERBOARDS \<equiv> 0x100"
abbreviation (input) CAP_PLAYERS :: u32 where "CAP_PLAYERS \<equiv> 0x200"
abbreviation (input) CAP_PLAYER_PICTURES :: u32 where "CAP_PLAYER_PICTURES \<equiv> 0x400"

definition TypeName :: "u16 \<Rightarrow> string" where
  "TypeName type =
     (if type = TYPE_HELLO then ''Hello''
      else if type = TYPE_HELLO_ACK then ''HelloAck''
      else if type = TYPE_DECLARE then ''Declare''
      else if type = TYPE_FRAME then ''Frame''
      else if type = TYPE_PING then ''Ping''
      else if type = TYPE_PONG then ''Pong''
      else if type = TYPE_BYE then ''Bye''
      else if type = TYPE_SUBSCRIBE then ''Subscribe''
      else if type = TYPE_POLL then ''Poll''
      else if type = TYPE_READ_DIRECT then ''ReadDirect''
      else if type = TYPE_WRITE then ''Write''
      else if type = TYPE_NVRAM then ''NvRam''
      else if type = TYPE_OVERLAY then ''Overlay''
      else if type = TYPE_STATUS then ''Status''
      else if type = TYPE_GAME then ''Game''
      else if type = TYPE_GAME_START_REQUESTED then ''GameStartRequested''
      else if type = TYPE_TOP_SCORES_REQUEST then ''TopScoresRequest''
      else if type = TYPE_TOP_SCORES then ''TopScores''
      else if type = TYPE_PLAYERS then ''Players''
      else if type = TYPE_PLAYER_PICTURE then ''PlayerPicture''
      else if type = TYPE_CREDITS_ADD_REQUESTED then ''CreditsAddRequested''
      else if type = TYPE_CREDITS_STATUS_REQUESTED then ''CreditsStatusRequested''
      else if type = TYPE_CREDITS_DROPPED then ''CreditsDropped''
      else if type = TYPE_CREDITS_STATUS then ''CreditsStatus''
      else if type = TYPE_PRICING then ''Pricing''
      else ''unknown'')"

definition ErrorName :: "u16 \<Rightarrow> string" where
  "ErrorName code =
     (if code = ERR_UNSUPPORTED_TYPE then ''unsupported_type''
      else if code = ERR_BAD_TOKEN then ''bad_token''
      else if code = ERR_VERSION_MISMATCH then ''version_mismatch''
      else if code = ERR_BUSY then ''busy''
      else if code = ERR_NOT_DECLARED then ''not_declared''
      else if code = ERR_UNSUPPORTED_OPERATION then ''unsupported_operation''
      else if code = ERR_MALFORMED then ''malformed''
      else if code = ERR_NO_GAME then ''no_game''
      else if code = ERR_OUT_OF_RANGE then ''out_of_range''
      else if code = ERR_TOO_LARGE then ''too_large''
      else if code = ERR_STALE then ''stale''
      else if code = ERR_UNSTABLE then ''unstable''
      else if code = ERR_NOT_AUTHORED then ''not_authored''
      else ''unknown'')"

section \<open>Writer\<close>

record writer =
  w_data :: bytes
  w_ok :: bool

definition Writer :: writer where
  "Writer = \<lparr>w_data = [], w_ok = True\<rparr>"

definition w_U8 :: "u8 \<Rightarrow> writer \<Rightarrow> writer" where
  "w_U8 v w =
     (if \<not> w_ok w then w
      else if length (w_data w) + 1 > MAX_PAYLOAD_BYTES then w\<lparr>w_ok := False\<rparr>
      else w\<lparr>w_data := w_data w @ [v]\<rparr>)"

definition w_U16 :: "u16 \<Rightarrow> writer \<Rightarrow> writer" where
  "w_U16 v w = w_U8 (ucast (drop_bit 8 v AND 0xFF)) (w_U8 (ucast (v AND 0xFF)) w)"

definition w_U32 :: "u32 \<Rightarrow> writer \<Rightarrow> writer" where
  "w_U32 v w = w_U16 (ucast (drop_bit 16 v AND 0xFFFF)) (w_U16 (ucast (v AND 0xFFFF)) w)"

definition w_U64 :: "u64 \<Rightarrow> writer \<Rightarrow> writer" where
  "w_U64 v w = w_U32 (ucast (drop_bit 32 v AND 0xFFFFFFFF)) (w_U32 (ucast (v AND 0xFFFFFFFF)) w)"

definition w_Bytes :: "bytes \<Rightarrow> writer \<Rightarrow> writer" where
  "w_Bytes bs w =
     (if \<not> w_ok w then w
      else if length (w_data w) + length bs > MAX_PAYLOAD_BYTES then w\<lparr>w_ok := False\<rparr>
      else w\<lparr>w_data := w_data w @ bs\<rparr>)"

definition w_Str :: "string \<Rightarrow> writer \<Rightarrow> writer" where
  "w_Str v w =
     (if \<not> w_ok w then w
      else if length v > 0xFFFF then w\<lparr>w_ok := False\<rparr>
      else w_Bytes (map byte_of_char v) (w_U16 (of_nat (length v)) w))"

text \<open>A block of statements, and the \<^verbatim>\<open>return w.Ok() ? w.Take() : {}\<close> that ends every \<^verbatim>\<open>Encode\<close>.\<close>

fun w_seq :: "(writer \<Rightarrow> writer) list \<Rightarrow> writer \<Rightarrow> writer" where
  "w_seq [] w = w"
| "w_seq (op # ops) w = w_seq ops (op w)"

definition w_result :: "writer \<Rightarrow> bytes" where
  "w_result w = (if w_ok w then w_data w else [])"

section \<open>Reader\<close>

record reader =
  r_data :: bytes
  r_pos :: nat
  r_ok :: bool

definition Reader :: "bytes \<Rightarrow> reader" where
  "Reader bs = \<lparr>r_data = bs, r_pos = 0, r_ok = True\<rparr>"

definition r_Remaining :: "reader \<Rightarrow> nat" where
  "r_Remaining r = length (r_data r) - r_pos r"

definition r_AtEnd :: "reader \<Rightarrow> bool" where
  "r_AtEnd r \<longleftrightarrow> r_pos r = length (r_data r)"

definition r_Need :: "nat \<Rightarrow> reader \<Rightarrow> bool \<times> reader" where
  "r_Need n r =
     (if \<not> r_ok r then (False, r)
      else if r_Remaining r < n then (False, r\<lparr>r_ok := False\<rparr>)
      else (True, r))"

text \<open>
  Each accessor takes the value the output variable had, and returns whether it read, the
  variable's value afterwards, and the reader.
\<close>

definition r_U8 :: "u8 \<Rightarrow> reader \<Rightarrow> bool \<times> u8 \<times> reader" where
  "r_U8 v r =
     (case r_Need 1 r of
        (False, r') \<Rightarrow> (False, v, r')
      | (True, r') \<Rightarrow> (True, r_data r' ! r_pos r', r'\<lparr>r_pos := r_pos r' + 1\<rparr>))"

definition r_U16 :: "u16 \<Rightarrow> reader \<Rightarrow> bool \<times> u16 \<times> reader" where
  "r_U16 v r =
     (case r_Need 2 r of
        (False, r') \<Rightarrow> (False, v, r')
      | (True, r') \<Rightarrow>
          (True, ucast (r_data r' ! r_pos r') OR push_bit 8 (ucast (r_data r' ! (r_pos r' + 1))),
           r'\<lparr>r_pos := r_pos r' + 2\<rparr>))"

definition r_U32 :: "u32 \<Rightarrow> reader \<Rightarrow> bool \<times> u32 \<times> reader" where
  "r_U32 v r =
     (case r_Need 4 r of
        (False, r') \<Rightarrow> (False, v, r')
      | (True, r') \<Rightarrow>
          (True,
           ucast (r_data r' ! r_pos r')
             OR push_bit 8 (ucast (r_data r' ! (r_pos r' + 1)))
             OR push_bit 16 (ucast (r_data r' ! (r_pos r' + 2)))
             OR push_bit 24 (ucast (r_data r' ! (r_pos r' + 3))),
           r'\<lparr>r_pos := r_pos r' + 4\<rparr>))"

definition r_U64 :: "u64 \<Rightarrow> reader \<Rightarrow> bool \<times> u64 \<times> reader" where
  "r_U64 v r =
     (case r_U32 0 r of
        (False, _, r1) \<Rightarrow> (False, v, r1)
      | (True, lo, r1) \<Rightarrow>
          (case r_U32 0 r1 of
             (False, _, r2) \<Rightarrow> (False, v, r2)
           | (True, hi, r2) \<Rightarrow> (True, ucast lo OR push_bit 32 (ucast hi), r2)))"

definition r_Str :: "string \<Rightarrow> reader \<Rightarrow> bool \<times> string \<times> reader" where
  "r_Str v r =
     (case r_U16 0 r of
        (False, _, r1) \<Rightarrow> (False, v, r1)
      | (True, n, r1) \<Rightarrow>
          (case r_Need (unat n) r1 of
             (False, r2) \<Rightarrow> (False, v, r2)
           | (True, r2) \<Rightarrow>
               (True, map char_of_byte (take (unat n) (drop (r_pos r2) (r_data r2))),
                r2\<lparr>r_pos := r_pos r2 + unat n\<rparr>)))"

definition r_Bytes :: "nat \<Rightarrow> bytes \<Rightarrow> reader \<Rightarrow> bool \<times> bytes \<times> reader" where
  "r_Bytes count v r =
     (case r_Need count r of
        (False, r') \<Rightarrow> (False, v, r')
      | (True, r') \<Rightarrow>
          (True, take count (drop (r_pos r') (r_data r')), r'\<lparr>r_pos := r_pos r' + count\<rparr>))"

text \<open>
  A statement of a \<^verbatim>\<open>Decode\<close> takes the record being filled and the reader, and returns whether
  the function goes on (\<open>False\<close> is a \<^verbatim>\<open>return false;\<close>), the record and the reader. The statements
  are: \<open>r_field\<close>, an accessor whose result is ignored (\<^verbatim>\<open>r.U16(out.x);\<close>); \<open>r_set\<close>, an assignment to
  the record; \<open>r_local\<close>, an ignored accessor on a local variable; \<open>r_require\<close>, the same under
  \<^verbatim>\<open>if (!...) return false;\<close>; \<open>r_refuse\<close>, \<^verbatim>\<open>if (c) return false;\<close>; \<open>r_seq\<close>, a block; \<open>r_foreach\<close>,
  the loop over a vector already sized; \<open>r_vector\<close>, the \<^verbatim>\<open>resize\<close> of a vector and that loop; and
  \<open>r_collect\<close>, the loop that reads an element and pushes it back.
\<close>

type_synonym 'o stmt = "'o \<times> reader \<Rightarrow> bool \<times> 'o \<times> reader"
type_synonym 'v accessor = "'v \<Rightarrow> reader \<Rightarrow> bool \<times> 'v \<times> reader"

definition r_field :: "'v accessor \<Rightarrow> ('o \<Rightarrow> 'v) \<Rightarrow> (('v \<Rightarrow> 'v) \<Rightarrow> 'o \<Rightarrow> 'o) \<Rightarrow> 'o stmt" where
  "r_field get sel upd = (\<lambda>(out, r). case get (sel out) r of (_, v, r') \<Rightarrow> (True, upd (\<lambda>_. v) out, r'))"

definition r_set :: "('o \<Rightarrow> 'o) \<Rightarrow> 'o stmt" where
  "r_set f = (\<lambda>(out, r). (True, f out, r))"

definition r_local :: "'v accessor \<Rightarrow> 'v \<Rightarrow> ('v \<Rightarrow> 'o stmt) \<Rightarrow> 'o stmt" where
  "r_local get v0 st = (\<lambda>(out, r). case get v0 r of (_, v, r') \<Rightarrow> st v (out, r'))"

definition r_require :: "'v accessor \<Rightarrow> 'v \<Rightarrow> ('v \<Rightarrow> 'o stmt) \<Rightarrow> 'o stmt" where
  "r_require get v0 st =
     (\<lambda>(out, r). case get v0 r of (ok, v, r') \<Rightarrow> if ok then st v (out, r') else (False, out, r'))"

definition r_refuse :: "('o \<Rightarrow> reader \<Rightarrow> bool) \<Rightarrow> 'o stmt \<Rightarrow> 'o stmt" where
  "r_refuse c st = (\<lambda>(out, r). if c out r then (False, out, r) else st (out, r))"

fun r_seq :: "'o stmt list \<Rightarrow> 'o stmt" where
  "r_seq [] s = (True, s)"
| "r_seq (st # sts) s = (case st s of (ok, s') \<Rightarrow> if ok then r_seq sts s' else (False, s'))"

fun r_foreach :: "'e stmt \<Rightarrow> 'e list stmt" where
  "r_foreach st ([], r) = (True, [], r)"
| "r_foreach st (e # es, r) =
     (case st (e, r) of (ok, e', r') \<Rightarrow>
        if ok then (case r_foreach st (es, r') of (ok', es', r'') \<Rightarrow> (ok', e' # es', r''))
        else (False, e' # es, r'))"

definition r_vector :: "nat \<Rightarrow> 'e \<Rightarrow> 'e stmt \<Rightarrow> (('e list \<Rightarrow> 'e list) \<Rightarrow> 'o \<Rightarrow> 'o) \<Rightarrow> 'o stmt" where
  "r_vector n e st upd =
     (\<lambda>(out, r). case r_foreach st (replicate n e, r) of (ok, es, r') \<Rightarrow> (ok, upd (\<lambda>_. es) out, r'))"

text \<open>
  The loop that pushes back: \<open>go\<close> is its condition on the reader beside the count, \<open>e\<close> the
  default element. An element whose statements return false is not pushed.
\<close>

fun r_collect :: "(reader \<Rightarrow> bool) \<Rightarrow> 'e \<Rightarrow> 'e stmt \<Rightarrow> nat \<Rightarrow> 'e list stmt" where
  "r_collect go e st 0 s = (True, s)"
| "r_collect go e st (Suc n) (es, r) =
     (if \<not> go r then (True, es, r)
      else case st (e, r) of (ok, e', r') \<Rightarrow>
        if ok then r_collect go e st n (es @ [e'], r') else (False, es, r'))"

definition r_pushed :: "(reader \<Rightarrow> bool) \<Rightarrow> 'e \<Rightarrow> 'e stmt \<Rightarrow> nat \<Rightarrow> (('e list \<Rightarrow> 'e list) \<Rightarrow> 'o \<Rightarrow> 'o) \<Rightarrow> 'o stmt" where
  "r_pushed go e st n upd =
     (\<lambda>(out, r). case r_collect go e st n ([], r) of (ok, es, r') \<Rightarrow> (ok, upd (\<lambda>_. es) out, r'))"

text \<open>
  The end of a \<^verbatim>\<open>Decode\<close>: \<^verbatim>\<open>return r.Ok() && valid(out);\<close>, with the record as it was left on
  every path.
\<close>

definition r_result :: "('o \<Rightarrow> bool) \<Rightarrow> bool \<times> 'o \<times> reader \<Rightarrow> bool \<times> 'o" where
  "r_result valid = (\<lambda>(ok, out, r). (ok \<and> r_ok r \<and> valid out, out))"

section \<open>Framing\<close>

text \<open>A run of a payload's bytes that a dump must not show.\<close>

record SensitiveSpan =
  span_offset :: nat
  span_length :: nat

definition span_bytes :: "bytes \<Rightarrow> SensitiveSpan \<Rightarrow> bytes" where
  "span_bytes bs s = take (span_length s) (drop (span_offset s) bs)"

record header =
  h_type :: u16
  h_flags :: u16
  h_seq :: u32

record message =
  m_header :: header
  m_payload :: bytes

definition IsResponse :: "header \<Rightarrow> bool" where
  "IsResponse h \<longleftrightarrow> h_flags h AND (FLAG_RESPONSE OR FLAG_ERROR) \<noteq> 0"

definition IsError :: "header \<Rightarrow> bool" where
  "IsError h \<longleftrightarrow> h_flags h AND FLAG_ERROR \<noteq> 0"

definition put_u16 :: "bytes \<Rightarrow> u16 \<Rightarrow> bytes" where
  "put_u16 out v = out @ [ucast (v AND 0xFF)] @ [ucast (drop_bit 8 v AND 0xFF)]"

definition put_u32 :: "bytes \<Rightarrow> u32 \<Rightarrow> bytes" where
  "put_u32 out v = put_u16 (put_u16 out (ucast (v AND 0xFFFF))) (ucast (drop_bit 16 v AND 0xFFFF))"

definition EncodeMessage :: "u16 \<Rightarrow> u16 \<Rightarrow> u32 \<Rightarrow> bytes \<Rightarrow> bytes" where
  "EncodeMessage ty fl sq pl =
     (if length pl > MAX_PAYLOAD_BYTES then []
      else let out = put_u32 [] (of_nat (HEADER_BYTES + length pl));
               out = put_u16 out ty;
               out = put_u16 out fl;
               out = put_u32 out sq
           in out @ pl)"

definition DecodeBody :: "bytes \<Rightarrow> message \<Rightarrow> bool \<times> message" where
  "DecodeBody body out =
     (if length body < HEADER_BYTES then (False, out)
      else case r_U16 0 (Reader body) of
        (False, _) \<Rightarrow> (False, out)
      | (True, ty, r1) \<Rightarrow>
          (case r_U16 0 r1 of
             (False, _) \<Rightarrow> (False, out)
           | (True, fl, r2) \<Rightarrow>
               (case r_U32 0 r2 of
                  (False, _) \<Rightarrow> (False, out)
                | (True, sq, r3) \<Rightarrow>
                    (True, \<lparr>m_header = \<lparr>h_type = ty, h_flags = fl, h_seq = sq\<rparr>,
                            m_payload = drop HEADER_BYTES body\<rparr>))))"

section \<open>What the writer emits\<close>

definition le16 :: "u16 \<Rightarrow> bytes" where
  "le16 v = [ucast (v AND 0xFF), ucast (drop_bit 8 v AND 0xFF)]"

definition le32 :: "u32 \<Rightarrow> bytes" where
  "le32 v = le16 (ucast (v AND 0xFFFF)) @ le16 (ucast (drop_bit 16 v AND 0xFFFF))"

definition le64 :: "u64 \<Rightarrow> bytes" where
  "le64 v = le32 (ucast (v AND 0xFFFFFFFF)) @ le32 (ucast (drop_bit 32 v AND 0xFFFFFFFF))"

definition str_bytes :: "string \<Rightarrow> bytes" where
  "str_bytes v = le16 (of_nat (length v)) @ map byte_of_char v"

lemma length_le [simp]:
  "length (le16 a) = 2" "length (le32 b) = 4" "length (le64 c) = 8" "length (str_bytes v) = 2 + length v"
  by (simp_all add: le16_def le32_def le64_def str_bytes_def)

lemma le_not_Nil [simp]: "le16 a \<noteq> []" "le32 b \<noteq> []" "le64 c \<noteq> []" "str_bytes v \<noteq> []"
  by (simp_all add: le16_def le32_def le64_def str_bytes_def)

definition emits :: "(writer \<Rightarrow> writer) \<Rightarrow> bytes \<Rightarrow> bool \<Rightarrow> bool" where
  "emits op bs ok \<longleftrightarrow>
     (\<forall>w. (\<not> w_ok w \<longrightarrow> \<not> w_ok (op w))
        \<and> (w_ok w \<and> length (w_data w) \<le> MAX_PAYLOAD_BYTES \<longrightarrow>
             (w_ok (op w) \<longleftrightarrow> ok \<and> length (w_data w) + length bs \<le> MAX_PAYLOAD_BYTES)
           \<and> (w_ok (op w) \<longrightarrow> w_data (op w) = w_data w @ bs)))"

named_theorems emits_intros "how a writer statement or block appends its bytes"

lemma emits_comp:
  assumes "emits op1 bs1 ok1" and "emits op2 bs2 ok2"
  shows "emits (\<lambda>w. op2 (op1 w)) (bs1 @ bs2) (ok1 \<and> ok2)"
  unfolding emits_def
proof (intro allI conjI impI)
  fix w
  note e1 = assms(1) [unfolded emits_def, rule_format, of w]
  note e2 = assms(2) [unfolded emits_def, rule_format, of "op1 w"]
  show "\<not> w_ok w \<Longrightarrow> \<not> w_ok (op2 (op1 w))"
    using e1 e2 by blast
  assume w: "w_ok w \<and> length (w_data w) \<le> MAX_PAYLOAD_BYTES"
  show "w_ok (op2 (op1 w)) \<longleftrightarrow>
      (ok1 \<and> ok2) \<and> length (w_data w) + length (bs1 @ bs2) \<le> MAX_PAYLOAD_BYTES"
    using e1 e2 w by auto
  show "w_ok (op2 (op1 w)) \<Longrightarrow> w_data (op2 (op1 w)) = w_data w @ bs1 @ bs2"
    using e1 e2 w by auto
qed

lemma emits_seq_Nil [emits_intros]: "emits (w_seq []) [] True"
  by (simp add: emits_def)

lemma emits_seq_Cons [emits_intros]:
  "emits op bs ok \<Longrightarrow> emits (w_seq ops) bs' ok' \<Longrightarrow> emits (w_seq (op # ops)) (bs @ bs') (ok \<and> ok')"
  using emits_comp [of op bs ok "w_seq ops" bs' ok'] by (simp add: emits_def)

declare w_seq.simps [simp del]

lemma emits_U8 [emits_intros]: "emits (w_U8 v) [v] True"
  by (simp add: emits_def w_U8_def)

lemma emits_U16 [emits_intros]: "emits (w_U16 v) (le16 v) True"
  using emits_comp [OF emits_U8 emits_U8] by (simp add: w_U16_def [abs_def] le16_def)

lemma emits_U32 [emits_intros]: "emits (w_U32 v) (le32 v) True"
  using emits_comp [OF emits_U16 emits_U16] by (simp add: w_U32_def [abs_def] le32_def)

lemma emits_U64 [emits_intros]: "emits (w_U64 v) (le64 v) True"
  using emits_comp [OF emits_U32 emits_U32] by (simp add: w_U64_def [abs_def] le64_def)

lemma emits_Bytes [emits_intros]: "emits (w_Bytes bs) bs True"
  by (simp add: emits_def w_Bytes_def)

lemma emits_Str [emits_intros]: "emits (w_Str v) (str_bytes v) (length v \<le> 0xFFFF)"
proof (cases "length v \<le> 0xFFFF")
  case True
  have "emits (\<lambda>w. w_Bytes (map byte_of_char v) (w_U16 (of_nat (length v)) w)) (str_bytes v) True"
    using emits_comp [OF emits_U16 emits_Bytes] by (simp add: str_bytes_def)
  with True show ?thesis by (simp add: emits_def w_Str_def)
next
  case False
  then show ?thesis by (simp add: emits_def w_Str_def)
qed

lemma emits_id [emits_intros]: "emits (\<lambda>w. w) [] True"
  by (simp add: emits_def)

text \<open>A loop over a vector, and a guarded block.\<close>

lemma emits_foreach:
  assumes "\<And>x. x \<in> set xs \<Longrightarrow> emits (op x) (bs x) (ok x)"
  shows "emits (w_seq (map op xs)) (concat (map bs xs)) (\<forall>x \<in> set xs. ok x)"
  using assms
proof (induction xs)
  case Nil
  show ?case using emits_seq_Nil by simp
next
  case (Cons x xs)
  then have "emits (w_seq (map op xs)) (concat (map bs xs)) (\<forall>x \<in> set xs. ok x)"
    and "emits (op x) (bs x) (ok x)" by auto
  from emits_seq_Cons [OF this(2,1)] show ?case by simp
qed

lemma emits_if:
  assumes "c \<Longrightarrow> emits op1 bs1 ok1" and "\<not> c \<Longrightarrow> emits op2 bs2 ok2"
  shows "emits (if c then op1 else op2) (if c then bs1 else bs2) (if c then ok1 else ok2)"
  using assms by simp

lemma w_result_emits:
  assumes "emits op bs ok"
  shows "w_result (op Writer) = (if ok \<and> length bs \<le> MAX_PAYLOAD_BYTES then bs else [])"
  using assms [unfolded emits_def, rule_format, of Writer]
  by (simp add: w_result_def Writer_def)

section \<open>What the reader consumes\<close>

text \<open>A reader that has read \<open>pre\<close> and has \<open>bs\<close> ahead of it.\<close>

definition rd :: "bytes \<Rightarrow> bytes \<Rightarrow> reader" where
  "rd pre bs = \<lparr>r_data = pre @ bs, r_pos = length pre, r_ok = True\<rparr>"

lemma Reader_rd: "Reader bs = rd [] bs"
  by (simp add: Reader_def rd_def)

lemma rd_simps [wire_simps, simp]:
  "r_ok (rd pre bs)" "r_Remaining (rd pre bs) = length bs" "r_AtEnd (rd pre bs) \<longleftrightarrow> bs = []"
  "r_pos (rd pre bs) = length pre"
  by (simp_all add: rd_def r_Remaining_def r_AtEnd_def)

lemma le16_join: "ucast (ucast (v AND 0xFF) :: u8) OR push_bit 8 (ucast (ucast (drop_bit 8 v AND 0xFF) :: u8)) = (v :: u16)"
  by (rule bit_word_eqI) (auto simp: mask_literals bit_simps)

lemma le32_bytes: "le32 v = [ucast v, ucast (drop_bit 8 v), ucast (drop_bit 16 v), ucast (drop_bit 24 v)]"
proof -
  have "(ucast ((ucast (v AND 0xFFFF) :: u16) AND 0xFF) :: u8) = ucast v"
    and "(ucast (drop_bit 8 (ucast (v AND 0xFFFF) :: u16) AND 0xFF) :: u8) = ucast (drop_bit 8 v)"
    and "(ucast ((ucast (drop_bit 16 v AND 0xFFFF) :: u16) AND 0xFF) :: u8) = ucast (drop_bit 16 v)"
    and "(ucast (drop_bit 8 (ucast (drop_bit 16 v AND 0xFFFF) :: u16) AND 0xFF) :: u8) = ucast (drop_bit 24 v)"
    by (auto intro!: bit_word_eqI simp: mask_literals bit_simps add.commute)
  then show ?thesis by (simp add: le32_def le16_def)
qed

lemma low_byte_bit: "bit (ucast (ucast x :: u8) :: u32) n \<longleftrightarrow> n < 8 \<and> bit (x :: u32) n"
  by (auto simp: bit_simps)

lemma le32_join:
  "ucast (le32 v ! 0) OR push_bit 8 (ucast (le32 v ! 1)) OR push_bit 16 (ucast (le32 v ! 2))
     OR push_bit 24 (ucast (le32 v ! 3)) = v"
proof (rule bit_word_eqI)
  fix n :: nat
  assume "n < LENGTH(32)"
  then have "n < 8 \<or> 8 \<le> n \<and> n < 16 \<or> 16 \<le> n \<and> n < 24 \<or> 24 \<le> n \<and> n < 32" by auto
  then show "bit (ucast (le32 v ! 0) OR push_bit 8 (ucast (le32 v ! 1)) OR push_bit 16 (ucast (le32 v ! 2))
     OR push_bit 24 (ucast (le32 v ! 3)) :: u32) n \<longleftrightarrow> bit v n"
    by (elim disjE) (auto simp: le32_bytes bit_or_iff bit_push_bit_iff low_byte_bit bit_drop_bit_eq)
qed

lemma le64_join:
  "ucast (ucast (v AND 0xFFFFFFFF) :: u32) OR push_bit 32 (ucast (ucast (drop_bit 32 v AND 0xFFFFFFFF) :: u32)) = (v :: u64)"
  by (rule bit_word_eqI) (auto simp: mask_literals bit_simps)

lemma r_Need_rd [wire_simps]:
  "r_Need n (rd pre bs) = (if length bs < n then (False, (rd pre bs)\<lparr>r_ok := False\<rparr>) else (True, rd pre bs))"
  by (simp add: r_Need_def)

lemma r_U8_rd [wire_simps]: "r_U8 v (rd pre (x # rest)) = (True, x, rd (pre @ [x]) rest)"
  by (simp add: r_U8_def r_Need_rd) (simp add: rd_def)

lemma r_U16_rd [wire_simps]: "r_U16 v (rd pre (le16 x @ rest)) = (True, x, rd (pre @ le16 x) rest)"
  by (simp add: r_U16_def r_Need_rd) (simp add: rd_def le16_def nth_append le16_join)

lemma r_U32_rd [wire_simps]: "r_U32 v (rd pre (le32 x @ rest)) = (True, x, rd (pre @ le32 x) rest)"
proof -
  have nth: "(pre @ le32 x @ rest) ! (length pre + k) = le32 x ! k" if "k < 4" for k
    using that by (simp add: nth_append)
  show ?thesis
    using nth [of 0] nth [of 1] nth [of 2] nth [of 3] le32_join [of x]
    by (simp add: r_U32_def r_Need_rd) (simp add: rd_def)
qed

lemma r_U64_rd [wire_simps]: "r_U64 v (rd pre (le64 x @ rest)) = (True, x, rd (pre @ le64 x) rest)"
  by (simp add: r_U64_def le64_def r_U32_rd le64_join)

lemma r_Bytes_rd [wire_simps]:
  "n = length bs \<Longrightarrow> r_Bytes n v (rd pre (bs @ rest)) = (True, bs, rd (pre @ bs) rest)"
  by (simp add: r_Bytes_def r_Need_rd) (simp add: rd_def)

lemma r_Str_rd [wire_simps]:
  "length x \<le> 0xFFFF \<Longrightarrow> r_Str v (rd pre (str_bytes x @ rest)) = (True, x, rd (pre @ str_bytes x) rest)"
  by (simp add: r_Str_def str_bytes_def r_U16_rd r_Need_rd unat_of_nat_u16)
     (simp add: rd_def)

text \<open>A failed reader stays failed, and a field that does not fit fails.\<close>

lemma r_failed [wire_simps]:
  assumes "\<not> r_ok r"
  shows "r_Need n r = (False, r)" "r_U8 a r = (False, a, r)" "r_U16 b r = (False, b, r)"
    "r_U32 c r = (False, c, r)" "r_U64 d r = (False, d, r)" "r_Str e r = (False, e, r)"
    "r_Bytes n f r = (False, f, r)"
  using assms
  by (simp_all add: r_Need_def r_U8_def r_U16_def r_U32_def r_U64_def r_Str_def r_Bytes_def)

lemma r_short [wire_simps]:
  "length bs < 2 \<Longrightarrow> \<exists>r. r_U16 b (rd pre bs) = (False, b, r) \<and> \<not> r_ok r"
  "length bs < 4 \<Longrightarrow> \<exists>r. r_U32 c (rd pre bs) = (False, c, r) \<and> \<not> r_ok r"
  by (simp_all add: r_U16_def r_U32_def r_Need_rd)

text \<open>
  \<open>takes st out bs out'\<close>: on a reader with \<open>bs\<close> ahead, \<open>st\<close> turns \<open>out\<close> into \<open>out'\<close> and consumes
  \<open>bs\<close>; on a reader that holds only a strict prefix of \<open>bs\<close>, or that has already failed, the
  function returns false or the failure is latched.
\<close>

definition r_bad :: "bool \<times> 'o \<times> reader \<Rightarrow> bool" where
  "r_bad s \<longleftrightarrow> \<not> fst s \<or> \<not> r_ok (snd (snd s))"

lemma r_bad_simps [simp]: "r_bad (ok, out, r) \<longleftrightarrow> \<not> ok \<or> \<not> r_ok r" "r_bad (ok, s) \<longleftrightarrow> \<not> ok \<or> \<not> r_ok (snd s)"
  by (simp_all add: r_bad_def)

definition takes :: "'o stmt \<Rightarrow> 'o \<Rightarrow> bytes \<Rightarrow> 'o \<Rightarrow> bool" where
  "takes st out bs out' \<longleftrightarrow>
     (\<forall>pre rest. st (out, rd pre (bs @ rest)) = (True, out', rd (pre @ bs) rest))
   \<and> (\<forall>pre bs'. strict_prefix bs' bs \<longrightarrow> r_bad (st (out, rd pre bs')))
   \<and> (\<forall>o' r. \<not> r_ok r \<longrightarrow> r_bad (st (o', r)))"

named_theorems takes_intros "how a reader statement or block takes its bytes"

lemma takesI:
  assumes "\<And>pre rest. st (out, rd pre (bs @ rest)) = (True, out', rd (pre @ bs) rest)"
    and "\<And>pre bs'. strict_prefix bs' bs \<Longrightarrow> r_bad (st (out, rd pre bs'))"
    and "\<And>o' r. \<not> r_ok r \<Longrightarrow> r_bad (st (o', r))"
  shows "takes st out bs out'"
  using assms by (simp add: takes_def)

lemma takesD:
  assumes "takes st out bs out'"
  shows "st (out, rd pre (bs @ rest)) = (True, out', rd (pre @ bs) rest)"
    and "strict_prefix bs' bs \<Longrightarrow> r_bad (st (out, rd pre bs'))"
    and "\<not> r_ok r \<Longrightarrow> r_bad (st (o', r))"
  using assms by (simp_all add: takes_def)

lemma strict_prefix_append_cases:
  assumes "strict_prefix bs' (bs1 @ bs2)"
  obtains "strict_prefix bs' bs1" | bs'' where "bs' = bs1 @ bs''" "strict_prefix bs'' bs2"
proof (cases "strict_prefix bs' bs1")
  case True
  then show ?thesis by (rule that(1))
next
  case False
  with assms obtain bs'' where "bs' = bs1 @ bs''"
    by (auto simp: strict_prefix_def prefix_append)
  with assms show ?thesis by (intro that(2)) (auto simp: strict_prefix_def)
qed

text \<open>
  One step and what follows it: \<open>st2\<close> runs on whatever \<open>st1\<close> left, unless \<open>st1\<close> returned.
\<close>

lemma takes_bind:
  assumes c1: "takes st1 out bs1 out1" and c2: "takes st2 out1 bs2 out2"
    and st: "\<And>s. st s = (case st1 s of (ok, s') \<Rightarrow> if ok then st2 s' else (False, s'))"
  shows "takes st out (bs1 @ bs2) out2"
proof (rule takesI)
  show "st (out, rd pre ((bs1 @ bs2) @ rest)) = (True, out2, rd (pre @ bs1 @ bs2) rest)" for pre rest
    using takesD(1) [OF c1, of pre "bs2 @ rest"] takesD(1) [OF c2] by (simp add: st)
  have fail: "r_bad (st s)" if "r_bad (st1 s)" for s
    using that takesD(3) [OF c2] by (cases "st1 s") (auto simp: st)
  show "r_bad (st (o', r))" if "\<not> r_ok r" for o' r
    using fail takesD(3) [OF c1 that] by blast
  show "r_bad (st (out, rd pre bs'))" if sp: "strict_prefix bs' (bs1 @ bs2)" for pre bs'
    using sp
  proof (cases rule: strict_prefix_append_cases)
    case 1
    then show ?thesis using fail takesD(2) [OF c1] by blast
  next
    case (2 bs'')
    then show ?thesis using takesD(1) [OF c1, of pre bs''] takesD(2) [OF c2] by (simp add: st)
  qed
qed

lemma takes_seq_Nil [takes_intros]: "takes (r_seq []) out [] out"
  by (simp add: takes_def)

lemma takes_seq_Cons [takes_intros]:
  assumes "takes st out bs out1" and "takes (r_seq sts) out1 bs' out'"
  shows "takes (r_seq (st # sts)) out (bs @ bs') out'"
  by (rule takes_bind [OF assms]) simp

declare r_seq.simps [simp del]

text \<open>A block and a last statement, which runs unless the block returned.\<close>

lemma r_seq_append: "r_seq (as @ bs) s = (case r_seq as s of (ok, s') \<Rightarrow> if ok then r_seq bs s' else (False, s'))"
  by (induction as arbitrary: s) (auto simp: r_seq.simps split: prod.splits)

lemma r_seq_one: "r_seq [st] s = st s"
  by (cases "st s") (simp add: r_seq.simps)

lemma r_seq_snoc: "r_seq (as @ [st]) s = (case r_seq as s of (ok, s') \<Rightarrow> if ok then st s' else (False, s'))"
  by (cases "r_seq as s") (simp add: r_seq_append r_seq_one)

lemma takes_set [takes_intros]: "takes (r_set f) out [] (f out)"
  by (simp add: takes_def r_set_def)

text \<open>
  A test that refuses never refuses what is complete, and may refuse what is cut short.
\<close>

lemma takes_refuse:
  assumes "\<And>pre rest. \<not> c out (rd pre (bs @ rest))" and "takes st out bs out'"
  shows "takes (r_refuse c st) out bs out'"
  using assms by (simp add: takes_def r_refuse_def)

lemma takes_seq_one: "takes st out bs out' \<Longrightarrow> takes (r_seq [st]) out bs out'"
  using takes_seq_Cons [OF _ takes_seq_Nil] by fastforce

text \<open>A block guarded by \<^verbatim>\<open>if (r.Ok() && ...)\<close>: a failed reader skips it and stays failed.\<close>

lemma takes_if:
  assumes "b \<Longrightarrow> takes (\<lambda>(out, r). st out r) out bs out'" and "\<not> b \<Longrightarrow> bs = [] \<and> out' = out"
    and "\<And>r. r_ok r \<Longrightarrow> c out r \<longleftrightarrow> b" and "\<And>o' r. c o' r \<Longrightarrow> r_ok r"
  shows "takes (\<lambda>(out, r). if c out r then st out r else (True, out, r)) out bs out'"
proof (rule takesI)
  show "r_bad ((\<lambda>(out, r). if c out r then st out r else (True, out, r)) (o', r))" if "\<not> r_ok r" for o' r
    using that assms(4) by auto
qed (use assms takesD [OF assms(1)] in \<open>cases b; fastforce\<close>)+

text \<open>
  The contract between one field's writer and its reader, which every statement of a payload
  codec relies on: \<open>repr\<close> is the bytes that stand for a value on the wire.
\<close>

locale field_codec =
  fixes put :: "'v \<Rightarrow> writer \<Rightarrow> writer"
    and get :: "'v \<Rightarrow> reader \<Rightarrow> bool \<times> 'v \<times> reader"
    and repr :: "'v \<Rightarrow> bytes"
    and fits :: "'v \<Rightarrow> bool"
  assumes put_repr: "emits (put x) (repr x) (fits x)"
    and get_repr: "fits x \<Longrightarrow> get v (rd pre (repr x @ rest)) = (True, x, rd (pre @ repr x) rest)"
    and get_short: "fits x \<Longrightarrow> strict_prefix bs (repr x) \<Longrightarrow> \<exists>r. get v (rd pre bs) = (False, v, r) \<and> \<not> r_ok r"
    and get_failed: "\<not> r_ok r \<Longrightarrow> get v r = (False, v, r)"
begin

text \<open>The accessor run on a variable, as a statement on that variable.\<close>

lemma get_takes:
  assumes "fits x"
  shows "takes (\<lambda>(v, r). case get v r of (_, v', r') \<Rightarrow> (True, v', r')) v (repr x) x"
proof (rule takesI)
  fix pre bs' assume "strict_prefix bs' (repr x)"
  from get_short [OF assms this, of v pre]
  show "r_bad (case (v, rd pre bs') of (v, r) \<Rightarrow> case get v r of (_, v', r') \<Rightarrow> (True, v', r'))" by auto
qed (simp_all add: get_repr [OF assms] get_failed)

lemma field_takes:
  assumes "fits x"
  shows "takes (r_field get sel upd) out (repr x) (upd (\<lambda>_. x) out)"
proof (rule takesI)
  fix pre bs' assume "strict_prefix bs' (repr x)"
  from get_short [OF assms this, of "sel out" pre]
  show "r_bad (r_field get sel upd (out, rd pre bs'))" by (auto simp: r_field_def)
qed (simp_all add: r_field_def get_repr [OF assms] get_failed)

lemma local_takes:
  assumes "fits x" and "takes (st x) out bs out'" and "\<And>v r o'. \<not> r_ok r \<Longrightarrow> r_bad (st v (o', r))"
  shows "takes (r_local get v0 st) out (repr x @ bs) out'"
proof (rule takesI)
  fix pre bs' assume "strict_prefix bs' (repr x @ bs)"
  then show "r_bad (r_local get v0 st (out, rd pre bs'))"
  proof (cases rule: strict_prefix_append_cases)
    case 1
    from get_short [OF assms(1) 1, of v0 pre] assms(3) show ?thesis by (auto simp: r_local_def)
  next
    case (2 bs'')
    with takesD(2) [OF assms(2)] show ?thesis by (simp add: r_local_def get_repr [OF assms(1)])
  qed
qed (use assms(3) takesD(1) [OF assms(2)] in \<open>simp_all add: r_local_def get_repr [OF assms(1)] get_failed\<close>)

lemma require_takes:
  assumes "fits x" and "takes (st x) out bs out'"
  shows "takes (r_require get v0 st) out (repr x @ bs) out'"
proof (rule takesI)
  fix pre bs' assume "strict_prefix bs' (repr x @ bs)"
  then show "r_bad (r_require get v0 st (out, rd pre bs'))"
  proof (cases rule: strict_prefix_append_cases)
    case 1
    from get_short [OF assms(1) 1, of v0 pre] show ?thesis by (auto simp: r_require_def)
  next
    case (2 bs'')
    with takesD(2) [OF assms(2)] show ?thesis by (simp add: r_require_def get_repr [OF assms(1)])
  qed
qed (use takesD(1) [OF assms(2)] in \<open>simp_all add: r_require_def get_repr [OF assms(1)] get_failed\<close>)

text \<open>What was put and fits is what is got, after any payload prefix and before any suffix.\<close>

lemma put_get:
  assumes "w_ok (put x Writer)"
  shows "get v (Reader (w_result (put x Writer) @ rest)) = (True, x, rd (repr x) rest)"
proof -
  have "w_ok Writer" "length (w_data Writer) \<le> MAX_PAYLOAD_BYTES" "w_data Writer = []"
    by (simp_all add: Writer_def)
  then have "fits x" and "w_data (put x Writer) = repr x"
    using assms put_repr [of x] unfolding emits_def by auto
  then show ?thesis
    using assms get_repr [of x v "[]" rest] by (simp add: w_result_def Reader_rd)
qed

end

interpretation f8: field_codec w_U8 r_U8 "\<lambda>v. [v]" "\<lambda>_. True"
proof unfold_locales
  show "\<exists>r. r_U8 v (rd pre bs) = (False, v, r) \<and> \<not> r_ok r" if "strict_prefix bs [x]" for bs x v pre
    using that by (auto simp: strict_prefix_def prefix_Cons r_U8_def r_Need_rd)
qed (simp_all add: emits_U8 r_U8_rd r_failed)

interpretation f16: field_codec w_U16 r_U16 le16 "\<lambda>_. True"
  using prefix_length_less
  by unfold_locales (fastforce simp: emits_U16 r_U16_rd r_failed intro: r_short)+

interpretation f32: field_codec w_U32 r_U32 le32 "\<lambda>_. True"
  using prefix_length_less
  by unfold_locales (fastforce simp: emits_U32 r_U32_rd r_failed intro: r_short)+

lemma r_U64_short:
  assumes "strict_prefix bs (le64 x)"
  shows "\<exists>r. r_U64 v (rd pre bs) = (False, v, r) \<and> \<not> r_ok r"
  using assms unfolding le64_def
proof (cases rule: strict_prefix_append_cases)
  case 1
  from f32.get_short [OF TrueI 1, of 0 pre] show ?thesis by (auto simp: r_U64_def)
next
  case (2 bs'')
  from f32.get_short [OF TrueI 2(2), of 0 "pre @ le32 (ucast (x AND 0xFFFFFFFF))"]
  show ?thesis by (auto simp: r_U64_def r_U32_rd 2(1))
qed

interpretation f64: field_codec w_U64 r_U64 le64 "\<lambda>_. True"
  by unfold_locales (auto simp: emits_U64 r_U64_rd r_failed intro: r_U64_short)

lemma r_Str_short:
  assumes "length x \<le> 0xFFFF" and "strict_prefix bs (str_bytes x)"
  shows "\<exists>r. r_Str v (rd pre bs) = (False, v, r) \<and> \<not> r_ok r"
  using assms(2) unfolding str_bytes_def
proof (cases rule: strict_prefix_append_cases)
  case 1
  from f16.get_short [OF TrueI 1, of 0 pre] show ?thesis by (auto simp: r_Str_def)
next
  case (2 bs'')
  then have "length bs'' < length x" using prefix_length_less by fastforce
  with assms(1) 2(1) show ?thesis
    by (simp add: r_Str_def r_U16_rd r_Need_rd unat_of_nat_u16)
qed

interpretation fstr: field_codec w_Str r_Str str_bytes "\<lambda>v. length v \<le> 0xFFFF"
  by unfold_locales (auto simp: emits_Str r_Str_rd r_failed intro: r_Str_short)

text \<open>A run of a known length, as \<^verbatim>\<open>r.Bytes(v, n)\<close> reads it.\<close>

lemma takes_Bytes:
  assumes "n = length bs"
  shows "takes (r_field (r_Bytes n) sel upd) out bs (upd (\<lambda>_. bs) out)"
proof (rule takesI)
  fix pre bs' assume "strict_prefix bs' bs"
  from prefix_length_less [OF this] assms
  show "r_bad (r_field (r_Bytes n) sel upd (out, rd pre bs'))" by (simp add: r_field_def r_Bytes_def r_Need_rd)
qed (simp_all add: r_field_def r_Bytes_rd r_failed assms)

lemma takes_Bytes_sized:
  assumes "n out = length bs"
  shows "takes (\<lambda>(out, r). r_field (r_Bytes (n out)) sel upd (out, r)) out bs (upd (\<lambda>_. bs) out)"
  using takes_Bytes [OF assms, of sel upd out] by (auto simp: takes_def r_field_def r_failed)

lemmas [takes_intros] =
  f8.field_takes [OF TrueI] f16.field_takes [OF TrueI] f32.field_takes [OF TrueI]
  f64.field_takes [OF TrueI] fstr.field_takes
  f8.require_takes [OF TrueI] f16.require_takes [OF TrueI] f32.require_takes [OF TrueI]

lemma local_bad:
  assumes "\<not> r_ok r"
  shows "r_bad (r_field r_U8 sel8 upd8 (out, r))" "r_bad (r_field r_U16 sel16 upd16 (out, r))"
    "r_bad (r_field r_U32 sel32 upd32 (out, r))" "r_bad (r_field r_U64 sel64 upd64 (out, r))"
    "r_bad (r_field r_Str selS updS (out, r))" "r_bad (r_field (r_Bytes n) selB updB (out, r))"
  using assms by (simp_all add: r_field_def r_failed)

text \<open>A vector's elements, one after the other.\<close>

lemma takes_foreach:
  assumes "length es = length xs" and "\<And>x e. x \<in> set xs \<Longrightarrow> e \<in> set es \<Longrightarrow> takes st e (repr x) x"
    and bad: "\<And>o' r. \<not> r_ok r \<Longrightarrow> r_bad (st (o', r))"
  shows "takes (r_foreach st) es (concat (map repr xs)) xs"
  using assms(1,2)
proof (induction es xs rule: list_induct2)
  case Nil
  have "r_bad (r_foreach st (es, r))" if "\<not> r_ok r" for es r
    using that
  proof (induction es arbitrary: r)
    case (Cons e es)
    obtain ok e' r' where st: "st (e, r) = (ok, e', r')" by (cases "st (e, r)")
    with bad [OF Cons.prems, of e] have "ok \<Longrightarrow> r_bad (r_foreach st (es, r'))"
      by (intro Cons.IH) simp
    then show ?case by (auto simp: st r_bad_def split: prod.splits)
  qed simp
  then show ?case by (simp add: takes_def)
next
  case (Cons e es x xs)
  have rest: "takes (r_foreach st) es (concat (map repr xs)) xs" by (intro Cons.IH Cons.prems) simp_all
  have hd: "takes st e (repr x) x" by (intro Cons.prems) simp_all
  show ?case
  proof (rule takesI)
    show "r_foreach st (e # es, rd pre (concat (map repr (x # xs)) @ rest))
      = (True, x # xs, rd (pre @ concat (map repr (x # xs))) rest)" for pre rest
      using takesD(1) [OF hd, of pre "concat (map repr xs) @ rest"] takesD(1) [OF rest] by simp
    show "r_bad (r_foreach st (o', r))" if "\<not> r_ok r" for o' r
      using takesD(3) [OF rest that] .
    have fail: "r_bad (r_foreach st (e # es, r))" if "r_bad (st (e, r))" for r
      using that takesD(3) [OF rest, of "snd (snd (st (e, r)))" es] by (auto simp: r_bad_def split: prod.splits)
    show "r_bad (r_foreach st (e # es, rd pre bs'))" if sp: "strict_prefix bs' (concat (map repr (x # xs)))" for pre bs'
      using sp unfolding list.map concat.simps
    proof (cases rule: strict_prefix_append_cases)
      case 1
      then show ?thesis using fail takesD(2) [OF hd] by blast
    next
      case (2 bs'')
      then show ?thesis
        using takesD(1) [OF hd, of pre bs''] takesD(2) [OF rest, of bs'' "pre @ repr x"]
        by (auto simp: r_bad_def split: prod.splits)
    qed
  qed
qed

lemma takes_vector:
  assumes "n = length xs" and "\<And>x. x \<in> set xs \<Longrightarrow> takes st e (repr x) x"
    and "\<And>o' r. \<not> r_ok r \<Longrightarrow> r_bad (st (o', r))"
  shows "takes (r_vector n e st upd) out (concat (map repr xs)) (upd (\<lambda>_. xs) out)"
proof -
  have fe: "takes (r_foreach st) (replicate n e) (concat (map repr xs)) xs"
    using assms by (intro takes_foreach) auto
  show ?thesis
  proof (rule takesI)
    show "r_bad (r_vector n e st upd (out, rd pre bs'))" if "strict_prefix bs' (concat (map repr xs))" for pre bs'
      using takesD(2) [OF fe that, of pre] by (auto simp: r_bad_def r_vector_def split: prod.splits)
    show "r_bad (r_vector n e st upd (o', r))" if "\<not> r_ok r" for o' r
      using takesD(3) [OF fe that, of "replicate n e"] by (auto simp: r_bad_def r_vector_def split: prod.splits)
  qed (simp add: r_vector_def takesD(1) [OF fe])
qed

lemma takes_collect:
  assumes "\<And>x. x \<in> set xs \<Longrightarrow> takes st e (repr x) x" and go: "\<And>pre bs. go (rd pre bs)"
    and bad: "\<And>o' r. \<not> r_ok r \<Longrightarrow> r_bad (st (o', r))"
  shows "takes (r_collect go e st (length xs)) es (concat (map repr xs)) (es @ xs)"
  using assms(1)
proof (induction xs arbitrary: es)
  case Nil
  then show ?case by (simp add: takes_def)
next
  case (Cons x xs)
  have rest: "takes (r_collect go e st (length xs)) (es @ [x]) (concat (map repr xs)) ((es @ [x]) @ xs)"
    by (intro Cons) simp
  have hd: "takes st e (repr x) x" by (intro Cons.prems) simp
  have fail: "r_bad (r_collect go e st (Suc (length xs)) (es', r))" if "r_bad (st (e, r))" "go r \<or> \<not> r_ok r" for es' r
    using that takesD(3) [OF rest, of "snd (snd (st (e, r)))" "es' @ [fst (snd (st (e, r)))]"]
    by (auto simp: r_bad_def split: prod.splits)
  show ?case
  proof (rule takesI)
    show "r_collect go e st (length (x # xs)) (es, rd pre (concat (map repr (x # xs)) @ rest))
      = (True, es @ x # xs, rd (pre @ concat (map repr (x # xs))) rest)" for pre rest
      using takesD(1) [OF hd, of pre "concat (map repr xs) @ rest"] takesD(1) [OF rest] by (simp add: go)
    show "r_bad (r_collect go e st (length (x # xs)) (o', r))" if "\<not> r_ok r" for o' r
      using fail [OF bad [OF that]] that by simp
    show "r_bad (r_collect go e st (length (x # xs)) (es, rd pre bs'))"
      if sp: "strict_prefix bs' (concat (map repr (x # xs)))" for pre bs'
      using sp unfolding list.map concat.simps
    proof (cases rule: strict_prefix_append_cases)
      case 1
      then have "r_bad (st (e, rd pre bs'))" by (rule takesD(2) [OF hd])
      then have "r_bad (r_collect go e st (Suc (length xs)) (es, rd pre bs'))" using go by (intro fail) simp_all
      then show ?thesis by simp
    next
      case (2 bs'')
      then show ?thesis
        using takesD(1) [OF hd, of pre bs''] takesD(2) [OF rest, of bs'' "pre @ repr x"]
        by (simp add: go)
    qed
  qed
qed

lemma takes_pushed:
  assumes "n = length xs" and "\<And>x. x \<in> set xs \<Longrightarrow> takes st e (repr x) x" and "\<And>pre bs. go (rd pre bs)"
    and "\<And>o' r. \<not> r_ok r \<Longrightarrow> r_bad (st (o', r))"
  shows "takes (r_pushed go e st n upd) out (concat (map repr xs)) (upd (\<lambda>_. xs) out)"
proof -
  have "takes (r_collect go e st (length xs)) [] (concat (map repr xs)) ([] @ xs)"
    using assms by (intro takes_collect)
  then have co: "takes (r_collect go e st n) [] (concat (map repr xs)) xs" by (simp add: assms(1))
  show ?thesis
  proof (rule takesI)
    show "r_bad (r_pushed go e st n upd (out, rd pre bs'))" if "strict_prefix bs' (concat (map repr xs))" for pre bs'
      using takesD(2) [OF co that, of pre] by (auto simp: r_bad_def r_pushed_def split: prod.splits)
    show "r_bad (r_pushed go e st n upd (o', r))" if "\<not> r_ok r" for o' r
      using takesD(3) [OF co that, of "[]"] by (auto simp: r_bad_def r_pushed_def split: prod.splits)
  qed (simp add: r_pushed_def takesD(1) [OF co])
qed

text \<open>
  A whole payload. Trailing bytes are ignored, which is the protocol's compatibility rule, and a
  payload cut short anywhere is refused.
\<close>

lemma r_result_takes:
  assumes "takes st out bs out'"
  shows "r_result valid (st (out, Reader (bs @ rest))) = (valid out', out')"
    and "strict_prefix bs' bs \<Longrightarrow> \<not> fst (r_result valid (st (out, Reader bs')))"
  using takesD(1) [OF assms, of "[]" rest] takesD(2) [OF assms, of bs' "[]"]
  by (auto simp: r_result_def Reader_rd r_bad_def split: prod.splits)

lemma strict_prefix_take: "k < length bs \<Longrightarrow> strict_prefix (take k bs) bs"
  by (simp add: strict_prefix_def take_is_prefix)

section \<open>Payload codecs\<close>

text \<open>
  The contract of a payload's \<open>Encode\<close> and \<open>Decode\<close>: whatever is encoded decodes to itself, with
  any bytes after it, and does not decode when it is cut short. \<open>valid\<close> restricts to the values whose
  every field is on the wire.
\<close>

locale payload_codec =
  fixes enc :: "'p \<Rightarrow> bytes"
    and dec :: "bytes \<Rightarrow> 'p \<Rightarrow> bool \<times> 'p"
    and valid :: "'p \<Rightarrow> bool"
  assumes dec_enc: "valid v \<Longrightarrow> enc v \<noteq> [] \<Longrightarrow> dec (enc v @ rest) out = (True, v)"
    and dec_short: "valid v \<Longrightarrow> k < length (enc v) \<Longrightarrow> \<not> fst (dec (take k (enc v)) out)"
begin

lemma enc_inj:
  assumes "valid v" "valid v'" "enc v \<noteq> []" "enc v = enc v'"
  shows "v = v'"
proof -
  have "dec (enc v @ []) v = (True, v)" using assms by (intro dec_enc)
  moreover have "dec (enc v' @ []) v = (True, v')" using assms by (intro dec_enc) simp_all
  ultimately show ?thesis using assms(4) by simp
qed

text \<open>Encodings delimit themselves: none is a strict prefix of another.\<close>

lemma enc_prefix_free:
  assumes "valid v" "valid v'" "enc v \<noteq> []" "prefix (enc v) (enc v')"
  shows "enc v = enc v'"
proof (rule ccontr)
  assume "enc v \<noteq> enc v'"
  with assms(4) have "length (enc v) < length (enc v')"
    by (intro prefix_length_less) (simp add: strict_prefix_def)
  then have "\<not> fst (dec (take (length (enc v)) (enc v')) v)"
    by (rule dec_short [OF assms(2)])
  moreover have "take (length (enc v)) (enc v') = enc v"
    using assms(4) by (auto simp: prefix_def)
  moreover have "dec (enc v @ []) v = (True, v)"
    using assms by (intro dec_enc)
  ultimately show False by simp
qed

end

text \<open>
  What the two directions do is enough: the writer emits \<open>bs v\<close>, and the statements take \<open>bs v\<close>.
  \<open>sendable\<close> is what the encoder checks first and \<open>chk\<close> what the decoder checks last.
\<close>

lemma payload_codecI:
  assumes "\<And>v. emits (put v) (bs v) (ok v)"
    and "\<And>v out. valid v \<Longrightarrow> ok v \<Longrightarrow> sendable v \<Longrightarrow> length (bs v) \<le> MAX_PAYLOAD_BYTES \<Longrightarrow> takes st out (bs v) v"
    and "\<And>v. valid v \<Longrightarrow> sendable v \<Longrightarrow> chk v"
    and enc: "\<And>v. enc v = (if sendable v then w_result (put v Writer) else [])"
    and dec: "\<And>pl out. dec pl out = r_result chk (st (out, Reader pl))"
  shows "payload_codec enc dec valid"
proof
  show "dec (enc v @ rest) out = (True, v)" if "valid v" "enc v \<noteq> []" for v rest out
    using that r_result_takes(1) [OF assms(2) [of v out], of chk rest] assms(3)
    by (simp add: enc dec w_result_emits [OF assms(1)] split: if_splits)
  show "\<not> fst (dec (take k (enc v)) out)" if "valid v" "k < length (enc v)" for v k out
    using that r_result_takes(2) [OF assms(2) [of v out], of "take k (bs v)" chk]
    by (simp add: enc dec w_result_emits [OF assms(1)] strict_prefix_take split: if_splits)
qed

text \<open>The common case: the payload is one block of fields.\<close>

lemma payload_blockI:
  assumes "\<And>v. emits (w_seq (ops v)) (bs v) (ok v)"
    and "\<And>v out. valid v \<Longrightarrow> ok v \<Longrightarrow> takes (r_seq sts) out (bs v) v"
  shows "payload_codec (\<lambda>v. w_result (w_seq (ops v) Writer)) (\<lambda>pl out. r_result (\<lambda>_. True) (r_seq sts (out, Reader pl))) valid"
  by (rule payload_codecI [where put = "\<lambda>v. w_seq (ops v)" and st = "r_seq sts" and sendable = "\<lambda>_. True", OF assms]) simp_all

lemma emits_eq:
  assumes "emits op bs ok" and "bs = bs'" and "ok \<longleftrightarrow> ok'"
  shows "emits op bs' ok'"
  using assms by simp

lemma takes_eq:
  assumes "takes st out bs out'" and "out' = v"
  shows "takes st out bs v"
  using assms by simp

section \<open>The frame around a payload\<close>

lemma put_u_le: "put_u16 out a = out @ le16 a" "put_u32 out b = out @ le32 b"
  by (simp_all add: put_u16_def put_u32_def le16_def le32_def)

lemma EncodeMessage_bytes:
  "EncodeMessage ty fl sq pl =
     (if length pl \<le> MAX_PAYLOAD_BYTES
      then le32 (of_nat (HEADER_BYTES + length pl)) @ le16 ty @ le16 fl @ le32 sq @ pl else [])"
  by (simp add: EncodeMessage_def put_u_le)

lemma DecodeBody_bytes:
  "DecodeBody (le16 ty @ le16 fl @ le32 sq @ pl) out =
     (True, \<lparr>m_header = \<lparr>h_type = ty, h_flags = fl, h_seq = sq\<rparr>, m_payload = pl\<rparr>)"
  by (simp add: DecodeBody_def Reader_rd wire_simps HEADER_BYTES_def)

lemma HEADER_plus_payload:
  "length pl \<le> MAX_PAYLOAD_BYTES \<Longrightarrow> unat (of_nat (HEADER_BYTES + length pl) :: u32) = HEADER_BYTES + length pl"
  by (intro unat_of_nat_u32) (simp add: bound_defs)

section \<open>Properties\<close>

text \<open>
  C20. A framed message survives the wire: its length prefix is the length of the rest, and the rest
  decodes to the type, flags, sequence number and payload it was made from. A payload over the
  bound is never framed.
\<close>

theorem frame_roundtrip:
  "(length pl > MAX_PAYLOAD_BYTES \<longrightarrow> EncodeMessage ty fl sq pl = [])
   \<and> (length pl \<le> MAX_PAYLOAD_BYTES \<longrightarrow>
        r_U32 0 (Reader (EncodeMessage ty fl sq pl))
          = (True, of_nat (length (drop LENGTH_BYTES (EncodeMessage ty fl sq pl))),
             rd (take LENGTH_BYTES (EncodeMessage ty fl sq pl)) (drop LENGTH_BYTES (EncodeMessage ty fl sq pl)))
      \<and> DecodeBody (drop LENGTH_BYTES (EncodeMessage ty fl sq pl)) out
          = (True, \<lparr>m_header = \<lparr>h_type = ty, h_flags = fl, h_seq = sq\<rparr>, m_payload = pl\<rparr>)
      \<and> length (EncodeMessage ty fl sq pl) \<le> MAX_MESSAGE_BYTES)"
  by (simp add: EncodeMessage_bytes DecodeBody_bytes LENGTH_BYTES_def HEADER_BYTES_def Reader_rd r_U32_rd)
     (simp add: bound_defs)

text \<open>The smallest and an ordinary message, framed and read back.\<close>

theorem frame_roundtrip_witness:
  "DecodeBody (drop LENGTH_BYTES (EncodeMessage TYPE_PING 0 7 [1, 2, 3])) \<lparr>m_header = \<lparr>h_type = 0, h_flags = 0, h_seq = 0\<rparr>, m_payload = []\<rparr>
    = (True, \<lparr>m_header = \<lparr>h_type = TYPE_PING, h_flags = 0, h_seq = 7\<rparr>, m_payload = [1, 2, 3]\<rparr>)"
  using frame_roundtrip [of "[1, 2, 3]" TYPE_PING 0 7] by (simp add: bound_defs)

end
