(* ===== verification/Wire_Session.thy ===== *)
theory Wire_Session
  imports Wire_Codec
begin

text \<open>
  The payloads of the session itself, in the order of \<^verbatim>\<open>src/WireProtocol.cpp\<close>: \<open>Hello\<close>,
  \<open>HelloAck\<close>, \<open>Declare\<close>, \<open>FrameRequest\<close>, \<open>FrameReply\<close>, \<open>Pong\<close>, \<open>Bye\<close> and \<open>ErrorPayload\<close>. Every
  \<open>Encode_X\<close>/\<open>Decode_X\<close> pair is an instance of \<open>payload_codec\<close>.
\<close>

section \<open>Records\<close>

record Hello =
  protoMajor :: u16
  protoMinor :: u16
  pluginVersion :: string
  vpxRevision :: string
  pluginApiCommit :: string
  token :: string
  instanceId :: u64
  capabilities :: u32
  info :: string

record HelloAck =
  protoMajor :: u16
  protoMinor :: u16
  daemonVersion :: string
  capabilities :: u32
  sessionId :: u32

abbreviation (input) TABLE_ROM :: u8 where "TABLE_ROM \<equiv> 0"
abbreviation (input) TABLE_AUTHORED :: u8 where "TABLE_AUTHORED \<equiv> 1"

record Declare =
  romId :: string
  tablePath :: string
  vpxVersion :: string
  vpxRevision :: string
  width :: u16
  height :: u16
  shades :: u8
  sourceGeneration :: u32
  identifyFormat :: string
  tableKind :: u8
  machineUuid :: string
  tableFullPath :: string
  vpxAppPath :: string
  prefsPath :: string

record FrameRequest =
  sinceFrameId :: u32
  sinceGeneration :: u32

record FrameReply =
  frameId :: u32
  sourceGeneration :: u32
  width :: u16
  height :: u16
  shades :: u8
  hasPixels :: u8
  pixels :: bytes

record Pong =
  renderedFrame :: u64
  playerRunning :: u8
  writesSupported :: u8

record Bye =
  reason :: string

record ErrorPayload =
  code :: u16
  reason :: string

section \<open>Encode and Decode\<close>

definition Encode_Hello :: "Hello \<Rightarrow> bytes" where
  "Encode_Hello v = w_result (w_seq
     [w_U16 (Hello.protoMajor v),
      w_U16 (Hello.protoMinor v),
      w_Str (Hello.pluginVersion v),
      w_Str (Hello.vpxRevision v),
      w_Str (Hello.pluginApiCommit v),
      w_Str (Hello.token v),
      w_U64 (Hello.instanceId v),
      w_U32 (Hello.capabilities v),
      w_Str (Hello.info v)] Writer)"

definition Decode_Hello :: "bytes \<Rightarrow> Hello \<Rightarrow> bool \<times> Hello" where
  "Decode_Hello pl out = r_result (\<lambda>_. True) (r_seq
     [r_field r_U16 Hello.protoMajor Hello.protoMajor_update,
      r_field r_U16 Hello.protoMinor Hello.protoMinor_update,
      r_field r_Str Hello.pluginVersion Hello.pluginVersion_update,
      r_field r_Str Hello.vpxRevision Hello.vpxRevision_update,
      r_field r_Str Hello.pluginApiCommit Hello.pluginApiCommit_update,
      r_field r_Str Hello.token Hello.token_update,
      r_field r_U64 Hello.instanceId Hello.instanceId_update,
      r_field r_U32 Hello.capabilities Hello.capabilities_update,
      r_field r_Str Hello.info Hello.info_update] (out, Reader pl))"

definition Encode_HelloAck :: "HelloAck \<Rightarrow> bytes" where
  "Encode_HelloAck v = w_result (w_seq
     [w_U16 (HelloAck.protoMajor v),
      w_U16 (HelloAck.protoMinor v),
      w_Str (HelloAck.daemonVersion v),
      w_U32 (HelloAck.capabilities v),
      w_U32 (HelloAck.sessionId v)] Writer)"

definition Decode_HelloAck :: "bytes \<Rightarrow> HelloAck \<Rightarrow> bool \<times> HelloAck" where
  "Decode_HelloAck pl out = r_result (\<lambda>_. True) (r_seq
     [r_field r_U16 HelloAck.protoMajor HelloAck.protoMajor_update,
      r_field r_U16 HelloAck.protoMinor HelloAck.protoMinor_update,
      r_field r_Str HelloAck.daemonVersion HelloAck.daemonVersion_update,
      r_field r_U32 HelloAck.capabilities HelloAck.capabilities_update,
      r_field r_U32 HelloAck.sessionId HelloAck.sessionId_update] (out, Reader pl))"

text \<open>
  \<open>Declare\<close>. The three paths leave for a daemon of minor 1 or later only, and each non-empty one is
  reported as a sensitive span of the payload: its bytes, never its length prefix. A null
  \<^verbatim>\<open>sensitive\<close> is a caller that drops the second result.
\<close>

fun encode_paths :: "string list \<Rightarrow> writer \<times> SensitiveSpan list \<Rightarrow> writer \<times> SensitiveSpan list" where
  "encode_paths [] s = s"
| "encode_paths (path # paths) (w, sensitive) =
     encode_paths paths
       (w_Str path w,
        if path \<noteq> [] then sensitive @ [\<lparr>span_offset = length (w_data w) + 2, span_length = length path\<rparr>]
        else sensitive)"

definition declare_base :: "Declare \<Rightarrow> (writer \<Rightarrow> writer) list" where
  "declare_base v =
     [w_Str (Declare.romId v),
      w_Str (Declare.tablePath v),
      w_Str (Declare.vpxVersion v),
      w_Str (Declare.vpxRevision v),
      w_U16 (Declare.width v),
      w_U16 (Declare.height v),
      w_U8 (Declare.shades v),
      w_U32 (Declare.sourceGeneration v),
      w_Str (Declare.identifyFormat v)]"

definition Encode_Declare :: "Declare \<Rightarrow> u16 \<Rightarrow> bytes \<times> SensitiveSpan list" where
  "Encode_Declare v peerMinor =
     (let w = w_seq (declare_base v) Writer;
          (w, sensitive) =
            (if peerMinor \<ge> 1
             then encode_paths [Declare.tableFullPath v, Declare.vpxAppPath v, Declare.prefsPath v]
                    (w_seq [w_U8 (Declare.tableKind v), w_Str (Declare.machineUuid v)] w, [])
             else (w, []))
      in if \<not> w_ok w then ([], []) else (w_data w, sensitive))"

definition read_Declare :: "Declare stmt" where
  "read_Declare = r_seq
     [r_field r_Str Declare.romId Declare.romId_update,
      r_field r_Str Declare.tablePath Declare.tablePath_update,
      r_field r_Str Declare.vpxVersion Declare.vpxVersion_update,
      r_field r_Str Declare.vpxRevision Declare.vpxRevision_update,
      r_field r_U16 Declare.width Declare.width_update,
      r_field r_U16 Declare.height Declare.height_update,
      r_field r_U8 Declare.shades Declare.shades_update,
      r_field r_U32 Declare.sourceGeneration Declare.sourceGeneration_update,
      r_field r_Str Declare.identifyFormat Declare.identifyFormat_update,
      r_set (\<lambda>out. out\<lparr>tableKind := TABLE_ROM, machineUuid := [], tableFullPath := [],
                       vpxAppPath := [], prefsPath := []\<rparr>),
      (\<lambda>(out, r).
         if r_ok r \<and> \<not> r_AtEnd r then r_seq
           [r_field r_U8 Declare.tableKind Declare.tableKind_update,
            r_field r_Str Declare.machineUuid Declare.machineUuid_update,
            r_field r_Str Declare.tableFullPath Declare.tableFullPath_update,
            r_field r_Str Declare.vpxAppPath Declare.vpxAppPath_update,
            r_field r_Str Declare.prefsPath Declare.prefsPath_update] (out, r)
         else (True, out, r))]"

definition Decode_Declare :: "bytes \<Rightarrow> Declare \<Rightarrow> bool \<times> Declare" where
  "Decode_Declare pl out = r_result (\<lambda>_. True) (read_Declare (out, Reader pl))"

definition TableFileName :: "string \<Rightarrow> string" where
  "TableFileName path = rev (takeWhile (\<lambda>c. c \<noteq> CHR ''/'' \<and> c \<noteq> CHR 0x5C) (rev path))"

definition NewIdentity :: "Declare \<Rightarrow> Declare \<Rightarrow> bool" where
  "NewIdentity was now \<longleftrightarrow>
     Declare.romId was \<noteq> Declare.romId now \<or> Declare.tableKind was \<noteq> Declare.tableKind now
     \<or> Declare.machineUuid was \<noteq> Declare.machineUuid now"

abbreviation (input) SINCE_FRAME_NONE :: u32 where "SINCE_FRAME_NONE \<equiv> 0xFFFFFFFF"

definition Encode_FrameRequest :: "FrameRequest \<Rightarrow> bytes" where
  "Encode_FrameRequest v = w_result (w_seq
     [w_U32 (FrameRequest.sinceFrameId v),
      w_U32 (FrameRequest.sinceGeneration v)] Writer)"

definition Decode_FrameRequest :: "bytes \<Rightarrow> FrameRequest \<Rightarrow> bool \<times> FrameRequest" where
  "Decode_FrameRequest pl out = r_result (\<lambda>_. True) (r_seq
     [r_field r_U32 FrameRequest.sinceFrameId FrameRequest.sinceFrameId_update,
      r_field r_U32 FrameRequest.sinceGeneration FrameRequest.sinceGeneration_update] (out, Reader pl))"

text \<open>The pixel run has no length prefix: a reply whose vector disagrees with its geometry is not encoded.\<close>

definition Encode_FrameReply :: "FrameReply \<Rightarrow> bytes" where
  "Encode_FrameReply v =
     (let w = w_seq
        [w_U32 (FrameReply.frameId v),
         w_U32 (FrameReply.sourceGeneration v),
         w_U16 (FrameReply.width v),
         w_U16 (FrameReply.height v),
         w_U8 (FrameReply.shades v),
         w_U8 (FrameReply.hasPixels v)] Writer
      in if FrameReply.hasPixels v \<noteq> 0
         then if length (pixels v) \<noteq> unat (FrameReply.width v) * unat (FrameReply.height v) then []
              else w_result (w_Bytes (pixels v) w)
         else w_result w)"

definition read_FrameReply :: "FrameReply stmt" where
  "read_FrameReply = r_seq
     [r_field r_U32 FrameReply.frameId FrameReply.frameId_update,
      r_field r_U32 FrameReply.sourceGeneration FrameReply.sourceGeneration_update,
      r_field r_U16 FrameReply.width FrameReply.width_update,
      r_field r_U16 FrameReply.height FrameReply.height_update,
      r_field r_U8 FrameReply.shades FrameReply.shades_update,
      r_field r_U8 FrameReply.hasPixels FrameReply.hasPixels_update,
      r_set (\<lambda>out. out\<lparr>pixels := []\<rparr>),
      (\<lambda>(out, r).
         if r_ok r \<and> FrameReply.hasPixels out \<noteq> 0
         then r_field (r_Bytes (unat (FrameReply.width out) * unat (FrameReply.height out))) pixels pixels_update (out, r)
         else (True, out, r))]"

definition Decode_FrameReply :: "bytes \<Rightarrow> FrameReply \<Rightarrow> bool \<times> FrameReply" where
  "Decode_FrameReply pl out = r_result (\<lambda>_. True) (read_FrameReply (out, Reader pl))"

definition Encode_Pong :: "Pong \<Rightarrow> bytes" where
  "Encode_Pong v = w_result (w_seq
     [w_U64 (Pong.renderedFrame v),
      w_U8 (Pong.playerRunning v),
      w_U8 (Pong.writesSupported v)] Writer)"

definition Decode_Pong :: "bytes \<Rightarrow> Pong \<Rightarrow> bool \<times> Pong" where
  "Decode_Pong pl out = r_result (\<lambda>_. True) (r_seq
     [r_field r_U64 Pong.renderedFrame Pong.renderedFrame_update,
      r_field r_U8 Pong.playerRunning Pong.playerRunning_update,
      r_field r_U8 Pong.writesSupported Pong.writesSupported_update] (out, Reader pl))"

definition Encode_Bye :: "Bye \<Rightarrow> bytes" where
  "Encode_Bye v = w_result (w_seq
     [w_Str (Bye.reason v)] Writer)"

definition Decode_Bye :: "bytes \<Rightarrow> Bye \<Rightarrow> bool \<times> Bye" where
  "Decode_Bye pl out = r_result (\<lambda>_. True) (r_seq
     [r_field r_Str Bye.reason Bye.reason_update] (out, Reader pl))"

definition Encode_ErrorPayload :: "ErrorPayload \<Rightarrow> bytes" where
  "Encode_ErrorPayload v = w_result (w_seq
     [w_U16 (ErrorPayload.code v),
      w_Str (ErrorPayload.reason v)] Writer)"

definition Decode_ErrorPayload :: "bytes \<Rightarrow> ErrorPayload \<Rightarrow> bool \<times> ErrorPayload" where
  "Decode_ErrorPayload pl out = r_result (\<lambda>_. True) (r_seq
     [r_field r_U16 ErrorPayload.code ErrorPayload.code_update,
      r_field r_Str ErrorPayload.reason ErrorPayload.reason_update] (out, Reader pl))"

section \<open>The codecs keep their contract\<close>

interpretation hello: payload_codec Encode_Hello Decode_Hello "\<lambda>_. True"
  unfolding Encode_Hello_def [abs_def] Decode_Hello_def [abs_def]
  by (rule payload_blockI, (rule emits_intros)+, rule takes_eq, (rule takes_intros | simp)+)

interpretation hello_ack: payload_codec Encode_HelloAck Decode_HelloAck "\<lambda>_. True"
  unfolding Encode_HelloAck_def [abs_def] Decode_HelloAck_def [abs_def]
  by (rule payload_blockI, (rule emits_intros)+, rule takes_eq, (rule takes_intros | simp)+)

interpretation frame_request: payload_codec Encode_FrameRequest Decode_FrameRequest "\<lambda>_. True"
  unfolding Encode_FrameRequest_def [abs_def] Decode_FrameRequest_def [abs_def]
  by (rule payload_blockI, (rule emits_intros)+, rule takes_eq, (rule takes_intros | simp)+)

interpretation pong: payload_codec Encode_Pong Decode_Pong "\<lambda>_. True"
  unfolding Encode_Pong_def [abs_def] Decode_Pong_def [abs_def]
  by (rule payload_blockI, (rule emits_intros)+, rule takes_eq, (rule takes_intros | simp)+)

interpretation bye: payload_codec Encode_Bye Decode_Bye "\<lambda>_. True"
  unfolding Encode_Bye_def [abs_def] Decode_Bye_def [abs_def]
  by (rule payload_blockI, (rule emits_intros)+, rule takes_eq, (rule takes_intros | simp)+)

interpretation error_payload: payload_codec Encode_ErrorPayload Decode_ErrorPayload "\<lambda>_. True"
  unfolding Encode_ErrorPayload_def [abs_def] Decode_ErrorPayload_def [abs_def]
  by (rule payload_blockI, (rule emits_intros)+, rule takes_eq, (rule takes_intros | simp)+)

subsection \<open>FrameReply\<close>

text \<open>The six header fields, and the pixels when the header announces them.\<close>

abbreviation frame_pixels_absent :: "FrameReply \<Rightarrow> bool" where
  "frame_pixels_absent v \<equiv> FrameReply.hasPixels v = 0 \<longrightarrow> pixels v = []"

definition frame_header :: "FrameReply \<Rightarrow> (writer \<Rightarrow> writer) list" where
  "frame_header v = [w_U32 (FrameReply.frameId v), w_U32 (FrameReply.sourceGeneration v),
     w_U16 (FrameReply.width v), w_U16 (FrameReply.height v), w_U8 (FrameReply.shades v),
     w_U8 (FrameReply.hasPixels v)]"

definition frame_header_bytes :: "FrameReply \<Rightarrow> bytes" where
  "frame_header_bytes v = le32 (FrameReply.frameId v) @ le32 (FrameReply.sourceGeneration v)
     @ le16 (FrameReply.width v) @ le16 (FrameReply.height v) @ [FrameReply.shades v] @ [FrameReply.hasPixels v] @ []"

abbreviation frame_run :: "FrameReply \<Rightarrow> writer \<Rightarrow> writer" where
  "frame_run v \<equiv> (if FrameReply.hasPixels v \<noteq> 0 then w_Bytes (pixels v) else (\<lambda>w. w))"

interpretation frame_reply: payload_codec Encode_FrameReply Decode_FrameReply frame_pixels_absent
proof (rule payload_codecI [where st = read_FrameReply and chk = "\<lambda>_. True"])
  let ?sized = "\<lambda>v. FrameReply.hasPixels v \<noteq> 0 \<longrightarrow>
    length (pixels v) = unat (FrameReply.width v) * unat (FrameReply.height v)"
  let ?run = "\<lambda>v. if FrameReply.hasPixels v \<noteq> 0 then pixels v else []"
  have "emits (w_seq (frame_header v)) (frame_header_bytes v) True" for v
    unfolding frame_header_def frame_header_bytes_def by (rule emits_eq, (rule emits_intros)+) simp_all
  moreover have "emits (frame_run v) (?run v) True" for v
    by (simp add: emits_intros)
  ultimately show "emits (\<lambda>w. frame_run v (w_seq (frame_header v) w)) (frame_header_bytes v @ ?run v) (True \<and> True)" for v
    by (rule emits_comp)
  show "Encode_FrameReply v = (if ?sized v then w_result (frame_run v (w_seq (frame_header v) Writer)) else [])" for v
    by (simp add: Encode_FrameReply_def frame_header_def Let_def)
  show "Decode_FrameReply pl out = r_result (\<lambda>_. True) (read_FrameReply (out, Reader pl))" for pl out
    by (simp add: Decode_FrameReply_def)
  show "takes read_FrameReply out (frame_header_bytes v @ ?run v) v"
    if "frame_pixels_absent v" "True \<and> True" "?sized v" for v out
    unfolding read_FrameReply_def frame_header_bytes_def append_assoc
    apply (rule takes_eq)
     apply (rule takes_intros)+
     apply (rule takes_seq_one)
     apply (rule takes_if [where b = "FrameReply.hasPixels v \<noteq> 0"])
        apply (rule takes_Bytes_sized)
    using that apply simp_all
    done
qed simp

subsection \<open>Declare\<close>

definition declare_base_bytes :: "Declare \<Rightarrow> bytes" where
  "declare_base_bytes v = str_bytes (Declare.romId v) @ str_bytes (Declare.tablePath v)
     @ str_bytes (Declare.vpxVersion v) @ str_bytes (Declare.vpxRevision v) @ le16 (Declare.width v)
     @ le16 (Declare.height v) @ [Declare.shades v] @ le32 (Declare.sourceGeneration v)
     @ str_bytes (Declare.identifyFormat v) @ [] @ []"

definition declare_more_bytes :: "Declare \<Rightarrow> bytes" where
  "declare_more_bytes v = [Declare.tableKind v] @ str_bytes (Declare.machineUuid v)
     @ str_bytes (Declare.tableFullPath v) @ str_bytes (Declare.vpxAppPath v) @ str_bytes (Declare.prefsPath v) @ []"

definition declare_base_fits :: "Declare \<Rightarrow> bool" where
  "declare_base_fits v \<longleftrightarrow> length (Declare.romId v) \<le> 0xFFFF \<and> length (Declare.tablePath v) \<le> 0xFFFF
     \<and> length (Declare.vpxVersion v) \<le> 0xFFFF \<and> length (Declare.vpxRevision v) \<le> 0xFFFF
     \<and> length (Declare.identifyFormat v) \<le> 0xFFFF"

definition declare_more_fits :: "Declare \<Rightarrow> bool" where
  "declare_more_fits v \<longleftrightarrow> length (Declare.machineUuid v) \<le> 0xFFFF \<and> length (Declare.tableFullPath v) \<le> 0xFFFF
     \<and> length (Declare.vpxAppPath v) \<le> 0xFFFF \<and> length (Declare.prefsPath v) \<le> 0xFFFF"

text \<open>What a daemon of minor 0 learns of a declaration.\<close>

definition declare_v0 :: "Declare \<Rightarrow> Declare" where
  "declare_v0 v = v\<lparr>tableKind := TABLE_ROM, machineUuid := [], tableFullPath := [], vpxAppPath := [], prefsPath := []\<rparr>"

definition declare_paths :: "Declare \<Rightarrow> string list" where
  "declare_paths v = [Declare.tableFullPath v, Declare.vpxAppPath v, Declare.prefsPath v]"

lemma emits_declare_base: "emits (w_seq (declare_base v)) (declare_base_bytes v) (declare_base_fits v)"
  unfolding declare_base_def declare_base_bytes_def declare_base_fits_def
  by (rule emits_eq, (rule emits_intros)+) simp_all

text \<open>The spans of strings written one after the other, the first prefix at \<open>n\<close>.\<close>

fun path_spans :: "nat \<Rightarrow> string list \<Rightarrow> SensitiveSpan list" where
  "path_spans n [] = []"
| "path_spans n (p # ps) =
     (if p \<noteq> [] then [\<lparr>span_offset = n + 2, span_length = length p\<rparr>] else []) @ path_spans (n + 2 + length p) ps"

lemma encode_paths_writer: "fst (encode_paths ps (w, s)) = w_seq (map w_Str ps) w"
  by (induction ps arbitrary: w s) (simp_all add: w_seq.simps)

lemma w_Str_length:
  assumes "w_ok w" "length (w_data w) \<le> MAX_PAYLOAD_BYTES" "w_ok (w_Str v w)"
  shows "length (w_data (w_Str v w)) = length (w_data w) + 2 + length v"
    and "length (w_data (w_Str v w)) \<le> MAX_PAYLOAD_BYTES"
  using assms emits_Str [of v, unfolded emits_def, rule_format, of w] by auto

lemma w_seq_failed: "\<not> w_ok w \<Longrightarrow> \<not> w_ok (w_seq (map w_Str ps) w)"
  using emits_foreach [of ps w_Str str_bytes "\<lambda>v. length v \<le> 0xFFFF"] emits_Str
  by (simp add: emits_def)

lemma encode_paths_spans:
  assumes "w_ok w" "length (w_data w) \<le> MAX_PAYLOAD_BYTES" "w_ok (fst (encode_paths ps (w, s)))"
  shows "snd (encode_paths ps (w, s)) = s @ path_spans (length (w_data w)) ps"
  using assms
proof (induction ps arbitrary: w s)
  case Nil
  then show ?case by simp
next
  case (Cons p ps)
  have "w_ok (w_Str p w)"
    using Cons.prems(3) w_seq_failed [of "w_Str p w" ps] by (auto simp: encode_paths_writer)
  from w_Str_length [OF Cons.prems(1,2) this] Cons.IH [OF this] Cons.prems(3)
  show ?case by (simp add: ac_simps)
qed

lemma path_spans_bytes:
  "length pre = n \<Longrightarrow>
   map (span_bytes (pre @ concat (map str_bytes ps) @ rest)) (path_spans n ps)
     = map (map byte_of_char) (filter (\<lambda>p. p \<noteq> []) ps)"
proof (induction ps arbitrary: pre n)
  case (Cons p ps)
  have "span_bytes (pre @ concat (map str_bytes (p # ps)) @ rest) \<lparr>span_offset = n + 2, span_length = length p\<rparr>
      = map byte_of_char p"
    using Cons.prems by (simp add: span_bytes_def str_bytes_def le16_def)
  moreover have "map (span_bytes ((pre @ str_bytes p) @ concat (map str_bytes ps) @ rest)) (path_spans (n + 2 + length p) ps)
      = map (map byte_of_char) (filter (\<lambda>p. p \<noteq> []) ps)"
    using Cons.prems by (intro Cons.IH) simp
  ultimately show ?case by simp
qed simp

lemma emits_declare_more:
  "emits (\<lambda>w. w_seq (map w_Str (declare_paths v)) (w_seq [w_U8 (Declare.tableKind v), w_Str (Declare.machineUuid v)] w))
     (declare_more_bytes v) (declare_more_fits v)"
  by (rule emits_eq, rule emits_comp)
     (((rule emits_intros)+ | simp only: declare_paths_def list.map)+,
      simp_all add: declare_more_bytes_def declare_more_fits_def)

lemma Encode_Declare_0:
  "Encode_Declare v 0 =
     (if declare_base_fits v \<and> length (declare_base_bytes v) \<le> MAX_PAYLOAD_BYTES
      then (declare_base_bytes v, []) else ([], []))"
  using w_result_emits [OF emits_declare_base [of v]]
  by (auto simp: Encode_Declare_def w_result_def split: if_splits)

lemma declare_writer_ok:
  fixes v
  defines "w \<equiv> w_seq (declare_base v) Writer"
  shows "w_ok w \<longleftrightarrow> declare_base_fits v \<and> length (declare_base_bytes v) \<le> MAX_PAYLOAD_BYTES"
    and "w_ok w \<Longrightarrow> w_data w = declare_base_bytes v"
  using emits_declare_base [of v, unfolded emits_def, rule_format, of Writer]
  by (simp_all add: w_def Writer_def)

lemma Encode_Declare_1:
  assumes "1 \<le> m"
  shows "Encode_Declare v m =
     (if declare_base_fits v \<and> declare_more_fits v
         \<and> length (declare_base_bytes v @ declare_more_bytes v) \<le> MAX_PAYLOAD_BYTES
      then (declare_base_bytes v @ declare_more_bytes v,
            path_spans (length (declare_base_bytes v) + 3 + length (Declare.machineUuid v)) (declare_paths v))
      else ([], []))"
proof -
  define w0 where "w0 = w_seq (declare_base v) Writer"
  define w1 where "w1 = w_seq [w_U8 (Declare.tableKind v), w_Str (Declare.machineUuid v)] w0"
  define w2 where "w2 = w_seq (map w_Str (declare_paths v)) w1"
  define s2 where "s2 = snd (encode_paths (declare_paths v) (w1, []))"
  have "emits (\<lambda>w. w_seq (map w_Str (declare_paths v))
      (w_seq [w_U8 (Declare.tableKind v), w_Str (Declare.machineUuid v)] (w_seq (declare_base v) w)))
    (declare_base_bytes v @ declare_more_bytes v) (declare_base_fits v \<and> declare_more_fits v)"
    by (rule emits_comp [OF emits_declare_base emits_declare_more])
  then have w2: "w_ok w2 \<longleftrightarrow> (declare_base_fits v \<and> declare_more_fits v)
       \<and> length (declare_base_bytes v @ declare_more_bytes v) \<le> MAX_PAYLOAD_BYTES"
    "w_ok w2 \<Longrightarrow> w_data w2 = declare_base_bytes v @ declare_more_bytes v"
    unfolding emits_def w2_def w1_def w0_def
    by (drule_tac x = Writer in spec, simp add: Writer_def)+
  have enc: "Encode_Declare v m = (if \<not> w_ok w2 then ([], []) else (w_data w2, s2))"
    using assms encode_paths_writer [of "declare_paths v" w1 "[]"]
    by (simp add: Encode_Declare_def w2_def s2_def w1_def w0_def declare_paths_def Let_def split_beta)
  have "s2 = path_spans (length (declare_base_bytes v) + 3 + length (Declare.machineUuid v)) (declare_paths v)"
    if ok2: "w_ok w2"
  proof -
    from ok2 have ok1: "w_ok w1" unfolding w2_def using w_seq_failed by blast
    have em: "emits (w_seq [w_U8 (Declare.tableKind v), w_Str (Declare.machineUuid v)])
        ([Declare.tableKind v] @ str_bytes (Declare.machineUuid v) @ []) (True \<and> length (Declare.machineUuid v) \<le> 0xFFFF \<and> True)"
      by (rule emits_intros)+
    have ok0: "w_ok w0" using ok1 em unfolding emits_def w1_def by blast
    with declare_writer_ok have "w_data w0 = declare_base_bytes v" "length (w_data w0) \<le> MAX_PAYLOAD_BYTES"
      unfolding w0_def by auto
    then have "w_data w1 = declare_base_bytes v @ [Declare.tableKind v] @ str_bytes (Declare.machineUuid v)"
      and "length (w_data w1) \<le> MAX_PAYLOAD_BYTES"
      using em [unfolded emits_def, rule_format, of w0] ok0 ok1 unfolding w1_def by auto
    moreover from this(2) ok1 ok2 have "s2 = [] @ path_spans (length (w_data w1)) (declare_paths v)"
      unfolding s2_def by (intro encode_paths_spans) (simp_all add: encode_paths_writer w2_def)
    ultimately show ?thesis by (simp add: ac_simps eval_nat_numeral)
  qed
  with enc w2 show ?thesis by auto
qed

text \<open>Reading it back: with the later fields, without them, and cut short.\<close>

lemma takes_declare_more:
  assumes "declare_more_fits v"
  shows "takes (r_seq
           [r_field r_U8 Declare.tableKind Declare.tableKind_update,
            r_field r_Str Declare.machineUuid Declare.machineUuid_update,
            r_field r_Str Declare.tableFullPath Declare.tableFullPath_update,
            r_field r_Str Declare.vpxAppPath Declare.vpxAppPath_update,
            r_field r_Str Declare.prefsPath Declare.prefsPath_update])
    (declare_v0 v) (declare_more_bytes v) v"
  using assms unfolding declare_more_bytes_def declare_more_fits_def
  by - (rule takes_eq, (rule takes_intros | simp)+, simp add: declare_v0_def)

definition read_declare_base :: "Declare stmt list" where
  "read_declare_base =
     [r_field r_Str Declare.romId Declare.romId_update,
      r_field r_Str Declare.tablePath Declare.tablePath_update,
      r_field r_Str Declare.vpxVersion Declare.vpxVersion_update,
      r_field r_Str Declare.vpxRevision Declare.vpxRevision_update,
      r_field r_U16 Declare.width Declare.width_update,
      r_field r_U16 Declare.height Declare.height_update,
      r_field r_U8 Declare.shades Declare.shades_update,
      r_field r_U32 Declare.sourceGeneration Declare.sourceGeneration_update,
      r_field r_Str Declare.identifyFormat Declare.identifyFormat_update,
      r_set (\<lambda>out. out\<lparr>tableKind := TABLE_ROM, machineUuid := [], tableFullPath := [],
                       vpxAppPath := [], prefsPath := []\<rparr>)]"

lemma takes_declare_base:
  assumes "declare_base_fits v"
  shows "takes (r_seq read_declare_base) out (declare_base_bytes v) (declare_v0 v)"
  using assms unfolding declare_base_bytes_def declare_base_fits_def read_declare_base_def
  by - (rule takes_eq, (rule takes_intros | simp)+, simp add: declare_v0_def)

definition read_declare_tail :: "Declare stmt" where
  "read_declare_tail = (\<lambda>(out, r).
     if r_ok r \<and> \<not> r_AtEnd r then r_seq
       [r_field r_U8 Declare.tableKind Declare.tableKind_update,
        r_field r_Str Declare.machineUuid Declare.machineUuid_update,
        r_field r_Str Declare.tableFullPath Declare.tableFullPath_update,
        r_field r_Str Declare.vpxAppPath Declare.vpxAppPath_update,
        r_field r_Str Declare.prefsPath Declare.prefsPath_update] (out, r)
     else (True, out, r))"

lemma read_Declare_split:
  "read_Declare s = (case r_seq read_declare_base s of (ok, s') \<Rightarrow> if ok then read_declare_tail s' else (False, s'))"
  using r_seq_append [of read_declare_base "[read_declare_tail]" s]
  by (simp add: read_Declare_def read_declare_base_def read_declare_tail_def r_seq.simps split: prod.splits)

lemma Decode_Declare_full:
  assumes "declare_base_fits v" "declare_more_fits v"
  shows "Decode_Declare (declare_base_bytes v @ declare_more_bytes v @ rest) out = (True, v)"
proof -
  have "declare_more_bytes v \<noteq> []" by (simp add: declare_more_bytes_def)
  then have "read_declare_tail (declare_v0 v, rd (declare_base_bytes v) (declare_more_bytes v @ rest))
      = (True, v, rd (declare_base_bytes v @ declare_more_bytes v) rest)"
    using takesD(1) [OF takes_declare_more [OF assms(2)]] by (simp add: read_declare_tail_def)
  with takesD(1) [OF takes_declare_base [OF assms(1)], of out "[]" "declare_more_bytes v @ rest"]
  show ?thesis by (simp add: Decode_Declare_def Reader_rd read_Declare_split r_result_def)
qed

lemma Decode_Declare_base:
  assumes "declare_base_fits v"
  shows "Decode_Declare (declare_base_bytes v) out = (True, declare_v0 v)"
  using takesD(1) [OF takes_declare_base [OF assms(1)], of out "[]" "[]"]
  by (simp add: Decode_Declare_def Reader_rd read_Declare_split r_result_def read_declare_tail_def)

lemma Decode_Declare_cut_base:
  assumes "declare_base_fits v" "strict_prefix bs (declare_base_bytes v)"
  shows "\<not> fst (Decode_Declare bs out)"
  using takesD(2) [OF takes_declare_base [OF assms(1)] assms(2), of out "[]"]
  by (auto simp: Decode_Declare_def Reader_rd read_Declare_split r_result_def r_bad_def read_declare_tail_def
      split: prod.splits)

lemma Decode_Declare_cut:
  assumes "declare_base_fits v" "declare_more_fits v" "strict_prefix bs (declare_base_bytes v @ declare_more_bytes v)"
    and "bs \<noteq> declare_base_bytes v"
  shows "\<not> fst (Decode_Declare bs out)"
  using assms(3)
proof (cases rule: strict_prefix_append_cases)
  case 1
  then show ?thesis by (rule Decode_Declare_cut_base [OF assms(1)])
next
  case (2 bs'')
  with assms(4) have "bs'' \<noteq> []" by simp
  with takesD(2) [OF takes_declare_more [OF assms(2)] 2(2), of "declare_base_bytes v"]
  have "r_bad (read_declare_tail (declare_v0 v, rd (declare_base_bytes v) bs''))"
    by (simp add: read_declare_tail_def)
  with takesD(1) [OF takes_declare_base [OF assms(1)], of out "[]" bs''] 2(1) show ?thesis
    by (auto simp: Decode_Declare_def Reader_rd read_Declare_split r_result_def r_bad_def split: prod.splits)
qed

section \<open>Properties\<close>

text \<open>
  What a declaration becomes on the other side, by the minor both sides agreed on: at minor 1 or
  later the daemon decodes the declaration itself, whatever bytes follow it; at minor 0 it
  decodes the same declaration with the machine identity and the three paths blank.
\<close>

theorem declare_roundtrip:
  assumes "fst (Encode_Declare v peerMinor) \<noteq> []"
  shows "if peerMinor \<ge> 1 then Decode_Declare (fst (Encode_Declare v peerMinor) @ rest) out = (True, v)
    else Decode_Declare (fst (Encode_Declare v peerMinor)) out
      = (True, v\<lparr>tableKind := TABLE_ROM, machineUuid := [], tableFullPath := [], vpxAppPath := [], prefsPath := []\<rparr>)"
proof (cases "peerMinor \<ge> 1")
  case True
  with assms show ?thesis by (simp add: Encode_Declare_1 Decode_Declare_full split: if_splits)
next
  case False
  then have "peerMinor = 0" by (simp add: u16_ge_1)
  with assms show ?thesis by (simp add: Encode_Declare_0 Decode_Declare_base declare_v0_def split: if_splits)
qed

text \<open>A declaration with an identity and two paths.\<close>

definition declare_example :: Declare where
  "declare_example = \<lparr>romId = ''a'', tablePath = ''t'', vpxVersion = [], vpxRevision = [], width = 2, height = 1,
     shades = 4, sourceGeneration = 1, identifyFormat = [], tableKind = TABLE_AUTHORED, machineUuid = ''u'',
     tableFullPath = ''/t'', vpxAppPath = [], prefsPath = ''p''\<rparr>"

lemma declare_example_encodes:
  "fst (Encode_Declare declare_example 2) \<noteq> []" "length (fst (Encode_Declare declare_example 2)) = 34"
  "length (fst (Encode_Declare declare_example 0)) = 21" "fst (Encode_Declare declare_example 0) \<noteq> []"
  by (simp_all add: Encode_Declare_1 Encode_Declare_0 u16_ge_1 declare_base_fits_def declare_more_fits_def
      declare_base_bytes_def declare_more_bytes_def declare_example_def bound_defs)

theorem declare_roundtrip_witness:
  "Decode_Declare (fst (Encode_Declare declare_example 2) @ [9, 9]) declare_example = (True, declare_example)"
  using declare_roundtrip [of declare_example 2 "[9, 9]" declare_example] declare_example_encodes by (simp add: u16_ge_1)

text \<open>
  A declaration cut short on the way is refused, except at the one length where it is a
  complete declaration of minor 0.
\<close>

theorem declare_truncated:
  assumes "k < length (fst (Encode_Declare v peerMinor))"
    and "fst (Decode_Declare (take k (fst (Encode_Declare v peerMinor))) out)"
  shows "peerMinor \<ge> 1 \<and> take k (fst (Encode_Declare v peerMinor)) = fst (Encode_Declare v 0)"
proof (cases "peerMinor = 0")
  case True
  with assms(1) have "strict_prefix (take k (declare_base_bytes v)) (declare_base_bytes v @ [])"
    and "take k (declare_base_bytes v) = take k (fst (Encode_Declare v peerMinor))" and "declare_base_fits v"
    by (auto simp: Encode_Declare_0 strict_prefix_take split: if_splits)
  then have "\<not> fst (Decode_Declare (take k (fst (Encode_Declare v peerMinor))) out)"
    using Decode_Declare_cut_base by simp
  with assms(2) show ?thesis by simp
next
  case False
  then have m: "1 \<le> peerMinor" by (simp add: u16_ge_1)
  let ?bs = "declare_base_bytes v @ declare_more_bytes v"
  from assms(1) m have enc: "fst (Encode_Declare v peerMinor) = ?bs" "length ?bs \<le> MAX_PAYLOAD_BYTES"
    and fits: "declare_base_fits v" "declare_more_fits v"
    by (auto simp: Encode_Declare_1 split: if_splits)
  have "strict_prefix (take k ?bs) ?bs" using assms(1) enc by (intro strict_prefix_take) simp
  with assms(2) fits enc have "take k ?bs = declare_base_bytes v" using Decode_Declare_cut by metis
  with fits enc m show ?thesis by (auto simp: Encode_Declare_0)
qed

theorem declare_truncated_witness:
  "take 21 (fst (Encode_Declare declare_example 2)) = fst (Encode_Declare declare_example 0)
   \<and> \<not> fst (Decode_Declare (take 20 (fst (Encode_Declare declare_example 2))) declare_example)"
proof -
  have fits: "declare_base_fits declare_example" by (simp add: declare_base_fits_def declare_example_def)
  have "length (declare_base_bytes declare_example) = 21"
    by (simp add: declare_base_bytes_def declare_example_def)
  then have "take 21 (fst (Encode_Declare declare_example 2)) = declare_base_bytes declare_example"
    using declare_example_encodes(1) by (simp add: Encode_Declare_1 u16_ge_1 split: if_splits)
  then have "fst (Decode_Declare (take 21 (fst (Encode_Declare declare_example 2))) declare_example)"
    using Decode_Declare_base [OF fits] by simp
  moreover have "\<not> fst (Decode_Declare (take 20 (fst (Encode_Declare declare_example 2))) declare_example)"
  proof
    assume "fst (Decode_Declare (take 20 (fst (Encode_Declare declare_example 2))) declare_example)"
    then have "take 20 (fst (Encode_Declare declare_example 2)) = fst (Encode_Declare declare_example 0)"
      using declare_truncated [of 20 declare_example 2 declare_example] declare_example_encodes by simp
    then have "length (take 20 (fst (Encode_Declare declare_example 2))) = 21"
      using declare_example_encodes(3) by simp
    then show False by simp
  qed
  ultimately show ?thesis
    using declare_truncated [of 21 declare_example 2 declare_example] declare_example_encodes by simp
qed

text \<open>
  The sensitive spans that \<open>Encode\<close> reports for a declaration are exactly the bytes of its
  non-empty local paths, in order; the bytes of no other field, and no length prefix.
\<close>

theorem declare_sensitive:
  assumes "fst (Encode_Declare v peerMinor) \<noteq> []"
  shows "map (span_bytes (fst (Encode_Declare v peerMinor))) (snd (Encode_Declare v peerMinor))
    = (if peerMinor \<ge> 1
       then map (map byte_of_char) (filter (\<lambda>p. p \<noteq> []) [tableFullPath v, vpxAppPath v, prefsPath v]) else [])"
proof (cases "peerMinor = 0")
  case True
  with assms show ?thesis by (simp add: Encode_Declare_0 u16_ge_1 split: if_splits)
next
  case False
  then have m: "1 \<le> peerMinor" by (simp add: u16_ge_1)
  let ?pre = "declare_base_bytes v @ [Declare.tableKind v] @ str_bytes (Declare.machineUuid v)"
  have bs: "declare_base_bytes v @ declare_more_bytes v = ?pre @ concat (map str_bytes (declare_paths v)) @ []"
    by (simp add: declare_more_bytes_def declare_paths_def)
  have "length ?pre = length (declare_base_bytes v) + 3 + length (Declare.machineUuid v)" by simp
  from path_spans_bytes [OF this, of "declare_paths v" "[]"] bs assms m show ?thesis
    by (simp add: Encode_Declare_1 declare_paths_def split: if_splits)
qed

theorem declare_sensitive_witness:
  "map (span_bytes (fst (Encode_Declare declare_example 2))) (snd (Encode_Declare declare_example 2))
    = map (map byte_of_char) [''/t'', ''p'']"
  using declare_sensitive [of declare_example 2] declare_example_encodes by (simp add: u16_ge_1 declare_example_def)

text \<open>
  A captured frame survives the wire whole, whatever bytes follow, and cut short it is refused. A
  reply that announces pixels is encoded only when it has exactly its width times its height of
  them.
\<close>

theorem frame_reply_roundtrip:
  assumes "Encode_FrameReply v \<noteq> []" and "FrameReply.hasPixels v = 0 \<longrightarrow> pixels v = []"
  shows "Decode_FrameReply (Encode_FrameReply v @ rest) out = (True, v)
    \<and> (\<forall>k < length (Encode_FrameReply v). \<not> fst (Decode_FrameReply (take k (Encode_FrameReply v)) out))
    \<and> (FrameReply.hasPixels v \<noteq> 0 \<longrightarrow> length (pixels v) = unat (FrameReply.width v) * unat (FrameReply.height v))"
  using assms frame_reply.dec_enc [of v rest out] frame_reply.dec_short [of v]
  by (auto simp: Encode_FrameReply_def Let_def split: if_splits)

definition frame_example :: FrameReply where
  "frame_example = \<lparr>frameId = 7, sourceGeneration = 1, width = 2, height = 1, shades = 4, hasPixels = 1, pixels = [3, 0]\<rparr>"

theorem frame_reply_roundtrip_witness:
  "Decode_FrameReply (Encode_FrameReply frame_example @ [1]) frame_example = (True, frame_example)
   \<and> \<not> fst (Decode_FrameReply (take 15 (Encode_FrameReply frame_example)) frame_example)"
proof -
  have len: "length (Encode_FrameReply frame_example) = 16"
    by (simp add: Encode_FrameReply_def frame_example_def w_seq.simps w_result_def w_U32_def w_U16_def w_U8_def
        w_Bytes_def Writer_def bound_defs)
  then have "Encode_FrameReply frame_example \<noteq> []" by auto
  from frame_reply_roundtrip [OF this, of "[1]" frame_example] len show ?thesis by (simp add: frame_example_def)
qed

end
