(* ===== verification/Wire_Memory.thy ===== *)
theory Wire_Memory
  imports Wire_Codec
begin

text \<open>
  The payloads that carry memory, in the order of \<^verbatim>\<open>src/WireProtocol.cpp\<close>: \<open>Subscription\<close>,
  \<open>PollReply\<close>, \<open>ReadDirectRequest\<close>, \<open>ReadDirectReply\<close>, \<open>WriteRequest\<close>, \<open>WriteReply\<close> and
  \<open>NvRamParameters\<close>. Those with a count keep it in a local variable, test it against what is left
  of the payload before anything is allocated, and refuse. The field \<^verbatim>\<open>length\<close> is \<open>length'\<close>.
\<close>

section \<open>Records\<close>

definition MAX_SUBSCRIBE_RANGES :: nat where "MAX_SUBSCRIBE_RANGES = 64"
definition MAX_SUBSCRIBE_BYTES :: nat where "MAX_SUBSCRIBE_BYTES = 16 * 1024"
definition MAX_READ_DIRECT_BYTES :: u32 where "MAX_READ_DIRECT_BYTES = 65536"
definition READ_CHUNK_BYTES :: u32 where "READ_CHUNK_BYTES = 256"
definition MAX_WRITE_OPS :: nat where "MAX_WRITE_OPS = 16"

record MemoryRange =
  address :: u32
  length' :: u32

record Subscription =
  ranges :: "MemoryRange list"

record MemoryBlock =
  address :: u32
  bytes :: bytes

record PollReply =
  frame :: u64
  playerRunning :: u8
  blocks :: "MemoryBlock list"

record ReadDirectRequest =
  address :: u32
  length' :: u32

record ReadDirectReply =
  frame :: u64
  address :: u32
  unstableOffsets :: "u32 list"
  bytes :: bytes

record WriteOp =
  address :: u32
  bytes :: bytes

record WriteRequest =
  ops :: "WriteOp list"

record WriteReply =
  frame :: u64
  applied :: u16

record NvRamParameters =
  start :: u32
  length' :: u32
  unlockAddress :: u32
  unlockValue :: u8
  lockValue :: u8

text \<open>The default-constructed element of each vector.\<close>

definition MemoryRange0 :: MemoryRange where "MemoryRange0 = \<lparr>MemoryRange.address = 0, MemoryRange.length' = 0\<rparr>"
definition MemoryBlock0 :: MemoryBlock where "MemoryBlock0 = \<lparr>MemoryBlock.address = 0, MemoryBlock.bytes = []\<rparr>"
definition WriteOp0 :: WriteOp where "WriteOp0 = \<lparr>WriteOp.address = 0, WriteOp.bytes = []\<rparr>"

section \<open>Encode and Decode\<close>

definition Encode_Subscription :: "Subscription \<Rightarrow> bytes" where
  "Encode_Subscription v =
     (if length (ranges v) > 0xFFFF then []
      else w_result (w_seq
        [w_U16 (of_nat (length (ranges v))),
         w_seq (map (\<lambda>range. w_seq
           [w_U32 (MemoryRange.address range),
            w_U32 (MemoryRange.length' range)]) (ranges v))] Writer))"

definition read_Subscription :: "Subscription stmt" where
  "read_Subscription = r_seq
     [r_set (ranges_update (\<lambda>_. [])),
      r_require r_U16 0 (\<lambda>count.
        r_refuse (\<lambda>_ r. r_Remaining r < unat count * 8) (
        r_vector (unat count) MemoryRange0 (r_seq
          [r_field r_U32 MemoryRange.address MemoryRange.address_update,
           r_field r_U32 MemoryRange.length' MemoryRange.length'_update]) ranges_update))]"

definition Decode_Subscription :: "bytes \<Rightarrow> Subscription \<Rightarrow> bool \<times> Subscription" where
  "Decode_Subscription pl out = r_result (\<lambda>_. True) (read_Subscription (out, Reader pl))"

definition Encode_PollReply :: "PollReply \<Rightarrow> bytes" where
  "Encode_PollReply v =
     (if length (blocks v) > 0xFFFF then []
      else w_result (w_seq
        [w_U64 (PollReply.frame v),
         w_U8 (PollReply.playerRunning v),
         w_U16 (of_nat (length (blocks v))),
         w_seq (map (\<lambda>block. w_seq
           [w_U32 (MemoryBlock.address block),
            w_U32 (of_nat (length (MemoryBlock.bytes block))),
            w_Bytes (MemoryBlock.bytes block)]) (blocks v))] Writer))"

definition read_MemoryBlock :: "MemoryBlock stmt" where
  "read_MemoryBlock = r_seq
     [r_field r_U32 MemoryBlock.address MemoryBlock.address_update,
      r_require r_U32 0 (\<lambda>length.
        r_refuse (\<lambda>_ r. unat length > r_Remaining r) (
        r_field (r_Bytes (unat length)) MemoryBlock.bytes MemoryBlock.bytes_update))]"

definition read_PollReply :: "PollReply stmt" where
  "read_PollReply = r_seq
     [r_set (blocks_update (\<lambda>_. [])),
      r_field r_U64 PollReply.frame PollReply.frame_update,
      r_field r_U8 PollReply.playerRunning PollReply.playerRunning_update,
      r_require r_U16 0 (\<lambda>count. r_pushed r_ok MemoryBlock0 read_MemoryBlock (unat count) blocks_update)]"

definition Decode_PollReply :: "bytes \<Rightarrow> PollReply \<Rightarrow> bool \<times> PollReply" where
  "Decode_PollReply pl out = r_result (\<lambda>_. True) (read_PollReply (out, Reader pl))"

definition Encode_ReadDirectRequest :: "ReadDirectRequest \<Rightarrow> bytes" where
  "Encode_ReadDirectRequest v = w_result (w_seq
     [w_U32 (ReadDirectRequest.address v),
      w_U32 (ReadDirectRequest.length' v)] Writer)"

definition Decode_ReadDirectRequest :: "bytes \<Rightarrow> ReadDirectRequest \<Rightarrow> bool \<times> ReadDirectRequest" where
  "Decode_ReadDirectRequest pl out = r_result (\<lambda>_. True) (r_seq
     [r_field r_U32 ReadDirectRequest.address ReadDirectRequest.address_update,
      r_field r_U32 ReadDirectRequest.length' ReadDirectRequest.length'_update] (out, Reader pl))"

definition Encode_ReadDirectReply :: "ReadDirectReply \<Rightarrow> bytes" where
  "Encode_ReadDirectReply v =
     (if length (unstableOffsets v) > 0xFFFF then []
      else w_result (w_seq
        [w_U64 (ReadDirectReply.frame v),
         w_U32 (ReadDirectReply.address v),
         w_U32 (of_nat (length (ReadDirectReply.bytes v))),
         w_U16 (of_nat (length (unstableOffsets v))),
         w_seq (map w_U32 (unstableOffsets v)),
         w_Bytes (ReadDirectReply.bytes v)] Writer))"

definition read_ReadDirectReply :: "ReadDirectReply stmt" where
  "read_ReadDirectReply = r_seq
     [r_set (\<lambda>out. out\<lparr>unstableOffsets := [], ReadDirectReply.bytes := []\<rparr>),
      r_field r_U64 ReadDirectReply.frame ReadDirectReply.frame_update,
      r_field r_U32 ReadDirectReply.address ReadDirectReply.address_update,
      r_local r_U32 0 (\<lambda>length.
        r_require r_U16 0 (\<lambda>unstable.
          r_refuse (\<lambda>_ r. r_Remaining r < unat unstable * 4) (r_seq
          [r_vector (unat unstable) 0 (r_field r_U32 (\<lambda>offset. offset) (\<lambda>f. f)) unstableOffsets_update,
           r_refuse (\<lambda>_ r. \<not> r_ok r \<or> unat length > r_Remaining r) (
           r_field (r_Bytes (unat length)) ReadDirectReply.bytes ReadDirectReply.bytes_update)])))]"

definition Decode_ReadDirectReply :: "bytes \<Rightarrow> ReadDirectReply \<Rightarrow> bool \<times> ReadDirectReply" where
  "Decode_ReadDirectReply pl out = r_result (\<lambda>_. True) (read_ReadDirectReply (out, Reader pl))"

text \<open>
  \<open>Encode\<close> of a \<open>WriteRequest\<close> returns nothing at the first op whose bytes do not fit a 16-bit
  length.
\<close>

definition Encode_WriteRequest :: "WriteRequest \<Rightarrow> bytes" where
  "Encode_WriteRequest v =
     (if length (ops v) > 0xFFFF \<or> (\<exists>op \<in> set (ops v). length (WriteOp.bytes op) > 0xFFFF) then []
      else w_result (w_seq
        [w_U16 (of_nat (length (ops v))),
         w_seq (map (\<lambda>op. w_seq
           [w_U32 (WriteOp.address op),
            w_U16 (of_nat (length (WriteOp.bytes op))),
            w_Bytes (WriteOp.bytes op)]) (ops v))] Writer))"

definition read_WriteOp :: "WriteOp stmt" where
  "read_WriteOp = r_seq
     [r_field r_U32 WriteOp.address WriteOp.address_update,
      r_require r_U16 0 (\<lambda>length.
        r_refuse (\<lambda>_ r. unat length > r_Remaining r) (
        r_field (r_Bytes (unat length)) WriteOp.bytes WriteOp.bytes_update))]"

definition read_WriteRequest :: "WriteRequest stmt" where
  "read_WriteRequest = r_seq
     [r_set (ops_update (\<lambda>_. [])),
      r_require r_U16 0 (\<lambda>count.
        r_refuse (\<lambda>_ r. r_Remaining r < unat count * 6) (
        r_pushed (\<lambda>_. True) WriteOp0 read_WriteOp (unat count) ops_update))]"

definition Decode_WriteRequest :: "bytes \<Rightarrow> WriteRequest \<Rightarrow> bool \<times> WriteRequest" where
  "Decode_WriteRequest pl out = r_result (\<lambda>_. True) (read_WriteRequest (out, Reader pl))"

definition Encode_WriteReply :: "WriteReply \<Rightarrow> bytes" where
  "Encode_WriteReply v = w_result (w_seq
     [w_U64 (WriteReply.frame v),
      w_U16 (WriteReply.applied v)] Writer)"

definition Decode_WriteReply :: "bytes \<Rightarrow> WriteReply \<Rightarrow> bool \<times> WriteReply" where
  "Decode_WriteReply pl out = r_result (\<lambda>_. True) (r_seq
     [r_field r_U64 WriteReply.frame WriteReply.frame_update,
      r_field r_U16 WriteReply.applied WriteReply.applied_update] (out, Reader pl))"

definition Encode_NvRamParameters :: "NvRamParameters \<Rightarrow> bytes" where
  "Encode_NvRamParameters v = w_result (w_seq
     [w_U32 (NvRamParameters.start v),
      w_U32 (NvRamParameters.length' v),
      w_U32 (NvRamParameters.unlockAddress v),
      w_U8 (NvRamParameters.unlockValue v),
      w_U8 (NvRamParameters.lockValue v)] Writer)"

definition Decode_NvRamParameters :: "bytes \<Rightarrow> NvRamParameters \<Rightarrow> bool \<times> NvRamParameters" where
  "Decode_NvRamParameters pl out = r_result (\<lambda>_. True) (r_seq
     [r_field r_U32 NvRamParameters.start NvRamParameters.start_update,
      r_field r_U32 NvRamParameters.length' NvRamParameters.length'_update,
      r_field r_U32 NvRamParameters.unlockAddress NvRamParameters.unlockAddress_update,
      r_field r_U8 NvRamParameters.unlockValue NvRamParameters.unlockValue_update,
      r_field r_U8 NvRamParameters.lockValue NvRamParameters.lockValue_update] (out, Reader pl))"

section \<open>The codecs keep their contract\<close>

interpretation read_direct_request: payload_codec Encode_ReadDirectRequest Decode_ReadDirectRequest "\<lambda>_. True"
  unfolding Encode_ReadDirectRequest_def [abs_def] Decode_ReadDirectRequest_def [abs_def]
  by (rule payload_blockI, (rule emits_intros)+, rule takes_eq, (rule takes_intros | simp)+)

interpretation write_reply: payload_codec Encode_WriteReply Decode_WriteReply "\<lambda>_. True"
  unfolding Encode_WriteReply_def [abs_def] Decode_WriteReply_def [abs_def]
  by (rule payload_blockI, (rule emits_intros)+, rule takes_eq, (rule takes_intros | simp)+)

interpretation nvram: payload_codec Encode_NvRamParameters Decode_NvRamParameters "\<lambda>_. True"
  unfolding Encode_NvRamParameters_def [abs_def] Decode_NvRamParameters_def [abs_def]
  by (rule payload_blockI, (rule emits_intros)+, rule takes_eq, (rule takes_intros | simp)+)

definition range_bytes :: "MemoryRange \<Rightarrow> bytes" where
  "range_bytes mr = le32 (MemoryRange.address mr) @ le32 (MemoryRange.length' mr) @ []"

lemma length_range_bytes [simp]: "length (concat (map range_bytes rs)) = 8 * length rs"
  by (induction rs) (simp_all add: range_bytes_def)

lemma emits_ranges:
  "emits (w_seq (map (\<lambda>mr. w_seq [w_U32 (MemoryRange.address mr), w_U32 (MemoryRange.length' mr)]) rs))
     (concat (map range_bytes rs)) True"
  by (rule emits_eq, rule emits_foreach, (rule emits_intros)+) (simp_all add: range_bytes_def [abs_def])

lemma takes_range:
  "takes (r_seq [r_field r_U32 MemoryRange.address MemoryRange.address_update,
     r_field r_U32 MemoryRange.length' MemoryRange.length'_update]) out (range_bytes mr) mr"
  unfolding range_bytes_def by (rule takes_eq, (rule takes_intros)+) simp

interpretation subscription: payload_codec Encode_Subscription Decode_Subscription "\<lambda>_. True"
proof (rule payload_codecI [where st = read_Subscription and chk = "\<lambda>_. True"])
  let ?body = "\<lambda>v. w_seq [w_U16 (of_nat (length (ranges v))), w_seq (map (\<lambda>mr. w_seq
           [w_U32 (MemoryRange.address mr), w_U32 (MemoryRange.length' mr)]) (ranges v))]"
  let ?bs = "\<lambda>v. [] @ (le16 (of_nat (length (ranges v))) @ concat (map range_bytes (ranges v))) @ []"
  show "emits (?body v) (?bs v) True" for v
    by (rule emits_eq, (rule emits_intros emits_ranges)+) simp_all
  show "takes read_Subscription out (?bs v) v" if "length (ranges v) \<le> 0xFFFF" for v out
    unfolding read_Subscription_def
    apply (rule takes_eq)
     apply (rule takes_seq_Cons, rule takes_set, rule takes_seq_Cons)
      apply (rule f16.require_takes [OF TrueI])
      apply (rule takes_refuse)
    using that apply (simp add: unat_of_nat_u16)
      apply (rule takes_vector)
    using that apply (simp add: unat_of_nat_u16)
       apply (rule takes_range)
      apply (erule takesD(3) [OF takes_range])
     apply (rule takes_seq_Nil)
    apply simp
    done
  show "Encode_Subscription v = (if length (ranges v) \<le> 0xFFFF then w_result (?body v Writer) else [])" for v
    by (simp add: Encode_Subscription_def)
qed (simp_all add: Decode_Subscription_def)

subsection \<open>PollReply\<close>

definition block_bytes :: "MemoryBlock \<Rightarrow> bytes" where
  "block_bytes b = le32 (MemoryBlock.address b) @ (le32 (of_nat (length (MemoryBlock.bytes b))) @ MemoryBlock.bytes b) @ []"

lemma emits_blocks:
  "emits (w_seq (map (\<lambda>b. w_seq [w_U32 (MemoryBlock.address b), w_U32 (of_nat (length (MemoryBlock.bytes b))),
     w_Bytes (MemoryBlock.bytes b)]) bs)) (concat (map block_bytes bs)) True"
  by (rule emits_eq, rule emits_foreach, (rule emits_intros)+) (simp_all add: block_bytes_def [abs_def])

lemma takes_block:
  assumes "length (MemoryBlock.bytes b) < 2 ^ 32"
  shows "takes read_MemoryBlock MemoryBlock0 (block_bytes b) b"
proof -
  have n: "unat (of_nat (length (MemoryBlock.bytes b)) :: u32) = length (MemoryBlock.bytes b)"
    using assms by (intro unat_of_nat_u32) simp
  show ?thesis
    unfolding read_MemoryBlock_def block_bytes_def
    by (rule takes_eq, rule takes_seq_Cons, rule takes_intros, rule takes_seq_Cons, rule f32.require_takes [OF TrueI],
        rule takes_refuse, simp add: n, rule takes_Bytes, rule n, rule takes_seq_Nil, simp)
qed

lemma read_MemoryBlock_bad: "\<not> r_ok r \<Longrightarrow> r_bad (read_MemoryBlock (out, r))"
  using takesD(3) [OF takes_block [of MemoryBlock0]] by (simp add: MemoryBlock0_def)

lemma length_concat_ge: "x \<in> set xs \<Longrightarrow> length (f x) \<le> length (concat (map f xs))"
  by (induction xs) auto

interpretation poll_reply: payload_codec Encode_PollReply Decode_PollReply "\<lambda>_. True"
proof (rule payload_codecI [where st = read_PollReply and chk = "\<lambda>_. True"])
  let ?body = "\<lambda>v. w_seq [w_U64 (PollReply.frame v), w_U8 (PollReply.playerRunning v), w_U16 (of_nat (length (blocks v))),
     w_seq (map (\<lambda>b. w_seq [w_U32 (MemoryBlock.address b), w_U32 (of_nat (length (MemoryBlock.bytes b))),
     w_Bytes (MemoryBlock.bytes b)]) (blocks v))]"
  let ?bs = "\<lambda>v. [] @ le64 (PollReply.frame v) @ [PollReply.playerRunning v]
     @ (le16 (of_nat (length (blocks v))) @ concat (map block_bytes (blocks v))) @ []"
  show "emits (?body v) (?bs v) True" for v
    by (rule emits_eq, (rule emits_intros emits_blocks)+) simp_all
  show "takes read_PollReply out (?bs v) v"
    if "length (blocks v) \<le> 0xFFFF" "length (?bs v) \<le> MAX_PAYLOAD_BYTES" for v out
  proof -
    have n: "unat (of_nat (length (blocks v)) :: u16) = length (blocks v)"
      using that(1) by (simp add: unat_of_nat_u16)
    have el: "length (MemoryBlock.bytes b) < 2 ^ 32" if "b \<in> set (blocks v)" for b
      using length_concat_ge [OF that, of block_bytes] \<open>length (?bs v) \<le> MAX_PAYLOAD_BYTES\<close>
      by (simp add: block_bytes_def bound_defs)
    show ?thesis
      unfolding read_PollReply_def
      by (rule takes_eq, rule takes_seq_Cons, rule takes_set, rule takes_seq_Cons, rule takes_intros,
          rule takes_seq_Cons, rule takes_intros, rule takes_seq_Cons, rule f16.require_takes [OF TrueI],
          rule takes_pushed, rule n, rule takes_block, erule el, simp, erule read_MemoryBlock_bad,
          rule takes_seq_Nil, simp)
  qed
  show "Encode_PollReply v = (if length (blocks v) \<le> 0xFFFF then w_result (?body v Writer) else [])" for v
    by (simp add: Encode_PollReply_def)
qed (simp_all add: Decode_PollReply_def)

subsection \<open>WriteRequest\<close>

definition write_bytes :: "WriteOp \<Rightarrow> bytes" where
  "write_bytes b = le32 (WriteOp.address b) @ (le16 (of_nat (length (WriteOp.bytes b))) @ WriteOp.bytes b) @ []"

lemma emits_writes:
  "emits (w_seq (map (\<lambda>b. w_seq [w_U32 (WriteOp.address b), w_U16 (of_nat (length (WriteOp.bytes b))),
     w_Bytes (WriteOp.bytes b)]) bs)) (concat (map write_bytes bs)) True"
  by (rule emits_eq, rule emits_foreach, (rule emits_intros)+) (simp_all add: write_bytes_def [abs_def])

lemma takes_write:
  assumes "length (WriteOp.bytes b) \<le> 0xFFFF"
  shows "takes read_WriteOp WriteOp0 (write_bytes b) b"
proof -
  have n: "unat (of_nat (length (WriteOp.bytes b)) :: u16) = length (WriteOp.bytes b)"
    using assms by (intro unat_of_nat_u16) simp
  show ?thesis
    unfolding read_WriteOp_def write_bytes_def
    by (rule takes_eq, rule takes_seq_Cons, rule takes_intros, rule takes_seq_Cons, rule f16.require_takes [OF TrueI],
        rule takes_refuse, simp add: n, rule takes_Bytes, rule n, rule takes_seq_Nil, simp)
qed

lemma read_WriteOp_bad: "\<not> r_ok r \<Longrightarrow> r_bad (read_WriteOp (out, r))"
  using takesD(3) [OF takes_write [of WriteOp0]] by (simp add: WriteOp0_def)

lemma length_write_bytes: "6 * length bs \<le> length (concat (map write_bytes bs))"
  by (induction bs) (simp_all add: write_bytes_def)

interpretation write_request: payload_codec Encode_WriteRequest Decode_WriteRequest "\<lambda>_. True"
proof (rule payload_codecI [where st = read_WriteRequest and chk = "\<lambda>_. True"])
  let ?body = "\<lambda>v. w_seq [w_U16 (of_nat (length (ops v))),
     w_seq (map (\<lambda>b. w_seq [w_U32 (WriteOp.address b), w_U16 (of_nat (length (WriteOp.bytes b))),
     w_Bytes (WriteOp.bytes b)]) (ops v))]"
  let ?bs = "\<lambda>v. [] @ (le16 (of_nat (length (ops v))) @ concat (map write_bytes (ops v))) @ []"
  let ?sendable = "\<lambda>v. length (ops v) \<le> 0xFFFF \<and> (\<forall>b \<in> set (ops v). length (WriteOp.bytes b) \<le> 0xFFFF)"
  show "emits (?body v) (?bs v) True" for v
    by (rule emits_eq, (rule emits_intros emits_writes)+) simp_all
  show "takes read_WriteRequest out (?bs v) v" if "?sendable v" for v out
  proof -
    have n: "unat (of_nat (length (ops v)) :: u16) = length (ops v)"
      using that by (simp add: unat_of_nat_u16)
    show ?thesis
      unfolding read_WriteRequest_def
      by (rule takes_eq, rule takes_seq_Cons, rule takes_set, rule takes_seq_Cons, rule f16.require_takes [OF TrueI],
          rule takes_refuse, use length_write_bytes [of "ops v"] in \<open>simp add: n\<close>,
          rule takes_pushed, rule n, rule takes_write, use that in blast, simp, erule read_WriteOp_bad,
          rule takes_seq_Nil, simp)
  qed
  show "Encode_WriteRequest v = (if ?sendable v then w_result (?body v Writer) else [])" for v
    by (auto simp: Encode_WriteRequest_def not_less)
qed (simp_all add: Decode_WriteRequest_def)

subsection \<open>ReadDirectReply\<close>

lemma takes_offset: "takes (r_field r_U32 (\<lambda>offset. offset) (\<lambda>f. f)) out (le32 x) x"
  using f32.field_takes [OF TrueI, of "\<lambda>offset. offset" "\<lambda>f. f" out x] by simp

lemma length_offsets [simp]: "length (concat (map le32 xs)) = 4 * length xs"
  by (induction xs) simp_all

interpretation read_direct_reply: payload_codec Encode_ReadDirectReply Decode_ReadDirectReply "\<lambda>_. True"
proof (rule payload_codecI [where st = read_ReadDirectReply and chk = "\<lambda>_. True"])
  let ?body = "\<lambda>v. w_seq [w_U64 (ReadDirectReply.frame v), w_U32 (ReadDirectReply.address v),
     w_U32 (of_nat (length (ReadDirectReply.bytes v))), w_U16 (of_nat (length (unstableOffsets v))),
     w_seq (map w_U32 (unstableOffsets v)), w_Bytes (ReadDirectReply.bytes v)]"
  let ?bs = "\<lambda>v. [] @ le64 (ReadDirectReply.frame v) @ le32 (ReadDirectReply.address v)
     @ (le32 (of_nat (length (ReadDirectReply.bytes v))) @ le16 (of_nat (length (unstableOffsets v)))
        @ concat (map le32 (unstableOffsets v)) @ ReadDirectReply.bytes v @ []) @ []"
  show "emits (?body v) (?bs v) True" for v
    by (rule emits_eq, (rule emits_intros | rule emits_foreach)+) simp_all
  show "takes read_ReadDirectReply out (?bs v) v"
    if "length (unstableOffsets v) \<le> 0xFFFF" "length (?bs v) \<le> MAX_PAYLOAD_BYTES" for v out
  proof -
    have n: "unat (of_nat (length (unstableOffsets v)) :: u16) = length (unstableOffsets v)"
      using that(1) by (simp add: unat_of_nat_u16)
    have m: "unat (of_nat (length (ReadDirectReply.bytes v)) :: u32) = length (ReadDirectReply.bytes v)"
      using that(2) by (intro unat_of_nat_u32) (simp add: bound_defs)
    show ?thesis
      unfolding read_ReadDirectReply_def
      apply (rule takes_eq)
      apply (rule takes_seq_Cons, rule takes_set, rule takes_seq_Cons, rule takes_intros,
          rule takes_seq_Cons, rule takes_intros, rule takes_seq_Cons, rule f32.local_takes [OF TrueI],
          rule f16.require_takes [OF TrueI], rule takes_refuse)
      apply (simp add: n)
      apply (rule takes_seq_Cons, rule takes_vector, rule n, rule takes_offset, erule takesD(3) [OF takes_offset])
      apply (rule takes_seq_Cons, rule takes_refuse, simp add: m, rule takes_Bytes, rule m, rule takes_seq_Nil)
      apply (simp add: r_require_def r_failed)
      apply (rule takes_seq_Nil, simp)
      done
  qed
  show "Encode_ReadDirectReply v = (if length (unstableOffsets v) \<le> 0xFFFF then w_result (?body v Writer) else [])" for v
    by (simp add: Encode_ReadDirectReply_def)
qed (simp_all add: Decode_ReadDirectReply_def)

end
