(* ===== verification/Wire_ReadBack.thy ===== *)
theory Wire_ReadBack
  imports Wire_Codec
begin

text \<open>
  The read-back payloads, in the order of \<^verbatim>\<open>src/WireProtocol.cpp\<close>: \<open>TopScoresRequest\<close>, \<open>TopScores\<close>,
  \<open>Players\<close> and \<open>PlayerPicture\<close>, the validity rules both directions apply, the sensitive spans of
  claim deeplinks and picture paths, and \<open>ReceivedSensitive\<close>, which decides what of a received
  frame a dump may show. A score is the word that holds its two's complement.
\<close>

section \<open>Records\<close>

abbreviation (input) SCOPE_MACHINE :: u8 where "SCOPE_MACHINE \<equiv> 0"
abbreviation (input) SCOPE_VARIANT :: u8 where "SCOPE_VARIANT \<equiv> 1"
abbreviation (input) SCOPE_GAME :: u8 where "SCOPE_GAME \<equiv> 2"
abbreviation (input) PERIOD_ALL_TIME :: u8 where "PERIOD_ALL_TIME \<equiv> 0"
abbreviation (input) PERIOD_DAYS_365 :: u8 where "PERIOD_DAYS_365 \<equiv> 5"
abbreviation (input) VPIN_ANY :: u8 where "VPIN_ANY \<equiv> 0"
abbreviation (input) VPIN_REAL_ONLY :: u8 where "VPIN_REAL_ONLY \<equiv> 2"
abbreviation (input) TOP_SCORES_OK :: u8 where "TOP_SCORES_OK \<equiv> 0"
abbreviation (input) TOP_SCORES_NOT_PAIRED :: u8 where "TOP_SCORES_NOT_PAIRED \<equiv> 1"
abbreviation (input) TOP_SCORES_API_ERROR :: u8 where "TOP_SCORES_API_ERROR \<equiv> 2"
abbreviation (input) TOP_SCORES_FAILED :: u8 where "TOP_SCORES_FAILED \<equiv> 3"
abbreviation (input) TOP_SCORES_SUPERSEDED :: u8 where "TOP_SCORES_SUPERSEDED \<equiv> 4"

definition MAX_TOP_SCORES :: u8 where "MAX_TOP_SCORES = 20"
definition MAX_SINCE_BYTES :: nat where "MAX_SINCE_BYTES = 32"
definition MAX_NAME_BYTES :: nat where "MAX_NAME_BYTES = 64"
definition MAX_INITIALS_BYTES :: nat where "MAX_INITIALS_BYTES = 8"
definition MAX_CREATED_BYTES :: nat where "MAX_CREATED_BYTES = 32"
definition MAX_CLAIM_DEEPLINK_BYTES :: nat where "MAX_CLAIM_DEEPLINK_BYTES = 512"
definition MAX_PLAYERS :: u8 where "MAX_PLAYERS = 9"

lemmas read_back_bounds = MAX_TOP_SCORES_def MAX_SINCE_BYTES_def MAX_NAME_BYTES_def MAX_INITIALS_BYTES_def
  MAX_CREATED_BYTES_def MAX_CLAIM_DEEPLINK_BYTES_def MAX_PLAYERS_def

record TopScoresRequest =
  requestId :: u32
  scope :: u8
  period :: u8
  vpinFilter :: u8
  limit :: u8
  since :: string

record TopScoreEntry =
  rank :: u16
  highScore :: u64
  displayName :: string
  initials :: string
  scoreFlags :: u8
  created :: string

record TopScores =
  requestId :: u32
  scoresResult :: u8
  ageS :: u32
  entries :: "TopScoreEntry list"

record PlayerSlot =
  player :: u8
  playerId :: string
  preferredName :: string
  playerName :: string
  initials :: string
  claimDeeplink :: string

record Players =
  slots :: "PlayerSlot list"

record PlayerPicture =
  player :: u8
  playerId :: string
  picturePath :: string

definition TopScoresRequest0 :: TopScoresRequest where
  "TopScoresRequest0 = \<lparr>TopScoresRequest.requestId = 0, scope = SCOPE_MACHINE, period = PERIOD_ALL_TIME,
     vpinFilter = VPIN_ANY, limit = 10, since = []\<rparr>"

definition TopScoreEntry0 :: TopScoreEntry where
  "TopScoreEntry0 = \<lparr>rank = 0, highScore = 0, displayName = [], TopScoreEntry.initials = [], scoreFlags = 0, created = []\<rparr>"

definition TopScores0 :: TopScores where
  "TopScores0 = \<lparr>TopScores.requestId = 0, scoresResult = TOP_SCORES_OK, ageS = 0, entries = []\<rparr>"

definition PlayerSlot0 :: PlayerSlot where
  "PlayerSlot0 = \<lparr>PlayerSlot.player = 0, PlayerSlot.playerId = [], preferredName = [], playerName = [],
     PlayerSlot.initials = [], claimDeeplink = []\<rparr>"

definition Players0 :: Players where "Players0 = \<lparr>slots = []\<rparr>"

definition PlayerPicture0 :: PlayerPicture where
  "PlayerPicture0 = \<lparr>PlayerPicture.player = 0, PlayerPicture.playerId = [], picturePath = []\<rparr>"

section \<open>Validity\<close>

definition ValidRequest :: "TopScoresRequest \<Rightarrow> bool" where
  "ValidRequest v \<longleftrightarrow> scope v \<le> SCOPE_GAME \<and> period v \<le> PERIOD_DAYS_365 \<and> vpinFilter v \<le> VPIN_REAL_ONLY
     \<and> limit v \<ge> 1 \<and> limit v \<le> MAX_TOP_SCORES \<and> length (since v) \<le> MAX_SINCE_BYTES"

definition ValidTopScores :: "TopScores \<Rightarrow> bool" where
  "ValidTopScores v =
     (if scoresResult v > TOP_SCORES_SUPERSEDED \<or> length (entries v) > unat MAX_TOP_SCORES then False
      else if scoresResult v \<noteq> TOP_SCORES_OK \<and> entries v \<noteq> [] then False
      else \<not> (\<exists>e \<in> set (entries v). length (displayName e) > MAX_NAME_BYTES
                 \<or> length (TopScoreEntry.initials e) > MAX_INITIALS_BYTES \<or> length (created e) > MAX_CREATED_BYTES))"

text \<open>The loop of \<open>ValidPlayers\<close>, with the last player number it saw.\<close>

fun valid_slots_after :: "u8 \<Rightarrow> PlayerSlot list \<Rightarrow> bool" where
  "valid_slots_after prev [] = True"
| "valid_slots_after prev (s # ss) =
     (if PlayerSlot.player s \<le> prev \<or> PlayerSlot.player s > MAX_PLAYERS then False
      else if length (preferredName s) > MAX_NAME_BYTES \<or> length (playerName s) > MAX_NAME_BYTES
              \<or> length (PlayerSlot.initials s) > MAX_INITIALS_BYTES
              \<or> length (claimDeeplink s) > MAX_CLAIM_DEEPLINK_BYTES then False
      else valid_slots_after (PlayerSlot.player s) ss)"

definition ValidPlayers :: "Players \<Rightarrow> bool" where
  "ValidPlayers v = (if length (slots v) > unat MAX_PLAYERS then False else valid_slots_after 0 (slots v))"

definition ValidPicture :: "PlayerPicture \<Rightarrow> bool" where
  "ValidPicture v \<longleftrightarrow> PlayerPicture.player v \<ge> 1 \<and> PlayerPicture.player v \<le> MAX_PLAYERS"

definition Span :: "SensitiveSpan list \<Rightarrow> nat \<Rightarrow> string \<Rightarrow> SensitiveSpan list" where
  "Span sensitive prefixAt v =
     (if v \<noteq> [] then sensitive @ [\<lparr>span_offset = prefixAt + 2, span_length = length v\<rparr>] else sensitive)"

section \<open>Encode and Decode\<close>

definition Encode_TopScoresRequest :: "TopScoresRequest \<Rightarrow> bytes" where
  "Encode_TopScoresRequest v =
     (if \<not> ValidRequest v then []
      else w_result (w_seq
        [w_U32 (TopScoresRequest.requestId v),
         w_U8 (scope v),
         w_U8 (period v),
         w_U8 (vpinFilter v),
         w_U8 (limit v),
         w_Str (since v)] Writer))"

definition read_TopScoresRequest :: "TopScoresRequest stmt" where
  "read_TopScoresRequest = r_seq
     [r_field r_U32 TopScoresRequest.requestId TopScoresRequest.requestId_update,
      r_field r_U8 scope scope_update,
      r_field r_U8 period period_update,
      r_field r_U8 vpinFilter vpinFilter_update,
      r_field r_U8 limit limit_update,
      r_field r_Str since since_update]"

definition Decode_TopScoresRequest :: "bytes \<Rightarrow> TopScoresRequest \<Rightarrow> bool \<times> TopScoresRequest" where
  "Decode_TopScoresRequest pl out = r_result ValidRequest (read_TopScoresRequest (out, Reader pl))"

definition w_TopScoreEntry :: "TopScoreEntry \<Rightarrow> (writer \<Rightarrow> writer) list" where
  "w_TopScoreEntry e =
     [w_U16 (rank e),
      w_U64 (highScore e),
      w_Str (displayName e),
      w_Str (TopScoreEntry.initials e),
      w_U8 (scoreFlags e),
      w_Str (created e)]"

definition Encode_TopScores :: "TopScores \<Rightarrow> bytes" where
  "Encode_TopScores v =
     (if \<not> ValidTopScores v then []
      else w_result (w_seq
        [w_U32 (TopScores.requestId v),
         w_U8 (scoresResult v),
         w_U32 (ageS v),
         w_U8 (of_nat (length (entries v))),
         w_seq (map (\<lambda>e. w_seq (w_TopScoreEntry e)) (entries v))] Writer))"

definition read_TopScoreEntry :: "TopScoreEntry stmt" where
  "read_TopScoreEntry = r_seq
     [r_field r_U16 rank rank_update,
      r_local r_U64 0 (\<lambda>score. r_seq
        [r_set (highScore_update (\<lambda>_. score)),
         r_field r_Str displayName displayName_update,
         r_field r_Str TopScoreEntry.initials TopScoreEntry.initials_update,
         r_field r_U8 scoreFlags scoreFlags_update,
         r_field r_Str created created_update])]"

definition read_TopScores :: "TopScores stmt" where
  "read_TopScores = r_seq
     [r_set (entries_update (\<lambda>_. [])),
      r_field r_U32 TopScores.requestId TopScores.requestId_update,
      r_field r_U8 scoresResult scoresResult_update,
      r_field r_U32 ageS ageS_update,
      r_require r_U8 0 (\<lambda>count.
        r_refuse (\<lambda>_ _. count > MAX_TOP_SCORES) (
        r_vector (unat count) TopScoreEntry0 read_TopScoreEntry entries_update))]"

definition Decode_TopScores :: "bytes \<Rightarrow> TopScores \<Rightarrow> bool \<times> TopScores" where
  "Decode_TopScores pl out = r_result ValidTopScores (read_TopScores (out, Reader pl))"

text \<open>
  \<open>Players\<close> and \<open>PlayerPicture\<close> report the spans of their sensitive strings in both directions; a
  caller that passes no vector drops the result.
\<close>

fun encode_slots :: "PlayerSlot list \<Rightarrow> writer \<times> SensitiveSpan list \<Rightarrow> writer \<times> SensitiveSpan list" where
  "encode_slots [] s = s"
| "encode_slots (s # ss) (w, sensitive) =
     (let w = w_seq
        [w_U8 (PlayerSlot.player s),
         w_Str (PlayerSlot.playerId s),
         w_Str (preferredName s),
         w_Str (playerName s),
         w_Str (PlayerSlot.initials s)] w
      in encode_slots ss (w_Str (claimDeeplink s) w, Span sensitive (length (w_data w)) (claimDeeplink s)))"

definition Encode_Players :: "Players \<Rightarrow> bytes \<times> SensitiveSpan list" where
  "Encode_Players v =
     (if \<not> ValidPlayers v then ([], [])
      else case encode_slots (slots v) (w_U8 (of_nat (length (slots v))) Writer, []) of (w, sensitive) \<Rightarrow>
        if \<not> w_ok w then ([], []) else (w_data w, sensitive))"

definition read_slot_head :: "PlayerSlot stmt" where
  "read_slot_head = r_seq
     [r_field r_U8 PlayerSlot.player PlayerSlot.player_update,
      r_field r_Str PlayerSlot.playerId PlayerSlot.playerId_update,
      r_field r_Str preferredName preferredName_update,
      r_field r_Str playerName playerName_update,
      r_field r_Str PlayerSlot.initials PlayerSlot.initials_update]"

fun decode_slots :: "PlayerSlot list \<Rightarrow> SensitiveSpan list \<Rightarrow> reader \<Rightarrow> PlayerSlot list \<times> SensitiveSpan list \<times> reader" where
  "decode_slots [] sensitive r = ([], sensitive, r)"
| "decode_slots (s # ss) sensitive r =
     (case read_slot_head (s, r) of (_, s1, r1) \<Rightarrow>
      case r_Str (claimDeeplink s1) r1 of (ok, v, r2) \<Rightarrow>
      case decode_slots ss (if ok then Span sensitive (r_pos r1) v else sensitive) r2 of (ss', sensitive', r3) \<Rightarrow>
        (s1\<lparr>claimDeeplink := v\<rparr> # ss', sensitive', r3))"

definition Decode_Players :: "bytes \<Rightarrow> Players \<Rightarrow> bool \<times> Players \<times> SensitiveSpan list" where
  "Decode_Players pl out =
     (case r_U8 0 (Reader pl) of (ok, count, r) \<Rightarrow>
        if \<not> ok \<or> count > MAX_PLAYERS then (False, out\<lparr>slots := []\<rparr>, [])
        else case decode_slots (replicate (unat count) PlayerSlot0) [] r of (ss, sensitive, r') \<Rightarrow>
          (r_ok r' \<and> ValidPlayers (out\<lparr>slots := ss\<rparr>), out\<lparr>slots := ss\<rparr>, sensitive))"

definition Encode_PlayerPicture :: "PlayerPicture \<Rightarrow> bytes \<times> SensitiveSpan list" where
  "Encode_PlayerPicture v =
     (if \<not> ValidPicture v then ([], [])
      else let w = w_seq [w_U8 (PlayerPicture.player v), w_Str (PlayerPicture.playerId v)] Writer;
               w' = w_Str (picturePath v) w
           in if \<not> w_ok w' then ([], []) else (w_data w', Span [] (length (w_data w)) (picturePath v)))"

definition Decode_PlayerPicture :: "bytes \<Rightarrow> PlayerPicture \<Rightarrow> bool \<times> PlayerPicture \<times> SensitiveSpan list" where
  "Decode_PlayerPicture pl out =
     (case r_seq [r_field r_U8 PlayerPicture.player PlayerPicture.player_update,
                  r_field r_Str PlayerPicture.playerId PlayerPicture.playerId_update] (out, Reader pl) of (_, out1, r1) \<Rightarrow>
      case r_Str (picturePath out1) r1 of (ok, v, r2) \<Rightarrow>
        (r_ok r2 \<and> ValidPicture (out1\<lparr>picturePath := v\<rparr>), out1\<lparr>picturePath := v\<rparr>,
         if ok then Span [] (r_pos r1) v else []))"

definition ReceivedSensitive :: "message \<Rightarrow> SensitiveSpan list" where
  "ReceivedSensitive msg =
     (if IsResponse (m_header msg) \<or> m_payload msg = [] then []
      else let (decoded, spans) =
        (if h_type (m_header msg) = TYPE_PLAYERS
         then (case Decode_Players (m_payload msg) Players0 of (decoded, _, spans) \<Rightarrow> (decoded, spans))
         else if h_type (m_header msg) = TYPE_PLAYER_PICTURE
         then (case Decode_PlayerPicture (m_payload msg) PlayerPicture0 of (decoded, _, spans) \<Rightarrow> (decoded, spans))
         else (True, []))
      in if \<not> decoded then [\<lparr>span_offset = 0, span_length = length (m_payload msg)\<rparr>] else spans)"

section \<open>The codecs keep their contract\<close>

interpretation top_scores_request: payload_codec Encode_TopScoresRequest Decode_TopScoresRequest "\<lambda>_. True"
proof (rule payload_codecI [where st = read_TopScoresRequest and chk = ValidRequest and sendable = ValidRequest])
  let ?body = "\<lambda>v. w_seq [w_U32 (TopScoresRequest.requestId v), w_U8 (scope v), w_U8 (period v), w_U8 (vpinFilter v),
     w_U8 (limit v), w_Str (since v)]"
  let ?bs = "\<lambda>v. le32 (TopScoresRequest.requestId v) @ [scope v] @ [period v] @ [vpinFilter v] @ [limit v]
     @ str_bytes (since v) @ []"
  show "emits (?body v) (?bs v) (length (since v) \<le> 0xFFFF)" for v
    by (rule emits_eq, (rule emits_intros)+) simp_all
  show "takes read_TopScoresRequest out (?bs v) v" if "length (since v) \<le> 0xFFFF" for v out
    unfolding read_TopScoresRequest_def using that by - (rule takes_eq, (rule takes_intros | simp)+)
qed (simp_all add: Encode_TopScoresRequest_def Decode_TopScoresRequest_def)

subsection \<open>TopScores\<close>

definition entry_bytes :: "TopScoreEntry \<Rightarrow> bytes" where
  "entry_bytes e = le16 (rank e) @ (le64 (highScore e) @ [] @ str_bytes (displayName e) @ str_bytes (TopScoreEntry.initials e)
     @ [scoreFlags e] @ str_bytes (created e) @ []) @ []"

definition entry_fits :: "TopScoreEntry \<Rightarrow> bool" where
  "entry_fits e \<longleftrightarrow> length (displayName e) \<le> 0xFFFF \<and> length (TopScoreEntry.initials e) \<le> 0xFFFF \<and> length (created e) \<le> 0xFFFF"

lemma emits_entries:
  "emits (w_seq (map (\<lambda>e. w_seq (w_TopScoreEntry e)) es)) (concat (map entry_bytes es)) (\<forall>e \<in> set es. entry_fits e)"
proof (rule emits_foreach)
  show "emits (w_seq (w_TopScoreEntry e)) (entry_bytes e) (entry_fits e)" for e
    unfolding w_TopScoreEntry_def entry_bytes_def entry_fits_def by (rule emits_eq, (rule emits_intros)+) simp_all
qed

lemma takes_entry:
  assumes "entry_fits e"
  shows "takes read_TopScoreEntry out (entry_bytes e) e"
  using assms unfolding read_TopScoreEntry_def entry_bytes_def entry_fits_def
  by - (rule takes_eq, rule takes_seq_Cons, rule takes_intros, rule takes_seq_Cons, rule f64.local_takes [OF TrueI],
        rule takes_seq_Cons, rule takes_set, (rule takes_intros | simp add: r_seq.simps r_field_def r_set_def r_failed)+)

lemma read_TopScoreEntry_bad: "\<not> r_ok r \<Longrightarrow> r_bad (read_TopScoreEntry (e, r))"
  using takesD(3) [OF takes_entry [of TopScoreEntry0]] by (simp add: TopScoreEntry0_def entry_fits_def)

interpretation top_scores: payload_codec Encode_TopScores Decode_TopScores "\<lambda>_. True"
proof (rule payload_codecI [where st = read_TopScores and chk = ValidTopScores and sendable = ValidTopScores])
  let ?body = "\<lambda>v. w_seq [w_U32 (TopScores.requestId v), w_U8 (scoresResult v), w_U32 (ageS v), w_U8 (of_nat (length (entries v))),
     w_seq (map (\<lambda>e. w_seq (w_TopScoreEntry e)) (entries v))]"
  let ?bs = "\<lambda>v. [] @ le32 (TopScores.requestId v) @ [scoresResult v] @ le32 (ageS v)
     @ ([of_nat (length (entries v))] @ concat (map entry_bytes (entries v))) @ []"
  show "emits (?body v) (?bs v) (\<forall>e \<in> set (entries v). entry_fits e)" for v
    by (rule emits_eq, (rule emits_intros emits_entries)+) simp_all
  show "takes read_TopScores out (?bs v) v" if fits: "\<forall>e \<in> set (entries v). entry_fits e" and "ValidTopScores v" for v out
  proof -
    from that(2) have "length (entries v) \<le> 20"
      by (simp add: ValidTopScores_def MAX_TOP_SCORES_def split: if_splits)
    then have n: "unat (of_nat (length (entries v)) :: u8) = length (entries v)" by (simp add: unat_of_nat_u8)
    then have le: "\<not> (of_nat (length (entries v)) :: u8) > MAX_TOP_SCORES"
      using \<open>length (entries v) \<le> 20\<close> by (simp add: word_less_nat_alt MAX_TOP_SCORES_def)
    show ?thesis
      unfolding read_TopScores_def
      by (rule takes_eq, rule takes_seq_Cons, rule takes_set, rule takes_seq_Cons, rule takes_intros,
          rule takes_seq_Cons, rule takes_intros, rule takes_seq_Cons, rule takes_intros, rule takes_seq_Cons,
          rule f8.require_takes [OF TrueI], rule takes_refuse, rule le, rule takes_vector, rule n, rule takes_entry,
          use fits in blast, erule read_TopScoreEntry_bad, rule takes_seq_Nil, simp)
  qed
qed (simp_all add: Encode_TopScores_def Decode_TopScores_def)

subsection \<open>Players\<close>

definition w_slot :: "PlayerSlot \<Rightarrow> (writer \<Rightarrow> writer) list" where
  "w_slot s = [w_U8 (PlayerSlot.player s), w_Str (PlayerSlot.playerId s), w_Str (preferredName s), w_Str (playerName s),
     w_Str (PlayerSlot.initials s), w_Str (claimDeeplink s)]"

definition slot_bytes :: "PlayerSlot \<Rightarrow> bytes" where
  "slot_bytes s = [PlayerSlot.player s] @ str_bytes (PlayerSlot.playerId s) @ str_bytes (preferredName s)
     @ str_bytes (playerName s) @ str_bytes (PlayerSlot.initials s) @ str_bytes (claimDeeplink s) @ []"

definition slot_fits :: "PlayerSlot \<Rightarrow> bool" where
  "slot_fits s \<longleftrightarrow> length (PlayerSlot.playerId s) \<le> 0xFFFF \<and> length (preferredName s) \<le> 0xFFFF
     \<and> length (playerName s) \<le> 0xFFFF \<and> length (PlayerSlot.initials s) \<le> 0xFFFF \<and> length (claimDeeplink s) \<le> 0xFFFF"

definition read_slot :: "PlayerSlot stmt" where
  "read_slot = r_seq
     [r_field r_U8 PlayerSlot.player PlayerSlot.player_update,
      r_field r_Str PlayerSlot.playerId PlayerSlot.playerId_update,
      r_field r_Str preferredName preferredName_update,
      r_field r_Str playerName playerName_update,
      r_field r_Str PlayerSlot.initials PlayerSlot.initials_update,
      r_field r_Str claimDeeplink claimDeeplink_update]"

lemma encode_slots_writer: "fst (encode_slots ss (w, sp)) = w_seq (map (\<lambda>s. w_seq (w_slot s)) ss) w"
  by (induction ss arbitrary: w sp) (simp_all add: w_seq.simps w_slot_def Let_def)

lemma emits_slots: "emits (w_seq (map (\<lambda>s. w_seq (w_slot s)) ss)) (concat (map slot_bytes ss)) (\<forall>s \<in> set ss. slot_fits s)"
proof (rule emits_foreach)
  show "emits (w_seq (w_slot s)) (slot_bytes s) (slot_fits s)" for s
    unfolding w_slot_def slot_bytes_def slot_fits_def by (rule emits_eq, (rule emits_intros)+) simp_all
qed

lemma takes_slot: "slot_fits s \<Longrightarrow> takes read_slot out (slot_bytes s) s"
  unfolding read_slot_def slot_bytes_def slot_fits_def
  by (rule takes_eq, (rule takes_intros | simp)+)

lemma read_slot_bad: "\<not> r_ok r \<Longrightarrow> r_bad (read_slot (s, r))"
  using takesD(3) [OF takes_slot [of PlayerSlot0]] by (simp add: PlayerSlot0_def slot_fits_def)

lemma read_slot_head_runs: "fst (read_slot_head s)"
  by (cases s) (simp add: read_slot_head_def r_seq.simps r_field_def split: prod.splits)

lemma read_slot_split:
  "read_slot (s, r) = (case read_slot_head (s, r) of (_, s1, r1) \<Rightarrow>
     case r_Str (claimDeeplink s1) r1 of (ok, v, r2) \<Rightarrow> (True, s1\<lparr>claimDeeplink := v\<rparr>, r2))"
proof -
  let ?head = "[r_field r_U8 PlayerSlot.player PlayerSlot.player_update,
      r_field r_Str PlayerSlot.playerId PlayerSlot.playerId_update,
      r_field r_Str preferredName preferredName_update,
      r_field r_Str playerName playerName_update,
      r_field r_Str PlayerSlot.initials PlayerSlot.initials_update]"
  have "read_slot (s, r) = r_seq (?head @ [r_field r_Str claimDeeplink claimDeeplink_update]) (s, r)"
    by (simp add: read_slot_def)
  also have "\<dots> = (case read_slot_head (s, r) of (ok, s') \<Rightarrow>
      if ok then r_field r_Str claimDeeplink claimDeeplink_update s' else (False, s'))"
    unfolding r_seq_snoc read_slot_head_def by (rule refl)
  finally show ?thesis
    using read_slot_head_runs [of "(s, r)"]
    by (cases "read_slot_head (s, r)") (simp add: r_field_def)
qed

text \<open>Dropping the spans, the loop is the plain one.\<close>

lemma decode_slots_foreach:
  "(case decode_slots es sp r of (ss, _, r') \<Rightarrow> (True, ss, r')) = r_foreach read_slot (es, r)"
proof (induction es arbitrary: sp r)
  case (Cons e es)
  obtain b s1 r1 where h: "read_slot_head (e, r) = (b, s1, r1)" by (cases "read_slot_head (e, r)")
  obtain ok v r2 where c: "r_Str (claimDeeplink s1) r1 = (ok, v, r2)" by (cases "r_Str (claimDeeplink s1) r1")
  show ?case
    using Cons.IH [of "if ok then Span sp (r_pos r1) v else sp" r2]
    by (auto simp: read_slot_split h c split: prod.splits)
qed simp

definition players_bytes :: "Players \<Rightarrow> bytes" where
  "players_bytes v = [of_nat (length (slots v))] @ concat (map slot_bytes (slots v))"

lemma Encode_Players_bytes:
  "fst (Encode_Players v) =
     (if ValidPlayers v \<and> (\<forall>s \<in> set (slots v). slot_fits s) \<and> length (players_bytes v) \<le> MAX_PAYLOAD_BYTES
      then players_bytes v else [])"
proof -
  have "emits (\<lambda>w. w_seq (map (\<lambda>s. w_seq (w_slot s)) (slots v)) (w_U8 (of_nat (length (slots v))) w))
      (players_bytes v) (True \<and> (\<forall>s \<in> set (slots v). slot_fits s))"
    unfolding players_bytes_def by (rule emits_comp [OF emits_U8 emits_slots])
  from w_result_emits [OF this] encode_slots_writer [of "slots v" "w_U8 (of_nat (length (slots v))) Writer" "[]"]
  show ?thesis
    by (auto simp: Encode_Players_def w_result_def split_beta)
qed

lemma Decode_Players_result:
  "(case Decode_Players pl out of (ok, out', _) \<Rightarrow> (ok, out')) = r_result ValidPlayers
     (r_seq [r_set (slots_update (\<lambda>_. [])),
       r_require r_U8 0 (\<lambda>count. r_refuse (\<lambda>_ _. count > MAX_PLAYERS) (
         r_vector (unat count) PlayerSlot0 read_slot slots_update))] (out, Reader pl))"
proof -
  obtain ok n r where u: "r_U8 0 (Reader pl) = (ok, n, r)" by (cases "r_U8 0 (Reader pl)")
  obtain ss sp r' where d: "decode_slots (replicate (unat n) PlayerSlot0) [] r = (ss, sp, r')"
    by (cases "decode_slots (replicate (unat n) PlayerSlot0) [] r")
  from decode_slots_foreach [of "replicate (unat n) PlayerSlot0" "[]" r] d
  have "r_foreach read_slot (replicate (unat n) PlayerSlot0, r) = (True, ss, r')" by simp
  then show ?thesis
    by (simp add: Decode_Players_def u d r_seq.simps r_set_def r_require_def r_refuse_def r_vector_def r_result_def)
qed

lemma players_count:
  assumes "ValidPlayers v"
  shows "unat (of_nat (length (slots v)) :: u8) = length (slots v)" and "\<not> (of_nat (length (slots v)) :: u8) > MAX_PLAYERS"
proof -
  from assms have "length (slots v) \<le> 9" by (simp add: ValidPlayers_def MAX_PLAYERS_def split: if_splits)
  then show "unat (of_nat (length (slots v)) :: u8) = length (slots v)" by (simp add: unat_of_nat_u8)
  with \<open>length (slots v) \<le> 9\<close> show "\<not> (of_nat (length (slots v)) :: u8) > MAX_PLAYERS"
    by (simp add: word_less_nat_alt MAX_PLAYERS_def)
qed

abbreviation Decode_Players_dropped :: "bytes \<Rightarrow> Players \<Rightarrow> bool \<times> Players" where
  "Decode_Players_dropped pl out \<equiv> (case Decode_Players pl out of (ok, out', _) \<Rightarrow> (ok, out'))"

interpretation players: payload_codec "\<lambda>v. fst (Encode_Players v)" Decode_Players_dropped "\<lambda>_. True"
proof (rule payload_codecI [where chk = ValidPlayers and sendable = ValidPlayers])
  let ?st = "r_seq [r_set (slots_update (\<lambda>_. [])),
       r_require r_U8 0 (\<lambda>count. r_refuse (\<lambda>_ _. count > MAX_PLAYERS) (
         r_vector (unat count) PlayerSlot0 read_slot slots_update))]"
  let ?body = "\<lambda>v. w_seq [w_U8 (of_nat (length (slots v))), w_seq (map (\<lambda>s. w_seq (w_slot s)) (slots v))]"
  let ?bs = "\<lambda>v. [] @ ([of_nat (length (slots v))] @ concat (map slot_bytes (slots v))) @ []"
  show em: "emits (?body v) (?bs v) (\<forall>s \<in> set (slots v). slot_fits s)" for v
    by (rule emits_eq, (rule emits_intros emits_slots)+) simp_all
  show "fst (Encode_Players v) = (if ValidPlayers v then w_result (?body v Writer) else [])" for v
    by (simp add: Encode_Players_bytes players_bytes_def w_result_emits [OF em])
  show "Decode_Players_dropped pl out = r_result ValidPlayers (?st (out, Reader pl))" for pl out
    by (rule Decode_Players_result)
  show "takes ?st out (?bs v) v" if fits: "\<forall>s \<in> set (slots v). slot_fits s" and "ValidPlayers v" for v out
    by (rule takes_eq, rule takes_seq_Cons, rule takes_set, rule takes_seq_Cons, rule f8.require_takes [OF TrueI],
        rule takes_refuse, rule players_count [OF that(2)], rule takes_vector, rule players_count [OF that(2)],
        rule takes_slot, use fits in blast, erule read_slot_bad, rule takes_seq_Nil, simp)
qed simp

section \<open>What a received frame hides\<close>

text \<open>No accessor changes the bytes it reads from; a string that is read is at the span it leaves.\<close>

lemma reads_same_data [simp]:
  "r_data (snd (r_Need n r)) = r_data r" "r_data (snd (snd (r_U8 a r))) = r_data r"
  "r_data (snd (snd (r_U16 b r))) = r_data r" "r_data (snd (snd (r_Str v r))) = r_data r"
proof -
  show need: "r_data (snd (r_Need n r)) = r_data r" for n r by (simp add: r_Need_def)
  show "r_data (snd (snd (r_U8 a r))) = r_data r" for a r
    using need [of 1 r] by (auto simp: r_U8_def split: prod.splits bool.splits)
  show u16: "r_data (snd (snd (r_U16 b r))) = r_data r" for b r
    using need [of 2 r] by (auto simp: r_U16_def split: prod.splits bool.splits)
  show "r_data (snd (snd (r_Str v r))) = r_data r"
    using u16 [of 0 r] need by (auto simp: r_Str_def split: prod.splits bool.splits) (metis snd_conv)+
qed

lemma r_field_same_data: 
  "(\<And>v r. r_data (snd (snd (get v r))) = r_data r) \<Longrightarrow> r_data (snd (snd (r_field get sel upd s))) = r_data (snd s)"
  by (cases s) (auto simp: r_field_def split: prod.splits, metis snd_conv)

lemma r_seq_same_data:
  "(\<And>st s. st \<in> set sts \<Longrightarrow> r_data (snd (snd (st s))) = r_data (snd s)) \<Longrightarrow> r_data (snd (snd (r_seq sts s))) = r_data (snd s)"
proof (induction sts arbitrary: s)
  case (Cons st sts)
  obtain ok s' where st: "st s = (ok, s')" by (cases "st s")
  with Cons.prems [of st s] have "r_data (snd s') = r_data (snd s)" by simp
  with Cons st show ?case by (simp add: r_seq.simps)
qed (simp add: r_seq.simps)

lemma read_slot_head_data: "r_data (snd (snd (read_slot_head s))) = r_data (snd s)"
  unfolding read_slot_head_def by (rule r_seq_same_data) (auto intro: r_field_same_data)

lemma r_Str_span:
  assumes "r_Str v0 r = (True, v, r')"
  shows "span_bytes (r_data r) \<lparr>span_offset = r_pos r + 2, span_length = length v\<rparr> = map byte_of_char v"
  using assms
  by (auto simp: r_Str_def r_U16_def r_Need_def r_Remaining_def span_bytes_def min_def split: if_splits)

lemma Span_bytes:
  assumes "r_Str v0 r = (True, v, r')"
  shows "map (span_bytes (r_data r)) (Span sp (r_pos r) v)
    = map (span_bytes (r_data r)) sp @ map (map byte_of_char) (filter (\<lambda>d. d \<noteq> []) [v])"
  using r_Str_span [OF assms] by (simp add: Span_def)

lemma r_Str_ok: "r_Str v0 r = (ok, v, r') \<Longrightarrow> r_ok r' \<longleftrightarrow> ok"
  by (auto simp: r_Str_def r_U16_def r_Need_def split: prod.splits bool.splits if_splits)

lemma decode_slots_failed: "\<not> r_ok r \<Longrightarrow> decode_slots es sp r = (ss, sp', r') \<Longrightarrow> \<not> r_ok r'"
proof -
  assume "\<not> r_ok r" and d: "decode_slots es sp r = (ss, sp', r')"
  moreover from d have "r_foreach read_slot (es, r) = (True, ss, r')"
    using decode_slots_foreach [of es sp r] by simp
  moreover have "takes (r_foreach read_slot) [] (concat (map slot_bytes [])) []"
    by (rule takes_foreach) (simp_all add: read_slot_bad)
  ultimately show ?thesis using takesD(3) [of "r_foreach read_slot" "[]" "[]" "[]" r es] by simp
qed

lemma decode_slots_spans:
  assumes "decode_slots es sp r = (ss, sp', r')" "r_ok r'"
  shows "map (span_bytes (r_data r)) sp'
    = map (span_bytes (r_data r)) sp @ map (map byte_of_char) (filter (\<lambda>d. d \<noteq> []) (map claimDeeplink ss))"
  using assms
proof (induction es arbitrary: sp r ss)
  case (Cons e es)
  obtain b s1 r1 where h: "read_slot_head (e, r) = (b, s1, r1)" by (cases "read_slot_head (e, r)")
  obtain ok v r2 where c: "r_Str (claimDeeplink s1) r1 = (ok, v, r2)" by (cases "r_Str (claimDeeplink s1) r1")
  have data: "r_data r1 = r_data r" "r_data r2 = r_data r"
    using read_slot_head_data [of "(e, r)"] reads_same_data(4) [of "claimDeeplink s1" r1] h c by simp_all
  from Cons.prems(1) h c obtain ss' where
    d: "decode_slots es (if ok then Span sp (r_pos r1) v else sp) r2 = (ss', sp', r')" "ss = s1\<lparr>claimDeeplink := v\<rparr> # ss'"
    by (auto split: prod.splits)
  have "r_ok r2" using decode_slots_failed [OF _ d(1)] Cons.prems(2) by blast
  then have ok: ok using r_Str_ok [OF c] by simp
  from Cons.IH [OF d(1) Cons.prems(2)] Span_bytes [of "claimDeeplink s1" r1 v r2 sp] c ok d(2) show ?case
    by (simp add: data)
qed simp

section \<open>Properties\<close>

text \<open>
  A leaderboard survives the wire whole, whatever follows it, and cut short it is refused; and a
  leaderboard with more than 20 entries, a text over its bound, or entries beside a failure is
  neither encoded nor accepted.
\<close>

theorem top_scores_roundtrip:
  assumes "Encode_TopScores v \<noteq> []"
  shows "Decode_TopScores (Encode_TopScores v @ rest) out = (True, v)
    \<and> (\<forall>k < length (Encode_TopScores v). \<not> fst (Decode_TopScores (take k (Encode_TopScores v)) out))
    \<and> length (entries v) \<le> 20 \<and> (scoresResult v \<noteq> TOP_SCORES_OK \<longrightarrow> entries v = [])"
proof -
  from assms have "ValidTopScores v" by (auto simp: Encode_TopScores_def split: if_splits)
  then have "length (entries v) \<le> 20 \<and> (scoresResult v \<noteq> TOP_SCORES_OK \<longrightarrow> entries v = [])"
    by (auto simp: ValidTopScores_def MAX_TOP_SCORES_def split: if_splits)
  with assms top_scores.dec_enc [of v rest out] top_scores.dec_short [of _ v out] show ?thesis by simp
qed

definition scores_example :: TopScores where
  "scores_example = \<lparr>TopScores.requestId = 3, scoresResult = TOP_SCORES_OK, ageS = 1, entries = [TopScoreEntry0\<lparr>rank := 1, highScore := 5\<rparr>]\<rparr>"

theorem top_scores_roundtrip_witness:
  "Decode_TopScores (Encode_TopScores scores_example @ [1]) TopScores0 = (True, scores_example)"
proof -
  have "Encode_TopScores scores_example \<noteq> []"
    by (simp add: Encode_TopScores_def scores_example_def ValidTopScores_def TopScoreEntry0_def read_back_bounds w_result_def
        w_seq.simps w_U32_def w_U16_def w_U8_def w_U64_def w_Str_def w_Bytes_def w_TopScoreEntry_def Writer_def bound_defs)
  from top_scores_roundtrip [OF this] show ?thesis by simp
qed

text \<open>
  C22. What a dump blanks of a received players frame, for every payload whatever: either it decodes,
  and the spans are exactly the bytes of its non-empty claim deeplinks in order, or it does not,
  and the one span is the whole payload.
\<close>

theorem received_players_spans:
  assumes "h_type (m_header msg) = TYPE_PLAYERS" "\<not> IsResponse (m_header msg)" "m_payload msg \<noteq> []"
  shows "case Decode_Players (m_payload msg) Players0 of (decoded, players, _) \<Rightarrow>
    map (span_bytes (m_payload msg)) (ReceivedSensitive msg) =
      (if decoded then map (map byte_of_char) (filter (\<lambda>d. d \<noteq> []) (map claimDeeplink (slots players)))
       else [m_payload msg])"
proof -
  let ?pl = "m_payload msg"
  obtain ok n r where u: "r_U8 0 (Reader ?pl) = (ok, n, r)" by (cases "r_U8 0 (Reader ?pl)")
  have "r_data r = r_data (Reader ?pl)" using reads_same_data(2) [of 0 "Reader ?pl"] unfolding u by simp
  then have data: "r_data r = ?pl" by (simp add: Reader_def)
  obtain ss sp r' where d: "decode_slots (replicate (unat n) PlayerSlot0) [] r = (ss, sp, r')"
    by (cases "decode_slots (replicate (unat n) PlayerSlot0) [] r")
  show ?thesis
    using assms decode_slots_spans [OF d] data
    by (auto simp: ReceivedSensitive_def Decode_Players_def u d Let_def span_bytes_def)
qed

definition players_example :: Players where
  "players_example = \<lparr>slots = [PlayerSlot0\<lparr>PlayerSlot.player := 1, claimDeeplink := ''d''\<rparr>, PlayerSlot0\<lparr>PlayerSlot.player := 3\<rparr>]\<rparr>"

lemma players_example_encodes: "fst (Encode_Players players_example) \<noteq> []"
  by (simp add: Encode_Players_bytes players_example_def PlayerSlot0_def ValidPlayers_def read_back_bounds slot_fits_def
      players_bytes_def slot_bytes_def bound_defs word_le_nat_alt)

theorem received_players_spans_witness:
  "let msg = \<lparr>m_header = \<lparr>h_type = TYPE_PLAYERS, h_flags = 0, h_seq = 1\<rparr>, m_payload = fst (Encode_Players players_example)\<rparr>
   in map (span_bytes (m_payload msg)) (ReceivedSensitive msg) = [map byte_of_char ''d'']"
proof -
  define msg where "msg = \<lparr>m_header = \<lparr>h_type = TYPE_PLAYERS, h_flags = 0, h_seq = 1\<rparr>, m_payload = fst (Encode_Players players_example)\<rparr>"
  have "h_type (m_header msg) = TYPE_PLAYERS" "\<not> IsResponse (m_header msg)" "m_payload msg \<noteq> []"
    using players_example_encodes by (simp_all add: msg_def IsResponse_def)
  from received_players_spans [OF this] players.dec_enc [OF TrueI players_example_encodes, of "[]" Players0]
  show ?thesis
    by (cases "Decode_Players (m_payload msg) Players0") (simp add: msg_def players_example_def PlayerSlot0_def)
qed

end
