(* ===== verification/Wire_Dump.thy ===== *)
theory Wire_Dump
  imports Wire_Session Wire_ReadBack
begin

text \<open>
  \<^verbatim>\<open>src/WireDump.cpp\<close>: the debug recording of wire frames, with sensitive spans blanked. The file is
  the list of bytes written to it so far, \<open>None\<close> for the null handle. What the environment decides
  is an argument: the dump path (\<^verbatim>\<open>getenv\<close>), whether the file opens, and the clock in microseconds.
\<close>

section \<open>Model\<close>

definition MAGIC :: bytes where
  "MAGIC = map byte_of_char (''SCORBITWIRE1'' @ [CHR 0x0A])"

definition star :: u8 where "star = byte_of_char CHR ''*''"

definition PutU32 :: "u32 \<Rightarrow> bytes" where
  "PutU32 v = [ucast v, ucast (drop_bit 8 v), ucast (drop_bit 16 v), ucast (drop_bit 24 v)]"

definition PutU64 :: "u64 \<Rightarrow> bytes" where
  "PutU64 v = map (\<lambda>i. ucast (drop_bit (8 * i) v)) [0..<8]"

record wire_dump =
  m_file :: "bytes option"
  m_openMicros :: u64
  m_redacted :: bytes

definition dump_Enabled :: "wire_dump \<Rightarrow> bool" where
  "dump_Enabled d \<longleftrightarrow> m_file d \<noteq> None"

text \<open>\<open>Open\<close>: the path from the environment, whether \<^verbatim>\<open>fopen\<close> succeeds, and the time.\<close>

definition dump_Open :: "string option \<Rightarrow> (string \<Rightarrow> bool) \<Rightarrow> u64 \<Rightarrow> wire_dump \<Rightarrow> string \<times> wire_dump" where
  "dump_Open path openable now d =
     (if m_file d \<noteq> None then ([], d)
      else case path of
        None \<Rightarrow> ([], d)
      | Some p \<Rightarrow>
          if p = [] then ([], d)
          else if \<not> openable p
          then (''Socket: cannot open the wire dump at '' @ p @ '', continuing without it'', d)
          else ([], d\<lparr>m_file := Some MAGIC, m_openMicros := now\<rparr>))"

definition dump_Close :: "wire_dump \<Rightarrow> wire_dump" where
  "dump_Close d = d\<lparr>m_file := None\<rparr>"

text \<open>One span of the loop of \<open>Redact\<close>, and the loop.\<close>

definition redact_span :: "bytes \<Rightarrow> SensitiveSpan \<Rightarrow> bytes" where
  "redact_span bs span =
     (if span_offset span \<ge> length bs then bs
      else let e = span_offset span + min (span_length span) (length bs - span_offset span)
           in take (span_offset span) bs @ replicate (e - span_offset span) star @ drop e bs)"

definition Redact :: "SensitiveSpan list \<Rightarrow> bytes \<Rightarrow> bytes" where
  "Redact sensitive bs = foldl redact_span bs sensitive"

definition Record :: "u8 \<Rightarrow> bytes \<Rightarrow> bytes \<Rightarrow> u64 \<Rightarrow> wire_dump \<Rightarrow> wire_dump" where
  "Record direction prefix_bytes body now d =
     (case m_file d of
        None \<Rightarrow> d
      | Some f \<Rightarrow> d\<lparr>m_file := Some (f @ ([direction] @ PutU64 (now - m_openMicros d)
            @ PutU32 (of_nat (length prefix_bytes + length body))) @ prefix_bytes @ body)\<rparr>)"

definition Sent :: "bytes \<Rightarrow> SensitiveSpan list \<Rightarrow> u64 \<Rightarrow> wire_dump \<Rightarrow> wire_dump" where
  "Sent data sensitive now d =
     (if m_file d = None then d
      else if sensitive = [] then Record (byte_of_char CHR ''>'') data [] now d
      else let d = d\<lparr>m_redacted := Redact sensitive data\<rparr>
           in Record (byte_of_char CHR ''>'') (m_redacted d) [] now d)"

definition Received :: "bytes \<Rightarrow> bytes \<Rightarrow> SensitiveSpan list \<Rightarrow> u64 \<Rightarrow> wire_dump \<Rightarrow> wire_dump" where
  "Received prefix_bytes body sensitive now d =
     (if m_file d = None then d
      else if sensitive = [] then Record (byte_of_char CHR ''<'') prefix_bytes body now d
      else let d = d\<lparr>m_redacted := Redact sensitive (prefix_bytes @ body)\<rparr>
           in Record (byte_of_char CHR ''<'') (m_redacted d) [] now d)"

section \<open>Redaction\<close>

lemma length_redact_span [simp]: "length (redact_span bs s) = length bs"
  by (auto simp: redact_span_def Let_def)

lemma length_Redact [simp]: "length (Redact ss bs) = length bs"
  unfolding Redact_def by (induction ss arbitrary: bs) simp_all

lemma redact_span_nth:
  "i < length bs \<Longrightarrow> redact_span bs s ! i =
     (if span_offset s \<le> i \<and> i < span_offset s + span_length s then star else bs ! i)"
  by (auto simp: redact_span_def Let_def nth_append min_def)

lemma Redact_nth:
  "i < length bs \<Longrightarrow> Redact ss bs ! i =
     (if \<exists>s \<in> set ss. span_offset s \<le> i \<and> i < span_offset s + span_length s then star else bs ! i)"
  unfolding Redact_def by (induction ss arbitrary: bs) (auto simp: redact_span_nth)

text \<open>A span of a later part of the frame, redacted there.\<close>

lemma redact_span_append:
  "length pre \<le> span_offset s \<Longrightarrow> redact_span (pre @ bs) s = pre @ redact_span bs (s\<lparr>span_offset := span_offset s - length pre\<rparr>)"
  by (auto simp: redact_span_def Let_def add.commute)

text \<open>Blanking the strings of a run of string fields.\<close>

definition blank :: "string \<Rightarrow> string" where
  "blank v = replicate (length v) CHR ''*''"

lemma length_blank [simp]: "length (blank v) = length v"
  by (simp add: blank_def)

lemma redact_str:
  "redact_span (str_bytes p @ bs) \<lparr>span_offset = 2, span_length = length p\<rparr> = str_bytes (blank p) @ bs"
  by (auto simp: redact_span_def Let_def str_bytes_def le16_def blank_def star_def min_def)

lemma Redact_path_spans:
  "length pre = n \<Longrightarrow> Redact (path_spans n ps) (pre @ concat (map str_bytes ps) @ rest)
     = pre @ concat (map (str_bytes \<circ> blank) ps) @ rest"
proof (induction ps arbitrary: pre n)
  case Nil
  then show ?case by (simp add: Redact_def)
next
  case (Cons p ps)
  have "redact_span (pre @ concat (map str_bytes (p # ps)) @ rest) \<lparr>span_offset = n + 2, span_length = length p\<rparr>
      = pre @ str_bytes (blank p) @ concat (map str_bytes ps) @ rest"
    using redact_str [of p "concat (map str_bytes ps) @ rest"] Cons.prems by (simp add: redact_span_append)
  moreover have "p = [] \<Longrightarrow> str_bytes (blank p) = str_bytes p" by (simp add: blank_def)
  moreover have "Redact (path_spans (n + 2 + length p) ps) ((pre @ str_bytes (blank p)) @ concat (map str_bytes ps) @ rest)
      = (pre @ str_bytes (blank p)) @ concat (map (str_bytes \<circ> blank) ps) @ rest"
    using Cons.prems by (intro Cons.IH) simp
  ultimately show ?case by (cases "p = []") (simp_all add: Redact_def comp_def)
qed

section \<open>Records\<close>

lemma PutU32_le32: "PutU32 v = le32 v"
  by (simp add: PutU32_def le32_bytes)

lemma PutU64_le64: "PutU64 v = le64 v"
  by (simp add: PutU64_def le64_def le32_bytes upt_rec numeral_eq_Suc)
     (auto intro!: bit_word_eqI simp: mask_literals bit_simps add.commute)

text \<open>One record of the file: direction, time, length, frame.\<close>

definition record_bytes :: "u8 \<Rightarrow> u64 \<Rightarrow> bytes \<Rightarrow> bytes" where
  "record_bytes direction micros fr = [direction] @ le64 micros @ le32 (of_nat (length fr)) @ fr"

lemma Redact_Nil [simp]: "Redact [] bs = bs"
  by (simp add: Redact_def)

lemma Sent_appends:
  "m_file (Sent data ss now d) = map_option (\<lambda>f. f @ record_bytes (byte_of_char CHR ''>'') (now - m_openMicros d) (Redact ss data)) (m_file d)"
  by (auto simp: Sent_def Record_def record_bytes_def PutU32_le32 PutU64_le64 Let_def split: option.splits)

lemma Received_appends:
  "m_file (Received pre body ss now d)
     = map_option (\<lambda>f. f @ record_bytes (byte_of_char CHR ''<'') (now - m_openMicros d) (Redact ss (pre @ body))) (m_file d)"
  by (auto simp: Received_def Record_def record_bytes_def PutU32_le32 PutU64_le64 Let_def split: option.splits)

lemma record_readable:
  assumes "length fr < 2 ^ 32"
  shows "\<exists>r1 r2 r3 r4. r_U8 0 (rd pre (record_bytes direction micros fr @ rest)) = (True, direction, r1)
    \<and> r_U64 0 r1 = (True, micros, r2) \<and> r_U32 0 r2 = (True, of_nat (length fr), r3)
    \<and> r_Bytes (unat (of_nat (length fr) :: u32)) [] r3 = (True, fr, r4)
    \<and> r4 = rd (pre @ record_bytes direction micros fr) rest"
proof -
  have "unat (of_nat (length fr) :: u32) = length fr" using assms by (intro unat_of_nat_u32) simp
  then show ?thesis by (simp add: record_bytes_def r_U8_rd r_U64_rd r_U32_rd r_Bytes_rd)
qed

section \<open>Properties\<close>

text \<open>
  Blanking is exact: a redacted frame has the length of the original, shows \<open>*\<close> at every byte
  that a sensitive span covers, and the original byte everywhere else, whatever the spans are.
\<close>

theorem redact_exact:
  "length (Redact sensitive bs) = length bs
   \<and> (\<forall>i < length bs. Redact sensitive bs ! i =
        (if \<exists>s \<in> set sensitive. span_offset s \<le> i \<and> i < span_offset s + span_length s
         then byte_of_char CHR ''*'' else bs ! i))"
  by (auto simp: Redact_nth star_def)

theorem redact_exact_witness:
  "Redact [\<lparr>span_offset = 1, span_length = 9\<rparr>] [1, 2, 3] ! 1 = byte_of_char CHR ''*''
   \<and> Redact [\<lparr>span_offset = 1, span_length = 9\<rparr>] [1, 2, 3] ! 0 = 1"
  using redact_exact [of "[\<lparr>span_offset = 1, span_length = 9\<rparr>]" "[1, 2, 3]"] by simp

text \<open>
  The dump of a declaration still decodes: it is the declaration, with every character of its
  three local paths replaced by \<open>*\<close>, so no path leaves in a dump.
\<close>

theorem declare_dump_decodes:
  assumes "fst (Encode_Declare v peerMinor) \<noteq> []" and "peerMinor \<ge> 1"
  shows "Decode_Declare (Redact (snd (Encode_Declare v peerMinor)) (fst (Encode_Declare v peerMinor))) out
    = (True, v\<lparr>tableFullPath := replicate (length (tableFullPath v)) CHR ''*'',
               vpxAppPath := replicate (length (vpxAppPath v)) CHR ''*'',
               prefsPath := replicate (length (prefsPath v)) CHR ''*''\<rparr>)"
proof -
  let ?v = "v\<lparr>tableFullPath := blank (tableFullPath v), vpxAppPath := blank (vpxAppPath v), prefsPath := blank (prefsPath v)\<rparr>"
  let ?pre = "declare_base_bytes v @ [Declare.tableKind v] @ str_bytes (Declare.machineUuid v)"
  from assms have enc: "Encode_Declare v peerMinor = (declare_base_bytes v @ declare_more_bytes v,
      path_spans (length (declare_base_bytes v) + 3 + length (Declare.machineUuid v)) (declare_paths v))"
    and fits: "declare_base_fits v" "declare_more_fits v"
    by (auto simp: Encode_Declare_1 split: if_splits)
  have red: "Redact (path_spans (length ?pre) (declare_paths v)) (?pre @ concat (map str_bytes (declare_paths v)) @ [])
      = ?pre @ concat (map (str_bytes \<circ> blank) (declare_paths v)) @ []"
    by (rule Redact_path_spans) simp
  have len: "length (declare_base_bytes v) + 3 + length (Declare.machineUuid v) = length ?pre" by simp
  have bs: "declare_base_bytes v @ declare_more_bytes v = ?pre @ concat (map str_bytes (declare_paths v)) @ []"
    and bs': "?pre @ concat (map (str_bytes \<circ> blank) (declare_paths v)) @ [] = declare_base_bytes ?v @ declare_more_bytes ?v @ []"
    by (simp_all add: declare_more_bytes_def declare_paths_def declare_base_bytes_def)
  have "Redact (snd (Encode_Declare v peerMinor)) (fst (Encode_Declare v peerMinor))
      = declare_base_bytes ?v @ declare_more_bytes ?v @ []"
    by (simp only: enc fst_conv snd_conv bs len red bs')
  moreover have "declare_base_fits ?v" "declare_more_fits ?v"
    using fits by (simp_all add: declare_base_fits_def declare_more_fits_def)
  ultimately show ?thesis using Decode_Declare_full [of ?v "[]" out] by (simp add: blank_def)
qed

theorem declare_dump_decodes_witness:
  "Decode_Declare (Redact (snd (Encode_Declare declare_example 2)) (fst (Encode_Declare declare_example 2))) declare_example
    = (True, declare_example\<lparr>tableFullPath := ''**'', vpxAppPath := [], prefsPath := ''*''\<rparr>)"
  using declare_dump_decodes [of declare_example 2 declare_example] declare_example_encodes
  by (simp add: u16_ge_1 declare_example_def numeral_2_eq_2)

text \<open>
  Every recorded frame can be read back from the dump: a sent or received frame appends one
  record, and reading its direction, time, length and bytes from there gives the frame as it crossed,
  with its sensitive spans blanked, and leaves the reader at the next record.
\<close>

theorem dump_replays:
  assumes "m_file d = Some f" and "length pre + length body < 2 ^ 32"
    and "(d', direction, fr) = (Sent body sensitive now d, byte_of_char CHR ''>'', Redact sensitive body)
       \<or> (d', direction, fr) = (Received pre body sensitive now d, byte_of_char CHR ''<'', Redact sensitive (pre @ body))"
  shows "\<exists>rec. m_file d' = Some (f @ rec) \<and>
    (\<exists>r1 r2 r3. r_U8 0 (rd f (rec @ rest)) = (True, direction, r1) \<and> r_U64 0 r1 = (True, now - m_openMicros d, r2)
       \<and> r_U32 0 r2 = (True, of_nat (length fr), r3)
       \<and> r_Bytes (unat (of_nat (length fr) :: u32)) [] r3 = (True, fr, rd (f @ rec) rest))"
proof -
  let ?rec = "record_bytes direction (now - m_openMicros d) fr"
  have "m_file d' = Some (f @ ?rec)" and "length fr < 2 ^ 32"
    using assms by (auto simp: Sent_appends Received_appends)
  with record_readable [of fr f direction "now - m_openMicros d" rest] show ?thesis by blast
qed

theorem dump_replays_witness:
  "\<exists>rec. m_file (Sent [1, 2] [] 9 \<lparr>m_file = Some [], m_openMicros = 4, m_redacted = []\<rparr>) = Some ([] @ rec)
     \<and> (\<exists>r1 r2 r3. r_U8 0 (rd [] (rec @ [])) = (True, byte_of_char CHR ''>'', r1) \<and> r_U64 0 r1 = (True, 5, r2)
       \<and> r_U32 0 r2 = (True, 2, r3) \<and> r_Bytes 2 [] r3 = (True, [1, 2], rd ([] @ rec) []))"
  using dump_replays [of "\<lparr>m_file = Some [], m_openMicros = 4, m_redacted = []\<rparr>" "[]" "[]" "[1, 2]"
      "Sent [1, 2] [] 9 \<lparr>m_file = Some [], m_openMicros = 4, m_redacted = []\<rparr>" "byte_of_char CHR ''>''" "[1, 2]" "[]" 9 "[]"]
  by simp

end
