(* ===== verification/Wire_Game.thy ===== *)
theory Wire_Game
  imports Wire_Codec
begin

text \<open>
  The payloads of the overlay, the session status and authored games, in the order of
  \<^verbatim>\<open>src/WireProtocol.cpp\<close>: \<open>OverlayRequest\<close>, \<open>OverlayControl\<close>, \<open>Status\<close> and \<open>GameBatch\<close>, with the rules
  a batch must meet on both sides (\<open>ValidGameBatch\<close>). Signed integers are carried as the words
  that hold their two's complement, which is what the codec's casts do to them.
\<close>

section \<open>Records\<close>

abbreviation (input) OVERLAY_OP_UPLOAD :: u8 where "OVERLAY_OP_UPLOAD \<equiv> 1"
abbreviation (input) OVERLAY_OP_CONTROL :: u8 where "OVERLAY_OP_CONTROL \<equiv> 2"
abbreviation (input) OVERLAY_CONTROL_ENABLE :: u8 where "OVERLAY_CONTROL_ENABLE \<equiv> 1"

record OverlayRequest =
  overlayOp :: u8
  payload :: bytes

record OverlayControl =
  control :: u8
  durationMs :: u16

definition MAX_SUPPORT_TEXT_BYTES :: nat where "MAX_SUPPORT_TEXT_BYTES = 256"

abbreviation (input) SESSION_NONE :: u8 where "SESSION_NONE \<equiv> 0"
abbreviation (input) SESSION_TRACKING :: u8 where "SESSION_TRACKING \<equiv> 1"
abbreviation (input) SESSION_NO_DATA :: u8 where "SESSION_NO_DATA \<equiv> 2"
abbreviation (input) SESSION_HIDDEN :: u8 where "SESSION_HIDDEN \<equiv> 4"

abbreviation (input) SYSTEM_OK :: u8 where "SYSTEM_OK \<equiv> 0"
abbreviation (input) SYSTEM_UNPAIRED :: u8 where "SYSTEM_UNPAIRED \<equiv> 1"
abbreviation (input) SYSTEM_OFFLINE :: u8 where "SYSTEM_OFFLINE \<equiv> 2"
abbreviation (input) SYSTEM_DEGRADED :: u8 where "SYSTEM_DEGRADED \<equiv> 3"

abbreviation (input) AUTH_NOT_AUTHENTICATED :: u8 where "AUTH_NOT_AUTHENTICATED \<equiv> 0"
abbreviation (input) AUTH_AUTHENTICATING :: u8 where "AUTH_AUTHENTICATING \<equiv> 1"
abbreviation (input) AUTH_CHECKING_PAIRING :: u8 where "AUTH_CHECKING_PAIRING \<equiv> 2"
abbreviation (input) AUTH_UNPAIRED :: u8 where "AUTH_UNPAIRED \<equiv> 3"
abbreviation (input) AUTH_PAIRED :: u8 where "AUTH_PAIRED \<equiv> 4"
abbreviation (input) AUTH_FAILED :: u8 where "AUTH_FAILED \<equiv> 5"

record Status =
  sessionState :: u8
  systemState :: u8
  supportText :: string
  hasAuthStatus :: bool
  authStatus :: u8

definition MAX_GAME_OPS :: nat where "MAX_GAME_OPS = 256"

abbreviation (input) GAME_START :: u8 where "GAME_START \<equiv> 1"
abbreviation (input) GAME_END :: u8 where "GAME_END \<equiv> 2"
abbreviation (input) GAME_BALL :: u8 where "GAME_BALL \<equiv> 3"
abbreviation (input) GAME_ACTIVE_PLAYER :: u8 where "GAME_ACTIVE_PLAYER \<equiv> 4"
abbreviation (input) GAME_SCORE :: u8 where "GAME_SCORE \<equiv> 5"
abbreviation (input) GAME_ADD_MODE :: u8 where "GAME_ADD_MODE \<equiv> 6"
abbreviation (input) GAME_ADD_MODE_EXPIRING :: u8 where "GAME_ADD_MODE_EXPIRING \<equiv> 7"
abbreviation (input) GAME_MODE_COMPLETED :: u8 where "GAME_MODE_COMPLETED \<equiv> 8"
abbreviation (input) GAME_REMOVE_MODE :: u8 where "GAME_REMOVE_MODE \<equiv> 9"
abbreviation (input) GAME_CLEAR_MODES :: u8 where "GAME_CLEAR_MODES \<equiv> 10"

record GameOp =
  opKind :: u8
  opValue :: u8
  opScore :: u64
  opFeature :: u32
  opSeconds :: u32
  opMode :: string

record GameBatch =
  gameOps :: "GameOp list"
  batchId :: u32

definition Status0 :: Status where
  "Status0 = \<lparr>sessionState = SESSION_NONE, systemState = SYSTEM_OK, supportText = [], hasAuthStatus = False,
     authStatus = AUTH_NOT_AUTHENTICATED\<rparr>"

definition GameOp0 :: GameOp where
  "GameOp0 = \<lparr>opKind = 0, opValue = 0, opScore = 0, opFeature = 0, opSeconds = 0, opMode = []\<rparr>"

definition GameBatch0 :: GameBatch where
  "GameBatch0 = \<lparr>gameOps = [], batchId = 0\<rparr>"

section \<open>Encode and Decode\<close>

definition Encode_OverlayRequest :: "OverlayRequest \<Rightarrow> bytes" where
  "Encode_OverlayRequest v = w_result (w_seq [w_U8 (overlayOp v), w_Bytes (payload v)] Writer)"

definition Decode_OverlayRequest :: "bytes \<Rightarrow> OverlayRequest \<Rightarrow> bool \<times> OverlayRequest" where
  "Decode_OverlayRequest pl out =
     (case r_U8 (overlayOp out) (Reader pl) of
        (False, v, _) \<Rightarrow> (False, out\<lparr>overlayOp := v\<rparr>)
      | (True, v, _) \<Rightarrow> (True, out\<lparr>overlayOp := v, payload := drop 1 pl\<rparr>))"

text \<open>The duration is big-endian, as the probe's register was.\<close>

definition Encode_OverlayControl :: "OverlayControl \<Rightarrow> bytes" where
  "Encode_OverlayControl v = w_result (w_seq
     [w_U8 (control v),
      w_U8 (ucast (drop_bit 8 (durationMs v))),
      w_U8 (ucast (durationMs v AND 0xFF))] Writer)"

definition read_OverlayControl :: "OverlayControl stmt" where
  "read_OverlayControl = r_seq
     [r_field r_U8 control control_update,
      r_local r_U8 0 (\<lambda>hi. r_local r_U8 0 (\<lambda>lo.
        r_set (durationMs_update (\<lambda>_. push_bit 8 (ucast hi) OR ucast lo))))]"

definition Decode_OverlayControl :: "bytes \<Rightarrow> OverlayControl \<Rightarrow> bool \<times> OverlayControl" where
  "Decode_OverlayControl pl out = r_result (\<lambda>_. True) (read_OverlayControl (out, Reader pl))"

definition Encode_Status :: "Status \<Rightarrow> bytes" where
  "Encode_Status v = w_result (w_seq
     ([w_U8 (sessionState v),
       w_U8 (systemState v),
       w_Str (supportText v)]
      @ (if hasAuthStatus v then [w_U8 (authStatus v)] else [])) Writer)"

definition read_Status :: "u16 \<Rightarrow> Status stmt" where
  "read_Status peerMinor = r_seq
     [r_field r_U8 sessionState sessionState_update,
      r_field r_U8 systemState systemState_update,
      r_field r_Str supportText supportText_update,
      r_set (\<lambda>out. out\<lparr>hasAuthStatus := False, authStatus := AUTH_NOT_AUTHENTICATED\<rparr>),
      (\<lambda>(out, r).
         if peerMinor \<ge> 2 \<and> r_ok r \<and> \<not> r_AtEnd r then
           (case r_U8 (authStatus out) r of (ok, v, r') \<Rightarrow>
              (ok \<and> \<not> v > AUTH_FAILED, out\<lparr>hasAuthStatus := True, authStatus := v\<rparr>, r'))
         else (True, out, r))]"

definition Decode_Status :: "bytes \<Rightarrow> Status \<Rightarrow> u16 \<Rightarrow> bool \<times> Status" where
  "Decode_Status pl out peerMinor =
     r_result (\<lambda>out. length (supportText out) \<le> MAX_SUPPORT_TEXT_BYTES) (read_Status peerMinor (out, Reader pl))"

definition KnownGameOp :: "u8 \<Rightarrow> bool" where
  "KnownGameOp k \<longleftrightarrow> k \<ge> GAME_START \<and> k \<le> GAME_CLEAR_MODES"

text \<open>The loop of \<open>ValidGameBatch\<close> from index \<open>i\<close>, of \<open>n\<close> ops.\<close>

fun valid_ops_from :: "nat \<Rightarrow> nat \<Rightarrow> GameOp list \<Rightarrow> bool" where
  "valid_ops_from i n [] = True"
| "valid_ops_from i n (op # rest) =
     (let k = opKind op in
      if \<not> KnownGameOp k then False
      else if k = GAME_START \<and> i \<noteq> 0 then False
      else if k = GAME_END \<and> i \<noteq> n - 1 then False
      else valid_ops_from (Suc i) n rest)"

definition ValidGameBatch :: "GameBatch \<Rightarrow> bool" where
  "ValidGameBatch v =
     (if gameOps v = [] \<or> length (gameOps v) > MAX_GAME_OPS then False
      else valid_ops_from 0 (length (gameOps v)) (gameOps v))"

definition w_GameOp :: "GameOp \<Rightarrow> (writer \<Rightarrow> writer) list" where
  "w_GameOp op = w_U8 (opKind op) #
     (if opKind op = GAME_START \<or> opKind op = GAME_BALL \<or> opKind op = GAME_ACTIVE_PLAYER then [w_U8 (opValue op)]
      else if opKind op = GAME_SCORE then [w_U8 (opValue op), w_U64 (opScore op), w_U32 (opFeature op)]
      else if opKind op = GAME_ADD_MODE_EXPIRING then [w_U32 (opSeconds op), w_Str (opMode op)]
      else if opKind op = GAME_ADD_MODE \<or> opKind op = GAME_MODE_COMPLETED \<or> opKind op = GAME_REMOVE_MODE
      then [w_Str (opMode op)]
      else [])"

definition Encode_GameBatch :: "GameBatch \<Rightarrow> bytes" where
  "Encode_GameBatch v =
     (if \<not> ValidGameBatch v then []
      else w_result (w_seq
        [w_U32 (batchId v),
         w_U16 (of_nat (length (gameOps v))),
         w_seq (map (\<lambda>op. w_seq (w_GameOp op)) (gameOps v))] Writer))"

definition read_GameOp :: "GameOp stmt" where
  "read_GameOp = r_seq
     [r_field r_U8 opKind opKind_update,
      (\<lambda>(op, r).
         if opKind op = GAME_START \<or> opKind op = GAME_BALL \<or> opKind op = GAME_ACTIVE_PLAYER
         then r_field r_U8 opValue opValue_update (op, r)
         else if opKind op = GAME_SCORE
         then r_seq [r_field r_U8 opValue opValue_update,
                     r_local r_U64 0 (\<lambda>score. r_local r_U32 0 (\<lambda>feature.
                       r_set (\<lambda>op. op\<lparr>opScore := score, opFeature := feature\<rparr>)))] (op, r)
         else if opKind op = GAME_ADD_MODE_EXPIRING
         then r_seq [r_field r_U32 opSeconds opSeconds_update, r_field r_Str opMode opMode_update] (op, r)
         else if opKind op = GAME_ADD_MODE \<or> opKind op = GAME_MODE_COMPLETED \<or> opKind op = GAME_REMOVE_MODE
         then r_field r_Str opMode opMode_update (op, r)
         else if opKind op = GAME_END \<or> opKind op = GAME_CLEAR_MODES then (True, op, r)
         else (False, op, r))]"

definition read_GameBatch :: "GameBatch stmt" where
  "read_GameBatch = r_seq
     [r_set (gameOps_update (\<lambda>_. [])),
      (\<lambda>(out, r). case r_U32 (batchId out) r of (ok, v, r') \<Rightarrow> (ok, out\<lparr>batchId := v\<rparr>, r')),
      r_require r_U16 0 (\<lambda>count.
        r_refuse (\<lambda>_ r. count = 0 \<or> unat count > MAX_GAME_OPS \<or> r_Remaining r < unat count) (
        r_pushed r_ok GameOp0 read_GameOp (unat count) gameOps_update))]"

definition Decode_GameBatch :: "bytes \<Rightarrow> GameBatch \<Rightarrow> bool \<times> GameBatch" where
  "Decode_GameBatch pl out = r_result ValidGameBatch (read_GameBatch (out, Reader pl))"

section \<open>Overlay and status\<close>

lemma byte_pair_join: "push_bit 8 (ucast (ucast (drop_bit 8 v) :: u8)) OR ucast (ucast (v AND 0xFF) :: u8) = (v :: u16)"
  by (rule bit_word_eqI) (auto simp: mask_literals bit_simps)

interpretation overlay_control: payload_codec Encode_OverlayControl Decode_OverlayControl "\<lambda>_. True"
proof (rule payload_codecI [where st = read_OverlayControl and chk = "\<lambda>_. True" and sendable = "\<lambda>_. True"])
  let ?body = "\<lambda>v. w_seq [w_U8 (control v), w_U8 (ucast (drop_bit 8 (durationMs v))), w_U8 (ucast (durationMs v AND 0xFF))]"
  let ?bs = "\<lambda>v. [control v] @ ([ucast (drop_bit 8 (durationMs v))] @ ([ucast (durationMs v AND 0xFF)] @ [])) @ []"
  show "emits (?body v) (?bs v) True" for v
    by (rule emits_eq, (rule emits_intros)+) simp_all
  show "takes read_OverlayControl out (?bs v) v" for v out
    unfolding read_OverlayControl_def
    by (rule takes_eq, rule takes_seq_Cons, rule takes_intros, rule takes_seq_Cons, rule f8.local_takes [OF TrueI],
        rule f8.local_takes [OF TrueI], rule takes_set, simp add: r_set_def, simp add: r_local_def r_set_def r_failed,
        rule takes_seq_Nil, simp add: byte_pair_join)
qed (simp_all add: Encode_OverlayControl_def Decode_OverlayControl_def)

text \<open>An overlay request takes the rest of the payload, so it round-trips with nothing after it.\<close>

lemma overlay_request_roundtrip:
  "Encode_OverlayRequest v \<noteq> [] \<Longrightarrow> Decode_OverlayRequest (Encode_OverlayRequest v) out = (True, v)"
proof -
  have em: "emits (w_seq [w_U8 (overlayOp v), w_Bytes (payload v)]) ([overlayOp v] @ payload v @ []) (True \<and> True \<and> True)"
    by (rule emits_intros)+
  assume "Encode_OverlayRequest v \<noteq> []"
  then have "Encode_OverlayRequest v = overlayOp v # payload v"
    using w_result_emits [OF em] by (simp add: Encode_OverlayRequest_def split: if_splits)
  then show ?thesis by (simp add: Decode_OverlayRequest_def Reader_rd r_U8_rd)
qed

definition status_base_bytes :: "Status \<Rightarrow> bytes" where
  "status_base_bytes v = [sessionState v] @ [systemState v] @ str_bytes (supportText v) @ []"

lemma Encode_Status_bytes:
  "Encode_Status v =
     (let bs = status_base_bytes v @ (if hasAuthStatus v then [authStatus v] else [])
      in if length (supportText v) \<le> 0xFFFF \<and> length bs \<le> MAX_PAYLOAD_BYTES then bs else [])"
proof -
  have "emits (w_seq ([w_U8 (sessionState v), w_U8 (systemState v), w_Str (supportText v)]
      @ (if hasAuthStatus v then [w_U8 (authStatus v)] else [])))
    (status_base_bytes v @ (if hasAuthStatus v then [authStatus v] else [])) (length (supportText v) \<le> 0xFFFF)"
    unfolding status_base_bytes_def
    by (cases "hasAuthStatus v"; simp; rule emits_eq, (rule emits_intros)+; simp)
  from w_result_emits [OF this] show ?thesis by (simp add: Encode_Status_def Let_def)
qed

text \<open>The block every peer sends, and the byte a peer of minor 2 may add.\<close>

definition read_status_base :: "Status stmt list" where
  "read_status_base =
     [r_field r_U8 sessionState sessionState_update,
      r_field r_U8 systemState systemState_update,
      r_field r_Str supportText supportText_update,
      r_set (\<lambda>out. out\<lparr>hasAuthStatus := False, authStatus := AUTH_NOT_AUTHENTICATED\<rparr>)]"

lemma takes_status_base:
  assumes "length (supportText v) \<le> 0xFFFF"
  shows "takes (r_seq read_status_base) out (status_base_bytes v)
    (v\<lparr>hasAuthStatus := False, authStatus := AUTH_NOT_AUTHENTICATED\<rparr>)"
proof -
  have "takes (r_seq read_status_base) out ([sessionState v] @ [systemState v] @ str_bytes (supportText v) @ [] @ [])
     (v\<lparr>hasAuthStatus := False, authStatus := AUTH_NOT_AUTHENTICATED\<rparr>)"
    unfolding read_status_base_def using assms by - (rule takes_eq, (rule takes_intros | simp)+)
  then show ?thesis by (simp add: status_base_bytes_def)
qed

lemma Decode_Status_base:
  assumes "length (supportText v) \<le> 0xFFFF"
  shows "Decode_Status (status_base_bytes v @ rest) out peerMinor =
    (let v0 = v\<lparr>hasAuthStatus := False, authStatus := AUTH_NOT_AUTHENTICATED\<rparr>;
         small = length (supportText v) \<le> MAX_SUPPORT_TEXT_BYTES
     in if peerMinor \<ge> 2 \<and> rest \<noteq> []
        then (\<not> hd rest > AUTH_FAILED \<and> small, v0\<lparr>hasAuthStatus := True, authStatus := hd rest\<rparr>)
        else (small, v0))"
proof -
  have "read_Status peerMinor s = r_seq (read_status_base @ [\<lambda>(out, r).
         if peerMinor \<ge> 2 \<and> r_ok r \<and> \<not> r_AtEnd r then
           (case r_U8 (authStatus out) r of (ok, v, r') \<Rightarrow>
              (ok \<and> \<not> v > AUTH_FAILED, out\<lparr>hasAuthStatus := True, authStatus := v\<rparr>, r'))
         else (True, out, r)]) s" for s
    by (simp add: read_Status_def read_status_base_def)
  with takesD(1) [OF takes_status_base [OF assms], of out "[]" rest] show ?thesis
    by (cases rest) (simp_all add: Decode_Status_def r_seq_snoc Reader_rd r_result_def Let_def r_U8_rd)
qed

section \<open>Game batches\<close>

lemma KnownGameOp_cases:
  assumes "KnownGameOp k"
  shows "k \<in> {1, 2, 3, 4, 5, 6, 7, 8, 9, 10}"
proof -
  have "unat k \<in> {1..10}" using assms by (simp add: KnownGameOp_def word_le_nat_alt)
  then have "unat k \<in> {1, 2, 3, 4, 5, 6, 7, 8, 9, 10}" by (simp add: atLeastAtMost_iff) arith
  then have "of_nat (unat k) \<in> (of_nat ` {1, 2, 3, 4, 5, 6, 7, 8, 9, 10} :: u8 set)" by blast
  then show ?thesis by simp
qed

text \<open>What an op is on the wire: the fields its kind does not carry come back as their defaults.\<close>

definition wire_op :: "GameOp \<Rightarrow> GameOp" where
  "wire_op op =
     (if opKind op \<in> {GAME_START, GAME_BALL, GAME_ACTIVE_PLAYER} then GameOp0\<lparr>opKind := opKind op, opValue := opValue op\<rparr>
      else if opKind op = GAME_SCORE
      then GameOp0\<lparr>opKind := opKind op, opValue := opValue op, opScore := opScore op, opFeature := opFeature op\<rparr>
      else if opKind op = GAME_ADD_MODE_EXPIRING
      then GameOp0\<lparr>opKind := opKind op, opSeconds := opSeconds op, opMode := opMode op\<rparr>
      else if opKind op \<in> {GAME_ADD_MODE, GAME_MODE_COMPLETED, GAME_REMOVE_MODE}
      then GameOp0\<lparr>opKind := opKind op, opMode := opMode op\<rparr>
      else GameOp0\<lparr>opKind := opKind op\<rparr>)"

definition op_bytes :: "GameOp \<Rightarrow> bytes" where
  "op_bytes op = [opKind op] @
     (if opKind op \<in> {GAME_START, GAME_BALL, GAME_ACTIVE_PLAYER} then [opValue op]
      else if opKind op = GAME_SCORE then [opValue op] @ (le64 (opScore op) @ le32 (opFeature op) @ []) @ []
      else if opKind op = GAME_ADD_MODE_EXPIRING then le32 (opSeconds op) @ str_bytes (opMode op) @ []
      else if opKind op \<in> {GAME_ADD_MODE, GAME_MODE_COMPLETED, GAME_REMOVE_MODE} then str_bytes (opMode op)
      else [])"

definition op_fits :: "GameOp \<Rightarrow> bool" where
  "op_fits op \<longleftrightarrow>
     (opKind op \<in> {GAME_ADD_MODE_EXPIRING, GAME_ADD_MODE, GAME_MODE_COMPLETED, GAME_REMOVE_MODE} \<longrightarrow>
        length (opMode op) \<le> 0xFFFF)"

lemma wire_op_simps [simp]: "opKind (wire_op op) = opKind op" "wire_op (wire_op op) = wire_op op"
  by (simp_all add: wire_op_def GameOp0_def)

lemma emits_op:
  assumes "KnownGameOp (opKind op)"
  shows "emits (w_seq (w_GameOp op)) (op_bytes op) (op_fits op)"
proof -
  from KnownGameOp_cases [OF assms] have "opKind op \<in> {1, 2, 3, 4, 5, 6, 7, 8, 9, 10}" .
  then show ?thesis
    unfolding w_GameOp_def op_bytes_def op_fits_def
    by (elim insertE emptyE)
       (simp_all, (rule emits_eq, (rule emits_intros)+, simp_all)+)
qed

definition read_op_fields :: "GameOp stmt" where
  "read_op_fields = (\<lambda>(op, r).
         if opKind op = GAME_START \<or> opKind op = GAME_BALL \<or> opKind op = GAME_ACTIVE_PLAYER
         then r_field r_U8 opValue opValue_update (op, r)
         else if opKind op = GAME_SCORE
         then r_seq [r_field r_U8 opValue opValue_update,
                     r_local r_U64 0 (\<lambda>score. r_local r_U32 0 (\<lambda>feature.
                       r_set (\<lambda>op. op\<lparr>opScore := score, opFeature := feature\<rparr>)))] (op, r)
         else if opKind op = GAME_ADD_MODE_EXPIRING
         then r_seq [r_field r_U32 opSeconds opSeconds_update, r_field r_Str opMode opMode_update] (op, r)
         else if opKind op = GAME_ADD_MODE \<or> opKind op = GAME_MODE_COMPLETED \<or> opKind op = GAME_REMOVE_MODE
         then r_field r_Str opMode opMode_update (op, r)
         else if opKind op = GAME_END \<or> opKind op = GAME_CLEAR_MODES then (True, op, r)
         else (False, op, r))"

lemma read_op_fields_bad: "\<not> r_ok r \<Longrightarrow> r_bad (read_op_fields (op, r))"
  by (simp add: read_op_fields_def r_field_def r_seq.simps r_local_def r_set_def r_failed)

lemma takes_score:
  "takes (r_seq [r_field r_U8 opValue opValue_update,
                 r_local r_U64 0 (\<lambda>score. r_local r_U32 0 (\<lambda>feature.
                   r_set (\<lambda>op. op\<lparr>opScore := score, opFeature := feature\<rparr>)))]) op
     ([v] @ (le64 s @ le32 f @ []) @ []) (op\<lparr>opValue := v, opScore := s, opFeature := f\<rparr>)"
  by (rule takes_eq, rule takes_seq_Cons, rule takes_intros, rule takes_seq_Cons, rule f64.local_takes [OF TrueI],
      rule f32.local_takes [OF TrueI], rule takes_set, simp add: r_set_def, simp add: r_local_def r_set_def r_failed,
      rule takes_seq_Nil, simp)

text \<open>A statement that behaves as another one on the record at hand takes the same bytes.\<close>

lemma takes_same:
  assumes "takes st' out bs out'" and "\<And>r. st (out, r) = st' (out, r)" and "\<And>o' r. \<not> r_ok r \<Longrightarrow> r_bad (st (o', r))"
  shows "takes st out bs out'"
  using assms by (simp add: takes_def)

lemma takes_op_fields:
  assumes "KnownGameOp (opKind op)" "op_fits op"
  shows "takes read_op_fields (GameOp0\<lparr>opKind := opKind op\<rparr>) (tl (op_bytes op)) (wire_op op)"
proof -
  let ?op = "GameOp0\<lparr>opKind := opKind op\<rparr>"
  note defs = op_bytes_def wire_op_def
  have same: "takes st ?op bs out' \<Longrightarrow> (\<And>r. read_op_fields (?op, r) = st (?op, r)) \<Longrightarrow> takes read_op_fields ?op bs out'" for st bs out'
    by (erule takes_same) (simp_all add: read_op_fields_bad)
  consider (val) "opKind op \<in> {1, 3, 4}" | (score) "opKind op = 5" | (expiring) "opKind op = 7"
    | (mode) "opKind op \<in> {6, 8, 9}" | (none) "opKind op \<in> {2, 10}"
    using KnownGameOp_cases [OF assms(1)] by auto
  then show ?thesis
  proof cases
    case val
    then have eqs: "tl (op_bytes op) = [opValue op]" "wire_op op = ?op\<lparr>opValue := opValue op\<rparr>" by (auto simp: defs)
    show ?thesis unfolding eqs
      by (rule same, rule f8.field_takes [OF TrueI]) (use val in \<open>auto simp: read_op_fields_def\<close>)
  next
    case score
    then have eqs: "tl (op_bytes op) = [opValue op] @ (le64 (opScore op) @ le32 (opFeature op) @ []) @ []"
      "wire_op op = ?op\<lparr>opValue := opValue op, opScore := opScore op, opFeature := opFeature op\<rparr>"
      by (simp_all add: defs)
    show ?thesis unfolding eqs
      by (rule same, rule takes_score) (use score in \<open>auto simp: read_op_fields_def\<close>)
  next
    case expiring
    then have eqs: "tl (op_bytes op) = le32 (opSeconds op) @ str_bytes (opMode op) @ []"
      "wire_op op = ?op\<lparr>opSeconds := opSeconds op, opMode := opMode op\<rparr>" by (simp_all add: defs)
    have "takes (r_seq [r_field r_U32 opSeconds opSeconds_update, r_field r_Str opMode opMode_update]) ?op
        (le32 (opSeconds op) @ str_bytes (opMode op) @ []) (?op\<lparr>opSeconds := opSeconds op, opMode := opMode op\<rparr>)"
      by (rule takes_eq, (rule takes_intros)+) (use expiring assms(2) in \<open>simp_all add: op_fits_def takes_seq_Nil\<close>)
    then show ?thesis unfolding eqs by (rule same) (use expiring in \<open>auto simp: read_op_fields_def\<close>)
  next
    case mode
    then have eqs: "tl (op_bytes op) = str_bytes (opMode op)" "wire_op op = ?op\<lparr>opMode := opMode op\<rparr>"
      and fit: "length (opMode op) \<le> 0xFFFF"
      using assms(2) by (auto simp: defs op_fits_def)
    show ?thesis unfolding eqs
      by (rule same, rule fstr.field_takes, rule fit) (use mode in \<open>auto simp: read_op_fields_def\<close>)
  next
    case none
    then have eqs: "tl (op_bytes op) = []" "wire_op op = ?op" by (auto simp: defs)
    show ?thesis unfolding eqs
      by (rule same, rule takes_seq_Nil) (use none in \<open>auto simp: read_op_fields_def r_seq.simps\<close>)
  qed
qed

lemma takes_op:
  assumes "KnownGameOp (opKind op)" "op_fits op"
  shows "takes read_GameOp GameOp0 (op_bytes op) (wire_op op)"
proof -
  have bs: "op_bytes op = [opKind op] @ tl (op_bytes op) @ []" by (simp add: op_bytes_def)
  have st: "read_GameOp = r_seq [r_field r_U8 opKind opKind_update, read_op_fields]"
    by (simp add: read_GameOp_def read_op_fields_def)
  show ?thesis
    by (subst bs, unfold st, rule takes_seq_Cons, rule takes_intros, rule takes_seq_Cons,
        rule takes_op_fields [OF assms], rule takes_seq_Nil)
qed

lemma read_GameOp_bad: "\<not> r_ok r \<Longrightarrow> r_bad (read_GameOp (op, r))"
  using takesD(3) [OF takes_op [of "GameOp0\<lparr>opKind := GAME_END\<rparr>"]] by (simp add: KnownGameOp_def op_fits_def)

lemma valid_ops_from_iff:
  "valid_ops_from i n os \<longleftrightarrow>
     (\<forall>j < length os. KnownGameOp (opKind (os ! j))
        \<and> (opKind (os ! j) = GAME_START \<longrightarrow> i + j = 0) \<and> (opKind (os ! j) = GAME_END \<longrightarrow> i + j = n - 1))"
proof (induction os arbitrary: i)
  case (Cons op os)
  have "(\<forall>j < length (op # os). Q j) \<longleftrightarrow> Q 0 \<and> (\<forall>j < length os. Q (Suc j))" for Q :: "nat \<Rightarrow> bool"
    by (auto simp: less_Suc_eq_0_disj)
  then show ?case by (simp add: Let_def Cons.IH)
qed simp

lemma ValidGameBatch_ops: "ValidGameBatch v \<Longrightarrow> op \<in> set (gameOps v) \<Longrightarrow> KnownGameOp (opKind op)"
  by (auto simp: ValidGameBatch_def valid_ops_from_iff in_set_conv_nth split: if_splits)

lemma op_bytes_length: "length os \<le> length (concat (map op_bytes os))"
  by (induction os) (simp_all add: op_bytes_def)

lemma wire_op_bytes [simp]: "op_bytes (wire_op op) = op_bytes op" "op_fits (wire_op op) = op_fits op"
  by (simp_all add: op_bytes_def op_fits_def wire_op_def GameOp0_def)

definition wire_batch :: "GameBatch \<Rightarrow> GameBatch" where
  "wire_batch v = v\<lparr>gameOps := map wire_op (gameOps v)\<rparr>"

definition batch_bytes :: "GameBatch \<Rightarrow> bytes" where
  "batch_bytes v = [] @ le32 (batchId v) @ (le16 (of_nat (length (gameOps v))) @ concat (map op_bytes (gameOps v))) @ []"

lemma emits_batch:
  assumes "ValidGameBatch v"
  shows "emits (w_seq [w_U32 (batchId v), w_U16 (of_nat (length (gameOps v))),
      w_seq (map (\<lambda>op. w_seq (w_GameOp op)) (gameOps v))]) (batch_bytes v) (\<forall>op \<in> set (gameOps v). op_fits op)"
proof -
  have ops: "emits (w_seq (map (\<lambda>op. w_seq (w_GameOp op)) (gameOps v))) (concat (map op_bytes (gameOps v)))
      (\<forall>op \<in> set (gameOps v). op_fits op)"
    by (rule emits_foreach) (rule emits_op [OF ValidGameBatch_ops [OF assms]])
  show ?thesis
    unfolding batch_bytes_def by (rule emits_eq, (rule emits_intros ops)+) simp_all
qed

lemma Encode_GameBatch_bytes:
  "Encode_GameBatch v =
     (if ValidGameBatch v \<and> (\<forall>op \<in> set (gameOps v). op_fits op) \<and> length (batch_bytes v) \<le> MAX_PAYLOAD_BYTES
      then batch_bytes v else [])"
  using w_result_emits [OF emits_batch, of v] by (simp add: Encode_GameBatch_def)

lemma takes_batch:
  assumes "ValidGameBatch v" "\<forall>op \<in> set (gameOps v). op_fits op"
  shows "takes read_GameBatch out (batch_bytes v) (wire_batch v)"
proof -
  have "length (gameOps v) \<le> 256" and ne: "gameOps v \<noteq> []"
    using assms(1) by (auto simp: ValidGameBatch_def MAX_GAME_OPS_def split: if_splits)
  then have n: "unat (of_nat (length (gameOps v)) :: u16) = length (map wire_op (gameOps v))"
    by (simp add: unat_of_nat_u16)
  then have nz: "of_nat (length (gameOps v)) \<noteq> (0 :: u16)" using ne by (metis length_map length_0_conv unat_0)
  have id: "takes (\<lambda>(out, r). case r_U32 (batchId out) r of (ok, v, r') \<Rightarrow> (ok, out\<lparr>batchId := v\<rparr>, r')) o' (le32 x) (o'\<lparr>batchId := x\<rparr>)"
    for o' x
  proof (rule takesI)
    fix pre bs' assume "strict_prefix bs' (le32 x)"
    from f32.get_short [OF TrueI this, of "batchId o'" pre]
    show "r_bad ((\<lambda>(out, r). case r_U32 (batchId out) r of (ok, v, r') \<Rightarrow> (ok, out\<lparr>batchId := v\<rparr>, r')) (o', rd pre bs'))"
      by auto
  qed (simp_all add: r_U32_rd r_failed)
  have ops: "takes (r_pushed r_ok GameOp0 read_GameOp (unat (of_nat (length (gameOps v)) :: u16)) gameOps_update) o'
      (concat (map op_bytes (map wire_op (gameOps v)))) (gameOps_update (\<lambda>_. map wire_op (gameOps v)) o')" for o'
  proof (rule takes_pushed [OF n])
    fix x assume "x \<in> set (map wire_op (gameOps v))"
    then obtain op where op: "x = wire_op op" "op \<in> set (gameOps v)" by auto
    with takes_op [OF ValidGameBatch_ops [OF assms(1) op(2)]] assms(2)
    show "takes read_GameOp GameOp0 (op_bytes x) x" by simp
  qed (simp_all add: read_GameOp_bad)
  then have ops': "takes (r_pushed r_ok GameOp0 read_GameOp (unat (of_nat (length (gameOps v)) :: u16)) gameOps_update) o'
      (concat (map op_bytes (gameOps v))) (gameOps_update (\<lambda>_. map wire_op (gameOps v)) o')" for o'
    by (simp add: comp_def)
  show ?thesis
    unfolding read_GameBatch_def batch_bytes_def
    by (rule takes_eq, rule takes_seq_Cons, rule takes_set, rule takes_seq_Cons, rule id, rule takes_seq_Cons,
        rule f16.require_takes [OF TrueI], rule takes_refuse,
        use n nz op_bytes_length [of "gameOps v"] \<open>length (gameOps v) \<le> 256\<close> in \<open>simp add: MAX_GAME_OPS_def\<close>,
        rule ops', rule takes_seq_Nil, simp add: wire_batch_def)
qed

lemma ValidGameBatch_wire [simp]: "ValidGameBatch (wire_batch v) = ValidGameBatch v"
  by (simp add: ValidGameBatch_def wire_batch_def valid_ops_from_iff)

interpretation game_batch: payload_codec Encode_GameBatch Decode_GameBatch "\<lambda>v. wire_batch v = v"
proof
  show "Decode_GameBatch (Encode_GameBatch v @ rest) out = (True, v)" if "wire_batch v = v" "Encode_GameBatch v \<noteq> []" for v rest out
    using that r_result_takes(1) [OF takes_batch [of v out], of ValidGameBatch rest]
    by (simp add: Encode_GameBatch_bytes Decode_GameBatch_def split: if_splits)
  show "\<not> fst (Decode_GameBatch (take k (Encode_GameBatch v)) out)" if "k < length (Encode_GameBatch v)" for v k out
    using that r_result_takes(2) [OF takes_batch [of v out], of "take k (batch_bytes v)" ValidGameBatch]
    by (simp add: Encode_GameBatch_bytes Decode_GameBatch_def strict_prefix_take split: if_splits)
qed

section \<open>Properties\<close>

text \<open>
  A status, by the daemon's minor: at minor 2 the authentication byte is decoded and checked, at
  an older minor the same bytes decode to the status without it; a support text over its bound and
  an authentication status out of range are refused.
\<close>

theorem status_roundtrip:
  assumes "Encode_Status v \<noteq> []"
  shows "Decode_Status (Encode_Status v) out peerMinor =
    (let small = length (supportText v) \<le> MAX_SUPPORT_TEXT_BYTES
     in if peerMinor \<ge> 2 \<and> hasAuthStatus v
        then (authStatus v \<le> AUTH_FAILED \<and> small, v)
        else (small, v\<lparr>hasAuthStatus := False, authStatus := AUTH_NOT_AUTHENTICATED\<rparr>))"
  using assms Decode_Status_base [of v "if hasAuthStatus v then [authStatus v] else []" out peerMinor]
  by (auto simp: Encode_Status_bytes Let_def not_less split: if_splits)

definition status_example :: Status where
  "status_example = \<lparr>sessionState = SESSION_TRACKING, systemState = SYSTEM_OK, supportText = ''ok'', hasAuthStatus = True,
     authStatus = AUTH_PAIRED\<rparr>"

theorem status_roundtrip_witness:
  "Decode_Status (Encode_Status status_example) Status0 2 = (True, status_example)
   \<and> Decode_Status (Encode_Status status_example) Status0 1
       = (True, status_example\<lparr>hasAuthStatus := False, authStatus := AUTH_NOT_AUTHENTICATED\<rparr>)"
proof -
  have "Encode_Status status_example \<noteq> []"
    by (simp add: Encode_Status_bytes status_example_def status_base_bytes_def bound_defs)
  from status_roundtrip [OF this, of Status0 2] status_roundtrip [OF this, of Status0 1] show ?thesis
    by (simp add: status_example_def MAX_SUPPORT_TEXT_BYTES_def word_le_nat_alt)
qed

text \<open>
  A batch of game operations survives the wire in order, each op with exactly the fields its
  kind carries, whatever follows it; cut short anywhere it is refused.
\<close>

theorem game_batch_roundtrip:
  assumes "Encode_GameBatch v \<noteq> []"
  shows "Decode_GameBatch (Encode_GameBatch v @ rest) out = (True, v\<lparr>gameOps := map wire_op (gameOps v)\<rparr>)
    \<and> (\<forall>k < length (Encode_GameBatch v). \<not> fst (Decode_GameBatch (take k (Encode_GameBatch v)) out))"
proof
  from assms have "ValidGameBatch v" "\<forall>op \<in> set (gameOps v). op_fits op" "Encode_GameBatch v = batch_bytes v"
    by (auto simp: Encode_GameBatch_bytes split: if_splits)
  then show "Decode_GameBatch (Encode_GameBatch v @ rest) out = (True, v\<lparr>gameOps := map wire_op (gameOps v)\<rparr>)"
    using r_result_takes(1) [OF takes_batch [of v out], of ValidGameBatch rest]
    by (simp add: Decode_GameBatch_def) (simp add: wire_batch_def)
  show "\<forall>k < length (Encode_GameBatch v). \<not> fst (Decode_GameBatch (take k (Encode_GameBatch v)) out)"
    using r_result_takes(2) [OF takes_batch [of v out]]
    by (simp add: Encode_GameBatch_bytes Decode_GameBatch_def strict_prefix_take split: if_splits)
qed

definition batch_example :: GameBatch where
  "batch_example = \<lparr>gameOps = [GameOp0\<lparr>opKind := GAME_START\<rparr>, GameOp0\<lparr>opKind := GAME_SCORE, opValue := 1, opScore := 500\<rparr>,
     GameOp0\<lparr>opKind := GAME_END\<rparr>], batchId = 9\<rparr>"

lemma batch_example_encodes: "length (Encode_GameBatch batch_example) = 23"
  by (simp add: Encode_GameBatch_bytes batch_example_def ValidGameBatch_def KnownGameOp_def MAX_GAME_OPS_def op_fits_def
      op_bytes_def batch_bytes_def bound_defs GameOp0_def)

theorem game_batch_roundtrip_witness:
  "Decode_GameBatch (Encode_GameBatch batch_example @ [7]) GameBatch0 = (True, batch_example)
   \<and> \<not> fst (Decode_GameBatch (take 22 (Encode_GameBatch batch_example)) GameBatch0)"
proof -
  have "Encode_GameBatch batch_example \<noteq> []" using batch_example_encodes by auto
  from game_batch_roundtrip [OF this, of "[7]" GameBatch0] batch_example_encodes show ?thesis
    by (simp add: batch_example_def wire_op_def GameOp0_def)
qed



end
