(* ===== verification/Handoff.thy ===== *)
theory Handoff
  imports Prelude
begin

text \<open>
  The handoffs between threads. The interface \<open>handoff\<close> is what both of them promise their two
  sides: what is taken is what was held, a take empties it, and a post adds at the end, possibly
  at the price of older values. From it alone, over every interleaving of posts and takes, what has
  been taken is a subsequence of what was posted: nothing is taken twice, out of order, or
  made up. \<^verbatim>\<open>src/Latch.h\<close> is one of its instances, here; the game queue is the other.
\<close>

section \<open>The interface\<close>

datatype 'a handoff_event = Posted 'a | Taken

locale handoff =
  fixes contents :: "'s \<Rightarrow> 'a list"
    and post :: "'a \<Rightarrow> 's \<Rightarrow> 's"
    and takeAll :: "'s \<Rightarrow> 'a list \<times> 's"
  assumes takeAll_contents: "fst (takeAll s) = contents s" "contents (snd (takeAll s)) = []"
    and post_contents: "subseq (contents (post x s)) (contents s @ [x])"
begin

fun run :: "'a handoff_event list \<Rightarrow> 's \<times> 'a list \<Rightarrow> 's \<times> 'a list" where
  "run [] st = st"
| "run (Posted x # es) (s, out) = run es (post x s, out)"
| "run (Taken # es) (s, out) = run es (snd (takeAll s), out @ fst (takeAll s))"

fun posted :: "'a handoff_event list \<Rightarrow> 'a list" where
  "posted [] = []"
| "posted (Posted x # es) = x # posted es"
| "posted (Taken # es) = posted es"

lemma run_subseq:
  assumes "subseq (out @ contents s) h"
  shows "subseq (snd (run es (s, out)) @ contents (fst (run es (s, out)))) (h @ posted es)"
  using assms
proof (induction es "(s, out)" arbitrary: s out h rule: run.induct)
  case 1
  then show ?case by simp
next
  case (2 x es s out)
  have "subseq (out @ contents (post x s)) ((out @ contents s) @ [x])"
    using post_contents [of x s] by (simp add: subseq_append')
  then have "subseq (out @ contents (post x s)) (h @ [x])"
    by (rule subseq_order.order_trans) (rule list_emb_append_mono [OF "2.prems" subseq_order.order_refl])
  from "2.hyps" [OF this] show ?case by simp
next
  case (3 es s out)
  then have "subseq ((out @ fst (takeAll s)) @ contents (snd (takeAll s))) h"
    by (simp add: takeAll_contents)
  from "3.hyps" [OF this] show ?case by simp
qed

lemma taken_subseq:
  assumes "contents s = []"
  shows "subseq (snd (run es (s, []))) (posted es)"
proof -
  have "subseq (snd (run es (s, [])) @ contents (fst (run es (s, [])))) ([] @ posted es)"
    by (rule run_subseq) (simp add: assms)
  then have "subseq (snd (run es (s, [])) @ contents (fst (run es (s, [])))) (posted es)" by simp
  with subseq_rev_drop_many [OF subseq_order.order_refl] show ?thesis by (rule subseq_order.order_trans)
qed

end

section \<open>Latch\<close>

text \<open>The single slot: \<open>None\<close> is the null pointer.\<close>

record 'a latch =
  m_slot :: "'a option"

definition Latch :: "'a latch" where
  "Latch = \<lparr>m_slot = None\<rparr>"

definition latch_Post :: "'a \<Rightarrow> 'a latch \<Rightarrow> 'a latch" where
  "latch_Post value l = l\<lparr>m_slot := Some value\<rparr>"

definition latch_Take :: "'a latch \<Rightarrow> 'a option \<times> 'a latch" where
  "latch_Take l = (m_slot l, l\<lparr>m_slot := None\<rparr>)"

definition latch_contents :: "'a latch \<Rightarrow> 'a list" where
  "latch_contents l = (case m_slot l of None \<Rightarrow> [] | Some v \<Rightarrow> [v])"

interpretation latch: handoff latch_contents latch_Post "\<lambda>l. (latch_contents l, snd (latch_Take l))"
  by unfold_locales (auto simp: latch_contents_def latch_Post_def latch_Take_def split: option.splits)

end
