(* ===== verification/Game_Queue.thy ===== *)
theory Game_Queue
  imports Wire_Game Handoff
begin

text \<open>
  \<^verbatim>\<open>src/GameQueue.h\<close>: the committed game batches that wait for the socket worker, bounded in ops.
  The mutex makes each operation atomic, so an operation is a function on the state. When full the
  queue drops its oldest whole game first, and refuses the later batches of a game that alone
  outgrew it. What it must never do is hand the worker a game with a batch missing in its middle:
  \<open>reaches_gapless\<close> states that over every sequence of operations.
\<close>

section \<open>Model\<close>

record GamePost =
  epoch :: u64
  batch :: GameBatch

definition MAX_QUEUED_GAME_OPS :: nat where "MAX_QUEUED_GAME_OPS = 16384"

record game_queue =
  m_maxOps :: nat
  m_queue :: "GamePost list"
  m_ops :: nat
  m_refusing :: bool

definition GameQueue :: "nat \<Rightarrow> game_queue" where
  "GameQueue maxOps = \<lparr>m_maxOps = maxOps, m_queue = [], m_ops = 0, m_refusing = False\<rparr>"

abbreviation post_ops :: "GamePost \<Rightarrow> GameOp list" where
  "post_ops p \<equiv> gameOps (batch p)"

definition starts :: "GamePost \<Rightarrow> bool" where
  "starts p \<longleftrightarrow> post_ops p \<noteq> [] \<and> opKind (hd (post_ops p)) = GAME_START"

text \<open>The index of the next queued game start, from \<open>next\<close> on, or the size of the queue.\<close>

fun next_start :: "GamePost list \<Rightarrow> nat" where
  "next_start [] = 0"
| "next_start (p # ps) = (if opKind (hd (post_ops p)) \<noteq> GAME_START then Suc (next_start ps) else 0)"

definition EvictOldestGame :: "bool \<Rightarrow> game_queue \<Rightarrow> bool \<times> game_queue" where
  "EvictOldestGame incomingStarts q =
     (if m_queue q = [] then (False, q)
      else let nxt = 1 + next_start (drop 1 (m_queue q))
           in if nxt = length (m_queue q) \<and> \<not> incomingStarts then (False, q)
              else (True, q\<lparr>m_ops := m_ops q - sum_list (map (\<lambda>p. length (post_ops p)) (take nxt (m_queue q))),
                            m_queue := drop nxt (m_queue q)\<rparr>))"

lemma EvictOldestGame_shrinks:
  "fst (EvictOldestGame st q) \<Longrightarrow> length (m_queue (snd (EvictOldestGame st q))) < length (m_queue q)"
  by (cases "m_queue q") (auto simp: EvictOldestGame_def Let_def split: if_splits)

text \<open>The loop \<^verbatim>\<open>while (m_ops + ops > m_maxOps && EvictOldestGame(starts)) dropped = true;\<close>.\<close>

function evict_until :: "bool \<Rightarrow> nat \<Rightarrow> bool \<times> game_queue \<Rightarrow> bool \<times> game_queue" where
  "evict_until st n (dropped, q) =
     (if m_ops q + n > m_maxOps q \<and> fst (EvictOldestGame st q)
      then evict_until st n (True, snd (EvictOldestGame st q)) else (dropped, q))"
  by pat_completeness auto
termination
  by (relation "measure (\<lambda>(st, n, dropped, q). length (m_queue q))") (auto dest: EvictOldestGame_shrinks)

declare evict_until.simps [simp del]

text \<open>One post of the loop of \<open>Push\<close>, with the \<^verbatim>\<open>dropped\<close> flag.\<close>

definition push_one :: "GamePost \<Rightarrow> bool \<times> game_queue \<Rightarrow> bool \<times> game_queue" where
  "push_one p s = (case s of (dropped, q) \<Rightarrow>
     if m_refusing q \<and> \<not> starts p then (True, q)
     else let n = length (post_ops p);
              (dropped, q) = evict_until (starts p) n (dropped, q)
          in if m_ops q + n > m_maxOps q then (True, q\<lparr>m_refusing := True\<rparr>)
             else (dropped, q\<lparr>m_refusing := False, m_ops := m_ops q + n, m_queue := m_queue q @ [p]\<rparr>))"

definition Push :: "GamePost list \<Rightarrow> game_queue \<Rightarrow> bool \<times> game_queue" where
  "Push posts q = foldl (\<lambda>s p. push_one p s) (False, q) posts"

definition TakeAll :: "GamePost list \<Rightarrow> game_queue \<Rightarrow> GamePost list \<times> game_queue" where
  "TakeAll out q = (out @ m_queue q, q\<lparr>m_queue := [], m_ops := 0\<rparr>)"

definition QueuedOps :: "game_queue \<Rightarrow> nat" where
  "QueuedOps q = m_ops q"

section \<open>Invariant\<close>

text \<open>The count is right and within the bound; a queued batch is never empty, as \<open>ValidGameBatch\<close> has it.\<close>

definition queued :: "GamePost list \<Rightarrow> nat" where
  "queued ps = sum_list (map (\<lambda>p. length (post_ops p)) ps)"

definition queue_ok :: "game_queue \<Rightarrow> bool" where
  "queue_ok q \<longleftrightarrow> m_ops q = queued (m_queue q) \<and> m_ops q \<le> m_maxOps q \<and> (\<forall>p \<in> set (m_queue q). post_ops p \<noteq> [])"

lemma queued_append [simp]: "queued (ps @ qs) = queued ps + queued qs"
  by (simp add: queued_def)

lemma queued_take_drop: "queued (take n ps) + queued (drop n ps) = queued ps"
  by (metis append_take_drop_id queued_append)

lemma next_start_le: "next_start ps \<le> length ps"
  by (induction ps) auto

lemma next_start_starts:
  "\<forall>p \<in> set ps. post_ops p \<noteq> [] \<Longrightarrow> next_start ps < length ps \<Longrightarrow> starts (ps ! next_start ps)"
  by (induction ps) (auto simp: starts_def)

lemma next_start_none:
  "\<forall>p \<in> set ps. post_ops p \<noteq> [] \<Longrightarrow> i < next_start ps \<Longrightarrow> \<not> starts (ps ! i)"
proof (induction ps arbitrary: i)
  case (Cons p ps)
  then show ?case by (cases i) (auto simp: starts_def split: if_splits)
qed simp

text \<open>What an eviction does: it drops a non-empty prefix, up to the next queued game.\<close>

lemma EvictOldestGame_drops:
  assumes ok: "queue_ok q" and ev: "EvictOldestGame st q = (True, q')"
  obtains n where "0 < n" "n \<le> length (m_queue q)" "q' = q\<lparr>m_ops := queued (drop n (m_queue q)), m_queue := drop n (m_queue q)\<rparr>"
    "n < length (m_queue q) \<Longrightarrow> starts (m_queue q ! n)" "n = length (m_queue q) \<Longrightarrow> st"
    "\<And>i. 0 < i \<Longrightarrow> i < n \<Longrightarrow> \<not> starts (m_queue q ! i)"
proof
  let ?n = "1 + next_start (drop 1 (m_queue q))"
  have ne: "m_queue q \<noteq> []" using ev by (auto simp: EvictOldestGame_def)
  then have len: "length (drop 1 (m_queue q)) + 1 = length (m_queue q)" by (cases "m_queue q") auto
  have all: "\<forall>p \<in> set (drop 1 (m_queue q)). post_ops p \<noteq> []"
    using ok by (auto simp: queue_ok_def dest: in_set_dropD)
  show "0 < ?n" by simp
  show "?n \<le> length (m_queue q)" using next_start_le [of "drop 1 (m_queue q)"] len by simp
  show "starts (m_queue q ! ?n)" if "?n < length (m_queue q)"
    using next_start_starts [OF all] that by simp
  show "st" if "?n = length (m_queue q)" using ev ne that by (simp add: EvictOldestGame_def split: if_splits)
  show "\<not> starts (m_queue q ! i)" if "0 < i" "i < ?n" for i
  proof -
    obtain j where "i = Suc j" using \<open>0 < i\<close> by (cases i) auto
    with next_start_none [OF all, of j] that len show ?thesis by simp
  qed
  have "m_ops q - queued (take ?n (m_queue q)) = queued (drop ?n (m_queue q))"
    using ok queued_take_drop [of ?n "m_queue q"] by (simp add: queue_ok_def)
  then show "q' = q\<lparr>m_ops := queued (drop ?n (m_queue q)), m_queue := drop ?n (m_queue q)\<rparr>"
    using ev ne by (simp add: EvictOldestGame_def Let_def queued_def split: if_splits)
qed

lemma queue_ok_drop:
  assumes "queue_ok q"
  shows "queue_ok (q\<lparr>m_ops := queued (drop n (m_queue q)), m_queue := drop n (m_queue q)\<rparr>)"
  using assms queued_take_drop [of n "m_queue q"] by (auto simp: queue_ok_def dest: in_set_dropD)

text \<open>The eviction loop: a prefix goes, and what is left starts with a game, as does what comes after an emptied queue.\<close>

definition evicted :: "bool \<Rightarrow> game_queue \<Rightarrow> game_queue \<Rightarrow> nat \<Rightarrow> bool" where
  "evicted st q q' n \<longleftrightarrow> n \<le> length (m_queue q)
     \<and> q' = q\<lparr>m_ops := queued (drop n (m_queue q)), m_queue := drop n (m_queue q)\<rparr>
     \<and> (0 < n \<and> n < length (m_queue q) \<longrightarrow> starts (m_queue q ! n)) \<and> (0 < n \<and> n = length (m_queue q) \<longrightarrow> st)"

lemma evicted_trans:
  assumes "evicted st q q1 n" "evicted st q1 q2 m"
  shows "evicted st q q2 (n + m)"
proof (cases "m = 0")
  case True
  with assms show ?thesis by (auto simp: evicted_def)
next
  case False
  with assms show ?thesis by (auto simp: evicted_def add.commute)
qed

lemma evict_until_drops:
  assumes "queue_ok q" "evict_until st k (dropped, q) = (dropped', q')"
  shows "\<exists>n. evicted st q q' n \<and> (dropped' \<longleftrightarrow> dropped \<or> 0 < n)
    \<and> (m_ops q' + k > m_maxOps q' \<longrightarrow> \<not> fst (EvictOldestGame st q'))"
  using assms
proof (induction st k "(dropped, q)" arbitrary: dropped q rule: evict_until.induct)
  case (1 st k dropped q)
  show ?case
  proof (cases "m_ops q + k > m_maxOps q \<and> fst (EvictOldestGame st q)")
    case False
    with "1.prems" have q': "q' = q" "dropped' = dropped" by (auto simp: evict_until.simps)
    have "evicted st q q 0" using "1.prems"(1) by (simp add: evicted_def queue_ok_def)
    with False q' show ?thesis by (intro exI [of _ 0]) auto
  next
    case True
    obtain q1 where ev: "EvictOldestGame st q = (True, q1)" using True by (cases "EvictOldestGame st q") auto
    from EvictOldestGame_drops [OF "1.prems"(1) ev] obtain n where n: "0 < n" "n \<le> length (m_queue q)"
      "q1 = q\<lparr>m_ops := queued (drop n (m_queue q)), m_queue := drop n (m_queue q)\<rparr>"
      "n < length (m_queue q) \<Longrightarrow> starts (m_queue q ! n)" "n = length (m_queue q) \<Longrightarrow> st" by metis
    then have e1: "evicted st q q1 n" by (simp add: evicted_def)
    have "queue_ok (snd (EvictOldestGame st q))" using queue_ok_drop [OF "1.prems"(1), of n] n(3) ev by simp
    moreover have "evict_until st k (True, snd (EvictOldestGame st q)) = (dropped', q')"
      using "1.prems"(2) True by (simp add: evict_until.simps [of st k dropped])
    ultimately obtain m where "evicted st q1 q' m" "dropped'" "m_ops q' + k > m_maxOps q' \<longrightarrow> \<not> fst (EvictOldestGame st q')"
      using "1.hyps" [OF True] unfolding ev snd_conv by blast
    with evicted_trans [OF e1] n(1) show ?thesis by blast
  qed
qed

text \<open>The only queue that cannot be evicted from: empty, or one game and a batch that goes on with it.\<close>

lemma not_evicted:
  assumes "queue_ok q" "\<not> fst (EvictOldestGame st q)"
  shows "m_queue q = [] \<or> \<not> st \<and> (\<forall>p \<in> set (tl (m_queue q)). \<not> starts p)"
proof (cases "m_queue q")
  case (Cons p ps)
  with assms(2) have "next_start ps = length ps" "\<not> st"
    by (auto simp: EvictOldestGame_def Let_def split: if_splits)
  moreover have "\<forall>p \<in> set ps. post_ops p \<noteq> []" using assms(1) Cons by (auto simp: queue_ok_def)
  ultimately show ?thesis using next_start_none [of ps] Cons by (auto simp: in_set_conv_nth)
qed simp

text \<open>What one post does to the queue.\<close>

lemma push_one_cases:
  assumes "queue_ok q" "push_one p (dropped, q) = (dropped', q')"
  obtains (refused) "m_refusing q" "\<not> starts p" "q' = q" "dropped'"
  | (outgrown) n where "n \<le> length (m_queue q)" "m_queue q' = drop n (m_queue q)" "m_refusing q'" "dropped'"
      "m_ops q' = queued (m_queue q')" "m_maxOps q' = m_maxOps q" "m_ops q' + length (post_ops p) > m_maxOps q"
      "0 < n \<and> n < length (m_queue q) \<longrightarrow> starts (m_queue q ! n)" "0 < n \<and> n = length (m_queue q) \<longrightarrow> starts p"
      "m_queue q' = [] \<or> \<not> starts p \<and> (\<forall>p \<in> set (tl (m_queue q')). \<not> starts p)"
      "m_refusing q \<longrightarrow> starts p"
  | (accepted) n where "n \<le> length (m_queue q)" "m_queue q' = drop n (m_queue q) @ [p]" "\<not> m_refusing q'"
      "dropped' \<longleftrightarrow> dropped \<or> 0 < n" "m_ops q' = queued (m_queue q')" "m_maxOps q' = m_maxOps q" "m_ops q' \<le> m_maxOps q"
      "0 < n \<and> n < length (m_queue q) \<longrightarrow> starts (m_queue q ! n)" "0 < n \<and> n = length (m_queue q) \<longrightarrow> starts p"
      "m_refusing q \<longrightarrow> starts p"
proof (cases "m_refusing q \<and> \<not> starts p")
  case True
  with assms(2) have "q' = q" dropped' by (auto simp: push_one_def)
  with True refused show ?thesis by blast
next
  case False
  obtain d1 q1 where e: "evict_until (starts p) (length (post_ops p)) (dropped, q) = (d1, q1)"
    by (cases "evict_until (starts p) (length (post_ops p)) (dropped, q)")
  from evict_until_drops [OF assms(1) e] obtain n where ev: "evicted (starts p) q q1 n" and d1: "d1 \<longleftrightarrow> dropped \<or> 0 < n"
    and stop: "m_ops q1 + length (post_ops p) > m_maxOps q1 \<longrightarrow> \<not> fst (EvictOldestGame (starts p) q1)" by blast
  from ev have n: "n \<le> length (m_queue q)"
    "q1 = q\<lparr>m_ops := queued (drop n (m_queue q)), m_queue := drop n (m_queue q)\<rparr>"
    "0 < n \<and> n < length (m_queue q) \<longrightarrow> starts (m_queue q ! n)" "0 < n \<and> n = length (m_queue q) \<longrightarrow> starts p"
    unfolding evicted_def by blast+
  have ok1: "queue_ok q1" using queue_ok_drop [OF assms(1), of n] n by simp
  show ?thesis
  proof (cases "m_ops q1 + length (post_ops p) > m_maxOps q1")
    case big: True
    with False assms(2) e have q': "q' = q1\<lparr>m_refusing := True\<rparr>" "dropped'" by (auto simp: push_one_def Let_def)
    show ?thesis
      using n(2) q' big stop not_evicted [OF ok1, of "starts p"] False
      by (intro outgrown [OF n(1) _ _ _ _ _ _ n(3,4)]) auto
  next
    case fits: False
    with False assms(2) e have q': "q' = q1\<lparr>m_refusing := False, m_ops := m_ops q1 + length (post_ops p), m_queue := m_queue q1 @ [p]\<rparr>"
      "dropped' = d1" by (auto simp: push_one_def Let_def)
    show ?thesis
      using n(2) q' d1 fits False by (intro accepted [OF n(1) _ _ _ _ _ _ n(3,4)]) (auto simp: queued_def)
  qed
qed

lemma push_one_ok:
  assumes "queue_ok q" "post_ops p \<noteq> []" "push_one p (dropped, q) = (dropped', q')"
  shows "queue_ok q' \<and> m_maxOps q' = m_maxOps q"
  using assms(1,3)
proof (cases rule: push_one_cases)
  case (outgrown n)
  moreover from this(5) assms(1) have "m_ops q' \<le> m_maxOps q"
    using queued_take_drop [of n "m_queue q"] outgrown(2) by (simp add: queue_ok_def)
  ultimately show ?thesis using assms(1) by (auto simp: queue_ok_def dest: in_set_dropD)
next
  case (accepted n)
  then show ?thesis using assms(1,2) by (auto simp: queue_ok_def dest: in_set_dropD)
qed (use assms in simp)

section \<open>No game with a hole\<close>

text \<open>
  What was handed over is a selection of what was pushed, given by its indices: each next one either
  follows the one before it directly, or starts a game.
\<close>

definition follows :: "GamePost list \<Rightarrow> nat \<Rightarrow> nat \<Rightarrow> bool" where
  "follows h i j \<longleftrightarrow> i < j \<and> (j = Suc i \<or> starts (h ! j))"

definition gapless :: "GamePost list \<Rightarrow> GamePost list \<Rightarrow> bool" where
  "gapless h out \<longleftrightarrow> (\<exists>is. out = map ((!) h) is \<and> (\<forall>i \<in> set is. i < length h) \<and> successively (follows h) is)"

text \<open>The states a queue and its two ends can be in: pushed so far, taken so far, and the queue.\<close>

inductive reaches :: "nat \<Rightarrow> GamePost list \<Rightarrow> GamePost list \<Rightarrow> game_queue \<Rightarrow> bool" for maxOps where
  reaches_init: "reaches maxOps [] [] (GameQueue maxOps)"
| reaches_push: "reaches maxOps h out q \<Longrightarrow> \<forall>p \<in> set posts. post_ops p \<noteq> [] \<Longrightarrow> reaches maxOps (h @ posts) out (snd (Push posts q))"
| reaches_take: "reaches maxOps h out q \<Longrightarrow> reaches maxOps h (fst (TakeAll out q)) (snd (TakeAll out q))"

definition queue_trace :: "nat \<Rightarrow> GamePost list \<Rightarrow> GamePost list \<Rightarrow> game_queue \<Rightarrow> nat list \<Rightarrow> bool" where
  "queue_trace maxOps h out q is \<longleftrightarrow>
     queue_ok q \<and> m_maxOps q = maxOps \<and> out @ m_queue q = map ((!) h) is \<and> (\<forall>i \<in> set is. i < length h)
     \<and> successively (follows h) is \<and> (\<not> m_refusing q \<and> h \<noteq> [] \<longrightarrow> is \<noteq> [] \<and> Suc (last is) = length h)"

lemma follows_mono: "follows h i j \<Longrightarrow> j < length h \<Longrightarrow> follows (h @ ps) i j"
  by (auto simp: follows_def nth_append)

lemma successively_follows_append:
  "successively (follows h) is \<Longrightarrow> \<forall>i \<in> set is. i < length h \<Longrightarrow> successively (follows (h @ ps)) is"
  by (erule successively_mono) (auto intro: follows_mono)

lemma follows_less: "successively (follows h) is \<Longrightarrow> sorted_wrt (<) is"
  using successively_mono [of "follows h" "is" "(<)"] successively_conv_sorted_wrt [of "(<)" "is"]
  by (auto simp: follows_def)

text \<open>Leaving out a run keeps the trace gapless when what follows it starts a game.\<close>

lemma successively_leave_out:
  assumes s: "successively (follows h) (a @ b @ c)" and c: "b = [] \<or> c = [] \<or> starts (h ! hd c)"
  shows "successively (follows h) (a @ c)"
proof (cases "a = [] \<or> b = [] \<or> c = []")
  case True
  with s show ?thesis by (auto simp: successively_append_iff)
next
  case False
  have "sorted_wrt (<) (a @ b @ c)" using s by (rule follows_less)
  then have "last a < hd c" using False by (auto simp: sorted_wrt_append)
  then have "follows h (last a) (hd c)" using False c by (simp add: follows_def)
  with s show ?thesis by (auto simp: successively_append_iff)
qed

lemma trace_evict:
  assumes tr: "queue_trace maxOps h out q is" and n: "n \<le> length (m_queue q)"
    and st: "0 < n \<and> n < length (m_queue q) \<longrightarrow> starts (m_queue q ! n)"
  defines "js \<equiv> take (length out) is @ drop (length out + n) is"
  shows "out @ drop n (m_queue q) = map ((!) h) js" "\<forall>i \<in> set js. i < length h" "successively (follows h) js"
proof -
  have m: "map ((!) h) is = out @ m_queue q" and s: "successively (follows h) is" and b: "\<forall>i \<in> set is. i < length h"
    using tr by (auto simp: queue_trace_def)
  have len: "length is = length out + length (m_queue q)" using m by (metis length_append length_map)
  have "map ((!) h) js = take (length out) (out @ m_queue q) @ drop (length out + n) (out @ m_queue q)"
    by (simp add: js_def take_map drop_map flip: m)
  then show "out @ drop n (m_queue q) = map ((!) h) js" by simp
  show "\<forall>i \<in> set js. i < length h" using b by (auto simp: js_def dest: in_set_takeD in_set_dropD)
  have split: "is = take (length out) is @ take n (drop (length out) is) @ drop (length out + n) is"
    by (metis append_take_drop_id drop_drop add.commute)
  have "starts (h ! hd (drop (length out + n) is))" if "0 < n" "n < length (m_queue q)"
  proof -
    have "h ! (is ! (length out + n)) = (out @ m_queue q) ! (length out + n)"
      using that len by (simp flip: m)
    then show ?thesis using st that len by (simp add: hd_drop_conv_nth)
  qed
  then have "take n (drop (length out) is) = [] \<or> drop (length out + n) is = [] \<or> starts (h ! hd (drop (length out + n) is))"
    using n len by force
  with s split show "successively (follows h) js"
    unfolding js_def by (metis successively_leave_out)
qed

lemma trace_push_one:
  assumes tr: "queue_trace maxOps h out q is" and p: "post_ops p \<noteq> []" and pu: "push_one p (dropped, q) = (dropped', q')"
  shows "\<exists>js. queue_trace maxOps (h @ [p]) out q' js"
proof -
  have ok: "queue_ok q" "m_maxOps q = maxOps" using tr by (auto simp: queue_trace_def)
  have ok': "queue_ok q'" "m_maxOps q' = maxOps" using push_one_ok [OF ok(1) p pu] ok(2) by auto
  have nth: "map ((!) (h @ [p])) js = map ((!) h) js" if "\<forall>i \<in> set js. i < length h" for js
    using that by (simp add: nth_append)
  show ?thesis
    using ok(1) pu
  proof (cases rule: push_one_cases)
    case refused
    with tr show ?thesis
      by (intro exI [of _ "is"]) (auto simp: queue_trace_def nth_append successively_follows_append)
  next
    case (outgrown n)
    define js where "js = take (length out) is @ drop (length out + n) is"
    note ev = trace_evict [OF tr outgrown(1,8), folded js_def]
    from ok' outgrown(2,3) ev nth [OF ev(2)] successively_follows_append [OF ev(3,2), of "[p]"]
    have "queue_trace maxOps (h @ [p]) out q' js" by (auto simp: queue_trace_def)
    then show ?thesis ..
  next
    case (accepted n)
    define js where "js = take (length out) is @ drop (length out + n) is"
    note ev = trace_evict [OF tr accepted(1,8), folded js_def]
    have "follows (h @ [p]) (last js) (length h)" if "js \<noteq> []"
    proof (cases "starts p")
      case True
      then show ?thesis using ev(2) last_in_set [OF that] by (auto simp: follows_def nth_append)
    next
      case False
      with accepted(10) have "\<not> m_refusing q" by simp
      moreover from tr have len: "length is = length out + length (m_queue q)"
        unfolding queue_trace_def by (metis length_append length_map)
      have "is \<noteq> []" using that by (auto simp: js_def)
      then have "h \<noteq> []" using tr by (auto simp: queue_trace_def)
      ultimately have "Suc (last is) = length h" using tr by (simp add: queue_trace_def)
      moreover have "last js = last is"
      proof (cases "n < length (m_queue q)")
        case True
        then show ?thesis using len by (simp add: js_def last_append last_drop)
      next
        case nge: False
        then have "n = 0" "m_queue q = []" using accepted(1,9) False by auto
        then show ?thesis using len by (simp add: js_def)
      qed
      ultimately show ?thesis by (simp add: follows_def)
    qed
    then have "successively (follows (h @ [p])) (js @ [length h])"
      using successively_follows_append [OF ev(3,2), of "[p]"] by (auto simp: successively_append_iff)
    with ok' accepted(2,3) ev nth [OF ev(2)]
    have "queue_trace maxOps (h @ [p]) out q' (js @ [length h])" by (auto simp: queue_trace_def)
    then show ?thesis ..
  qed
qed

lemma trace_push:
  assumes "queue_trace maxOps h out q is" "\<forall>p \<in> set posts. post_ops p \<noteq> []"
  shows "\<exists>js. queue_trace maxOps (h @ posts) out (snd (foldl (\<lambda>s p. push_one p s) (dropped, q) posts)) js"
  using assms
proof (induction posts arbitrary: h q "is" dropped)
  case Nil
  then show ?case by auto
next
  case (Cons p posts)
  obtain d1 q1 where pu: "push_one p (dropped, q) = (d1, q1)" by (cases "push_one p (dropped, q)")
  from trace_push_one [OF Cons.prems(1) _ pu] Cons.prems(2) obtain js where "queue_trace maxOps (h @ [p]) out q1 js" by auto
  from Cons.IH [OF this, of d1] Cons.prems(2) pu show ?case by simp
qed

lemma reaches_trace: "reaches maxOps h out q \<Longrightarrow> \<exists>is. queue_trace maxOps h out q is"
proof (induction rule: reaches.induct)
  case reaches_init
  have "queue_trace maxOps [] [] (GameQueue maxOps) []"
    by (simp add: queue_trace_def GameQueue_def queue_ok_def queued_def)
  then show ?case ..
next
  case (reaches_push h out q posts)
  then show ?case using trace_push [of maxOps h out q _ posts False] by (auto simp: Push_def)
next
  case (reaches_take h out q)
  then obtain "is" where "queue_trace maxOps h out q is" by blast
  then have "queue_trace maxOps h (fst (TakeAll out q)) (snd (TakeAll out q)) is"
    by (auto simp: queue_trace_def TakeAll_def queue_ok_def queued_def)
  then show ?case ..
qed

section \<open>The queue as a handoff\<close>

lemma EvictOldestGame_suffix: "\<exists>n. m_queue (snd (EvictOldestGame st q)) = drop n (m_queue q)"
  by (auto simp: EvictOldestGame_def Let_def intro: exI [of _ 0])

lemma evict_until_suffix: "\<exists>n. m_queue (snd (evict_until st k (dropped, q))) = drop n (m_queue q)"
proof (induction st k "(dropped, q)" arbitrary: dropped q rule: evict_until.induct)
  case (1 st k dropped q)
  show ?case
  proof (cases "m_ops q + k > m_maxOps q \<and> fst (EvictOldestGame st q)")
    case True
    from "1" [OF True] EvictOldestGame_suffix [of st q] True show ?thesis
      by (auto simp: evict_until.simps [of st k dropped])
  next
    case False
    then show ?thesis by (auto simp: evict_until.simps [of st k dropped] intro: exI [of _ 0])
  qed
qed

lemma subseq_drop_append: "subseq (drop n xs) (xs @ ys)" "subseq (drop n xs @ ys) (xs @ ys)"
proof -
  have d: "subseq (drop n xs) xs" by (metis append_take_drop_id subseq_drop_many subseq_order.order_refl)
  then show "subseq (drop n xs) (xs @ ys)" by (rule subseq_rev_drop_many)
  from d subseq_order.order_refl show "subseq (drop n xs @ ys) (xs @ ys)" by (rule list_emb_append_mono)
qed

lemma push_one_subseq: "subseq (m_queue (snd (push_one p (dropped, q)))) (m_queue q @ [p])"
proof -
  obtain d1 q1 where e: "evict_until (starts p) (length (post_ops p)) (dropped, q) = (d1, q1)"
    by (cases "evict_until (starts p) (length (post_ops p)) (dropped, q)")
  with evict_until_suffix [of "starts p" "length (post_ops p)" dropped q] obtain n where "m_queue q1 = drop n (m_queue q)" by auto
  with e show ?thesis
    using subseq_drop_append [of 0 "m_queue q" "[p]"] subseq_drop_append [of n "m_queue q" "[p]"]
    by (simp add: push_one_def Let_def)
qed

interpretation game_queue: handoff m_queue "\<lambda>p q. snd (Push [p] q)" "\<lambda>q. (fst (TakeAll [] q), snd (TakeAll [] q))"
  by unfold_locales (simp_all add: TakeAll_def Push_def push_one_subseq)

section \<open>Properties\<close>

text \<open>
  C9. Over every sequence of pushes and takes, what the worker has taken, with what is still queued, is
  what was pushed, in order, with batches missing only before the start of a game: no game is ever
  handed over with a hole in it. And the queue never holds more ops than its bound, which its
  counter states exactly.
\<close>

theorem game_queue_gapless:
  assumes "reaches maxOps h out q"
  shows "gapless h (out @ m_queue q) \<and> QueuedOps q = sum_list (map (\<lambda>p. length (gameOps (batch p))) (m_queue q))
    \<and> QueuedOps q \<le> maxOps"
  using reaches_trace [OF assms] unfolding queue_trace_def gapless_def queue_ok_def queued_def QueuedOps_def by blast

text \<open>Two games in a queue of three ops: the second evicts the first.\<close>

definition start_post :: GamePost where
  "start_post = \<lparr>epoch = 1, batch = \<lparr>gameOps = [GameOp0\<lparr>opKind := GAME_START\<rparr>, GameOp0\<lparr>opKind := GAME_BALL\<rparr>], batchId = 0\<rparr>\<rparr>"

definition ball_post :: GamePost where
  "ball_post = \<lparr>epoch = 1, batch = \<lparr>gameOps = [GameOp0\<lparr>opKind := GAME_BALL\<rparr>], batchId = 0\<rparr>\<rparr>"

theorem game_queue_gapless_witness:
  "gapless [start_post, ball_post, start_post] (m_queue (snd (Push [start_post, ball_post, start_post] (GameQueue 3))))
   \<and> m_queue (snd (Push [start_post, ball_post, start_post] (GameQueue 3))) = [start_post]"
proof -
  have "reaches 3 ([] @ [start_post, ball_post, start_post]) [] (snd (Push [start_post, ball_post, start_post] (GameQueue 3)))"
    by (intro reaches_push reaches_init) (simp add: start_post_def ball_post_def)
  from game_queue_gapless [OF this] show ?thesis
    by (simp add: Push_def push_one_def evict_until.simps EvictOldestGame_def GameQueue_def start_post_def ball_post_def
        starts_def GameOp0_def)
qed

text \<open>
  The newest game wins. A batch that starts a game and fits the queue at all is always queued, last;
  and a batch is turned away only when it continues a game that was already being refused, or when
  what is queued is that one game alone and the batch would take it over the bound.
\<close>

theorem game_queue_keeps_newest:
  assumes "reaches maxOps h out q" and "gameOps (batch p) \<noteq> []"
  shows "(starts p \<and> length (gameOps (batch p)) \<le> maxOps \<longrightarrow>
        m_queue (snd (Push [p] q)) \<noteq> [] \<and> last (m_queue (snd (Push [p] q))) = p \<and> \<not> m_refusing (snd (Push [p] q)))
    \<and> (m_refusing (snd (Push [p] q)) \<longrightarrow>
        m_refusing q \<and> \<not> starts p \<and> snd (Push [p] q) = q
        \<or> QueuedOps (snd (Push [p] q)) + length (gameOps (batch p)) > maxOps
          \<and> (\<forall>p' \<in> set (tl (m_queue (snd (Push [p] q)))). \<not> starts p'))"
proof -
  obtain d' q' where pu: "push_one p (False, q) = (d', q')" by (cases "push_one p (False, q)")
  from reaches_trace [OF assms(1)] have ok: "queue_ok q" "m_maxOps q = maxOps" by (auto simp: queue_trace_def)
  from ok(1) pu show ?thesis
  proof (cases rule: push_one_cases)
    case (outgrown n)
    have "starts p \<Longrightarrow> m_queue q' = []" using outgrown(10) by simp
    then have "\<not> (starts p \<and> length (post_ops p) \<le> maxOps)" using outgrown(5,7) ok(2) by (auto simp: queued_def)
    with outgrown pu ok(2) show ?thesis by (auto simp: Push_def QueuedOps_def)
  qed (use pu in \<open>auto simp: Push_def\<close>)
qed

theorem game_queue_keeps_newest_witness:
  "last (m_queue (snd (Push [start_post] (snd (Push [start_post, ball_post] (GameQueue 3)))))) = start_post"
proof -
  have "reaches 3 ([] @ [start_post, ball_post]) [] (snd (Push [start_post, ball_post] (GameQueue 3)))"
    by (intro reaches_push reaches_init) (simp add: start_post_def ball_post_def)
  from game_queue_keeps_newest [OF this, of start_post] show ?thesis
    by (simp add: starts_def) (simp add: start_post_def GameOp0_def)
qed

end
