(* ===== verification/Seq_Lock.thy ===== *)
theory Seq_Lock
  imports Prelude
begin

text \<open>
  \<^verbatim>\<open>src/SeqLock.h\<close>: one writer publishes a buffer, any number of readers copy it, nobody waits. The
  shared memory is the sequence counter, the size and the words; every atomic load and store is
  one step, and the steps of the writer and of all readers interleave freely. The release and
  acquire fences make the code's relaxed accesses behave as if they happened in that one order.
  A word is its object representation, the eight bytes the two \<^verbatim>\<open>memcpy\<close>s copy.

  \<open>sl_Write\<close> and \<open>sl_Read\<close> are written as machines: \<open>write_step\<close> and \<open>read_step\<close> run one access
  and the local code up to the next one. The capacity is the template parameter \<open>MaxBytes\<close>, \<open>cap\<close>.
\<close>

section \<open>Model\<close>

abbreviation (input) MAX_RETRIES :: nat where "MAX_RETRIES \<equiv> 3"
abbreviation (input) MAX_YIELDS :: nat where "MAX_YIELDS \<equiv> 1000"

record shared =
  sl_seq :: u64
  sl_size :: nat
  sl_words :: "nat \<Rightarrow> bytes"

definition SeqLock :: shared where
  "SeqLock = \<lparr>sl_seq = 0, sl_size = 0, sl_words = (\<lambda>_. replicate 8 0)\<rparr>"

definition word_count :: "nat \<Rightarrow> nat" where
  "word_count n = (n + 7) div 8"

text \<open>\<^verbatim>\<open>uint64_t word = 0; memcpy(&word, bytes + i * 8, min(8, size - i * 8));\<close>\<close>

definition chunk :: "bytes \<Rightarrow> nat \<Rightarrow> bytes" where
  "chunk d i = take 8 (take (min 8 (length d - 8 * i)) (drop (8 * i) d) @ replicate 8 0)"

text \<open>
  The writer, between two accesses: not writing; about to store the odd sequence number, the
  size, word \<open>i\<close>, the even sequence number. \<open>seq\<close> is its local variable.
\<close>

datatype writer_pc =
    W_Idle
  | W_Begin bytes
  | W_Odd bytes u64
  | W_Size bytes u64
  | W_Word bytes u64 nat

definition sl_Write :: "nat \<Rightarrow> bytes \<Rightarrow> bool \<times> writer_pc" where
  "sl_Write cap d = (if length d > cap then (False, W_Idle) else (True, W_Begin d))"

fun write_step :: "shared \<times> writer_pc \<Rightarrow> shared \<times> writer_pc" where
  "write_step (sh, W_Idle) = (sh, W_Idle)"
| "write_step (sh, W_Begin d) = (sh, W_Odd d (sl_seq sh))"
| "write_step (sh, W_Odd d seq) = (sh\<lparr>sl_seq := seq + 1\<rparr>, W_Size d seq)"
| "write_step (sh, W_Size d seq) = (sh\<lparr>sl_size := length d\<rparr>, W_Word d seq 0)"
| "write_step (sh, W_Word d seq i) =
     (if i < word_count (length d) then (sh\<lparr>sl_words := (sl_words sh)(i := chunk d i)\<rparr>, W_Word d seq (Suc i))
      else (sh\<lparr>sl_seq := seq + 2\<rparr>, W_Idle))"

text \<open>
  A reader, with its attempt and yield counters: about to load the sequence number, the size, word
  \<open>i\<close>, the sequence number again; or returned, with the bytes and the sequence number it read.
\<close>

datatype reader_pc =
    R_Load nat nat
  | R_Size nat nat u64
  | R_Word nat nat u64 nat nat bytes
  | R_Done "(bytes \<times> u64) option"

definition sl_Read :: reader_pc where
  "sl_Read = R_Load 0 0"

text \<open>The loop's next attempt, or its end.\<close>

definition retry :: "nat \<Rightarrow> nat \<Rightarrow> reader_pc" where
  "retry attempt yields = (if Suc attempt \<le> MAX_RETRIES then R_Load (Suc attempt) yields else R_Done None)"

fun read_step :: "nat \<Rightarrow> shared \<Rightarrow> reader_pc \<Rightarrow> reader_pc" where
  "read_step cap sh (R_Load attempt yields) =
     (let before = sl_seq sh in
      if odd before then (if yields < MAX_YIELDS then R_Load attempt (Suc yields) else retry attempt (Suc yields))
      else if before = 0 then R_Done None
      else R_Size attempt yields before)"
| "read_step cap sh (R_Size attempt yields before) =
     (if sl_size sh > cap then retry attempt yields else R_Word attempt yields before (sl_size sh) 0 [])"
| "read_step cap sh (R_Word attempt yields before n i dst) =
     (if i < word_count n
      then R_Word attempt yields before n (Suc i) (dst @ take (min 8 (n - 8 * i)) (sl_words sh i))
      else if sl_seq sh = before then R_Done (Some (dst, before)) else retry attempt yields)"
| "read_step cap sh (R_Done r) = R_Done r"

definition Sequence :: "shared \<Rightarrow> u64" where
  "Sequence sh = sl_seq sh"

section \<open>Every interleaving\<close>

text \<open>The lock in use: the memory, the writer, the readers, and the values published so far.\<close>

record lock_state =
  ls_mem :: shared
  ls_writer :: writer_pc
  ls_readers :: "nat \<Rightarrow> reader_pc"
  ls_written :: "bytes list"

inductive lock_reach :: "nat \<Rightarrow> lock_state \<Rightarrow> bool" for cap where
  lock_init: "lock_reach cap \<lparr>ls_mem = SeqLock, ls_writer = W_Idle, ls_readers = (\<lambda>_. R_Done None), ls_written = []\<rparr>"
| lock_Write: "lock_reach cap s \<Longrightarrow> ls_writer s = W_Idle \<Longrightarrow> sl_Write cap d = (True, w) \<Longrightarrow> lock_reach cap (s\<lparr>ls_writer := w\<rparr>)"
| lock_write_step: "lock_reach cap s \<Longrightarrow> ls_writer s \<noteq> W_Idle \<Longrightarrow> write_step (ls_mem s, ls_writer s) = (m, w) \<Longrightarrow>
    wr = (case ls_writer s of W_Word d _ _ \<Rightarrow> if w = W_Idle then ls_written s @ [d] else ls_written s | _ \<Rightarrow> ls_written s) \<Longrightarrow>
    lock_reach cap (s\<lparr>ls_mem := m, ls_writer := w, ls_written := wr\<rparr>)"
| lock_Read: "lock_reach cap s \<Longrightarrow> lock_reach cap (s\<lparr>ls_readers := (ls_readers s)(k := sl_Read)\<rparr>)"
| lock_read_step: "lock_reach cap s \<Longrightarrow>
    lock_reach cap (s\<lparr>ls_readers := (ls_readers s)(k := read_step cap (ls_mem s) (ls_readers s k))\<rparr>)"

text \<open>The memory holds a value completely.\<close>

definition holds :: "shared \<Rightarrow> bytes \<Rightarrow> bool" where
  "holds sh d \<longleftrightarrow> sl_size sh = length d \<and> (\<forall>i < word_count (length d). sl_words sh i = chunk d i)"

definition writer_ok :: "nat \<Rightarrow> lock_state \<Rightarrow> bool" where
  "writer_ok cap s \<longleftrightarrow> (case ls_writer s of
       W_Word d seq i \<Rightarrow> unat (sl_seq (ls_mem s)) = 2 * length (ls_written s) + 1 \<and> seq = of_nat (2 * length (ls_written s))
         \<and> sl_size (ls_mem s) = length d \<and> (\<forall>j < i. sl_words (ls_mem s) j = chunk d j) \<and> i \<le> word_count (length d)
         \<and> length d \<le> cap
     | W_Size d seq \<Rightarrow> unat (sl_seq (ls_mem s)) = 2 * length (ls_written s) + 1 \<and> seq = of_nat (2 * length (ls_written s)) \<and> length d \<le> cap
     | W_Odd d seq \<Rightarrow> unat (sl_seq (ls_mem s)) = 2 * length (ls_written s) \<and> seq = sl_seq (ls_mem s) \<and> length d \<le> cap
         \<and> (ls_written s \<noteq> [] \<longrightarrow> holds (ls_mem s) (last (ls_written s)))
     | W_Begin d \<Rightarrow> unat (sl_seq (ls_mem s)) = 2 * length (ls_written s) \<and> length d \<le> cap
         \<and> (ls_written s \<noteq> [] \<longrightarrow> holds (ls_mem s) (last (ls_written s)))
     | W_Idle \<Rightarrow> unat (sl_seq (ls_mem s)) = 2 * length (ls_written s)
         \<and> (ls_written s \<noteq> [] \<longrightarrow> holds (ls_mem s) (last (ls_written s))))"

text \<open>
  A reader that loaded \<open>before\<close> is copying value number \<open>before / 2\<close>, as long as the counter has not
  moved; and it never knew a counter ahead of the writer's.
\<close>

definition loaded :: "u64 \<Rightarrow> lock_state \<Rightarrow> bool" where
  "loaded before s \<longleftrightarrow> even (unat before) \<and> before \<noteq> 0 \<and> before \<le> sl_seq (ls_mem s)"

definition reader_ok :: "lock_state \<Rightarrow> reader_pc \<Rightarrow> bool" where
  "reader_ok s r \<longleftrightarrow> (case r of
       R_Load _ _ \<Rightarrow> True
     | R_Size _ _ before \<Rightarrow> loaded before s
     | R_Word _ _ before n i dst \<Rightarrow> loaded before s \<and> i \<le> word_count n
         \<and> (sl_seq (ls_mem s) = before \<longrightarrow> n = length (last (ls_written s)) \<and> dst = take (8 * i) (last (ls_written s)))
     | R_Done None \<Rightarrow> True
     | R_Done (Some (dst, before)) \<Rightarrow> even (unat before) \<and> before \<noteq> 0 \<and> unat before div 2 \<le> length (ls_written s)
         \<and> dst = ls_written s ! (unat before div 2 - 1))"

definition lock_ok :: "nat \<Rightarrow> lock_state \<Rightarrow> bool" where
  "lock_ok cap s \<longleftrightarrow> writer_ok cap s \<and> (\<forall>k. reader_ok s (ls_readers s k))"

subsection \<open>Words and values\<close>

lemma word_count_less: "i < word_count n \<Longrightarrow> 8 * i < n"
  by (simp add: word_count_def)

lemma word_count_all: "n \<le> 8 * word_count n"
  by (simp add: word_count_def)

lemma take_chunk: "take (min 8 (length d - 8 * i)) (chunk d i) = take 8 (drop (8 * i) d)"
  by (auto simp: chunk_def min_def)

lemma copy_next:
  assumes "i < word_count (length d)"
  shows "take (8 * i) d @ take (min 8 (length d - 8 * i)) (chunk d i) = take (8 * Suc i) d"
  by (simp add: take_chunk add.commute flip: take_add)

lemma odd_u64: "odd (w :: u64) \<longleftrightarrow> odd (unat w)"
  by transfer (simp add: even_nat_iff take_bit_eq_mod even_take_bit_eq flip: take_bit_eq_mod)

subsection \<open>The writer's steps\<close>

text \<open>The counter stays in its width: fewer writes than half its range.\<close>

definition bounded :: "lock_state \<Rightarrow> bool" where
  "bounded s \<longleftrightarrow> 2 * (length (ls_written s) + 1) < 2 ^ 64"

lemma unat_plus_small: "unat (w :: u64) + n < 2 ^ 64 \<Longrightarrow> unat (w + of_nat n) = unat w + n"
  by (simp add: unat_word_ariths unat_of_nat)

lemma quiet:
  assumes "writer_ok cap s" "even (unat (sl_seq (ls_mem s)))"
  shows "unat (sl_seq (ls_mem s)) = 2 * length (ls_written s)"
    and "ls_written s \<noteq> [] \<longrightarrow> holds (ls_mem s) (last (ls_written s))"
  using assms by (auto simp: writer_ok_def split: writer_pc.splits)

lemma reader_ok_mono:
  assumes "reader_ok s r"
    and "ls_written s' = ls_written s \<and> sl_seq (ls_mem s') = sl_seq (ls_mem s)
       \<or> prefix (ls_written s) (ls_written s') \<and> sl_seq (ls_mem s) < sl_seq (ls_mem s')"
  shows "reader_ok s' r"
proof -
  have le: "sl_seq (ls_mem s) \<le> sl_seq (ls_mem s')" using assms(2) by auto
  have neq: "sl_seq (ls_mem s') \<noteq> b" if "b \<le> sl_seq (ls_mem s)" "sl_seq (ls_mem s) < sl_seq (ls_mem s')" for b
    using that by auto
  have idx: "unat b div 2 - Suc 0 < length (ls_written s)"
    if "even (unat b)" "b \<noteq> 0" "unat b div 2 \<le> length (ls_written s)" for b :: u64
  proof -
    have "unat b \<noteq> 0" using that(2) by (simp add: unat_eq_0)
    with that(1,3) show ?thesis by auto
  qed
  from assms show ?thesis
    using le neq idx
    by (cases r) (auto simp: reader_ok_def loaded_def prefix_def nth_append split: option.splits)
qed

lemma write_step_ok:
  assumes ok: "writer_ok cap s" and "ls_writer s \<noteq> W_Idle" and st: "write_step (ls_mem s, ls_writer s) = (m, w)"
    and wr: "wr = (case ls_writer s of W_Word d _ _ \<Rightarrow> if w = W_Idle then ls_written s @ [d] else ls_written s | _ \<Rightarrow> ls_written s)"
    and b: "bounded (s\<lparr>ls_mem := m, ls_writer := w, ls_written := wr\<rparr>)"
  shows "writer_ok cap (s\<lparr>ls_mem := m, ls_writer := w, ls_written := wr\<rparr>)"
    and "wr = ls_written s \<and> sl_seq m = sl_seq (ls_mem s)
       \<or> prefix (ls_written s) wr \<and> sl_seq (ls_mem s) < sl_seq m"
proof -
  let ?n = "length (ls_written s)"
  have n: "2 * ?n + 2 < 2 ^ 64" using b wr by (auto simp: bounded_def split: writer_pc.splits if_splits)
  have "writer_ok cap (s\<lparr>ls_mem := m, ls_writer := w, ls_written := wr\<rparr>)
    \<and> (wr = ls_written s \<and> sl_seq m = sl_seq (ls_mem s) \<or> prefix (ls_written s) wr \<and> sl_seq (ls_mem s) < sl_seq m)"
  proof (cases "ls_writer s")
    case (W_Begin d)
    then show ?thesis using assms by (auto simp: writer_ok_def)
  next
    case (W_Odd d q)
    then have q: "unat (sl_seq (ls_mem s)) = 2 * ?n" "q = sl_seq (ls_mem s)" using ok by (auto simp: writer_ok_def)
    then have "unat (q + 1) = 2 * ?n + 1" using unat_plus_small [of q 1] n by simp
    moreover have "q = of_nat (2 * ?n)" unfolding q(2) q(1) [symmetric] by simp
    ultimately show ?thesis using W_Odd assms q by (auto simp: writer_ok_def word_less_nat_alt)
  next
    case (W_Size d q)
    then show ?thesis using assms by (auto simp: writer_ok_def)
  next
    case (W_Word d q i)
    then have q: "unat (sl_seq (ls_mem s)) = 2 * ?n + 1" "q = of_nat (2 * ?n)" using ok by (auto simp: writer_ok_def)
    have "unat q = 2 * ?n" unfolding q(2) unat_of_nat using n by simp
    then have u2: "unat (q + 2) = 2 * ?n + 2" using unat_plus_small [of q 2] n by simp
    show ?thesis
    proof (cases "i < word_count (length d)")
      case True
      then show ?thesis using W_Word assms q by (auto simp: writer_ok_def less_Suc_eq)
    next
      case False
      then show ?thesis using W_Word assms q u2 by (auto simp: writer_ok_def word_less_nat_alt holds_def)
    qed
  qed (use assms in simp)
  then show "writer_ok cap (s\<lparr>ls_mem := m, ls_writer := w, ls_written := wr\<rparr>)"
    and "wr = ls_written s \<and> sl_seq m = sl_seq (ls_mem s) \<or> prefix (ls_written s) wr \<and> sl_seq (ls_mem s) < sl_seq m"
    by blast+
qed

subsection \<open>The readers' steps\<close>

lemma read_step_ok:
  assumes wok: "writer_ok cap s" and ok: "reader_ok s r"
  shows "reader_ok s (read_step cap (ls_mem s) r)"
proof (cases r)
  case (R_Load a y)
  then show ?thesis by (auto simp: reader_ok_def retry_def Let_def loaded_def odd_u64)
next
  case (R_Size a y b)
  with ok have l: "loaded b s" by (simp add: reader_ok_def)
  have "sl_size (ls_mem s) = length (last (ls_written s))" if "sl_seq (ls_mem s) = b"
  proof -
    have "unat b \<noteq> 0" using l by (simp add: loaded_def unat_eq_0)
    with quiet [OF wok] l that show ?thesis by (auto simp: loaded_def holds_def)
  qed
  with R_Size l show ?thesis by (auto simp: reader_ok_def retry_def)
next
  case (R_Word a y b n i dst)
  with ok have l: "loaded b s" and i: "i \<le> word_count n"
    and cp: "sl_seq (ls_mem s) = b \<longrightarrow> n = length (last (ls_written s)) \<and> dst = take (8 * i) (last (ls_written s))"
    by (auto simp: reader_ok_def)
  have "unat b \<noteq> 0" using l by (simp add: loaded_def unat_eq_0)
  then have q: "holds (ls_mem s) (last (ls_written s))" "unat b = 2 * length (ls_written s)" "ls_written s \<noteq> []"
    if "sl_seq (ls_mem s) = b"
    using quiet [OF wok] l that by (auto simp: loaded_def)
  show ?thesis
  proof (cases "i < word_count n")
    case True
    have "dst @ take (min 8 (n - 8 * i)) (sl_words (ls_mem s) i) = take (8 * Suc i) (last (ls_written s))"
      if "sl_seq (ls_mem s) = b"
      using copy_next [of i "last (ls_written s)"] q [OF that] cp that True by (auto simp: holds_def)
    with True R_Word l cp show ?thesis by (auto simp: reader_ok_def)
  next
    case False
    with i have "i = word_count n" by simp
    then have "dst = last (ls_written s)" if "sl_seq (ls_mem s) = b"
      using cp that word_count_all [of n] by simp
    with q have "dst = ls_written s ! (unat b div 2 - 1)" if "sl_seq (ls_mem s) = b"
      using that by (simp add: last_conv_nth)
    with False R_Word l q show ?thesis by (auto simp: reader_ok_def retry_def loaded_def)
  qed
next
  case (R_Done v)
  with ok show ?thesis by simp
qed

lemma readers_irrelevant:
  "reader_ok (s\<lparr>ls_readers := f\<rparr>) r = reader_ok s r" "writer_ok cap (s\<lparr>ls_readers := f\<rparr>) = writer_ok cap s"
  by (simp add: reader_ok_def loaded_def split: reader_pc.splits option.splits)
     (simp add: writer_ok_def split: writer_pc.splits)

lemma lock_reach_ok: "lock_reach cap s \<Longrightarrow> bounded s \<Longrightarrow> lock_ok cap s"
proof (induction rule: lock_reach.induct)
  case lock_init
  show ?case by (simp add: lock_ok_def writer_ok_def reader_ok_def SeqLock_def)
next
  case (lock_Write s d w)
  then have "lock_ok cap s" by (simp add: bounded_def)
  moreover have "reader_ok (s\<lparr>ls_writer := w\<rparr>) r" if "reader_ok s r" for r
    using that by (rule reader_ok_mono) simp
  ultimately show ?case using lock_Write.hyps by (auto simp: lock_ok_def writer_ok_def sl_Write_def split: if_splits)
next
  case (lock_write_step s m w wr)
  have "bounded s" using lock_write_step by (auto simp: bounded_def split: writer_pc.splits if_splits)
  then have "lock_ok cap s" using lock_write_step by blast
  then have wok: "writer_ok cap s" and rok: "\<And>k. reader_ok s (ls_readers s k)" by (auto simp: lock_ok_def)
  note st = write_step_ok [OF wok lock_write_step.hyps(2-4) lock_write_step.prems]
  have "reader_ok (s\<lparr>ls_mem := m, ls_writer := w, ls_written := wr\<rparr>) r" if "reader_ok s r" for r
    using that by (rule reader_ok_mono) (use st(2) in simp)
  with st(1) rok show ?case by (simp add: lock_ok_def)
next
  case (lock_Read s k)
  then have "lock_ok cap s" by (simp add: bounded_def)
  then show ?case by (simp add: lock_ok_def readers_irrelevant) (simp add: reader_ok_def sl_Read_def)
next
  case (lock_read_step s k)
  then have "lock_ok cap s" by (simp add: bounded_def)
  then show ?case using read_step_ok by (simp add: lock_ok_def readers_irrelevant)
qed

section \<open>A reader alone\<close>

lemma read_words:
  assumes "holds sh d" "i \<le> word_count (length d)"
  shows "(read_step cap sh ^^ (word_count (length d) - i)) (R_Word a y b (length d) i (take (8 * i) d))
    = R_Word a y b (length d) (word_count (length d)) d"
  using assms(2)
proof (induction "word_count (length d) - i" arbitrary: i)
  case 0
  then show ?case using word_count_all [of "length d"] by simp
next
  case (Suc k)
  then have i: "i < word_count (length d)" by simp
  have "read_step cap sh (R_Word a y b (length d) i (take (8 * i) d)) = R_Word a y b (length d) (Suc i) (take (8 * Suc i) d)"
    using copy_next [OF i] assms(1) i by (simp add: holds_def)
  moreover have "(read_step cap sh ^^ (word_count (length d) - Suc i)) (R_Word a y b (length d) (Suc i) (take (8 * Suc i) d))
      = R_Word a y b (length d) (word_count (length d)) d"
    by (rule Suc.hyps(1)) (use Suc.hyps(2) i in auto)
  moreover have "word_count (length d) - i = Suc (word_count (length d) - Suc i)" using i by simp
  ultimately show ?case by (simp only: funpow_Suc_right comp_apply)
qed

lemma read_alone:
  assumes "holds sh d" "length d \<le> cap" "\<not> odd (sl_seq sh)" "sl_seq sh \<noteq> 0"
  shows "\<exists>k. (read_step cap sh ^^ k) sl_Read = R_Done (Some (d, sl_seq sh))"
proof -
  have "(read_step cap sh ^^ 2) sl_Read = R_Word 0 0 (sl_seq sh) (length d) 0 (take (8 * 0) d)"
    using assms by (simp add: sl_Read_def numeral_2_eq_2 Let_def holds_def)
  then have "(read_step cap sh ^^ (word_count (length d) - 0)) ((read_step cap sh ^^ 2) sl_Read)
      = R_Word 0 0 (sl_seq sh) (length d) (word_count (length d)) d"
    using read_words [OF assms(1), of 0 cap 0 0 "sl_seq sh"] by simp
  then have "(read_step cap sh ^^ (1 + (word_count (length d) + 2))) sl_Read = R_Done (Some (d, sl_seq sh))"
    unfolding funpow_add comp_apply by simp
  then show ?thesis by blast
qed

text \<open>A read that succeeds, for the users of the lock.\<close>

lemma seqlock_read:
  assumes "lock_reach cap s" and "2 * (length (ls_written s) + 1) < 2 ^ 64"
    and "ls_readers s k = R_Done (Some (dst, sequence))"
  shows "1 \<le> unat sequence div 2" "unat sequence div 2 \<le> length (ls_written s)" "dst = ls_written s ! (unat sequence div 2 - 1)"
    "dst \<in> set (ls_written s)"
proof -
  from lock_reach_ok [OF assms(1)] assms(2) have "reader_ok s (ls_readers s k)" by (simp add: bounded_def lock_ok_def)
  then have r: "even (unat sequence)" "sequence \<noteq> 0" "unat sequence div 2 \<le> length (ls_written s)"
    "dst = ls_written s ! (unat sequence div 2 - 1)"
    by (simp_all add: assms(3) reader_ok_def)
  moreover have "unat sequence \<noteq> 0" using r(2) by (simp add: unat_eq_0)
  ultimately show n: "1 \<le> unat sequence div 2" "unat sequence div 2 \<le> length (ls_written s)"
    "dst = ls_written s ! (unat sequence div 2 - 1)" by auto
  show "dst \<in> set (ls_written s)" unfolding n(3) by (rule nth_mem) (use n in linarith)
qed

lemma lock_write_advance:
  assumes "lock_reach cap s" "ls_writer s = w0" "w0 \<noteq> W_Idle" "write_step (ls_mem s, w0) = (m, w)" "\<forall>d q i. w0 = W_Word d q i \<longrightarrow> w \<noteq> W_Idle"
  shows "lock_reach cap (s\<lparr>ls_mem := m, ls_writer := w, ls_written := ls_written s\<rparr>)"
  using assms by (intro lock_write_step) (auto split: writer_pc.splits)

text \<open>A write and a read can always be run to their ends.\<close>

lemma lock_can_write:
  assumes "lock_reach cap s" "ls_writer s = W_Idle" "length d \<le> cap"
  shows "\<exists>s'. lock_reach cap s' \<and> ls_writer s' = W_Idle \<and> ls_written s' = ls_written s @ [d]"
proof -
  have words: "\<exists>s'. lock_reach cap s' \<and> ls_writer s' = W_Idle \<and> ls_written s' = ls_written s1 @ [d]"
    if "lock_reach cap s1" "ls_writer s1 = W_Word d q i" "i \<le> word_count (length d)" for s1 q i
    using that
  proof (induction "word_count (length d) - i" arbitrary: s1 i)
    case 0
    then obtain m where st: "write_step (ls_mem s1, W_Word d q i) = (m, W_Idle)" by simp
    show ?case
      by (rule exI [of _ "s1\<lparr>ls_mem := m, ls_writer := W_Idle, ls_written := ls_written s1 @ [d]\<rparr>"])
        (use lock_write_step [OF "0.prems"(1) _ _ refl] "0.prems"(2) st in \<open>simp\<close>)
  next
    case (Suc k)
    let ?m = "(ls_mem s1)\<lparr>sl_words := (sl_words (ls_mem s1))(i := chunk d i)\<rparr>"
    have st: "write_step (ls_mem s1, W_Word d q i) = (?m, W_Word d q (Suc i))" using Suc.hyps(2) by simp
    from lock_write_advance [OF Suc.prems(1,2) _ st]
    have "lock_reach cap (s1\<lparr>ls_mem := ?m, ls_writer := W_Word d q (Suc i), ls_written := ls_written s1\<rparr>)" by simp
    with Suc.hyps(1) [of "Suc i" "s1\<lparr>ls_mem := ?m, ls_writer := W_Word d q (Suc i), ls_written := ls_written s1\<rparr>"] Suc.hyps(2)
    show ?case by simp
  qed
  have "lock_reach cap (s\<lparr>ls_writer := W_Begin d\<rparr>)" using lock_Write [OF assms(1,2), of d] assms(3) by (simp add: sl_Write_def)
  from lock_write_advance [OF this, of "W_Begin d"]
  have "lock_reach cap (s\<lparr>ls_writer := W_Odd d (sl_seq (ls_mem s))\<rparr>)" by simp
  from lock_write_advance [OF this, of "W_Odd d (sl_seq (ls_mem s))"] obtain m where
    "lock_reach cap (s\<lparr>ls_mem := m, ls_writer := W_Size d (sl_seq (ls_mem s))\<rparr>)" by simp
  from lock_write_advance [OF this, of "W_Size d (sl_seq (ls_mem s))"] obtain m' where
    "lock_reach cap (s\<lparr>ls_mem := m', ls_writer := W_Word d (sl_seq (ls_mem s)) 0\<rparr>)" by simp
  from words [OF this, of "sl_seq (ls_mem s)" 0] show ?thesis by simp
qed

lemma lock_read_steps: "lock_reach cap s \<Longrightarrow>
    lock_reach cap (s\<lparr>ls_readers := (ls_readers s)(k := (read_step cap (ls_mem s) ^^ n) sl_Read)\<rparr>)"
proof (induction n)
  case 0
  then show ?case unfolding funpow.simps(1) id_apply by (rule lock_Read)
next
  case (Suc n)
  from lock_read_step [OF Suc.IH [OF Suc.prems], of k] show ?case by (simp add: fun_upd_def if_distrib cong: if_cong)
qed

lemma lock_session:
  assumes "length d \<le> cap"
  shows "\<exists>s q. lock_reach cap s \<and> ls_written s = [d] \<and> ls_readers s k = R_Done (Some (d, q))"
proof -
  obtain s where s: "lock_reach cap s" "ls_writer s = W_Idle" "ls_written s = [d]"
    using lock_can_write [OF lock_init, of d] assms by auto
  from lock_reach_ok [OF s(1)] s(2,3) have h: "holds (ls_mem s) d" "unat (sl_seq (ls_mem s)) = 2"
    by (simp_all add: lock_ok_def bounded_def writer_ok_def)
  then have "\<not> odd (sl_seq (ls_mem s))" "sl_seq (ls_mem s) \<noteq> 0" by (auto simp: odd_u64)
  from read_alone [OF h(1) assms this] obtain n where "(read_step cap (ls_mem s) ^^ n) sl_Read = R_Done (Some (d, sl_seq (ls_mem s)))" ..
  with lock_read_steps [OF s(1), of k n] s(3) show ?thesis
    by (intro exI [of _ "s\<lparr>ls_readers := (ls_readers s)(k := R_Done (Some (d, sl_seq (ls_mem s))))\<rparr>"] exI) simp
qed

section \<open>Properties\<close>

text \<open>
  C8. No torn reads. Under every interleaving of the writer's and all readers' memory accesses, a read
  that returns true returns exactly the bytes of one complete write, the one its sequence number
  names; for as long as the 64-bit counter has not wrapped.
\<close>

theorem seqlock_no_torn_read:
  assumes "lock_reach cap s" and "2 * (length (ls_written s) + 1) < 2 ^ 64"
    and "ls_readers s k = R_Done (Some (dst, sequence))"
  shows "1 \<le> unat sequence div 2 \<and> unat sequence div 2 \<le> length (ls_written s)
    \<and> dst = ls_written s ! (unat sequence div 2 - 1)"
  using seqlock_read [OF assms] by blast

text \<open>One write of two bytes, then one read.\<close>

definition lock_example :: lock_state where
  "lock_example = \<lparr>ls_mem = \<lparr>sl_seq = 2, sl_size = 2, sl_words = (\<lambda>_. replicate 8 0)(0 := chunk [7, 9] 0)\<rparr>, ls_writer = W_Idle,
     ls_readers = (\<lambda>_. R_Done None)(0 := R_Done (Some ([7, 9], 2))), ls_written = [[7, 9]]\<rparr>"

lemma lock_example_reached: "lock_reach 8 lock_example"
proof -
  let ?st = "\<lambda>sq sz f w rs wr. \<lparr>ls_mem = \<lparr>sl_seq = sq, sl_size = sz, sl_words = f\<rparr>, ls_writer = w, ls_readers = rs, ls_written = wr\<rparr>"
  let ?z = "\<lambda>_ :: nat. replicate 8 (0 :: u8)" and ?n = "\<lambda>_ :: nat. R_Done None" and ?d = "[7, 9] :: bytes"
  let ?f = "?z(0 := chunk ?d 0)"
  have 0: "lock_reach 8 (?st 0 0 ?z (W_Begin ?d) ?n [])"
    using lock_Write [OF lock_init, where d = ?d] by (simp add: sl_Write_def SeqLock_def)
  have 1: "lock_reach 8 (?st 0 0 ?z (W_Odd ?d 0) ?n [])" using lock_write_advance [OF 0] by simp
  have 2: "lock_reach 8 (?st 1 0 ?z (W_Size ?d 0) ?n [])" using lock_write_advance [OF 1] by simp
  have 3: "lock_reach 8 (?st 1 2 ?z (W_Word ?d 0 0) ?n [])" using lock_write_advance [OF 2] by simp
  have 4: "lock_reach 8 (?st 1 2 ?f (W_Word ?d 0 1) ?n [])"
    using lock_write_advance [OF 3] by (simp add: word_count_def)
  have 5: "lock_reach 8 (?st 2 2 ?f W_Idle ?n [?d])" using lock_write_step [OF 4] by (simp add: word_count_def)
  have 6: "lock_reach 8 (?st 2 2 ?f W_Idle (?n(0 := sl_Read)) [?d])" using lock_Read [OF 5, of 0] by simp
  have 7: "lock_reach 8 (?st 2 2 ?f W_Idle (?n(0 := R_Size 0 0 2)) [?d])"
    using lock_read_step [OF 6, of 0] by (simp add: sl_Read_def Let_def)
  have 8: "lock_reach 8 (?st 2 2 ?f W_Idle (?n(0 := R_Word 0 0 2 2 0 [])) [?d])"
    using lock_read_step [OF 7, of 0] by simp
  have 9: "lock_reach 8 (?st 2 2 ?f W_Idle (?n(0 := R_Word 0 0 2 2 1 ?d)) [?d])"
    using lock_read_step [OF 8, of 0] by (simp add: word_count_def chunk_def)
  show ?thesis
    using lock_read_step [OF 9, of 0] by (simp add: word_count_def lock_example_def)
qed

theorem seqlock_no_torn_read_witness:
  "[7, 9] = ls_written lock_example ! (unat (2 :: u64) div 2 - 1)"
  using seqlock_no_torn_read [OF lock_example_reached, of 0 "[7, 9]" 2] by (simp add: lock_example_def)

text \<open>
  A read is not lost to anything but a concurrent write: whenever the writer is between two
  writes and something has been written, a read that runs undisturbed returns true with the latest
  value.
\<close>

theorem seqlock_quiet_read:
  assumes "lock_reach cap s" and "2 * (length (ls_written s) + 1) < 2 ^ 64"
    and "ls_writer s = W_Idle" and "ls_written s \<noteq> []" and "length (last (ls_written s)) \<le> cap"
  shows "\<exists>n. (read_step cap (ls_mem s) ^^ n) sl_Read = R_Done (Some (last (ls_written s), sl_seq (ls_mem s)))"
proof (rule read_alone)
  from lock_reach_ok [OF assms(1)] assms(2) have "writer_ok cap s" by (simp add: bounded_def lock_ok_def)
  then have w: "unat (sl_seq (ls_mem s)) = 2 * length (ls_written s)" "holds (ls_mem s) (last (ls_written s))"
    using assms(3,4) by (simp_all add: writer_ok_def)
  then show "holds (ls_mem s) (last (ls_written s))" "\<not> odd (sl_seq (ls_mem s))" by (simp_all add: odd_u64)
  show "sl_seq (ls_mem s) \<noteq> 0" using w(1) assms(4) by auto
qed (fact assms(5))

theorem seqlock_quiet_read_witness:
  "\<exists>n. (read_step 8 (ls_mem lock_example) ^^ n) sl_Read = R_Done (Some ([7, 9], 2))"
  using seqlock_quiet_read [OF lock_example_reached] by (simp add: lock_example_def)

end
