(* ===== verification/Overlay.thy ===== *)
theory Overlay
  imports Prelude
begin

text \<open>
  The overlay's state: \<^verbatim>\<open>src/OverlayPlacement.h\<close> (where a bitmap lands on a display),
  \<^verbatim>\<open>src/OverlayState.h\<close> (platforms and shades, the bitmap and its timer) and \<^verbatim>\<open>src/OverlayCache.h\<close>
  (the state shared by the socket worker, the API thread and the render threads).

  The cache's mutex makes each of its sections atomic; whether a \<^verbatim>\<open>try_lock\<close> of the API thread gets
  it is an argument, \<open>free\<close>. What is published goes through the sequence lock of \<open>Seq_Lock\<close>, which
  never tears, so it is one value with its sequence number here. A luminance, in the code the floating
  point quotient of a shade and the brightest shade, is the pair of the two.
\<close>

section \<open>Placement\<close>

abbreviation (input) MIN_SIDE :: u32 where "MIN_SIDE \<equiv> 10"
abbreviation (input) MAX_WIDTH :: u32 where "MAX_WIDTH \<equiv> 192"
abbreviation (input) MAX_HEIGHT :: u32 where "MAX_HEIGHT \<equiv> 64"

definition Accepted :: "u32 \<Rightarrow> u32 \<Rightarrow> bool" where
  "Accepted w h \<longleftrightarrow> w \<ge> MIN_SIDE \<and> h \<ge> MIN_SIDE \<and> w \<le> MAX_WIDTH \<and> h \<le> MAX_HEIGHT"

record Placement =
  dstX :: u32
  dstY :: u32
  srcX :: u32
  srcY :: u32
  placedWidth :: u32
  placedHeight :: u32

definition Placement0 :: Placement where
  "Placement0 = \<lparr>dstX = 0, dstY = 0, srcX = 0, srcY = 0, placedWidth = 0, placedHeight = 0\<rparr>"

text \<open>C++ integer division truncates toward zero.\<close>

definition half :: "int \<Rightarrow> int" where
  "half n = (if n \<ge> 0 then n div 2 else - ((- n) div 2))"

definition Axis :: "u32 \<Rightarrow> u32 \<Rightarrow> u32 \<times> u32 \<times> u32" where
  "Axis display overlay =
     (let origin = half (uint display - uint overlay);
          first = max origin 0;
          last = min (origin + uint overlay) (uint display)
      in if last \<le> first then (0, 0, 0)
         else (word_of_int first, word_of_int (first - origin), word_of_int (last - first)))"

definition Place :: "u32 \<Rightarrow> u32 \<Rightarrow> u32 \<Rightarrow> u32 \<Rightarrow> Placement" where
  "Place displayWidth displayHeight overlayWidth overlayHeight =
     (let (dx, sx, w) = Axis displayWidth overlayWidth;
          (dy, sy, h) = Axis displayHeight overlayHeight
      in if w = 0 \<or> h = 0 then Placement0
         else \<lparr>dstX = dx, dstY = dy, srcX = sx, srcY = sy, placedWidth = w, placedHeight = h\<rparr>)"

section \<open>Platforms and shades\<close>

datatype Platform = Unknown | Wpc | DataEast | Sam | Gts3 | Capcom | AlvinG

abbreviation (input) GEN_ALLWPC :: u64 where "GEN_ALLWPC \<equiv> 0x00000000000ff"
abbreviation (input) GEN_DEDMD16 :: u64 where "GEN_DEDMD16 \<equiv> 0x0000000002000"
abbreviation (input) GEN_DEDMD32 :: u64 where "GEN_DEDMD32 \<equiv> 0x0000000004000"
abbreviation (input) GEN_DEDMD64 :: u64 where "GEN_DEDMD64 \<equiv> 0x0000000008000"
abbreviation (input) GEN_ALLWS :: u64 where "GEN_ALLWS \<equiv> 0x001c000000000"
abbreviation (input) GEN_GTS3 :: u64 where "GEN_GTS3 \<equiv> 0x0020000000000"
abbreviation (input) GEN_SAM :: u64 where "GEN_SAM \<equiv> 0x0100000000000"
abbreviation (input) GEN_ALVG :: u64 where "GEN_ALVG \<equiv> 0x0200000000000"
abbreviation (input) GEN_ALVG_DMD2 :: u64 where "GEN_ALVG_DMD2 \<equiv> 0x0400000000000"
abbreviation (input) GEN_CAPCOM :: u64 where "GEN_CAPCOM \<equiv> 0x20000000000000"

definition PlatformOf :: "u64 \<Rightarrow> Platform" where
  "PlatformOf hardwareGen =
     (if hardwareGen AND GEN_ALLWPC \<noteq> 0 then Wpc
      else if hardwareGen AND (GEN_DEDMD16 OR GEN_DEDMD32 OR GEN_DEDMD64 OR GEN_ALLWS) \<noteq> 0 then DataEast
      else if hardwareGen AND GEN_SAM \<noteq> 0 then Sam
      else if hardwareGen AND GEN_GTS3 \<noteq> 0 then Gts3
      else if hardwareGen AND GEN_CAPCOM \<noteq> 0 then Capcom
      else if hardwareGen AND (GEN_ALVG OR GEN_ALVG_DMD2) \<noteq> 0 then AlvinG
      else Unknown)"

fun PlatformName :: "Platform \<Rightarrow> string" where
  "PlatformName Wpc = ''WPC''"
| "PlatformName DataEast = ''Data East / Whitestar / Sega''"
| "PlatformName Sam = ''SAM''"
| "PlatformName Gts3 = ''Gottlieb System 3''"
| "PlatformName Capcom = ''Capcom''"
| "PlatformName AlvinG = ''Alvin G''"
| "PlatformName Unknown = ''unknown''"

fun Shades :: "Platform \<Rightarrow> bool \<Rightarrow> nat" where
  "Shades Wpc _ = 4"
| "Shades DataEast _ = 4"
| "Shades Sam _ = 16"
| "Shades Gts3 _ = 7"
| "Shades Capcom _ = 5"
| "Shades AlvinG _ = 5"
| "Shades Unknown sixteenShades = (if sixteenShades then 16 else 4)"

text \<open>\<^verbatim>\<open>lround(value * top / 15.0)\<close>: no quotient falls on a half, so rounding is exact in integers.\<close>

definition shade_of :: "nat \<Rightarrow> u8 \<Rightarrow> nat" where
  "shade_of brightest v = (2 * (unat (v AND 0x0F) * brightest) + 15) div 30"

definition Luminance :: "Platform \<Rightarrow> u8 \<Rightarrow> bool \<Rightarrow> nat \<times> nat" where
  "Luminance platform v sixteenShades =
     (let brightest = Shades platform sixteenShades - 1 in (shade_of brightest v, brightest))"

section \<open>The overlay's state\<close>

record overlay_state =
  ov_enabled :: bool
  ov_untilHidden :: bool
  ov_hideAt :: time_point
  ov_width :: u32
  ov_height :: u32
  ov_pixels :: bytes

definition OverlayState :: overlay_state where
  "OverlayState = \<lparr>ov_enabled = False, ov_untilHidden = False, ov_hideAt = 0, ov_width = 0, ov_height = 0, ov_pixels = []\<rparr>"

datatype Upload = Stored | Ignored | Malformed

text \<open>\<open>Check\<close>; a null payload is the empty one.\<close>

definition ov_Check :: "bytes \<Rightarrow> Upload" where
  "ov_Check pl =
     (if length pl < 2 \<or> length pl - 2 < unat (pl ! 0) * unat (pl ! 1) then Malformed
      else if Accepted (ucast (pl ! 0)) (ucast (pl ! 1)) then Stored else Ignored)"

definition ov_Store :: "bytes \<Rightarrow> overlay_state \<Rightarrow> Upload \<times> overlay_state" where
  "ov_Store pl s =
     (let check = ov_Check pl in
      if check \<noteq> Stored then (check, s)
      else (Stored, s\<lparr>ov_width := ucast (pl ! 0), ov_height := ucast (pl ! 1),
                      ov_pixels := take (unat (pl ! 0) * unat (pl ! 1)) (drop 2 pl)\<rparr>))"

definition ov_Control :: "bool \<Rightarrow> u32 \<Rightarrow> time_point \<Rightarrow> overlay_state \<Rightarrow> overlay_state" where
  "ov_Control enable duration now s =
     s\<lparr>ov_enabled := enable, ov_untilHidden := (duration = 0), ov_hideAt := now + milliseconds (uint duration)\<rparr>"

definition ov_Clear :: "overlay_state \<Rightarrow> overlay_state" where
  "ov_Clear s = s\<lparr>ov_enabled := False, ov_untilHidden := False, ov_hideAt := 0, ov_width := 0, ov_height := 0, ov_pixels := []\<rparr>"

definition ov_Visible :: "overlay_state \<Rightarrow> time_point \<Rightarrow> bool" where
  "ov_Visible s now \<longleftrightarrow> ov_enabled s \<and> ov_pixels s \<noteq> [] \<and> (ov_untilHidden s \<or> now < ov_hideAt s)"

section \<open>The cache\<close>

text \<open>What a record publishes: the header, and the pixels of its width times its height.\<close>

record overlay_record =
  rec_width :: u32
  rec_height :: u32
  rec_enabled :: u32
  rec_untilHidden :: u32
  rec_hideAt :: time_point
  rec_pixels :: bytes

definition rec_Visible :: "overlay_record \<Rightarrow> time_point \<Rightarrow> bool" where
  "rec_Visible r now \<longleftrightarrow> rec_enabled r \<noteq> 0 \<and> rec_width r \<noteq> 0 \<and> (rec_untilHidden r \<noteq> 0 \<or> now < rec_hideAt r)"

definition PENDING_LIMIT :: nat where "PENDING_LIMIT = 8"

datatype overlay_op = UploadOp bytes | ControlOp bool u32 time_point

record overlay_cache =
  oc_state :: overlay_state
  oc_published :: overlay_record
  oc_sequence :: u64
  oc_pending :: "overlay_op list"

definition record_of :: "overlay_state \<Rightarrow> overlay_record" where
  "record_of s = \<lparr>rec_width = ov_width s, rec_height = ov_height s, rec_enabled = (if ov_enabled s then 1 else 0),
     rec_untilHidden = (if ov_untilHidden s then 1 else 0), rec_hideAt = ov_hideAt s, rec_pixels = ov_pixels s\<rparr>"

definition oc_Publish :: "overlay_cache \<Rightarrow> overlay_cache" where
  "oc_Publish c = c\<lparr>oc_published := record_of (oc_state c), oc_sequence := oc_sequence c + 2\<rparr>"

definition OverlayCache :: overlay_cache where
  "OverlayCache = oc_Publish \<lparr>oc_state = OverlayState, oc_published = record_of OverlayState, oc_sequence = 0, oc_pending = []\<rparr>"

definition op_Apply :: "overlay_op \<Rightarrow> overlay_state \<Rightarrow> overlay_state" where
  "op_Apply op s = (case op of UploadOp bs \<Rightarrow> snd (ov_Store bs s) | ControlOp enable duration at \<Rightarrow> ov_Control enable duration at s)"

text \<open>The socket worker's operations.\<close>

definition oc_Store :: "bytes \<Rightarrow> overlay_cache \<Rightarrow> Upload \<times> overlay_cache" where
  "oc_Store pl c =
     (let (result, s) = ov_Store pl (oc_state c);
          c = c\<lparr>oc_state := s\<rparr>
      in (result, if result = Stored then oc_Publish c else c))"

definition oc_Control :: "bool \<Rightarrow> u32 \<Rightarrow> time_point \<Rightarrow> overlay_cache \<Rightarrow> overlay_cache" where
  "oc_Control enable duration now c = oc_Publish (c\<lparr>oc_state := ov_Control enable duration now (oc_state c)\<rparr>)"

definition oc_Clear :: "overlay_cache \<Rightarrow> overlay_cache" where
  "oc_Clear c = oc_Publish (c\<lparr>oc_state := ov_Clear (oc_state c)\<rparr>)"

text \<open>The API thread's operations.\<close>

definition oc_Full :: "overlay_cache \<Rightarrow> bool" where
  "oc_Full c \<longleftrightarrow> length (oc_pending c) \<ge> PENDING_LIMIT"

definition oc_Post :: "bool \<Rightarrow> overlay_op \<Rightarrow> overlay_cache \<Rightarrow> bool \<times> overlay_cache" where
  "oc_Post free op c =
     (if oc_pending c = [] \<and> free then (True, oc_Publish (c\<lparr>oc_state := op_Apply op (oc_state c)\<rparr>))
      else if length (oc_pending c) \<ge> PENDING_LIMIT then (False, c)
      else (True, c\<lparr>oc_pending := oc_pending c @ [op]\<rparr>))"

definition PostUpload :: "bool \<Rightarrow> bytes \<Rightarrow> overlay_cache \<Rightarrow> bool \<times> overlay_cache" where
  "PostUpload free pl c =
     (if ov_Check pl \<noteq> Stored \<or> oc_Full c then (False, c)
      else oc_Post free (UploadOp (take (2 + unat (pl ! 0) * unat (pl ! 1)) pl)) c)"

definition PostControl :: "bool \<Rightarrow> bool \<Rightarrow> u32 \<Rightarrow> time_point \<Rightarrow> overlay_cache \<Rightarrow> bool \<times> overlay_cache" where
  "PostControl free enable duration now c = oc_Post free (ControlOp enable duration now) c"

text \<open>The drain's loop applies the pending operations front to back.\<close>

fun drain :: "overlay_op list \<Rightarrow> overlay_state \<Rightarrow> overlay_state" where
  "drain [] s = s"
| "drain (op # ops) s = drain ops (op_Apply op s)"

definition DrainPending :: "bool \<Rightarrow> overlay_cache \<Rightarrow> overlay_cache" where
  "DrainPending free c =
     (if oc_pending c = [] then c
      else if \<not> free then c
      else oc_Publish (c\<lparr>oc_state := drain (oc_pending c) (oc_state c), oc_pending := []\<rparr>))"

text \<open>
  A render thread's read: the record when it changed, otherwise the caller's own copy; \<open>torn\<close> when
  the writer tore every copy.
\<close>

definition ReadIfChanged :: "bool \<Rightarrow> overlay_cache \<Rightarrow> u64 \<Rightarrow> overlay_record \<Rightarrow> bool \<times> u64 \<times> overlay_record" where
  "ReadIfChanged torn c lastSequence out =
     (if oc_sequence c = lastSequence then (False, lastSequence, out)
      else if torn then (False, lastSequence, out)
      else (True, oc_sequence c, oc_published c))"

section \<open>Where a bitmap lands\<close>

lemma uint_u32_bounds: "0 \<le> uint (w :: u32)" "uint w < 2 ^ 32"
proof -
  have "uint w < 2 ^ LENGTH(32)" by (rule unsigned_less)
  then show "0 \<le> uint (w :: u32)" "uint w < 2 ^ 32" by simp_all
qed

lemma uint_word_of_int_u32: "0 \<le> n \<Longrightarrow> n < 2 ^ 32 \<Longrightarrow> uint (word_of_int n :: u32) = n"
  by (simp add: uint_word_of_int)

text \<open>One axis in closed form: the shorter of the two lengths, centred in the longer.\<close>

lemma Axis_eq:
  assumes "Axis display overlay = (dst, src, len)" "display \<noteq> 0" "overlay \<noteq> 0"
  shows "uint dst = (if overlay \<le> display then (uint display - uint overlay) div 2 else 0)"
    and "uint src = (if overlay \<le> display then 0 else (uint overlay - uint display) div 2)"
    and "uint len = min (uint display) (uint overlay)"
proof -
  have pos: "0 < uint display" "0 < uint overlay"
    using assms(2,3) uint_u32_bounds(1) by (simp_all add: order_less_le uint_0_iff)
  note b = uint_u32_bounds(2) [of display] uint_u32_bounds(2) [of overlay]
  have "uint dst = (if overlay \<le> display then (uint display - uint overlay) div 2 else 0)
    \<and> uint src = (if overlay \<le> display then 0 else (uint overlay - uint display) div 2)
    \<and> uint len = min (uint display) (uint overlay)"
  proof (cases "uint overlay \<le> uint display")
    case True
    then have le: "overlay \<le> display" by (simp add: word_le_def)
    have "dst = word_of_int ((uint display - uint overlay) div 2)" "src = word_of_int 0" "len = word_of_int (uint overlay)"
      using assms(1) True pos by (auto simp: Axis_def Let_def half_def split: if_splits)
    then show ?thesis using True le pos b by (auto simp: uint_word_of_int_u32)
  next
    case False
    then have le: "\<not> overlay \<le> display" by (simp add: word_le_def)
    have "dst = word_of_int 0" "src = word_of_int ((uint overlay - uint display) div 2)" "len = word_of_int (uint display)"
      using assms(1) False pos by (auto simp: Axis_def Let_def half_def min_def max_def split: if_splits)
    then show ?thesis using False le pos b by (auto simp: uint_word_of_int_u32)
  qed
  then show "uint dst = (if overlay \<le> display then (uint display - uint overlay) div 2 else 0)"
    and "uint src = (if overlay \<le> display then 0 else (uint overlay - uint display) div 2)"
    and "uint len = min (uint display) (uint overlay)" by blast+
qed

lemma Axis_centred:
  assumes "Axis display overlay = (dst, src, len)" "display \<noteq> 0" "overlay \<noteq> 0"
  shows "uint dst + uint len \<le> uint display \<and> uint src + uint len \<le> uint overlay
    \<and> (uint display - uint len - uint dst) - uint dst \<in> {0, 1} \<and> (uint overlay - uint len - uint src) - uint src \<in> {0, 1}"
proof (cases "overlay \<le> display")
  case True
  then have "uint overlay \<le> uint display" by (simp add: word_le_def)
  with Axis_eq [OF assms] True show ?thesis by simp presburger
next
  case False
  then have "uint display < uint overlay" by (simp add: word_le_def)
  with Axis_eq [OF assms] False show ?thesis by simp presburger
qed

lemma Axis_empty: "display = 0 \<or> overlay = 0 \<Longrightarrow> Axis display overlay = (0, 0, 0)"
  using uint_u32_bounds(1) [of display] uint_u32_bounds(1) [of overlay]
  by (auto simp: Axis_def Let_def half_def)

section \<open>The cache's invariant and its abstraction\<close>

text \<open>
  A stored bitmap has accepted sides and exactly its pixels; what is published is the state; and the
  pending operations are within their limit, uploads among them checked.
\<close>

definition bitmap_ok :: "overlay_state \<Rightarrow> bool" where
  "bitmap_ok s \<longleftrightarrow> (if ov_pixels s = [] then ov_width s = 0 \<and> ov_height s = 0
     else Accepted (ov_width s) (ov_height s) \<and> length (ov_pixels s) = unat (ov_width s) * unat (ov_height s))"

fun op_ok :: "overlay_op \<Rightarrow> bool" where
  "op_ok (UploadOp bs) = (ov_Check bs = Stored)"
| "op_ok (ControlOp _ _ _) = True"

definition cache_ok :: "overlay_cache \<Rightarrow> bool" where
  "cache_ok c \<longleftrightarrow> bitmap_ok (oc_state c) \<and> oc_published c = record_of (oc_state c)
     \<and> length (oc_pending c) \<le> PENDING_LIMIT \<and> (\<forall>op \<in> set (oc_pending c). op_ok op)"

text \<open>The state the API thread has been promised: everything it has had accepted, applied in order.\<close>

definition promised :: "overlay_cache \<Rightarrow> overlay_state" where
  "promised c = drain (oc_pending c) (oc_state c)"

lemma Check_Stored:
  "ov_Check pl = Stored \<longleftrightarrow> 2 \<le> length pl \<and> unat (pl ! 0) * unat (pl ! 1) \<le> length pl - 2 \<and> Accepted (ucast (pl ! 0)) (ucast (pl ! 1))"
  by (auto simp: ov_Check_def not_less)

lemma Accepted_pos: "Accepted w h \<Longrightarrow> 0 < unat w * unat h \<and> w \<noteq> 0"
  by (auto simp: Accepted_def word_le_nat_alt)

lemma unat_ucast_side: "unat (ucast (b :: u8) :: u32) = unat b"
proof -
  have "unat b < 2 ^ 32" by (rule less_trans [OF unat_u8_less]) simp
  then show ?thesis by (simp add: unsigned_ucast_eq take_bit_nat_eq_self)
qed

lemma bitmap_ok_Store: "bitmap_ok s \<Longrightarrow> bitmap_ok (snd (ov_Store pl s))"
proof (cases "ov_Check pl = Stored")
  case True
  then have "2 \<le> length pl" "unat (pl ! 0) * unat (pl ! 1) \<le> length pl - 2" "Accepted (ucast (pl ! 0)) (ucast (pl ! 1))"
    by (auto simp: Check_Stored)
  moreover from this(3) have "0 < unat (pl ! 0) * unat (pl ! 1)"
    using Accepted_pos unat_ucast_side by metis
  ultimately show ?thesis
    using True by (auto simp: ov_Store_def Let_def bitmap_ok_def unat_ucast_side min_def)
qed (simp add: ov_Store_def Let_def)

lemma bitmap_ok_Control [simp]: "bitmap_ok (ov_Control e d t s) = bitmap_ok s"
  by (simp add: bitmap_ok_def ov_Control_def)

lemma bitmap_ok_Clear [simp]: "bitmap_ok (ov_Clear s)"
  by (simp add: bitmap_ok_def ov_Clear_def)

lemma bitmap_ok_Apply: "bitmap_ok s \<Longrightarrow> bitmap_ok (op_Apply op s)"
  by (cases op) (simp_all add: op_Apply_def bitmap_ok_Store)

lemma bitmap_ok_drain: "bitmap_ok s \<Longrightarrow> bitmap_ok (drain ops s)"
  by (induction ops s rule: drain.induct) (simp_all add: bitmap_ok_Apply)

lemma drain_append: "drain (ops @ ops') s = drain ops' (drain ops s)"
  by (induction ops s rule: drain.induct) simp_all

lemma published_Publish [simp]:
  "oc_published (oc_Publish c) = record_of (oc_state c)" "oc_state (oc_Publish c) = oc_state c" "oc_pending (oc_Publish c) = oc_pending c"
  by (simp_all add: oc_Publish_def)

lemma upload_trimmed:
  assumes "ov_Check pl = Stored"
  defines "bs \<equiv> take (2 + unat (pl ! 0) * unat (pl ! 1)) pl"
  shows "ov_Check bs = Stored" "ov_Store bs s = ov_Store pl s"
proof -
  have pl: "2 \<le> length pl" "unat (pl ! 0) * unat (pl ! 1) \<le> length pl - 2" "Accepted (ucast (pl ! 0)) (ucast (pl ! 1))"
    using assms(1) by (auto simp: Check_Stored)
  have nth: "bs ! 0 = pl ! 0" "bs ! 1 = pl ! 1" and len: "length bs = 2 + unat (pl ! 0) * unat (pl ! 1)"
    using pl by (simp_all add: bs_def)
  show ck: "ov_Check bs = Stored" using pl len nth by (simp add: Check_Stored)
  have "take (unat (pl ! 0) * unat (pl ! 1)) (drop 2 bs) = take (unat (pl ! 0) * unat (pl ! 1)) (drop 2 pl)"
    by (simp add: bs_def drop_take)
  with ck nth assms(1) show "ov_Store bs s = ov_Store pl s" by (simp add: ov_Store_def Let_def)
qed

text \<open>Every operation of the three sides keeps the invariant.\<close>

lemma cache_ok_Post: "cache_ok c \<Longrightarrow> op_ok op \<Longrightarrow> cache_ok (snd (oc_Post free op c))"
  by (auto simp: oc_Post_def cache_ok_def bitmap_ok_Apply)

lemma cache_ok_ops:
  assumes "cache_ok c"
  shows "cache_ok (snd (oc_Store pl c))" "cache_ok (oc_Control e d t c)" "cache_ok (oc_Clear c)"
    "cache_ok (snd (PostUpload free pl c))" "cache_ok (snd (PostControl free e d t c))" "cache_ok (DrainPending free c)"
proof -
  show "cache_ok (snd (oc_Store pl c))"
  proof (cases "ov_Check pl = Stored")
    case True
    then show ?thesis using assms bitmap_ok_Store [of "oc_state c" pl]
      by (auto simp: oc_Store_def ov_Store_def Let_def cache_ok_def)
  next
    case False
    then show ?thesis using assms by (auto simp: oc_Store_def ov_Store_def Let_def cache_ok_def)
  qed
  show "cache_ok (oc_Control e d t c)" "cache_ok (oc_Clear c)"
    using assms by (simp_all add: oc_Control_def oc_Clear_def cache_ok_def)
  show "cache_ok (snd (PostUpload free pl c))"
    using assms cache_ok_Post [OF assms, of "UploadOp (take (2 + unat (pl ! 0) * unat (pl ! 1)) pl)" free] upload_trimmed(1) [of pl]
    by (simp add: PostUpload_def)
  show "cache_ok (snd (PostControl free e d t c))"
    using assms by (simp add: PostControl_def cache_ok_Post)
  show "cache_ok (DrainPending free c)"
    using assms by (simp add: DrainPending_def cache_ok_def bitmap_ok_drain)
qed

lemma cache_ok_init: "cache_ok OverlayCache"
  by (simp add: cache_ok_def OverlayCache_def bitmap_ok_def OverlayState_def)

text \<open>Every state the cache can be in, whatever its sides do and whoever holds the lock.\<close>

inductive cache_reach :: "overlay_cache \<Rightarrow> bool" where
  cr_init: "cache_reach OverlayCache"
| cr_Store: "cache_reach c \<Longrightarrow> cache_reach (snd (oc_Store pl c))"
| cr_Control: "cache_reach c \<Longrightarrow> cache_reach (oc_Control e d t c)"
| cr_Clear: "cache_reach c \<Longrightarrow> cache_reach (oc_Clear c)"
| cr_PostUpload: "cache_reach c \<Longrightarrow> cache_reach (snd (PostUpload free pl c))"
| cr_PostControl: "cache_reach c \<Longrightarrow> cache_reach (snd (PostControl free e d t c))"
| cr_Drain: "cache_reach c \<Longrightarrow> cache_reach (DrainPending free c)"

lemma cache_reach_ok: "cache_reach c \<Longrightarrow> cache_ok c"
  by (induction rule: cache_reach.induct) (simp_all add: cache_ok_init cache_ok_ops)

section \<open>Properties\<close>

text \<open>
  A bitmap lands where it should: both rectangles lie inside the overlay and the display, they are
  as large as the two allow, and they are centred, so that the margin left on the two sides of an
  axis differs by at most one.
\<close>

theorem overlay_placement:
  assumes "0 < dw" "0 < dh" "0 < w" "0 < h" and "p = Place dw dh w h"
  shows "uint (placedWidth p) = min (uint dw) (uint w) \<and> uint (placedHeight p) = min (uint dh) (uint h)
    \<and> uint (dstX p) + uint (placedWidth p) \<le> uint dw \<and> uint (srcX p) + uint (placedWidth p) \<le> uint w
    \<and> uint (dstY p) + uint (placedHeight p) \<le> uint dh \<and> uint (srcY p) + uint (placedHeight p) \<le> uint h
    \<and> (uint dw - uint (placedWidth p) - uint (dstX p)) - uint (dstX p) \<in> {0, 1}
    \<and> (uint w - uint (placedWidth p) - uint (srcX p)) - uint (srcX p) \<in> {0, 1}
    \<and> (uint dh - uint (placedHeight p) - uint (dstY p)) - uint (dstY p) \<in> {0, 1}
    \<and> (uint h - uint (placedHeight p) - uint (srcY p)) - uint (srcY p) \<in> {0, 1}"
proof -
  obtain dx sx lw where x: "Axis dw w = (dx, sx, lw)" by (cases "Axis dw w")
  obtain dy sy lh where y: "Axis dh h = (dy, sy, lh)" by (cases "Axis dh h")
  have nz: "dw \<noteq> 0" "w \<noteq> 0" "dh \<noteq> 0" "h \<noteq> 0" using assms(1-4) by (auto simp: word_gt_0)
  have pos: "0 < uint dw" "0 < uint w" "0 < uint dh" "0 < uint h"
    using assms(1-4) by (simp_all add: word_less_def)
  note X = Axis_eq [OF x nz(1,2)] and Y = Axis_eq [OF y nz(3,4)]
  have "lw \<noteq> 0" "lh \<noteq> 0" using X(3) Y(3) pos by auto
  then have "p = \<lparr>dstX = dx, dstY = dy, srcX = sx, srcY = sy, placedWidth = lw, placedHeight = lh\<rparr>"
    by (simp add: assms(5) Place_def x y)
  then show ?thesis using X(3) Y(3) Axis_centred [OF x nz(1,2)] Axis_centred [OF y nz(3,4)] by simp
qed

theorem overlay_placement_witness:
  "uint (dstX (Place 128 32 20 10)) + 20 \<le> 128"
  using overlay_placement [of 128 32 20 10 "Place 128 32 20 10"] by simp

text \<open>
  C23. What a render thread judges visible is what the state says: at every moment and in every
  state the cache can reach, the published record is visible exactly when the overlay's state is, and
  its bitmap has accepted sides and exactly width times height pixels.
\<close>

theorem overlay_published_agrees:
  assumes "cache_reach c"
  shows "rec_Visible (oc_published c) now = ov_Visible (oc_state c) now
    \<and> rec_pixels (oc_published c) = ov_pixels (oc_state c)
    \<and> length (rec_pixels (oc_published c)) = unat (rec_width (oc_published c)) * unat (rec_height (oc_published c))
    \<and> unat (rec_width (oc_published c)) \<le> 192 \<and> unat (rec_height (oc_published c)) \<le> 64"
proof -
  have "cache_ok c" using assms by (rule cache_reach_ok)
  then have ok: "bitmap_ok (oc_state c)" "oc_published c = record_of (oc_state c)" by (auto simp: cache_ok_def)
  show ?thesis
  proof (cases "ov_pixels (oc_state c) = []")
    case True
    with ok show ?thesis by (simp add: bitmap_ok_def record_of_def rec_Visible_def ov_Visible_def)
  next
    case False
    with ok(1) have "Accepted (ov_width (oc_state c)) (ov_height (oc_state c))"
      and len: "length (ov_pixels (oc_state c)) = unat (ov_width (oc_state c)) * unat (ov_height (oc_state c))"
      by (simp_all add: bitmap_ok_def)
    then have "ov_width (oc_state c) \<noteq> 0" "unat (ov_width (oc_state c)) \<le> 192" "unat (ov_height (oc_state c)) \<le> 64"
      using Accepted_pos by (auto simp: Accepted_def word_le_nat_alt)
    with False ok(2) len show ?thesis by (simp add: record_of_def rec_Visible_def ov_Visible_def)
  qed
qed

theorem overlay_published_agrees_witness:
  "\<not> rec_Visible (oc_published (oc_Control True 0 5 OverlayCache)) 7"
  using overlay_published_agrees [OF cr_Control [OF cr_init], of True 0 5 7]
  by (simp add: ov_Visible_def oc_Control_def ov_Control_def OverlayCache_def OverlayState_def oc_Publish_def)

text \<open>
  The API thread's operations take effect in the order they were accepted, whoever held the
  lock: an accepted upload or control acts on everything accepted before it, a refused one changes
  nothing, and a drain keeps the promised state, and reaches it when it gets the lock.
\<close>

theorem overlay_posts_in_order:
  "(let (accepted, c') = PostUpload free pl c in
      if accepted then promised c' = snd (ov_Store pl (promised c)) else c' = c)
   \<and> (let (accepted, c') = PostControl free enable duration now c in
      if accepted then promised c' = ov_Control enable duration now (promised c) else c' = c)
   \<and> promised (DrainPending free c) = promised c
   \<and> oc_pending (DrainPending True c) = [] \<and> oc_state (DrainPending True c) = promised c"
proof -
  have post: "case oc_Post free op c of (accepted, c') \<Rightarrow> if accepted then promised c' = op_Apply op (promised c) else c' = c" for op
    by (auto simp: oc_Post_def promised_def drain_append)
  have up: "let (accepted, c') = PostUpload free pl c in
      if accepted then promised c' = snd (ov_Store pl (promised c)) else c' = c"
  proof (cases "ov_Check pl \<noteq> Stored \<or> oc_Full c")
    case False
    define bs where "bs = take (2 + unat (pl ! 0) * unat (pl ! 1)) pl"
    from False have "op_Apply (UploadOp bs) (promised c) = snd (ov_Store pl (promised c))"
      using upload_trimmed(2) [of pl "promised c"] unfolding bs_def op_Apply_def overlay_op.case by simp
    moreover have "PostUpload free pl c = oc_Post free (UploadOp bs) c" using False by (simp add: PostUpload_def bs_def)
    ultimately show ?thesis using post [of "UploadOp bs"] by (cases "oc_Post free (UploadOp bs) c") simp
  qed (simp add: PostUpload_def)
  have ctl: "let (accepted, c') = PostControl free enable duration now c in
      if accepted then promised c' = ov_Control enable duration now (promised c) else c' = c"
    using post [of "ControlOp enable duration now"] 
    by (cases "oc_Post free (ControlOp enable duration now) c") (simp add: PostControl_def op_Apply_def)
  have "promised (DrainPending free c) = promised c" "oc_pending (DrainPending True c) = []" "oc_state (DrainPending True c) = promised c"
    by (simp_all add: DrainPending_def promised_def)
  with up ctl show ?thesis by blast
qed

text \<open>
  Every shade a display can show is one of its platform's: a brightness maps to a shade from 0 to
  the brightest, darkest to darkest and brightest to brightest, and a brighter value never to a
  darker shade; the high bits of the value do not matter.
\<close>

theorem luminance_shades:
  "(case Luminance platform v deep of (shade, brightest) \<Rightarrow>
      shade \<le> brightest \<and> brightest = Shades platform deep - 1 \<and> 0 < brightest
      \<and> (v AND 0x0F = 0 \<longrightarrow> shade = 0) \<and> (v AND 0x0F = 0x0F \<longrightarrow> shade = brightest)
      \<and> (\<forall>v'. v AND 0x0F \<le> v' AND 0x0F \<longrightarrow> shade \<le> fst (Luminance platform v' deep)))"
proof -
  define b where "b = Shades platform deep - 1"
  have b: "0 < b" "b \<le> 15" by (cases platform; simp add: b_def)+
  have low: "unat (x AND 0x0F) \<le> 15" for x :: u8
  proof -
    have "x AND 0x0F \<le> 0x0F" by (rule word_and_le1)
    then show ?thesis by (simp add: word_le_nat_alt)
  qed
  have "unat (v AND 0x0F) * b \<le> 15 * b" using low by (intro mult_right_mono) simp_all
  then have le: "shade_of b v \<le> b" unfolding shade_of_def by linarith
  have mono: "shade_of b v \<le> shade_of b v'" if "v AND 0x0F \<le> v' AND 0x0F" for v'
  proof -
    have "unat (v AND 0x0F) * b \<le> unat (v' AND 0x0F) * b" using that by (simp add: word_le_nat_alt)
    then show ?thesis unfolding shade_of_def by (intro div_le_mono add_mono) simp_all
  qed
  have "v AND 0x0F = 0 \<Longrightarrow> shade_of b v = 0" "v AND 0x0F = 0x0F \<Longrightarrow> shade_of b v = b"
    by (simp_all add: shade_of_def)
  with le mono b(1) show ?thesis unfolding Luminance_def Let_def b_def [symmetric] by simp
qed

theorem luminance_shades_witness:
  "Luminance Gts3 0x8F False = (6, 6) \<and> fst (Luminance Gts3 7 False) \<le> 6"
  using luminance_shades [where platform = Gts3 and v = 7 and deep = False] by (simp add: Luminance_def shade_of_def)

end
