(* ===== verification/Override_Chain.thy ===== *)
theory Override_Chain
  imports Prelude
begin

text \<open>
  \<^verbatim>\<open>src/OverrideChain.h\<close>: which display sources the overlay overrides. \<open>Targets\<close> walks the override
  chain breadth first from the controller's display through every other plugin's sources, and
  returns its leaves, and the sources that someone chained onto ours. The walk is characterised
  as a reachability: \<open>targets_exact\<close>.
\<close>

section \<open>Model\<close>

record Source =
  source_id :: u64
  overrides :: u64
  ours :: bool

text \<open>
  The first loop, source by source: the effective parent of each, and the sources that keep our
  override. A source of ours keeps the vector's initial 0.
\<close>

definition own_of :: "Source list \<Rightarrow> u64 \<Rightarrow> Source option" where
  "own_of sources parent = find (\<lambda>s. ours s \<and> source_id s = parent) sources"

fun link_parents :: "Source list \<Rightarrow> Source list \<Rightarrow> u64 list \<times> u64 list" where
  "link_parents sources [] = ([], [])"
| "link_parents sources (s # rest) =
     (case link_parents sources rest of (kept, parents) \<Rightarrow>
        if ours s then (kept, 0 # parents)
        else case own_of sources (overrides s) of
            Some o1 \<Rightarrow> (overrides o1 # kept, overrides o1 # parents)
          | None \<Rightarrow> (kept, overrides s # parents))"

text \<open>The inner loop of the walk at \<open>node\<close>: whether it is a leaf so far, and the queue.\<close>

fun visit :: "u64 \<Rightarrow> (Source \<times> u64) list \<Rightarrow> bool \<times> u64 list \<Rightarrow> bool \<times> u64 list" where
  "visit node [] st = st"
| "visit node ((s, parent) # rest) (leaf, queue) =
     (if ours s \<or> parent \<noteq> node \<or> source_id s = node then visit node rest (leaf, queue)
      else visit node rest (False, if source_id s \<in> set queue then queue else queue @ [source_id s]))"

lemma visit_queue: "\<exists>new. snd (visit node ls (leaf, queue)) = queue @ new \<and> set new \<inter> set queue = {} \<and> set new \<subseteq> source_id ` fst ` set ls"
proof (induction ls arbitrary: leaf queue)
  case (Cons l ls)
  obtain s p where l: "l = (s, p)" by (cases l)
  show ?case
  proof (cases "ours s \<or> p \<noteq> node \<or> source_id s = node \<or> source_id s \<in> set queue")
    case True
    then obtain leaf' where step: "visit node (l # ls) (leaf, queue) = visit node ls (leaf', queue)"
      by (cases "ours s \<or> p \<noteq> node \<or> source_id s = node") (auto simp: l)
    from Cons [of leaf' queue] obtain new where
      "snd (visit node ls (leaf', queue)) = queue @ new" "set new \<inter> set queue = {}"
      "set new \<subseteq> source_id ` fst ` set ls" by blast
    then show ?thesis unfolding step by (intro exI [of _ new]) auto
  next
    case False
    from Cons [of False "queue @ [source_id s]"] obtain new where
      "snd (visit node ls (False, queue @ [source_id s])) = (queue @ [source_id s]) @ new"
      "set new \<inter> set (queue @ [source_id s]) = {}" "set new \<subseteq> source_id ` fst ` set ls" by blast
    with False l show ?thesis by (intro exI [of _ "source_id s # new"]) auto
  qed
qed simp

lemma card_Diff_shrinks:
  assumes "finite D" "new \<subseteq> D" "new \<inter> seen = {}" "new \<noteq> {}"
  shows "card (D - (seen \<union> new)) < card (D - seen)"
proof (intro psubset_card_mono)
  show "finite (D - seen)" using assms(1) by simp
  show "D - (seen \<union> new) \<subset> D - seen" using assms(2-4) by blast
qed

text \<open>The outer loop, from index \<open>q\<close> of the queue.\<close>

function walk :: "(Source \<times> u64) list \<Rightarrow> u64 list \<Rightarrow> nat \<Rightarrow> u64 list \<Rightarrow> u64 list \<Rightarrow> u64 list" where
  "walk ls kept q queue out =
     (if q < length queue then
        let node = queue ! q;
            (leaf, queue') = visit node ls (True, queue)
        in walk ls kept (Suc q) queue' (if leaf \<or> node \<in> set kept then out @ [node] else out)
      else out)"
  by pat_completeness auto
termination
proof (relation "measures [\<lambda>(ls, kept, q, queue, out). card (source_id ` fst ` set ls - set queue), \<lambda>(ls, kept, q, queue, out). length queue - q]",
    goal_cases)
  case 1
  show ?case by simp
next
  case (2 ls kept q queue out node s leaf queue')
  have "visit node ls (True, queue) = (leaf, queue')" using 2(3,4) by simp
  then obtain new where new: "queue' = queue @ new" "set new \<inter> set queue = {}" "set new \<subseteq> source_id ` fst ` set ls"
    using visit_queue [of node ls True queue] unfolding snd_conv by (elim exE conjE) simp
  show ?case
  proof (cases "new = []")
    case True
    with new(1) 2 show ?thesis by simp
  next
    case False
    then have "card (source_id ` fst ` set ls - set queue') < card (source_id ` fst ` set ls - set queue)"
      unfolding new(1) set_append using new(2,3) by (intro card_Diff_shrinks) simp_all
    then show ?thesis by simp
  qed
qed

declare walk.simps [simp del]

definition Targets :: "Source list \<Rightarrow> u64 \<Rightarrow> u64 list" where
  "Targets sources root =
     (if \<not> (\<exists>s \<in> set sources. \<not> ours s \<and> source_id s = root) then []
      else case link_parents sources sources of (kept, parents) \<Rightarrow>
        walk (zip sources parents) kept 0 [root] [])"

section \<open>The walk as reachability\<close>

text \<open>
  What a source of another plugin sits on: what it overrides, or, when that is one of ours, what ours
  overrides.
\<close>

definition sits_on :: "Source list \<Rightarrow> Source \<Rightarrow> u64" where
  "sits_on sources s = (case own_of sources (overrides s) of Some o1 \<Rightarrow> overrides o1 | None \<Rightarrow> overrides s)"

definition sits_above :: "Source list \<Rightarrow> (u64 \<times> u64) set" where
  "sits_above sources = {(node, source_id s) | node s. s \<in> set sources \<and> \<not> ours s \<and> sits_on sources s = node \<and> source_id s \<noteq> node}"

definition keeps :: "Source list \<Rightarrow> u64 set" where
  "keeps sources = {sits_on sources s | s. s \<in> set sources \<and> \<not> ours s \<and> own_of sources (overrides s) \<noteq> None}"

definition edges :: "(Source \<times> u64) list \<Rightarrow> (u64 \<times> u64) set" where
  "edges ls = {(node, source_id s) | node s. (s, node) \<in> set ls \<and> \<not> ours s \<and> source_id s \<noteq> node}"

lemma link_parents_spec:
  "snd (link_parents sources rest) = map (\<lambda>s. if ours s then 0 else sits_on sources s) rest"
  "set (fst (link_parents sources rest)) =
     sits_on sources ` {s \<in> set rest. \<not> ours s \<and> own_of sources (overrides s) \<noteq> None}"
proof (induction rest)
  case (Cons s rest)
  obtain k p where kp: "link_parents sources rest = (k, p)" by (cases "link_parents sources rest")
  have filt: "{t \<in> set (s # rest). P t} = (if P s then insert s {t \<in> set rest. P t} else {t \<in> set rest. P t})" for P
    by auto
  {
    case 1
    show ?case using Cons.IH(1) by (simp add: kp sits_on_def split: option.split)
  next
    case 2
    show ?case using Cons.IH(2) unfolding filt
      by (cases "ours s"; cases "own_of sources (overrides s)") (simp_all add: kp sits_on_def)
  }
qed simp_all

lemma edges_linked:
  assumes "link_parents sources sources = (kept, parents)"
  shows "edges (zip sources parents) = sits_above sources" "set kept = keeps sources"
proof -
  have "set (zip sources parents) = {(s, if ours s then 0 else sits_on sources s) | s. s \<in> set sources}"
    using link_parents_spec(1) [of sources sources] unfolding assms snd_conv
    by (simp add: zip_map2 zip_same_conv_map image_def Bex_def conj_commute)
  then show "edges (zip sources parents) = sits_above sources"
    by (auto simp: edges_def sits_above_def)
  show "set kept = keeps sources" using link_parents_spec(2) [of sources sources] unfolding assms keeps_def by (auto simp: image_def)
qed

text \<open>One visit pushes exactly the children, and says whether there were any.\<close>

lemma visit_spec:
  "fst (visit node ls (leaf, queue)) \<longleftrightarrow> leaf \<and> edges ls `` {node} = {}"
  "set (snd (visit node ls (leaf, queue))) = set queue \<union> edges ls `` {node}"
  "distinct queue \<Longrightarrow> distinct (snd (visit node ls (leaf, queue)))"
proof (induction ls arbitrary: leaf queue)
  case (Cons l ls)
  obtain s p where l: "l = (s, p)" by (cases l)
  have e: "edges ((s, p) # ls) `` {node} = (if ours s \<or> p \<noteq> node \<or> source_id s = node then {} else {source_id s}) \<union> edges ls `` {node}"
    by (auto simp: edges_def)
  {
    case 1
    show ?case using Cons.IH(1) by (auto simp: l e)
  next
    case 2
    show ?case using Cons.IH(2) by (auto simp: l e)
  next
    case 3
    then show ?case using Cons.IH(3) by (simp add: l)
  }
qed (simp_all add: edges_def)

text \<open>
  The loop's invariant at index \<open>q\<close>: the queue holds only nodes reachable from its head, each once,
  every node below \<open>q\<close> has its children in the queue, and \<open>out\<close> is the part of the nodes below \<open>q\<close> that
  are leaves or kept.
\<close>

definition chosen :: "(Source \<times> u64) list \<Rightarrow> u64 list \<Rightarrow> u64 \<Rightarrow> bool" where
  "chosen ls kept n \<longleftrightarrow> edges ls `` {n} = {} \<or> n \<in> set kept"

definition walk_inv :: "(Source \<times> u64) list \<Rightarrow> u64 list \<Rightarrow> u64 \<Rightarrow> nat \<Rightarrow> u64 list \<Rightarrow> u64 list \<Rightarrow> bool" where
  "walk_inv ls kept root q queue out \<longleftrightarrow>
     distinct queue \<and> root \<in> set queue \<and> set queue \<subseteq> (edges ls)\<^sup>* `` {root} \<and> q \<le> length queue \<and>
     edges ls `` set (take q queue) \<subseteq> set queue \<and> out = filter (chosen ls kept) (take q queue)"

lemma walk_inv_step:
  assumes inv: "walk_inv ls kept root q queue out" and q: "q < length queue"
    and v: "visit (queue ! q) ls (True, queue) = (leaf, queue')"
  shows "walk_inv ls kept root (Suc q) queue'
           (if leaf \<or> queue ! q \<in> set kept then out @ [queue ! q] else out)"
proof -
  let ?n = "queue ! q"
  have leaf: "leaf \<longleftrightarrow> edges ls `` {?n} = {}" using visit_spec(1) [of ?n ls True queue] v by simp
  have set': "set queue' = set queue \<union> edges ls `` {?n}" using visit_spec(2) [of ?n ls True queue] v by simp
  have dist: "distinct queue'" using visit_spec(3) [of queue ?n ls True] v inv by (simp add: walk_inv_def)
  obtain new where new: "queue' = queue @ new" using visit_queue [of ?n ls True queue] v by auto
  have tk: "take (Suc q) queue' = take q queue @ [?n]" using q by (simp add: new take_Suc_conv_app_nth)
  have "?n \<in> (edges ls)\<^sup>* `` {root}" using inv nth_mem [OF q] unfolding walk_inv_def by blast
  then have kids: "edges ls `` {?n} \<subseteq> (edges ls)\<^sup>* `` {root}" by (auto intro: rtrancl_into_rtrancl)
  have pre: "root \<in> set queue" "set queue \<subseteq> (edges ls)\<^sup>* `` {root}" "edges ls `` set (take q queue) \<subseteq> set queue"
    and out: "out = filter (chosen ls kept) (take q queue)"
    using inv unfolding walk_inv_def by blast+
  have "(if leaf \<or> ?n \<in> set kept then out @ [?n] else out) = filter (chosen ls kept) (take (Suc q) queue')"
    unfolding tk out leaf by (simp add: chosen_def)
  moreover have "edges ls `` set (take (Suc q) queue') \<subseteq> set queue'"
    unfolding tk set' using pre(3) by (auto simp: Image_Un)
  moreover have "Suc q \<le> length queue'" using q by (simp add: new)
  ultimately show ?thesis using dist pre kids unfolding walk_inv_def set' by blast
qed

lemma walk_exact:
  assumes "walk_inv ls kept root q queue out"
  shows "distinct (walk ls kept q queue out)
    \<and> set (walk ls kept q queue out) = {n \<in> (edges ls)\<^sup>* `` {root}. chosen ls kept n}"
  using assms
proof (induction ls kept q queue out rule: walk.induct)
  case (1 ls kept q queue out)
  show ?case
  proof (cases "q < length queue")
    case True
    obtain leaf queue' where v: "visit (queue ! q) ls (True, queue) = (leaf, queue')" by fastforce
    from 1(1) [OF True refl v [symmetric] refl walk_inv_step [OF 1(2) True v]] True v
    show ?thesis by (subst (1 2) walk.simps) (simp add: Let_def)
  next
    case False
    with 1(2) have all: "take q queue = queue" "edges ls `` set queue \<subseteq> set queue"
      by (auto simp: walk_inv_def)
    have "n \<in> set queue" if "(root, n) \<in> (edges ls)\<^sup>*" for n
      using that 1(2) all(2) by (induction rule: rtrancl_induct) (auto simp: walk_inv_def)
    with 1(2) all(1) False show ?thesis
      by (subst (1 2) walk.simps) (auto simp: walk_inv_def)
  qed
qed

section \<open>Properties\<close>

text \<open>
  C17. The sources the overlay overrides: when another plugin lists the root display, \<open>Targets\<close> returns,
  each once, exactly the sources reachable from the root along the override chain (ours spliced
  out) that are leaves of it or that somebody chained onto ours; the walk ends also on a chain
  with a cycle. When no other plugin lists the root it returns nothing.
\<close>

theorem targets_exact:
  "distinct (Targets sources root) \<and>
    set (Targets sources root) =
      (if \<exists>s \<in> set sources. \<not> ours s \<and> source_id s = root
       then {n. (root, n) \<in> (sits_above sources)\<^sup>* \<and> (sits_above sources `` {n} = {} \<or> n \<in> keeps sources)}
       else {})"
proof (cases "\<exists>s \<in> set sources. \<not> ours s \<and> source_id s = root")
  case True
  obtain kept parents where lp: "link_parents sources sources = (kept, parents)" by fastforce
  have "walk_inv (zip sources parents) kept root 0 [root] []" by (simp add: walk_inv_def)
  from walk_exact [OF this] True show ?thesis
    by (simp add: Targets_def lp chosen_def edges_linked [OF lp])
qed (auto simp: Targets_def)

end
