(* ===== verification/Status_Notice.thy ===== *)
theory Status_Notice
  imports Wire_Game Handoff
begin

text \<open>
  \<^verbatim>\<open>src/StatusNotice.{h,cpp}\<close>: the record the socket worker hands to the API thread, the words for a
  status, and the notifier, which decides once per rendered frame whether a notification is
  due. \<open>notifier_event\<close> lists the calls the API thread makes, and \<open>notifier_run\<close> is the notifier over a
  sequence of them.
\<close>

section \<open>Records\<close>

record StatusHistory =
  romGame :: bool
  romGames :: u32
  romGameEndsAt :: time_point
  warnings :: u32
  lastWarning :: string
  warningsAtGameStart :: u32

definition StatusHistory0 :: StatusHistory where
  "StatusHistory0 = \<lparr>romGame = False, romGames = 0, romGameEndsAt = 0, warnings = 0, lastWarning = [],
     warningsAtGameStart = 0\<rparr>"

record StatusRecord =
  inSession :: bool
  haveStatus :: bool
  sr_status :: Status
  sr_reason :: string
  sr_since :: time_point
  sr_history :: StatusHistory

definition StatusRecord0 :: StatusRecord where
  "StatusRecord0 = \<lparr>inSession = False, haveStatus = False, sr_status = Status0, sr_reason = [], sr_since = 0,
     sr_history = StatusHistory0\<rparr>"

abbreviation (input) NOTICES_NEVER :: int where "NOTICES_NEVER \<equiv> 0"
abbreviation (input) NOTICES_OUTSIDE_GAME :: int where "NOTICES_OUTSIDE_GAME \<equiv> 1"
abbreviation (input) NOTICES_ALWAYS :: int where "NOTICES_ALWAYS \<equiv> 2"

datatype NoticeAction = NoNotice | Post string | Expire string

fun notice_text :: "NoticeAction \<Rightarrow> string" where
  "notice_text NoNotice = []"
| "notice_text (Post t) = t"
| "notice_text (Expire t) = t"

definition NO_SESSION_AFTER :: int where "NO_SESSION_AFTER = seconds 5"
definition REFRESH_EVERY :: int where "REFRESH_EVERY = seconds 60"
definition NOTICE_LIFETIME :: int where "NOTICE_LIFETIME = seconds 5"
definition ROM_GAME_LOST_AFTER :: int where "ROM_GAME_LOST_AFTER = seconds 120"
definition NO_GAME_DEFERRED :: int where "NO_GAME_DEFERRED = seconds 10"

section \<open>Words for a status\<close>

definition Unknown :: "u8 \<Rightarrow> string" where
  "Unknown v = ''unknown ('' @ digits (unat v) @ '')''"

definition SessionName :: "u8 \<Rightarrow> string" where
  "SessionName v =
     (if v = SESSION_NONE then ''no game''
      else if v = SESSION_TRACKING then ''tracking''
      else if v = SESSION_NO_DATA then ''no data''
      else if v = SESSION_HIDDEN then ''hidden''
      else Unknown v)"

definition SystemName :: "u8 \<Rightarrow> string" where
  "SystemName v =
     (if v = SYSTEM_OK then ''ok''
      else if v = SYSTEM_UNPAIRED then ''not paired''
      else if v = SYSTEM_OFFLINE then ''offline''
      else if v = SYSTEM_DEGRADED then ''degraded''
      else Unknown v)"

definition KnownSession :: "u8 \<Rightarrow> bool" where
  "KnownSession v \<longleftrightarrow> v = SESSION_NONE \<or> v = SESSION_TRACKING \<or> v = SESSION_NO_DATA \<or> v = SESSION_HIDDEN"

definition KnownSystem :: "u8 \<Rightarrow> bool" where
  "KnownSystem v \<longleftrightarrow> v \<le> SYSTEM_DEGRADED"

definition AuthProblem :: "Status \<Rightarrow> string option" where
  "AuthProblem s =
     (if \<not> hasAuthStatus s then None
      else if authStatus s = AUTH_NOT_AUTHENTICATED then Some ''not authenticated''
      else if authStatus s = AUTH_FAILED then Some ''authentication failed''
      else if authStatus s = AUTH_UNPAIRED then (if systemState s = SYSTEM_OK then Some ''not paired'' else None)
      else None)"

definition Marker :: "Status \<Rightarrow> string" where
  "Marker s =
     (if \<not> KnownSession (sessionState s) \<or> \<not> KnownSystem (systemState s) then ''[?]''
      else if sessionState s = SESSION_NO_DATA \<or> systemState s \<noteq> SYSTEM_OK \<or> AuthProblem s \<noteq> None then ''[!]''
      else ''[OK]'')"

definition support_suffix :: "string \<Rightarrow> string" where
  "support_suffix t = (if t = [] then [] else '' - '' @ t)"

definition Describe :: "Status \<Rightarrow> string" where
  "Describe s =
     (if sessionState s = SESSION_HIDDEN then ''Scorbit: hidden'' @ support_suffix (supportText s)
      else Marker s @ '' Scorbit: '' @ SessionName (sessionState s) @ '', '' @
        (case AuthProblem s of Some a \<Rightarrow> a | None \<Rightarrow> SystemName (systemState s)) @
        support_suffix (supportText s))"

definition DescribeNoSession :: "string \<Rightarrow> string" where
  "DescribeNoSession r = ''[!] Scorbit: no data, no connection to the Scorbit daemon'' @ support_suffix r"

text \<open>\<^verbatim>\<open>std::string::find\<close>: the first position at which the pattern occurs.\<close>

fun find_text :: "string \<Rightarrow> string \<Rightarrow> nat option" where
  "find_text p [] = (if p = [] then Some 0 else None)"
| "find_text p (c # s) = (if prefix p (c # s) then Some 0 else map_option Suc (find_text p s))"

definition DescribeEarlier :: "string \<Rightarrow> string" where
  "DescribeEarlier described =
     (let head = ''] Scorbit: '' in
      case find_text head described of
        None \<Rightarrow> ''During the game: '' @ described
      | Some i \<Rightarrow> take i described @ ''] Scorbit, during the game: '' @ drop (i + length head) described)"

section \<open>The notifier\<close>

record StatusNotifier =
  sn_current :: StatusRecord
  sn_posted :: string
  sn_postedAt :: time_point
  sn_inGame :: bool
  sn_authoredGame :: bool
  sn_authoredGames :: u32
  sn_authoredStartWarnings :: u32
  sn_authoredLast :: bool
  sn_seenStarts :: u32
  sn_seenWarnings :: u32
  sn_warningsAtStart :: u32
  sn_lostInGame :: bool
  sn_lostText :: string
  sn_afterGame :: bool

definition StatusNotifier_init :: "time_point \<Rightarrow> StatusNotifier" where
  "StatusNotifier_init start0 = \<lparr>sn_current = StatusRecord0\<lparr>sr_since := start0\<rparr>, sn_posted = [], sn_postedAt = 0,
     sn_inGame = False, sn_authoredGame = False, sn_authoredGames = 0, sn_authoredStartWarnings = 0,
     sn_authoredLast = False, sn_seenStarts = 0, sn_seenWarnings = 0, sn_warningsAtStart = 0,
     sn_lostInGame = False, sn_lostText = [], sn_afterGame = False\<rparr>"

definition TableEnded :: "StatusNotifier \<Rightarrow> StatusNotifier" where
  "TableEnded n = n\<lparr>sn_inGame := False, sn_authoredGame := False, sn_lostInGame := False, sn_afterGame := False,
     sn_current := (sn_current n)\<lparr>sr_history := (sr_history (sn_current n))\<lparr>romGame := False, romGameEndsAt := 0\<rparr>\<rparr>\<rparr>"

definition NewTable :: "StatusNotifier \<Rightarrow> StatusNotifier" where
  "NewTable n = TableEnded (n\<lparr>sn_posted := []\<rparr>)"

definition GameStarted :: "u32 \<Rightarrow> StatusNotifier \<Rightarrow> StatusNotifier" where
  "GameStarted warningsNow n = n\<lparr>sn_authoredGame := True, sn_authoredGames := sn_authoredGames n + 1,
     sn_authoredStartWarnings := warningsNow\<rparr>"

definition GameEnded :: "StatusNotifier \<Rightarrow> StatusNotifier" where
  "GameEnded n = n\<lparr>sn_authoredGame := False\<rparr>"

definition Want :: "StatusNotifier \<Rightarrow> time_point \<Rightarrow> string" where
  "Want n now =
     (if inSession (sn_current n) then if haveStatus (sn_current n) then Describe (sr_status (sn_current n)) else []
      else if now - sr_since (sn_current n) \<ge> NO_SESSION_AFTER then DescribeNoSession (sr_reason (sn_current n))
      else [])"

definition RomGameInProgress :: "StatusNotifier \<Rightarrow> time_point \<Rightarrow> bool" where
  "RomGameInProgress n now =
     (let h = sr_history (sn_current n) in
      if \<not> romGame h then False
      else if romGameEndsAt h \<noteq> 0 \<and> now \<ge> romGameEndsAt h then False
      else if \<not> inSession (sn_current n) \<and> now - sr_since (sn_current n) \<ge> ROM_GAME_LOST_AFTER then False
      else True)"

text \<open>
  \<open>Frame\<close> in its two halves: the game, from the record taken and the table's kind (whether it
  \<open>started\<close> and \<open>ended\<close> since the last frame), and then the notice.
\<close>

definition frame_game :: "StatusRecord option \<Rightarrow> int \<Rightarrow> bool \<Rightarrow> time_point \<Rightarrow> StatusNotifier \<Rightarrow> bool \<times> bool \<times> StatusNotifier" where
  "frame_game taken notices authored now n0 =
     (let n = (case taken of Some r \<Rightarrow> n0\<lparr>sn_current := r\<rparr> | None \<Rightarrow> n0);
          h = sr_history (sn_current n);
          quiet = (notices = NOTICES_OUTSIDE_GAME);
          starts = (if authored then sn_authoredGames n else romGames h);
          n = (if authored \<noteq> sn_authoredLast n then n\<lparr>sn_authoredLast := authored, sn_seenStarts := starts\<rparr> else n);
          startedSince = (quiet \<and> starts \<noteq> sn_seenStarts n);
          n = n\<lparr>sn_seenStarts := starts\<rparr>;
          inGame = (quiet \<and> (if authored then sn_authoredGame n else RomGameInProgress n now));
          wasInGame = sn_inGame n;
          n = n\<lparr>sn_inGame := inGame\<rparr>;
          started = (\<not> wasInGame \<and> (inGame \<or> startedSince));
          ended = ((wasInGame \<or> startedSince) \<and> \<not> inGame);
          n = (if started
               then n\<lparr>sn_warningsAtStart := if authored then sn_authoredStartWarnings n else warningsAtGameStart h,
                      sn_lostInGame := False, sn_afterGame := False\<rparr>
               else n)
      in (started, ended, n\<lparr>sn_seenWarnings := warnings h\<rparr>))"

definition is_hidden :: "StatusRecord \<Rightarrow> bool" where
  "is_hidden r \<longleftrightarrow> inSession r \<and> haveStatus r \<and> sessionState (sr_status r) = SESSION_HIDDEN"

definition frame_in_game :: "bool \<Rightarrow> time_point \<Rightarrow> string \<Rightarrow> StatusNotifier \<Rightarrow> NoticeAction \<times> StatusNotifier" where
  "frame_in_game started now want n =
     (if started \<and> sn_posted n \<noteq> [] \<and> now - sn_postedAt n < NOTICE_LIFETIME then Expire (sn_posted n) else NoNotice,
      if \<not> inSession (sn_current n) \<and> prefix ''[!]'' want then n\<lparr>sn_lostInGame := True, sn_lostText := want\<rparr> else n)"

definition frame_ended :: "bool \<Rightarrow> time_point \<Rightarrow> string \<Rightarrow> StatusNotifier \<Rightarrow> NoticeAction \<times> StatusNotifier" where
  "frame_ended authored now want n =
     (let h = sr_history (sn_current n);
          action =
            (if prefix ''[!]'' want then Post want
             else if warnings h \<noteq> sn_warningsAtStart n \<and> lastWarning h \<noteq> [] then Post (DescribeEarlier (lastWarning h))
             else if sn_lostInGame n then Post (DescribeEarlier (sn_lostText n))
             else NoNotice);
          n = n\<lparr>sn_posted := if want = [] then notice_text action else want\<rparr>;
          n = (case action of Post _ \<Rightarrow> n\<lparr>sn_postedAt := now\<rparr> | _ \<Rightarrow> n)
      in (action, n\<lparr>sn_lostInGame := False, sn_afterGame := authored\<rparr>))"

definition frame_outside :: "time_point \<Rightarrow> string \<Rightarrow> StatusNotifier \<Rightarrow> NoticeAction \<times> StatusNotifier" where
  "frame_outside now want n =
     (if want = [] then (NoNotice, n)
      else if sn_afterGame n \<and> prefix ''[OK]'' want
        then (NoNotice, if want \<noteq> sn_posted n then n\<lparr>sn_posted := want, sn_afterGame := False\<rparr> else n)
      else if want = sn_posted n \<and> \<not> (prefix ''[!]'' want \<and> now - sn_postedAt n \<ge> REFRESH_EVERY) then (NoNotice, n)
      else (Post want, n\<lparr>sn_posted := want, sn_postedAt := now, sn_afterGame := False\<rparr>))"

definition frame_notice :: "bool \<Rightarrow> bool \<Rightarrow> bool \<Rightarrow> int \<Rightarrow> bool \<Rightarrow> time_point \<Rightarrow> StatusNotifier \<Rightarrow> NoticeAction \<times> StatusNotifier" where
  "frame_notice started ended showStatus notices authored now n =
     (if \<not> showStatus \<or> notices = NOTICES_NEVER \<or> is_hidden (sn_current n) then (NoNotice, n\<lparr>sn_posted := []\<rparr>)
      else if sn_inGame n then frame_in_game started now (Want n now) n
      else if ended then frame_ended authored now (Want n now) n
      else frame_outside now (Want n now) n)"

definition Frame :: "StatusRecord option \<Rightarrow> bool \<Rightarrow> int \<Rightarrow> bool \<Rightarrow> time_point \<Rightarrow> StatusNotifier \<Rightarrow> NoticeAction \<times> StatusNotifier" where
  "Frame taken showStatus notices authored now n =
     (case frame_game taken notices authored now n of (started, ended, n') \<Rightarrow>
        frame_notice started ended showStatus notices authored now n')"

text \<open>The calls the API thread makes, and the notices a sequence of them makes, with their times.\<close>

datatype notifier_event =
    ev_frame "StatusRecord option" bool int bool time_point
  | ev_new_table
  | ev_table_ended
  | ev_game_started u32
  | ev_game_ended

fun notifier_step :: "notifier_event \<Rightarrow> StatusNotifier \<Rightarrow> (time_point \<times> NoticeAction) list \<times> StatusNotifier" where
  "notifier_step (ev_frame taken showStatus notices authored now) n =
     (case Frame taken showStatus notices authored now n of (action, n') \<Rightarrow>
        (if action = NoNotice then [] else [(now, action)], n'))"
| "notifier_step ev_new_table n = ([], NewTable n)"
| "notifier_step ev_table_ended n = ([], TableEnded n)"
| "notifier_step (ev_game_started w) n = ([], GameStarted w n)"
| "notifier_step ev_game_ended n = ([], GameEnded n)"

fun notifier_run :: "notifier_event list \<Rightarrow> StatusNotifier \<Rightarrow> (time_point \<times> NoticeAction) list \<times> StatusNotifier" where
  "notifier_run [] n = ([], n)"
| "notifier_run (e # es) n =
     (case notifier_step e n of (out, n') \<Rightarrow> case notifier_run es n' of (out', n'') \<Rightarrow> (out @ out', n''))"

section \<open>The words\<close>

lemma marker_cases: "Marker s \<in> {''[?]'', ''[!]'', ''[OK]''}"
  by (simp add: Marker_def)

lemma describe_nonempty: "Describe s \<noteq> []"
  using marker_cases [of s] by (auto simp: Describe_def)

lemma describe_no_session_warns: "prefix ''[!]'' (DescribeNoSession r)" "DescribeNoSession r \<noteq> []"
  by (simp_all add: DescribeNoSession_def)

definition marked :: "string \<Rightarrow> bool" where
  "marked t \<longleftrightarrow> prefix ''[OK]'' t \<or> prefix ''[!]'' t \<or> prefix ''[?]'' t"

lemma describe_marked: "sessionState s \<noteq> SESSION_HIDDEN \<Longrightarrow> marked (Describe s)"
  using marker_cases [of s] by (auto simp: Describe_def marked_def)

text \<open>The part of a description after its marker.\<close>

definition described_state :: "Status \<Rightarrow> string" where
  "described_state s = SessionName (sessionState s) @ '', '' @
     (case AuthProblem s of Some a \<Rightarrow> a | None \<Rightarrow> SystemName (systemState s)) @ support_suffix (supportText s)"

lemma describe_earlier_describe:
  assumes "sessionState s \<noteq> SESSION_HIDDEN"
  shows "DescribeEarlier (Describe s) = Marker s @ '' Scorbit, during the game: '' @ described_state s"
proof -
  have "Describe s = Marker s @ '' Scorbit: '' @ described_state s"
    using assms by (simp add: Describe_def described_state_def)
  then show ?thesis using marker_cases [of s] by (auto simp: DescribeEarlier_def)
qed

lemma want_marked:
  assumes "\<not> is_hidden (sn_current n)" "Want n now \<noteq> []"
  shows "marked (Want n now)"
  using assms describe_no_session_warns(1) describe_marked [of "sr_status (sn_current n)"]
  by (auto simp: Want_def is_hidden_def marked_def split: if_splits)

section \<open>What a frame keeps\<close>

definition take_record :: "StatusRecord option \<Rightarrow> StatusNotifier \<Rightarrow> StatusNotifier" where
  "take_record taken n = (case taken of Some r \<Rightarrow> n\<lparr>sn_current := r\<rparr> | None \<Rightarrow> n)"

definition quiet_game :: "bool \<Rightarrow> StatusNotifier \<Rightarrow> time_point \<Rightarrow> bool" where
  "quiet_game authored n now \<longleftrightarrow> (if authored then sn_authoredGame n else RomGameInProgress n now)"

lemma RomGameInProgress_current: "sn_current n = sn_current n' \<Longrightarrow> RomGameInProgress n now = RomGameInProgress n' now"
  by (simp add: RomGameInProgress_def)

lemma Want_current: "sn_current n = sn_current n' \<Longrightarrow> Want n now = Want n' now"
  by (simp add: Want_def)

text \<open>The first half of a frame in closed form, and then field by field.\<close>

definition start_count :: "bool \<Rightarrow> StatusNotifier \<Rightarrow> u32" where
  "start_count authored n = (if authored then sn_authoredGames n else romGames (sr_history (sn_current n)))"

definition started_since :: "int \<Rightarrow> bool \<Rightarrow> StatusNotifier \<Rightarrow> bool" where
  "started_since notices authored n \<longleftrightarrow> notices = NOTICES_OUTSIDE_GAME \<and> authored = sn_authoredLast n
     \<and> start_count authored n \<noteq> sn_seenStarts n"

lemma frame_game_closed:
  "frame_game taken notices authored now n =
     (let m = take_record taken n;
          g = (notices = NOTICES_OUTSIDE_GAME \<and> quiet_game authored m now);
          started = (\<not> sn_inGame m \<and> (g \<or> started_since notices authored m))
      in (started, (sn_inGame m \<or> started_since notices authored m) \<and> \<not> g,
          m\<lparr>sn_authoredLast := authored, sn_seenStarts := start_count authored m, sn_inGame := g,
             sn_warningsAtStart := if \<not> started then sn_warningsAtStart m
               else if authored then sn_authoredStartWarnings m else warningsAtGameStart (sr_history (sn_current m)),
             sn_lostInGame := sn_lostInGame m \<and> \<not> started, sn_afterGame := sn_afterGame m \<and> \<not> started,
             sn_seenWarnings := warnings (sr_history (sn_current m))\<rparr>))"
proof -
  obtain m where m: "m = take_record taken n" by simp
  have rom: "RomGameInProgress (m\<lparr>sn_authoredLast := a, sn_seenStarts := b\<rparr>) now = RomGameInProgress m now"
    "RomGameInProgress (m\<lparr>sn_seenStarts := b\<rparr>) now = RomGameInProgress m now" for a b
    by (simp_all add: RomGameInProgress_def)
  show ?thesis unfolding frame_game_def take_record_def [symmetric] Let_def m [symmetric]
    by (cases m; cases "authored = sn_authoredLast m"; cases authored; cases "notices = NOTICES_OUTSIDE_GAME")
      (simp_all add: rom quiet_game_def started_since_def start_count_def RomGameInProgress_def Let_def)
qed

lemma take_record_fields [simp]:
  "sn_posted (take_record taken n) = sn_posted n" "sn_postedAt (take_record taken n) = sn_postedAt n"
  "sn_lostText (take_record taken n) = sn_lostText n" "sn_inGame (take_record taken n) = sn_inGame n"
  "sn_lostInGame (take_record taken n) = sn_lostInGame n" "sn_afterGame (take_record taken n) = sn_afterGame n"
  "sn_warningsAtStart (take_record taken n) = sn_warningsAtStart n"
  "sn_authoredGame (take_record taken n) = sn_authoredGame n"
  by (simp_all add: take_record_def split: option.split)

lemma frame_game_fields:
  assumes "frame_game taken notices authored now n = (started, ended, n')"
  shows "sn_current n' = sn_current (take_record taken n)"
    and "sn_posted n' = sn_posted n" and "sn_postedAt n' = sn_postedAt n" and "sn_lostText n' = sn_lostText n"
    and "sn_inGame n' \<longleftrightarrow> notices = NOTICES_OUTSIDE_GAME \<and> quiet_game authored (take_record taken n) now"
    and "sn_lostInGame n' \<longleftrightarrow> sn_lostInGame n \<and> \<not> started"
    and "sn_afterGame n' \<longleftrightarrow> sn_afterGame n \<and> \<not> started"
    and "sn_inGame n \<Longrightarrow> sn_warningsAtStart n' = sn_warningsAtStart n"
    and "started \<longleftrightarrow> \<not> sn_inGame n \<and> (sn_inGame n' \<or> started_since notices authored (take_record taken n))"
    and "ended \<longleftrightarrow> (sn_inGame n \<or> started_since notices authored (take_record taken n)) \<and> \<not> sn_inGame n'"
  using assms by (auto simp: frame_game_closed Let_def)

text \<open>
  The second half keeps the current record and the game's bookkeeping, but for the connection lost
  during a game.
\<close>

lemmas frame_notice_defs = frame_notice_def frame_in_game_def frame_ended_def frame_outside_def

lemma frame_notice_fields:
  assumes "frame_notice started ended showStatus notices authored now n = (action, n')"
  shows "sn_current n' = sn_current n" and "sn_inGame n' = sn_inGame n"
    and "sn_warningsAtStart n' = sn_warningsAtStart n"
  using assms by (auto simp: frame_notice_defs Let_def split: if_splits)

lemma frame_inGame:
  assumes "Frame taken showStatus notices authored now n = (action, n')"
  shows "sn_inGame n' \<longleftrightarrow> notices = NOTICES_OUTSIDE_GAME \<and> quiet_game authored (take_record taken n) now"
    and "sn_current n' = sn_current (take_record taken n)"
proof -
  obtain started ended m where g: "frame_game taken notices authored now n = (started, ended, m)"
    by (cases "frame_game taken notices authored now n")
  with assms have f: "frame_notice started ended showStatus notices authored now m = (action, n')" by (simp add: Frame_def)
  show "sn_inGame n' \<longleftrightarrow> notices = NOTICES_OUTSIDE_GAME \<and> quiet_game authored (take_record taken n) now"
    and "sn_current n' = sn_current (take_record taken n)"
    using frame_game_fields(1,5) [OF g] frame_notice_fields(1,2) [OF f] by simp_all
qed

text \<open>A frame with a game in progress posts nothing, and takes down only a fresh notice.\<close>

lemma frame_game_silent:
  assumes "Frame taken showStatus notices authored now n = (action, n')" "sn_inGame n'"
  shows "action = NoNotice \<or> action = Expire (sn_posted n) \<and> now - sn_postedAt n < NOTICE_LIFETIME \<and> \<not> sn_inGame n"
proof -
  obtain started ended m where g: "frame_game taken notices authored now n = (started, ended, m)"
    by (cases "frame_game taken notices authored now n")
  with assms have f: "frame_notice started ended showStatus notices authored now m = (action, n')" by (simp add: Frame_def)
  from assms(2) frame_notice_fields(2) [OF f] have "sn_inGame m" by simp
  with f frame_game_fields(2,3,9) [OF g] show ?thesis
    by (auto simp: frame_notice_def frame_in_game_def split: if_splits)
qed

section \<open>A quiet game\<close>

text \<open>
  The frames of one game: notifications on but quiet, the game in progress at each, with the
  script's game_start and game_end calls in between. \<open>losses\<close> is the
  list of no-connection texts a frame of it could have shown.
\<close>

fun game_frames :: "bool \<Rightarrow> notifier_event list \<Rightarrow> StatusNotifier \<Rightarrow> bool" where
  "game_frames authored [] n \<longleftrightarrow> True"
| "game_frames authored (ev_frame taken showStatus notices auth now # es) n \<longleftrightarrow>
     showStatus \<and> notices = NOTICES_OUTSIDE_GAME \<and> auth = authored \<and>
     sn_inGame (snd (Frame taken showStatus notices auth now n)) \<and>
     game_frames authored es (snd (Frame taken showStatus notices auth now n))"
| "game_frames authored (ev_game_started w # es) n \<longleftrightarrow> game_frames authored es (GameStarted w n)"
| "game_frames authored (ev_game_ended # es) n \<longleftrightarrow> game_frames authored es (GameEnded n)"
| "game_frames authored (e # es) n \<longleftrightarrow> False"

fun losses :: "notifier_event list \<Rightarrow> StatusNotifier \<Rightarrow> string list" where
  "losses (ev_frame taken showStatus notices auth now # es) n =
     (let m = take_record taken n in
      (if \<not> inSession (sn_current m) \<and> Want m now \<noteq> [] then [Want m now] else []) @
      losses es (snd (Frame taken showStatus notices auth now n)))"
| "losses (e # es) n = losses es (snd (notifier_step e n))"
| "losses [] n = []"

definition lost_after :: "string list \<Rightarrow> StatusNotifier \<Rightarrow> StatusNotifier \<Rightarrow> bool" where
  "lost_after ls n n' \<longleftrightarrow> sn_lostInGame n' = (sn_lostInGame n \<or> ls \<noteq> []) \<and>
     sn_lostText n' = (if ls = [] then sn_lostText n else last ls)"

lemma game_frame_step:
  assumes f: "Frame taken True NOTICES_OUTSIDE_GAME authored now n = (action, n')" and "sn_inGame n" "sn_inGame n'"
  shows "action = NoNotice" "sn_warningsAtStart n' = sn_warningsAtStart n"
    and "lost_after (let m = take_record taken n in
           if \<not> inSession (sn_current m) \<and> Want m now \<noteq> [] then [Want m now] else []) n n'"
proof -
  obtain started ended m where g: "frame_game taken NOTICES_OUTSIDE_GAME authored now n = (started, ended, m)"
    by (cases "frame_game taken NOTICES_OUTSIDE_GAME authored now n")
  with f have fn: "frame_notice started ended True NOTICES_OUTSIDE_GAME authored now m = (action, n')" by (simp add: Frame_def)
  note gf = frame_game_fields [OF g]
  have inm: "sn_inGame m" using assms(3) frame_notice_fields(2) [OF fn] by simp
  have started: "\<not> started" using gf(9) assms(2) by simp
  show "action = NoNotice" using frame_game_silent [OF f assms(3)] assms(2) by simp
  show "sn_warningsAtStart n' = sn_warningsAtStart n" using frame_notice_fields(3) [OF fn] gf(8) [OF assms(2)] by simp
  have want: "Want m now = Want (take_record taken n) now" by (rule Want_current [OF gf(1)])
  have lost: "prefix ''[!]'' (Want m now) \<longleftrightarrow> Want m now \<noteq> []" if "\<not> inSession (sn_current m)"
    using that describe_no_session_warns by (auto simp: Want_def)
  have hid: "inSession (sn_current m)" if "is_hidden (sn_current m)" using that by (simp add: is_hidden_def)
  show "lost_after (let m = take_record taken n in
           if \<not> inSession (sn_current m) \<and> Want m now \<noteq> [] then [Want m now] else []) n n'"
  proof (cases "inSession (sn_current m)")
    case True
    with fn inm have "sn_lostInGame n' = sn_lostInGame m" "sn_lostText n' = sn_lostText m"
      by (auto simp: frame_notice_def frame_in_game_def split: if_splits)
    with True gf(1,4,6) started show ?thesis by (simp add: lost_after_def)
  next
    case False
    with hid fn inm lost [OF False] have
      "sn_lostInGame n' = (sn_lostInGame m \<or> Want m now \<noteq> [])"
      "sn_lostText n' = (if Want m now = [] then sn_lostText m else Want m now)"
      by (auto simp: frame_notice_def frame_in_game_def split: if_splits)
    with False want gf(1,4,6) started show ?thesis by (simp add: lost_after_def)
  qed
qed

lemma game_frames_run:
  assumes "game_frames authored es n" "sn_inGame n"
  shows "fst (notifier_run es n) = [] \<and> sn_inGame (snd (notifier_run es n)) \<and>
    sn_warningsAtStart (snd (notifier_run es n)) = sn_warningsAtStart n \<and>
    lost_after (losses es n) n (snd (notifier_run es n))"
  using assms
proof (induction authored es n rule: game_frames.induct)
  case (2 authored taken showStatus notices auth now es n)
  obtain action n' where f: "Frame taken showStatus notices auth now n = (action, n')"
    by (cases "Frame taken showStatus notices auth now n")
  from 2(2) f have pre: "showStatus" "notices = NOTICES_OUTSIDE_GAME" "sn_inGame n'" "game_frames authored es n'" by auto
  note step = game_frame_step [OF f [unfolded pre(2) pre(1) [THEN eqTrueI]] 2(3) pre(3)]
  from 2(1) f pre have ih: "fst (notifier_run es n') = []" "sn_inGame (snd (notifier_run es n'))"
    "sn_warningsAtStart (snd (notifier_run es n')) = sn_warningsAtStart n'"
    "lost_after (losses es n') n' (snd (notifier_run es n'))" by auto
  obtain out n'' where run: "notifier_run es n' = (out, n'')" by (cases "notifier_run es n'")
  have "lost_after (losses (ev_frame taken showStatus notices auth now # es) n) n n''"
    using step(3) ih(4) unfolding run by (auto simp: lost_after_def f Let_def)
  with ih step(1,2) show ?case by (simp add: f run)
qed (simp_all add: lost_after_def GameStarted_def GameEnded_def split: prod.splits)

section \<open>Notices outside a game\<close>

lemma frame_always:
  assumes f: "Frame taken True NOTICES_ALWAYS authored now n = (action, n')"
    and n: "\<not> sn_inGame n" "\<not> sn_afterGame n" "\<not> is_hidden (sn_current (take_record taken n))"
  shows "\<not> sn_inGame n'" "\<not> sn_afterGame n'" "sn_current n' = sn_current (take_record taken n)"
    and "action = NoNotice \<and> sn_posted n' = sn_posted n \<and> sn_postedAt n' = sn_postedAt n \<or>
      (\<exists>t. action = Post t \<and> t \<noteq> [] \<and> sn_posted n' = t \<and> sn_postedAt n' = now \<and>
         (t = sn_posted n \<longrightarrow> prefix ''[!]'' t \<and> now - sn_postedAt n \<ge> REFRESH_EVERY))"
proof -
  obtain started ended m where g: "frame_game taken NOTICES_ALWAYS authored now n = (started, ended, m)"
    by (cases "frame_game taken NOTICES_ALWAYS authored now n")
  note gf = frame_game_fields [OF g]
  have m: "\<not> started" "\<not> ended" "\<not> sn_inGame m" "\<not> sn_afterGame m" using n gf(5,7,9,10) by (simp_all add: started_since_def)
  with f g n(3) gf(1) have out: "frame_outside now (Want m now) m = (action, n')"
    by (simp add: Frame_def frame_notice_def)
  show "\<not> sn_inGame n'" using frame_inGame(1) [OF f] by simp
  show "sn_current n' = sn_current (take_record taken n)" by (rule frame_inGame(2) [OF f])
  show "\<not> sn_afterGame n'"
    and "action = NoNotice \<and> sn_posted n' = sn_posted n \<and> sn_postedAt n' = sn_postedAt n \<or>
      (\<exists>t. action = Post t \<and> t \<noteq> [] \<and> sn_posted n' = t \<and> sn_postedAt n' = now \<and>
         (t = sn_posted n \<longrightarrow> prefix ''[!]'' t \<and> now - sn_postedAt n \<ge> REFRESH_EVERY))"
    using out m(4) gf(2,3) by (auto simp: frame_outside_def split: if_splits)
qed

definition unhidden :: "StatusRecord option \<Rightarrow> bool" where
  "unhidden taken \<longleftrightarrow> (case taken of Some r \<Rightarrow> \<not> is_hidden r | None \<Rightarrow> True)"

fun always_event :: "notifier_event \<Rightarrow> bool" where
  "always_event (ev_frame taken showStatus notices authored now) \<longleftrightarrow> showStatus \<and> notices = NOTICES_ALWAYS \<and> unhidden taken"
| "always_event ev_new_table \<longleftrightarrow> False"
| "always_event e \<longleftrightarrow> True"

definition spaced :: "time_point \<times> NoticeAction \<Rightarrow> time_point \<times> NoticeAction \<Rightarrow> bool" where
  "spaced a b \<longleftrightarrow> (snd a = snd b \<longrightarrow> prefix ''[!]'' (notice_text (snd b)) \<and> fst b - fst a \<ge> REFRESH_EVERY)"

definition posted_notice :: "StatusNotifier \<Rightarrow> (time_point \<times> NoticeAction) list" where
  "posted_notice n = (if sn_posted n = [] then [] else [(sn_postedAt n, Post (sn_posted n))])"

lemma unhidden_current: "unhidden taken \<Longrightarrow> \<not> is_hidden (sn_current n) \<Longrightarrow> \<not> is_hidden (sn_current (take_record taken n))"
  by (simp add: unhidden_def take_record_def split: option.splits)

lemma posted_notice_calls [simp]:
  "posted_notice (TableEnded n) = posted_notice n" "posted_notice (GameStarted w n) = posted_notice n"
  "posted_notice (GameEnded n) = posted_notice n"
  by (simp_all add: posted_notice_def TableEnded_def GameStarted_def GameEnded_def)

lemma notifier_run_Cons: "fst (notifier_run (e # es) n) = fst (notifier_step e n) @ fst (notifier_run es (snd (notifier_step e n)))"
  by (simp split: prod.split)

lemma spaced_from:
  assumes "\<not> sn_inGame n" "\<not> sn_afterGame n" "\<not> is_hidden (sn_current n)" "\<forall>e \<in> set es. always_event e"
  shows "successively spaced (posted_notice n @ fst (notifier_run es n))"
  using assms
proof (induction es arbitrary: n)
  case Nil
  then show ?case by (simp add: posted_notice_def)
next
  case (Cons e es)
  have rest: "\<forall>e \<in> set es. always_event e" using Cons.prems(4) by simp
  show ?case
  proof (cases e)
    case (ev_frame taken showStatus notices authored now)
    with Cons.prems(4) have e: "e = ev_frame taken True NOTICES_ALWAYS authored now" "unhidden taken" by auto
    obtain action n' where f: "Frame taken True NOTICES_ALWAYS authored now n = (action, n')"
      by (cases "Frame taken True NOTICES_ALWAYS authored now n")
    note step = frame_always [OF f Cons.prems(1,2) unhidden_current [OF e(2) Cons.prems(3)]]
    have ih: "successively spaced (posted_notice n' @ fst (notifier_run es n'))"
      using Cons.IH [OF step(1,2) _ rest] step(3) unhidden_current [OF e(2) Cons.prems(3)] by simp
    obtain out n'' where run: "notifier_run es n' = (out, n'')" by (cases "notifier_run es n'")
    from step(4) show ?thesis
    proof
      assume "action = NoNotice \<and> sn_posted n' = sn_posted n \<and> sn_postedAt n' = sn_postedAt n"
      then show ?thesis using ih by (auto simp: e(1) f run posted_notice_def)
    next
      assume "\<exists>t. action = Post t \<and> t \<noteq> [] \<and> sn_posted n' = t \<and> sn_postedAt n' = now \<and>
         (t = sn_posted n \<longrightarrow> prefix ''[!]'' t \<and> now - sn_postedAt n \<ge> REFRESH_EVERY)"
      then show ?thesis using ih by (auto simp: e(1) f run posted_notice_def spaced_def)
    qed
  next
    case ev_new_table
    with Cons.prems(4) show ?thesis by simp
  next
    case ev_table_ended
    with Cons.IH [of "TableEnded n"] Cons.prems rest show ?thesis
      by (simp add: notifier_run_Cons del: notifier_run.simps) (simp add: TableEnded_def is_hidden_def)
  next
    case (ev_game_started w)
    with Cons.IH [of "GameStarted w n"] Cons.prems rest show ?thesis
      by (simp add: notifier_run_Cons del: notifier_run.simps) (simp add: GameStarted_def)
  next
    case ev_game_ended
    with Cons.IH [of "GameEnded n"] Cons.prems rest show ?thesis
      by (simp add: notifier_run_Cons del: notifier_run.simps) (simp add: GameEnded_def)
  qed
qed

section \<open>The markers\<close>

text \<open>What the notifier may quote later is marked: the last warning, and the lost connection.\<close>

definition warning_text :: "string \<Rightarrow> bool" where
  "warning_text w \<longleftrightarrow> w = [] \<or> (\<exists>s. sessionState s \<noteq> SESSION_HIDDEN \<and> w = Describe s)"

definition quotes_ok :: "StatusNotifier \<Rightarrow> bool" where
  "quotes_ok n \<longleftrightarrow> warning_text (lastWarning (sr_history (sn_current n))) \<and>
     (sn_lostInGame n \<longrightarrow> (\<exists>r. sn_lostText n = DescribeNoSession r))"

lemma earlier_marked: "warning_text w \<Longrightarrow> w \<noteq> [] \<Longrightarrow> marked (DescribeEarlier w)"
proof -
  assume "warning_text w" "w \<noteq> []"
  then obtain s where "sessionState s \<noteq> SESSION_HIDDEN" "w = Describe s" by (auto simp: warning_text_def)
  then show ?thesis using describe_earlier_describe [of s] marker_cases [of s] by (auto simp: marked_def)
qed

lemma earlier_lost_marked: "marked (DescribeEarlier (DescribeNoSession r))"
  by (simp add: DescribeEarlier_def DescribeNoSession_def marked_def)

lemma frame_marked:
  assumes f: "Frame taken showStatus notices authored now n = (action, n')"
    and ok: "quotes_ok (take_record taken n)"
  shows "quotes_ok n'" "action = Post t \<Longrightarrow> marked t"
proof -
  obtain started ended m where g: "frame_game taken notices authored now n = (started, ended, m)"
    by (cases "frame_game taken notices authored now n")
  with f have fn: "frame_notice started ended showStatus notices authored now m = (action, n')" by (simp add: Frame_def)
  note gf = frame_game_fields [OF g]
  have m: "quotes_ok m" using ok gf(1,4,6) by (simp add: quotes_ok_def)
  have lost: "\<exists>r. Want m now = DescribeNoSession r" if "\<not> inSession (sn_current m)" "prefix ''[!]'' (Want m now)"
    using that by (auto simp: Want_def)
  show "quotes_ok n'" using fn m lost
    by (auto simp: frame_notice_defs quotes_ok_def Let_def split: if_splits)
  show "marked t" if "action = Post t"
    using that fn m want_marked [of m now] earlier_marked earlier_lost_marked
    by (auto simp: frame_notice_defs quotes_ok_def Let_def marked_def split: if_splits)
qed

definition event_quotes :: "notifier_event \<Rightarrow> bool" where
  "event_quotes e = (case e of ev_frame (Some r) _ _ _ _ \<Rightarrow> warning_text (lastWarning (sr_history r)) | _ \<Rightarrow> True)"

lemma run_marked:
  assumes "quotes_ok n" "\<forall>e \<in> set es. event_quotes e"
  shows "\<forall>(now, a) \<in> set (fst (notifier_run es n)). \<forall>t. a = Post t \<longrightarrow> marked t"
  using assms
proof (induction es arbitrary: n)
  case (Cons e es)
  have rest: "\<forall>e \<in> set es. event_quotes e" using Cons.prems(2) by simp
  obtain out n' where step: "notifier_step e n = (out, n')" by (cases "notifier_step e n")
  have "quotes_ok n' \<and> (\<forall>(now, a) \<in> set out. \<forall>t. a = Post t \<longrightarrow> marked t)"
  proof (cases e)
    case (ev_frame taken showStatus notices authored now)
    obtain action n1 where f: "Frame taken showStatus notices authored now n = (action, n1)"
      by (cases "Frame taken showStatus notices authored now n")
    have "quotes_ok (take_record taken n)" using Cons.prems ev_frame
      by (auto simp: event_quotes_def quotes_ok_def take_record_def split: option.splits)
    from frame_marked [OF f this] step f ev_frame show ?thesis by (auto split: if_splits)
  qed (use step Cons.prems(1) in \<open>auto simp: NewTable_def TableEnded_def GameStarted_def GameEnded_def quotes_ok_def\<close>)
  with Cons.IH [OF _ rest, of n'] show ?case by (auto simp: step split: prod.splits)
qed simp

section \<open>Properties\<close>

text \<open>
  One notice per quiet game: while a game is in progress no frame makes a notice, and the frame at
  which it ends posts one exactly when something went wrong: the current state when it is a [!],
  else the last [!] the daemon sent since the game started, else the connection lost during the
  game; and when none of these happened it posts nothing.
\<close>

theorem one_notice_per_game:
  assumes n: "sn_inGame n" "\<not> sn_lostInGame n" and es: "game_frames authored es n"
    and f: "Frame taken True NOTICES_OUTSIDE_GAME authored now (snd (notifier_run es n)) = (action, n')"
    and over: "\<not> sn_inGame n'" "\<not> is_hidden (sn_current n')"
  shows "fst (notifier_run es n) = [] \<and>
    action =
      (let h = sr_history (sn_current n'); want = Want n' now in
       if prefix ''[!]'' want then Post want
       else if warnings h \<noteq> sn_warningsAtStart n \<and> lastWarning h \<noteq> [] then Post (DescribeEarlier (lastWarning h))
       else if losses es n \<noteq> [] then Post (DescribeEarlier (last (losses es n)))
       else NoNotice)"
proof -
  let ?m = "snd (notifier_run es n)"
  from game_frames_run [OF es n(1)] have m: "fst (notifier_run es n) = []" "sn_inGame ?m"
    "sn_warningsAtStart ?m = sn_warningsAtStart n" and lost: "lost_after (losses es n) n ?m" by blast+
  obtain started ended k where g: "frame_game taken NOTICES_OUTSIDE_GAME authored now ?m = (started, ended, k)"
    by (cases "frame_game taken NOTICES_OUTSIDE_GAME authored now ?m")
  with f have fn: "frame_notice started ended True NOTICES_OUTSIDE_GAME authored now k = (action, n')" by (simp add: Frame_def)
  note gf = frame_game_fields [OF g] and ff = frame_notice_fields [OF fn]
  have k: "\<not> sn_inGame k" "ended" "\<not> started" "\<not> is_hidden (sn_current k)" using over ff(1,2) gf(9,10) m(2) by simp_all
  have "sn_lostInGame k = (losses es n \<noteq> [])" "losses es n \<noteq> [] \<Longrightarrow> sn_lostText k = last (losses es n)"
    "sn_warningsAtStart k = sn_warningsAtStart n"
    using lost n(2) gf(4,6) k(3) gf(8) [OF m(2)] m(3) by (simp_all add: lost_after_def)
  with fn k ff(1) Want_current [OF ff(1)] m(1) show ?thesis
    by (auto simp: frame_notice_def frame_ended_def Let_def)
qed

definition quiet_record :: StatusRecord where
  "quiet_record = StatusRecord0\<lparr>inSession := True, haveStatus := True,
     sr_status := Status0\<lparr>sessionState := SESSION_TRACKING\<rparr>\<rparr>"

definition warned_record :: StatusRecord where
  "warned_record = quiet_record\<lparr>sr_history := StatusHistory0\<lparr>warnings := 1,
     lastWarning := ''[!] Scorbit: tracking, offline''\<rparr>\<rparr>"

definition quiet_start :: StatusNotifier where
  "quiet_start = (StatusNotifier_init 0)\<lparr>sn_current := quiet_record, sn_inGame := True, sn_authoredGame := True,
     sn_authoredGames := 1, sn_authoredLast := True, sn_seenStarts := 1\<rparr>"

lemmas notifier_eval = quiet_start_def quiet_record_def warned_record_def StatusNotifier_init_def StatusRecord0_def
  StatusHistory0_def Status0_def Frame_def frame_game_def frame_notice_defs Let_def Want_def is_hidden_def Describe_def
  Marker_def KnownSession_def KnownSystem_def AuthProblem_def SessionName_def SystemName_def support_suffix_def
  GameEnded_def GameStarted_def take_record_def DescribeEarlier_def DescribeNoSession_def
  NO_SESSION_AFTER_def REFRESH_EVERY_def NOTICE_LIFETIME_def RomGameInProgress_def

theorem one_notice_per_game_witness:
  "fst (Frame None True NOTICES_OUTSIDE_GAME True (seconds 9)
     (snd (notifier_run [ev_frame (Some warned_record) True NOTICES_OUTSIDE_GAME True (seconds 3), ev_game_ended] quiet_start)))
   = Post ''[!] Scorbit, during the game: tracking, offline''"
  (is "fst (Frame _ _ _ _ _ (snd (notifier_run ?es _))) = _")
proof -
  obtain action n' where f: "Frame None True NOTICES_OUTSIDE_GAME True (seconds 9) (snd (notifier_run ?es quiet_start)) = (action, n')"
    by (cases "Frame None True NOTICES_OUTSIDE_GAME True (seconds 9) (snd (notifier_run ?es quiet_start))")
  have n': "sn_current n' = warned_record" "\<not> sn_inGame n'"
    using f by (auto simp: notifier_eval)
  have "action = (let h = sr_history (sn_current n'); want = Want n' (seconds 9) in
       if prefix ''[!]'' want then Post want
       else if warnings h \<noteq> sn_warningsAtStart quiet_start \<and> lastWarning h \<noteq> [] then Post (DescribeEarlier (lastWarning h))
       else if losses ?es quiet_start \<noteq> [] then Post (DescribeEarlier (last (losses ?es quiet_start)))
       else NoNotice)"
    by (rule one_notice_per_game [OF _ _ _ f n'(2), THEN conjunct2])
      (simp_all add: n'(1), simp_all add: notifier_eval)
  then have "action = Post ''[!] Scorbit, during the game: tracking, offline''"
    unfolding Let_def n'(1) by (simp add: notifier_eval n'(1) [unfolded notifier_eval])
  with f show ?thesis by simp
qed



text \<open>
  A [!] is never missed outside a game: after every frame with notices on, no game in progress and
  nothing hidden, a state that calls for a [!] is on screen, posted by this frame or within the last
  minute.
\<close>

theorem warning_shown:
  assumes f: "Frame taken True notices authored now n = (action, n')"
    and on: "notices \<noteq> NOTICES_NEVER" "\<not> sn_inGame n'" "\<not> is_hidden (sn_current n')"
    and want: "prefix ''[!]'' (Want n' now)"
  shows "sn_posted n' = Want n' now \<and> now - sn_postedAt n' < REFRESH_EVERY \<and>
    (action = Post (Want n' now) \<or> action = NoNotice \<and> sn_posted n = Want n' now \<and> sn_postedAt n' = sn_postedAt n)"
proof -
  obtain started ended m where g: "frame_game taken notices authored now n = (started, ended, m)"
    by (cases "frame_game taken notices authored now n")
  with f have fn: "frame_notice started ended True notices authored now m = (action, n')" by (simp add: Frame_def)
  note ff = frame_notice_fields [OF fn]
  obtain w where w: "Want n' now = w" by simp
  have mw: "Want m now = w" using Want_current [OF ff(1)] w by simp
  have "\<not> sn_inGame m" "\<not> is_hidden (sn_current m)" using on(2,3) ff(1,2) by simp_all
  with fn on(1) have fw: "(if ended then frame_ended authored now w m else frame_outside now w m) = (action, n')"
    unfolding mw [symmetric] by (simp add: frame_notice_def)
  have "\<not> prefix ''[OK]'' w" "w \<noteq> []" "prefix ''[!]'' w" using want unfolding w by (auto simp: prefix_def)
  with fw frame_game_fields(2,3) [OF g] show ?thesis unfolding w
    by (auto simp: frame_ended_def frame_outside_def Let_def REFRESH_EVERY_def split: if_splits)
qed

theorem warning_shown_witness:
  "sn_posted (snd (Frame None True NOTICES_ALWAYS False (seconds 6) (StatusNotifier_init 0)))
     = ''[!] Scorbit: no data, no connection to the Scorbit daemon''"
proof -
  obtain action n' where f: "Frame None True NOTICES_ALWAYS False (seconds 6) (StatusNotifier_init 0) = (action, n')"
    by (cases "Frame None True NOTICES_ALWAYS False (seconds 6) (StatusNotifier_init 0)")
  have n': "sn_current n' = StatusRecord0" "\<not> sn_inGame n'" using f by (auto simp: notifier_eval)
  have want: "Want n' (seconds 6) = ''[!] Scorbit: no data, no connection to the Scorbit daemon''"
    using n' by (simp add: Want_def StatusRecord0_def NO_SESSION_AFTER_def DescribeNoSession_def support_suffix_def)
  have "sn_posted n' = Want n' (seconds 6)"
    by (rule warning_shown [OF f _ n'(2), THEN conjunct1]) (simp_all only: n'(1) want, simp_all add: is_hidden_def StatusRecord0_def)
  with f want show ?thesis by simp
qed

text \<open>
  No state is told by colour alone: over any sequence of calls, when the worker's last warning is
  always the description of a visible status, every notice posted starts with one of the markers
  [OK], [!] and [?], the summaries after a game included.
\<close>

theorem notices_marked:
  assumes "\<forall>e \<in> set es. event_quotes e" "(now, Post t) \<in> set (fst (notifier_run es (StatusNotifier_init start0)))"
  shows "prefix ''[OK]'' t \<or> prefix ''[!]'' t \<or> prefix ''[?]'' t"
proof -
  have "quotes_ok (StatusNotifier_init start0)"
    by (simp add: quotes_ok_def StatusNotifier_init_def StatusRecord0_def StatusHistory0_def warning_text_def)
  from run_marked [OF this assms(1)] assms(2) show ?thesis unfolding marked_def by auto
qed

theorem notices_marked_witness:
  "prefix ''[OK]'' (Describe (sr_status quiet_record)) \<or> prefix ''[!]'' (Describe (sr_status quiet_record))
     \<or> prefix ''[?]'' (Describe (sr_status quiet_record))"
  by (rule notices_marked [of "[ev_frame (Some quiet_record) True NOTICES_ALWAYS False (seconds 6)]" "seconds 6" _ 0])
    (simp_all add: event_quotes_def warning_text_def notifier_eval)

end
