(* ===== verification/Status_Light.thy ===== *)
theory Status_Light
  imports Status_Notice
begin

text \<open>
  \<^verbatim>\<open>src/StatusLight.{h,cpp}\<close>: what the status light shows for the API thread's record (two dots, a ring
  and a glyph), the caption beside it, and the hover rule. The drawing of it
  (\<^verbatim>\<open>StatusLightRaster\<close>, floating point) and the windows are not modelled. The cursor's coordinates are
  only compared for equality, so any type serves for them.
\<close>

section \<open>Model\<close>

type_synonym LightRgb = "u8 \<times> u8 \<times> u8"

record LightDot =
  lit :: bool
  rgb :: LightRgb
  onMs :: u16
  offMs :: u16

datatype LightRing = Dark | Rainbow | Solid
datatype LightGlyph = NoGlyph | Problem | UnknownGlyph

record LightView =
  visible :: bool
  system_dot :: LightDot
  session_dot :: LightDot
  ring :: LightRing
  ringRgb :: LightRgb
  glyph :: LightGlyph

definition LightDot0 :: LightDot where
  "LightDot0 = \<lparr>lit = False, rgb = (0, 0, 0), onMs = 0, offMs = 0\<rparr>"

definition LightView0 :: LightView where
  "LightView0 = \<lparr>visible = False, system_dot = LightDot0, session_dot = LightDot0, ring = Dark, ringRgb = (0, 0, 0),
     glyph = NoGlyph\<rparr>"

definition RED :: LightRgb where "RED = (255, 0, 0)"
definition GREEN :: LightRgb where "GREEN = (0, 255, 0)"
definition BLUE :: LightRgb where "BLUE = (0, 0, 255)"
definition AMBER :: LightRgb where "AMBER = (255, 191, 0)"
definition ORANGE :: LightRgb where "ORANGE = (255, 165, 0)"
definition PURPLE :: LightRgb where "PURPLE = (255, 0, 255)"

definition SYSTEM_ON_MS :: u16 where "SYSTEM_ON_MS = 1200"
definition SYSTEM_OFF_MS :: u16 where "SYSTEM_OFF_MS = 100"
definition SESSION_ON_MS :: u16 where "SESSION_ON_MS = 29 * 41"
definition SESSION_OFF_MS :: u16 where "SESSION_OFF_MS = 3 * 41"

definition Blink :: "LightRgb \<Rightarrow> u16 \<Rightarrow> u16 \<Rightarrow> LightDot" where
  "Blink c on off = \<lparr>lit = True, rgb = c, onMs = on, offMs = off\<rparr>"

text \<open>The dots return whether the state is known, and the dot: left as it was when it is not.\<close>

definition SystemDot :: "u8 \<Rightarrow> LightDot \<Rightarrow> bool \<times> LightDot" where
  "SystemDot state dot =
     (let colour = (if state = SYSTEM_OK then Some GREEN
                    else if state = SYSTEM_UNPAIRED then Some RED
                    else if state = SYSTEM_OFFLINE then Some ORANGE
                    else if state = SYSTEM_DEGRADED then Some PURPLE
                    else None)
      in case colour of None \<Rightarrow> (False, dot) | Some c \<Rightarrow> (True, Blink c SYSTEM_ON_MS SYSTEM_OFF_MS))"

definition SessionDot :: "u8 \<Rightarrow> bool \<Rightarrow> LightDot \<Rightarrow> bool \<times> LightDot" where
  "SessionDot state unauthorized dot =
     (let colour = (if unauthorized then Some RED
                    else if state = SESSION_NONE then Some BLUE
                    else if state = SESSION_TRACKING then Some GREEN
                    else if state = SESSION_NO_DATA then Some AMBER
                    else None)
      in case colour of None \<Rightarrow> (False, dot) | Some c \<Rightarrow> (True, Blink c SESSION_ON_MS SESSION_OFF_MS))"

definition unauthorized :: "Status \<Rightarrow> bool" where
  "unauthorized s \<longleftrightarrow> hasAuthStatus s \<and> (authStatus s = AUTH_NOT_AUTHENTICATED \<or> authStatus s = AUTH_FAILED)"

definition LightFor :: "StatusRecord \<Rightarrow> time_point \<Rightarrow> LightView \<Rightarrow> LightView" where
  "LightFor r now shown =
     (let view = LightView0\<lparr>visible := True\<rparr> in
      if \<not> inSession r then
        if now - sr_since r < NO_SESSION_AFTER then shown
        else view\<lparr>ring := Solid, ringRgb := BLUE, glyph := Problem\<rparr>
      else if \<not> haveStatus r then shown
      else let s = sr_status r in
        if sessionState s = SESSION_HIDDEN then LightView0
        else
          let unauth = unauthorized s;
              authUnpaired = (hasAuthStatus s \<and> authStatus s = AUTH_UNPAIRED);
              sys = (if authUnpaired \<and> systemState s = SYSTEM_OK then SYSTEM_UNPAIRED else systemState s);
              (knownSystem, sysdot) = SystemDot sys (system_dot view);
              (knownSession, sesdot) = SessionDot (sessionState s) unauth (session_dot view);
              view = view\<lparr>system_dot := sysdot, session_dot := sesdot\<rparr>;
              view = (if \<not> knownSystem \<or> \<not> knownSession then view\<lparr>glyph := UnknownGlyph\<rparr>
                      else if unauth \<or> authUnpaired \<or> sys \<noteq> SYSTEM_OK \<or> sessionState s = SESSION_NO_DATA
                        then view\<lparr>glyph := Problem\<rparr>
                      else view)
          in if unauth \<or> authUnpaired \<or> sys = SYSTEM_UNPAIRED then view\<lparr>ring := Solid, ringRgb := RED\<rparr>
             else if glyph view = NoGlyph \<and> sessionState s = SESSION_NONE then view\<lparr>ring := Rainbow\<rparr>
             else view)"

definition CaptionFor :: "StatusRecord \<Rightarrow> time_point \<Rightarrow> string" where
  "CaptionFor r now =
     (if \<not> inSession r then if now - sr_since r < NO_SESSION_AFTER then [] else DescribeNoSession (sr_reason r)
      else if \<not> haveStatus r \<or> sessionState (sr_status r) = SESSION_HIDDEN then []
      else Describe (sr_status r))"

record 'c HoverTracker =
  ht_have :: bool
  ht_x :: 'c
  ht_y :: 'c
  ht_movedAt :: time_point

definition SETTLE :: int where "SETTLE = seconds 3"

definition Tick :: "'c \<Rightarrow> 'c \<Rightarrow> bool \<Rightarrow> bool \<Rightarrow> time_point \<Rightarrow> 'c HoverTracker \<Rightarrow> bool \<times> 'c HoverTracker" where
  "Tick x y over hidden now h =
     (let h' = (if \<not> ht_have h \<or> x \<noteq> ht_x h \<or> y \<noteq> ht_y h
                then \<lparr>ht_have = True, ht_x = x, ht_y = y, ht_movedAt = now\<rparr> else h)
      in (over \<and> \<not> hidden \<and> now - ht_movedAt h' < SETTLE, h'))"

section \<open>The light and the words\<close>

text \<open>A record that decides the light: past the grace without a session, or a status that shows.\<close>

definition decided :: "StatusRecord \<Rightarrow> time_point \<Rightarrow> bool" where
  "decided r now \<longleftrightarrow> (if inSession r then haveStatus r \<and> sessionState (sr_status r) \<noteq> SESSION_HIDDEN
     else now - sr_since r \<ge> NO_SESSION_AFTER)"

fun glyph_marker :: "LightGlyph \<Rightarrow> string" where
  "glyph_marker NoGlyph = ''[OK]''"
| "glyph_marker Problem = ''[!]''"
| "glyph_marker UnknownGlyph = ''[?]''"

lemma known_system_iff: "KnownSystem v \<longleftrightarrow> v = SYSTEM_OK \<or> v = SYSTEM_UNPAIRED \<or> v = SYSTEM_OFFLINE \<or> v = SYSTEM_DEGRADED"
  by (auto simp: KnownSystem_def word_le_nat_alt word_unat_eq_iff)

lemma system_dot_known: "fst (SystemDot v d) \<longleftrightarrow> KnownSystem v"
  by (simp add: SystemDot_def known_system_iff Let_def)

lemma session_dot_known: "v \<noteq> SESSION_HIDDEN \<Longrightarrow> fst (SessionDot v u d) \<longleftrightarrow> u \<or> KnownSession v"
  by (simp add: SessionDot_def KnownSession_def Let_def)

text \<open>The light of a visible status: its glyph, in closed form.\<close>

lemma light_glyph:
  assumes "inSession r" "haveStatus r" "sessionState (sr_status r) \<noteq> SESSION_HIDDEN"
  shows "visible (LightFor r now shown)"
    and "glyph (LightFor r now shown) =
      (let s = sr_status r in
       if \<not> KnownSystem (systemState s) \<or> \<not> (unauthorized s \<or> KnownSession (sessionState s)) then UnknownGlyph
       else if AuthProblem s \<noteq> None \<or> systemState s \<noteq> SYSTEM_OK \<or> sessionState s = SESSION_NO_DATA then Problem
       else NoGlyph)"
proof -
  let ?s = "sr_status r"
  obtain sys where sys: "sys = (if (hasAuthStatus ?s \<and> authStatus ?s = AUTH_UNPAIRED) \<and> systemState ?s = SYSTEM_OK
    then SYSTEM_UNPAIRED else systemState ?s)" by simp
  obtain k1 d1 where d1: "SystemDot sys LightDot0 = (k1, d1)" by (cases "SystemDot sys LightDot0")
  obtain k2 d2 where d2: "SessionDot (sessionState ?s) (unauthorized ?s) LightDot0 = (k2, d2)"
    by (cases "SessionDot (sessionState ?s) (unauthorized ?s) LightDot0")
  have k: "k1 \<longleftrightarrow> KnownSystem sys" "k2 \<longleftrightarrow> unauthorized ?s \<or> KnownSession (sessionState ?s)"
    using system_dot_known [of sys LightDot0] session_dot_known [OF assms(3), of "unauthorized ?s" LightDot0] d1 d2 by simp_all
  have ks: "KnownSystem sys \<longleftrightarrow> KnownSystem (systemState ?s)" by (auto simp: sys known_system_iff)
  have auth: "AuthProblem ?s \<noteq> None \<or> systemState ?s \<noteq> SYSTEM_OK \<longleftrightarrow>
    unauthorized ?s \<or> (hasAuthStatus ?s \<and> authStatus ?s = AUTH_UNPAIRED) \<or> sys \<noteq> SYSTEM_OK"
    by (auto simp: AuthProblem_def unauthorized_def sys)
  have view: "LightFor r now shown =
    (let view = LightView0\<lparr>visible := True, system_dot := d1, session_dot := d2\<rparr>;
         bad = (unauthorized ?s \<or> (hasAuthStatus ?s \<and> authStatus ?s = AUTH_UNPAIRED) \<or> sys \<noteq> SYSTEM_OK
           \<or> sessionState ?s = SESSION_NO_DATA);
         view = (if \<not> k1 \<or> \<not> k2 then view\<lparr>glyph := UnknownGlyph\<rparr> else if bad then view\<lparr>glyph := Problem\<rparr> else view)
     in if unauthorized ?s \<or> (hasAuthStatus ?s \<and> authStatus ?s = AUTH_UNPAIRED) \<or> sys = SYSTEM_UNPAIRED
        then view\<lparr>ring := Solid, ringRgb := RED\<rparr>
        else if glyph view = NoGlyph \<and> sessionState ?s = SESSION_NONE then view\<lparr>ring := Rainbow\<rparr> else view)"
    using assms d1 d2 unfolding LightFor_def Let_def sys [symmetric] by (simp add: LightView0_def)
  show "visible (LightFor r now shown)" unfolding view by (simp add: Let_def LightView0_def)
  show "glyph (LightFor r now shown) =
      (let s = sr_status r in
       if \<not> KnownSystem (systemState s) \<or> \<not> (unauthorized s \<or> KnownSession (sessionState s)) then UnknownGlyph
       else if AuthProblem s \<noteq> None \<or> systemState s \<noteq> SYSTEM_OK \<or> sessionState s = SESSION_NO_DATA then Problem
       else NoGlyph)"
    unfolding view k ks using auth by (auto simp: Let_def LightView0_def)
qed

section \<open>The hover rule over a sequence of ticks\<close>

type_synonym 'c tick = "'c \<times> 'c \<times> bool \<times> bool \<times> time_point"

fun hover_after :: "'c tick list \<Rightarrow> 'c HoverTracker \<Rightarrow> 'c HoverTracker" where
  "hover_after [] h = h"
| "hover_after ((x, y, over, hidden, now) # ts) h = hover_after ts (snd (Tick x y over hidden now h))"

text \<open>The cursor rested: every tick of the list saw it at the one place.\<close>

definition rests_at :: "'c \<Rightarrow> 'c \<Rightarrow> 'c tick list \<Rightarrow> bool" where
  "rests_at x y ts \<longleftrightarrow> (\<forall>t \<in> set ts. fst t = x \<and> fst (snd t) = y)"

lemma hover_rest:
  assumes "rests_at x y ts" "ht_have h" "ht_x h = x" "ht_y h = y"
  shows "hover_after ts h = h"
  using assms
proof (induction ts)
  case (Cons t ts)
  obtain a b over hidden now where "t = (a, b, over, hidden, now)" by (cases t)
  with Cons show ?case by (simp add: rests_at_def Tick_def)
qed simp

section \<open>Properties\<close>

text \<open>
  C25. The light and the words agree: whenever the record decides the light, the light is visible and
  the caption starts with the marker of its glyph ([OK] no glyph, [!] problem, [?] unknown), for
  every status except an unknown session state of a daemon whose authentication failed.
\<close>

theorem light_matches_words:
  assumes "decided r now" "\<not> (inSession r \<and> unauthorized (sr_status r) \<and> \<not> KnownSession (sessionState (sr_status r)))"
  shows "visible (LightFor r now shown) \<and> prefix (glyph_marker (glyph (LightFor r now shown))) (CaptionFor r now)"
proof (cases "inSession r")
  case False
  with assms show ?thesis
    by (simp add: LightFor_def CaptionFor_def decided_def Let_def LightView0_def describe_no_session_warns)
next
  case True
  with assms(1) have r: "haveStatus r" "sessionState (sr_status r) \<noteq> SESSION_HIDDEN" by (simp_all add: decided_def)
  note light = light_glyph [OF True r, of now shown]
  have "glyph_marker (glyph (LightFor r now shown)) = Marker (sr_status r)"
    using assms(2) True unfolding light(2) by (auto simp: Marker_def Let_def)
  with True r light(1) show ?thesis by (simp add: CaptionFor_def Describe_def)
qed

theorem light_matches_words_witness:
  "visible (LightFor quiet_record 0 LightView0) \<and>
   prefix (glyph_marker (glyph (LightFor quiet_record 0 LightView0))) (CaptionFor quiet_record 0)"
  by (rule light_matches_words)
    (simp_all add: decided_def unauthorized_def quiet_record_def StatusRecord0_def Status0_def)

text \<open>
  Where they differ: for a session state this build does not know, sent by a daemon that says it is
  not authenticated, the notice is marked [?] and the light shows the problem glyph.
\<close>

theorem light_words_differ:
  "\<exists>r. decided r 0 \<and> prefix ''[?]'' (CaptionFor r 0) \<and> glyph (LightFor r 0 LightView0) = Problem"
proof -
  let ?r = "quiet_record\<lparr>sr_status := \<lparr>sessionState = 9, systemState = SYSTEM_OK, supportText = [], hasAuthStatus = True,
     authStatus = AUTH_NOT_AUTHENTICATED\<rparr>\<rparr>"
  have "decided ?r 0" by (simp add: decided_def quiet_record_def)
  moreover have "prefix ''[?]'' (CaptionFor ?r 0)"
    by (simp add: CaptionFor_def quiet_record_def Describe_def Marker_def KnownSession_def)
  moreover have "glyph (LightFor ?r 0 LightView0) = Problem"
    by (subst light_glyph(2))
      (simp_all add: quiet_record_def KnownSystem_def KnownSession_def unauthorized_def AuthProblem_def)
  ultimately show ?thesis by blast
qed

text \<open>
  A resting cursor is left alone: after the cursor moved to a place at time \<open>t\<close> and every later tick
  saw it there, the caption shows exactly while the cursor is over the light, not hidden, and
  less than three seconds have passed since it moved.
\<close>

theorem hover_settles:
  assumes "\<not> ht_have h \<or> x \<noteq> ht_x h \<or> y \<noteq> ht_y h" "rests_at x y ts"
  shows "fst (Tick x y over hidden now (hover_after ((x, y, over0, hidden0, t) # ts) h))
    \<longleftrightarrow> over \<and> \<not> hidden \<and> now - t < SETTLE"
proof -
  have "snd (Tick x y over0 hidden0 t h) = \<lparr>ht_have = True, ht_x = x, ht_y = y, ht_movedAt = t\<rparr>"
    using assms(1) by (auto simp: Tick_def)
  with assms(2) show ?thesis by (simp add: hover_rest) (simp add: Tick_def)
qed

theorem hover_settles_witness:
  "\<not> fst (Tick (1 :: int) 2 True False (seconds 4)
     (hover_after [(1, 2, True, False, 0), (1, 2, True, False, seconds 2)] \<lparr>ht_have = False, ht_x = 0, ht_y = 0, ht_movedAt = 0\<rparr>))"
  using hover_settles [of "\<lparr>ht_have = False, ht_x = 0, ht_y = 0, ht_movedAt = 0\<rparr>" 1 2 "[(1, 2, True, False, seconds 2)]"
    True False "seconds 4" True False 0]
  by (simp add: rests_at_def SETTLE_def)

end
