(* ===== verification/Read_Back.thy ===== *)
theory Read_Back
  imports Wire_ReadBack Handoff
begin

text \<open>
  \<^verbatim>\<open>src/ReadBack.{h,cpp}\<close>, the two sides of the script's read-backs: the channel between the worker and the
  API thread, the store of leaderboard results, and the state \<^verbatim>\<open>Scorbit.Table\<close> reads. (The worker's slot
  table with its picture files is the theory \<open>Player_Table\<close>.) A call of the channel holds its mutex
  throughout, so a call is a step. A number from a script is a \<^verbatim>\<open>double\<close>: not finite, or a whole number over
  a power of two.
\<close>

section \<open>Records\<close>

abbreviation (input) SCORES_NONE :: int where "SCORES_NONE \<equiv> - 1"
abbreviation (input) SCORES_NOT_DECLARED :: int where "SCORES_NOT_DECLARED \<equiv> 5"
abbreviation (input) SCORES_UNSUPPORTED :: int where "SCORES_UNSUPPORTED \<equiv> 6"
abbreviation (input) SCORES_MALFORMED :: int where "SCORES_MALFORMED \<equiv> 7"
abbreviation (input) SCORES_LOST :: int where "SCORES_LOST \<equiv> 8"

record TopScoresAsk =
  ask_epoch :: u64
  ask_identity :: u64
  ask_request :: TopScoresRequest

record TopScoresPost =
  post_epoch :: u64
  post_requestId :: u32
  post_result :: int
  post_ageS :: u32
  post_entries :: "TopScoreEntry list"
  post_received :: time_point

record PlayerView =
  pv_playerId :: string
  pv_preferredName :: string
  pv_name :: string
  pv_initials :: string
  pv_claimDeeplink :: string
  pv_picture :: string

definition PlayerView0 :: PlayerView where
  "PlayerView0 = \<lparr>pv_playerId = [], pv_preferredName = [], pv_name = [], pv_initials = [], pv_claimDeeplink = [],
     pv_picture = []\<rparr>"

definition Claimed :: "PlayerView \<Rightarrow> bool" where
  "Claimed v \<longleftrightarrow> pv_playerId v \<noteq> []"

definition DisplayName :: "PlayerView \<Rightarrow> string" where
  "DisplayName v = (if pv_preferredName v = [] then pv_name v else pv_preferredName v)"

record PlayersPost =
  pp_epoch :: u64
  pp_slots :: "PlayerView list"
  pp_claims :: u32

definition PlayersPost0 :: PlayersPost where
  "PlayersPost0 = \<lparr>pp_epoch = 0, pp_slots = replicate (unat MAX_PLAYERS) PlayerView0, pp_claims = 0\<rparr>"

section \<open>The channel\<close>

definition MAX_QUEUED :: nat where "MAX_QUEUED = 16"

record ReadBackChannel =
  ch_leaderboards :: bool
  ch_nextId :: u32
  ch_requests :: "TopScoresAsk list"
  ch_results :: "TopScoresPost list"
  ch_players :: "PlayersPost latch"

definition ReadBackChannel_init :: ReadBackChannel where
  "ReadBackChannel_init = \<lparr>ch_leaderboards = False, ch_nextId = 1, ch_requests = [], ch_results = [], ch_players = Latch\<rparr>"

definition Request :: "u64 \<Rightarrow> TopScoresRequest \<Rightarrow> u64 \<Rightarrow> ReadBackChannel \<Rightarrow> u32 \<times> ReadBackChannel" where
  "Request ep request identity c =
     (if \<not> ch_leaderboards c \<or> length (ch_requests c) \<ge> MAX_QUEUED then (0, c)
      else let request = request\<lparr>TopScoresRequest.requestId := ch_nextId c\<rparr> in
        (TopScoresRequest.requestId request,
         c\<lparr>ch_nextId := if ch_nextId c \<ge> 0x7FFFFFFF then 1 else ch_nextId c + 1,
           ch_requests := ch_requests c @ [\<lparr>ask_epoch = ep, ask_identity = identity, ask_request = request\<rparr>]\<rparr>))"

definition TakeRequests :: "TopScoresAsk list \<Rightarrow> ReadBackChannel \<Rightarrow> TopScoresAsk list \<times> ReadBackChannel" where
  "TakeRequests out c = (out @ ch_requests c, c\<lparr>ch_requests := []\<rparr>)"

definition SetLeaderboards :: "bool \<Rightarrow> ReadBackChannel \<Rightarrow> ReadBackChannel" where
  "SetLeaderboards available c = c\<lparr>ch_leaderboards := available\<rparr>"

definition Leaderboards :: "ReadBackChannel \<Rightarrow> bool" where
  "Leaderboards c = ch_leaderboards c"

definition channel_Close :: "TopScoresAsk list \<Rightarrow> ReadBackChannel \<Rightarrow> TopScoresAsk list \<times> ReadBackChannel" where
  "channel_Close out c = (out @ ch_requests c, c\<lparr>ch_leaderboards := False, ch_requests := []\<rparr>)"

definition PostResult :: "TopScoresPost \<Rightarrow> ReadBackChannel \<Rightarrow> ReadBackChannel" where
  "PostResult post c =
     c\<lparr>ch_results := (if length (ch_results c) \<ge> MAX_QUEUED then tl (ch_results c) else ch_results c) @ [post]\<rparr>"

definition TakeResults :: "TopScoresPost list \<Rightarrow> ReadBackChannel \<Rightarrow> TopScoresPost list \<times> ReadBackChannel" where
  "TakeResults out c = (out @ ch_results c, c\<lparr>ch_results := []\<rparr>)"

definition PostPlayers :: "PlayersPost \<Rightarrow> ReadBackChannel \<Rightarrow> ReadBackChannel" where
  "PostPlayers post c = c\<lparr>ch_players := latch_Post post (ch_players c)\<rparr>"

definition TakePlayers :: "ReadBackChannel \<Rightarrow> PlayersPost option \<times> ReadBackChannel" where
  "TakePlayers c = (case latch_Take (ch_players c) of (v, l) \<Rightarrow> (v, c\<lparr>ch_players := l\<rparr>))"

section \<open>The store of results\<close>

definition CAPACITY :: nat where "CAPACITY = 8"

record StoreEntry =
  entry_post :: TopScoresPost
  entry_received :: time_point

type_synonym TopScoresStore = "StoreEntry list"

definition entry_id :: "StoreEntry \<Rightarrow> u32" where
  "entry_id e = post_requestId (entry_post e)"

definition store_Release :: "u32 \<Rightarrow> TopScoresStore \<Rightarrow> TopScoresStore" where
  "store_Release i st = filter (\<lambda>e. \<not> entry_id e = i) st"

definition store_Add :: "TopScoresPost \<Rightarrow> time_point \<Rightarrow> TopScoresStore \<Rightarrow> TopScoresStore" where
  "store_Add post now st =
     (let st = store_Release (post_requestId post) st;
          st = (if length st \<ge> CAPACITY then tl st else st);
          received = (if post_received post = 0 then now else post_received post)
      in st @ [\<lparr>entry_post = post, entry_received = received\<rparr>])"

definition store_Find :: "u32 \<Rightarrow> TopScoresStore \<Rightarrow> StoreEntry option" where
  "store_Find i st = find (\<lambda>e. entry_id e = i) st"

section \<open>What the script reads\<close>

datatype double = NotFinite | Finite int nat

text \<open>\<open>Finite m k\<close> is \<open>m / 2 ^ k\<close>: whole when \<open>2 ^ k\<close> divides \<open>m\<close>.\<close>

fun ScriptIndex :: "double \<Rightarrow> int \<Rightarrow> int \<Rightarrow> u32 option" where
  "ScriptIndex NotFinite lo hi = None"
| "ScriptIndex (Finite m k) lo hi =
     (if \<not> 2 ^ k dvd m \<or> m < lo * 2 ^ k \<or> m > hi * 2 ^ k then None else Some (of_int (m div 2 ^ k)))"

record ReadBackState =
  rb_epoch :: u64
  rb_lastRequest :: u32
  rb_clearedThrough :: u32
  rb_scores :: TopScoresStore
  rb_players :: PlayersPost

definition ReadBackState_init :: ReadBackState where
  "ReadBackState_init = \<lparr>rb_epoch = 0, rb_lastRequest = 0, rb_clearedThrough = 0, rb_scores = [], rb_players = PlayersPost0\<rparr>"

definition ClearScores :: "ReadBackState \<Rightarrow> ReadBackState" where
  "ClearScores s = s\<lparr>rb_scores := [], rb_clearedThrough := rb_lastRequest s\<rparr>"

definition NoteRequest :: "u32 \<Rightarrow> ReadBackState \<Rightarrow> ReadBackState" where
  "NoteRequest i s = (if i \<noteq> 0 then s\<lparr>rb_lastRequest := i\<rparr> else s)"

definition NewEpoch :: "u64 \<Rightarrow> ReadBackState \<Rightarrow> ReadBackState" where
  "NewEpoch ep s = s\<lparr>rb_epoch := ep, rb_clearedThrough := 0, rb_scores := [],
     rb_players := PlayersPost0\<lparr>pp_epoch := ep, pp_claims := pp_claims (rb_players s)\<rparr>\<rparr>"

definition accepts_post :: "ReadBackState \<Rightarrow> TopScoresPost \<Rightarrow> bool" where
  "accepts_post s p \<longleftrightarrow> post_epoch p = rb_epoch s \<and> (rb_clearedThrough s = 0 \<or> post_requestId p > rb_clearedThrough s)"

definition Drain :: "time_point \<Rightarrow> ReadBackChannel \<times> ReadBackState \<Rightarrow> ReadBackChannel \<times> ReadBackState" where
  "Drain now cs = (case cs of (c, s) \<Rightarrow>
     case TakePlayers c of (players, c) \<Rightarrow>
       let s = (case players of None \<Rightarrow> s
                | Some p \<Rightarrow> if pp_epoch p = rb_epoch s then s\<lparr>rb_players := p\<rparr>
                           else s\<lparr>rb_players := (rb_players s)\<lparr>pp_claims := pp_claims p\<rparr>\<rparr>)
       in case TakeResults [] c of (results, c) \<Rightarrow>
            (c, fold (\<lambda>p s. if accepts_post s p then s\<lparr>rb_scores := store_Add p now (rb_scores s)\<rparr> else s) results s))"

definition rb_Find :: "double \<Rightarrow> ReadBackState \<Rightarrow> StoreEntry option" where
  "rb_Find rid s = (case ScriptIndex rid 1 0x7FFFFFFF of Some i \<Rightarrow> store_Find i (rb_scores s) | None \<Rightarrow> None)"

definition Result :: "double \<Rightarrow> ReadBackState \<Rightarrow> int" where
  "Result rid s = (case rb_Find rid s of Some e \<Rightarrow> post_result (entry_post e) | None \<Rightarrow> SCORES_NONE)"

text \<open>\<^verbatim>\<open>duration_cast<seconds>\<close> truncates towards zero.\<close>

definition whole_seconds :: "int \<Rightarrow> int" where
  "whole_seconds d = (if d \<ge> 0 then d div seconds 1 else - (- d div seconds 1))"

definition Age :: "double \<Rightarrow> time_point \<Rightarrow> ReadBackState \<Rightarrow> int" where
  "Age rid now s =
     (case rb_Find rid s of
        None \<Rightarrow> 0
      | Some e \<Rightarrow>
          let held = whole_seconds (now - entry_received e);
              age = uint (post_ageS (entry_post e)) + (if held > 0 then held else 0)
          in if age > 0x7FFFFFFF then 0x7FFFFFFF else age)"

definition Count :: "double \<Rightarrow> ReadBackState \<Rightarrow> int" where
  "Count rid s = (case rb_Find rid s of Some e \<Rightarrow> int (length (post_entries (entry_post e))) | None \<Rightarrow> 0)"

definition Score :: "double \<Rightarrow> double \<Rightarrow> ReadBackState \<Rightarrow> TopScoreEntry option" where
  "Score rid index s =
     (case rb_Find rid s of
        None \<Rightarrow> None
      | Some e \<Rightarrow>
          let es = post_entries (entry_post e) in
          if es = [] then None
          else case ScriptIndex index 0 (int (length es) - 1) of None \<Rightarrow> None | Some i \<Rightarrow> Some (es ! unat i))"

definition rb_Release :: "double \<Rightarrow> ReadBackState \<Rightarrow> ReadBackState" where
  "rb_Release rid s =
     (case ScriptIndex rid 1 0x7FFFFFFF of
        Some i \<Rightarrow> s\<lparr>rb_scores := store_Release i (rb_scores s)\<rparr> | None \<Rightarrow> s)"

definition rb_Slot :: "double \<Rightarrow> ReadBackState \<Rightarrow> PlayerView option" where
  "rb_Slot slot s =
     (case ScriptIndex slot 1 (uint MAX_PLAYERS) of Some i \<Rightarrow> Some (pp_slots (rb_players s) ! (unat i - 1)) | None \<Rightarrow> None)"

definition Claims :: "ReadBackState \<Rightarrow> u32" where
  "Claims s = pp_claims (rb_players s)"

section \<open>The channel's contract\<close>

text \<open>The results and the players cross over as handoffs, the results with the oldest lost past the bound.\<close>

interpretation results: handoff ch_results PostResult "TakeResults []"
proof unfold_locales
  fix post :: TopScoresPost and c :: ReadBackChannel
  have "subseq (tl (ch_results c)) (ch_results c)" by (cases "ch_results c") auto
  then show "subseq (ch_results (PostResult post c)) (ch_results c @ [post])"
    by (simp add: PostResult_def)
qed (simp_all add: TakeResults_def)

interpretation players: handoff "\<lambda>c. latch_contents (ch_players c)" PostPlayers
  "\<lambda>c. (latch_contents (ch_players c), snd (TakePlayers c))"
  by unfold_locales
    (auto simp: PostPlayers_def TakePlayers_def latch_contents_def latch_Post_def latch_Take_def split: option.splits)

text \<open>
  The requests are exact: nothing admitted is lost. The calls on them, with the ids they hand to the script
  and the requests they hand to the worker.
\<close>

datatype channel_call =
    call_Request u64 TopScoresRequest u64
  | call_TakeRequests
  | call_SetLeaderboards bool
  | call_Close
  | call_PostResult TopScoresPost
  | call_TakeResults
  | call_PostPlayers PlayersPost
  | call_TakePlayers

fun channel_step :: "channel_call \<Rightarrow> ReadBackChannel \<Rightarrow> u32 list \<times> TopScoresAsk list \<times> ReadBackChannel" where
  "channel_step (call_Request ep request identity) c = (case Request ep request identity c of (i, c') \<Rightarrow> ([i], [], c'))"
| "channel_step call_TakeRequests c = (case TakeRequests [] c of (asks, c') \<Rightarrow> ([], asks, c'))"
| "channel_step (call_SetLeaderboards available) c = ([], [], SetLeaderboards available c)"
| "channel_step call_Close c = (case channel_Close [] c of (asks, c') \<Rightarrow> ([], asks, c'))"
| "channel_step (call_PostResult p) c = ([], [], PostResult p c)"
| "channel_step call_TakeResults c = ([], [], snd (TakeResults [] c))"
| "channel_step (call_PostPlayers p) c = ([], [], PostPlayers p c)"
| "channel_step call_TakePlayers c = ([], [], snd (TakePlayers c))"

fun channel_run :: "channel_call list \<Rightarrow> ReadBackChannel \<Rightarrow> u32 list \<times> TopScoresAsk list \<times> ReadBackChannel" where
  "channel_run [] c = ([], [], c)"
| "channel_run (x # xs) c =
     (case channel_step x c of (ids, asks, c') \<Rightarrow>
      case channel_run xs c' of (ids', asks', c'') \<Rightarrow> (ids @ ids', asks @ asks', c''))"

definition ask_ids :: "TopScoresAsk list \<Rightarrow> u32 list" where
  "ask_ids = map (\<lambda>a. TopScoresRequest.requestId (ask_request a))"

lemma ask_ids_Nil [simp]: "ask_ids [] = []"
  by (simp add: ask_ids_def)

text \<open>The ids are handed out in order, and wrap within a script's positive Long.\<close>

definition id_after :: "nat \<Rightarrow> nat" where
  "id_after k = k mod 0x7FFFFFFF + 1"

definition channel_inv :: "nat \<Rightarrow> ReadBackChannel \<Rightarrow> bool" where
  "channel_inv k c \<longleftrightarrow> unat (ch_nextId c) = id_after k \<and> length (ch_requests c) \<le> MAX_QUEUED"

lemma id_after_Suc: "id_after (Suc k) = (if id_after k \<ge> 0x7FFFFFFF then 1 else id_after k + 1)"
proof (cases "k mod 0x7FFFFFFF = 0x7FFFFFFE")
  case True
  then have "Suc k mod 0x7FFFFFFF = 0" by (simp add: mod_Suc)
  with True show ?thesis by (simp add: id_after_def)
next
  case False
  have "k mod 0x7FFFFFFF < 0x7FFFFFFF" by simp
  with False have "Suc k mod 0x7FFFFFFF = Suc (k mod 0x7FFFFFFF)" "k mod 0x7FFFFFFF < 0x7FFFFFFE"
    by (simp_all add: mod_Suc)
  then show ?thesis by (simp add: id_after_def)
qed

lemma id_after_bounds: "1 \<le> id_after k" "id_after k \<le> 0x7FFFFFFF"
proof -
  have "k mod 0x7FFFFFFF < 0x7FFFFFFF" by simp
  then show "1 \<le> id_after k" "id_after k \<le> 0x7FFFFFFF" by (simp_all add: id_after_def)
qed

lemma next_id:
  assumes "unat (v :: u32) = id_after k"
  shows "unat (if v \<ge> 0x7FFFFFFF then 1 else v + 1) = id_after (Suc k)" "v \<noteq> 0"
proof -
  have "unat (v + 1) = unat v + 1" using id_after_bounds(2) [of k] assms by (simp add: unat_word_ariths)
  then show "unat (if v \<ge> 0x7FFFFFFF then 1 else v + 1) = id_after (Suc k)"
    using assms by (simp add: id_after_Suc word_le_nat_alt)
  show "v \<noteq> 0" using id_after_bounds(1) [of k] assms by auto
qed

lemma channel_step_inv:
  assumes "channel_inv k c" "channel_step x c = (ids, asks, c')"
  shows "\<exists>j. map unat (filter (\<lambda>i. i \<noteq> 0) ids) = map id_after [k..<k + j] \<and> channel_inv (k + j) c' \<and>
    ask_ids (ch_requests c) @ filter (\<lambda>i. i \<noteq> 0) ids = ask_ids asks @ ask_ids (ch_requests c')"
proof (cases "\<exists>ep request identity. x = call_Request ep request identity \<and> ch_leaderboards c \<and> length (ch_requests c) < MAX_QUEUED")
  case True
  then obtain ep request identity where x: "x = call_Request ep request identity" "ch_leaderboards c"
    "length (ch_requests c) < MAX_QUEUED" by blast
  have k: "unat (ch_nextId c) = id_after k" using assms(1) by (simp add: channel_inv_def)
  from x assms(2) have ids: "ids = [ch_nextId c]" "asks = []"
    and c': "ch_nextId c' = (if ch_nextId c \<ge> 0x7FFFFFFF then 1 else ch_nextId c + 1)"
      "ask_ids (ch_requests c') = ask_ids (ch_requests c) @ [ch_nextId c]" "length (ch_requests c') \<le> MAX_QUEUED"
    by (auto simp: Request_def Let_def ask_ids_def)
  have "map unat (filter (\<lambda>i. i \<noteq> 0) ids) = map id_after [k..<k + 1]" using next_id(2) [OF k] by (simp add: ids k)
  moreover have "channel_inv (k + 1) c'" using next_id(1) [OF k] c'(1,3) by (simp add: channel_inv_def)
  moreover have "ask_ids (ch_requests c) @ filter (\<lambda>i. i \<noteq> 0) ids = ask_ids asks @ ask_ids (ch_requests c')"
    using next_id(2) [OF k] by (simp add: ids c'(2))
  ultimately show ?thesis by blast
next
  case False
  with assms show ?thesis
    by (intro exI [of _ 0], cases x)
      (auto simp: Request_def TakeRequests_def channel_Close_def SetLeaderboards_def PostResult_def TakeResults_def
        PostPlayers_def TakePlayers_def channel_inv_def ask_ids_def latch_Take_def)
qed

lemma channel_run_inv:
  assumes "channel_inv k c" "channel_run xs c = (ids, asks, c')"
  shows "\<exists>j. map unat (filter (\<lambda>i. i \<noteq> 0) ids) = map id_after [k..<k + j] \<and> channel_inv (k + j) c' \<and>
    ask_ids (ch_requests c) @ filter (\<lambda>i. i \<noteq> 0) ids = ask_ids asks @ ask_ids (ch_requests c')"
  using assms
proof (induction xs arbitrary: k c ids asks c')
  case Nil
  then show ?case by (intro exI [of _ 0]) (simp add: ask_ids_def)
next
  case (Cons x xs)
  obtain ids1 asks1 c1 where s: "channel_step x c = (ids1, asks1, c1)" by (cases "channel_step x c")
  obtain ids2 asks2 c2 where r: "channel_run xs c1 = (ids2, asks2, c2)" by (cases "channel_run xs c1")
  from Cons.prems s r have out: "ids = ids1 @ ids2" "asks = asks1 @ asks2" "c' = c2" by simp_all
  obtain j where j: "map unat (filter (\<lambda>i. i \<noteq> 0) ids1) = map id_after [k..<k + j]" "channel_inv (k + j) c1"
    "ask_ids (ch_requests c) @ filter (\<lambda>i. i \<noteq> 0) ids1 = ask_ids asks1 @ ask_ids (ch_requests c1)"
    using channel_step_inv [OF Cons.prems(1) s] by blast
  obtain l where l: "map unat (filter (\<lambda>i. i \<noteq> 0) ids2) = map id_after [k + j..<k + j + l]" "channel_inv (k + j + l) c2"
    "ask_ids (ch_requests c1) @ filter (\<lambda>i. i \<noteq> 0) ids2 = ask_ids asks2 @ ask_ids (ch_requests c2)"
    using Cons.IH [OF j(2) r] by blast
  have "[k..<k + (j + l)] = [k..<k + j] @ [k + j..<k + j + l]"
    using upt_add_eq_append [of k "k + j" l] by (simp add: add.assoc)
  moreover have "ask_ids (ch_requests c) @ filter (\<lambda>i. i \<noteq> 0) ids = ask_ids asks @ ask_ids (ch_requests c')"
    using j(3) l(3) unfolding out ask_ids_def by (metis append.assoc filter_append map_append)
  ultimately show ?case using j(1) l(1,2) unfolding out
    by (intro exI [of _ "j + l"]) (simp add: add.assoc)
qed

section \<open>The store holds the latest results\<close>

definition stamped :: "TopScoresPost \<times> time_point \<Rightarrow> StoreEntry" where
  "stamped a = \<lparr>entry_post = fst a, entry_received = if post_received (fst a) = 0 then snd a else post_received (fst a)\<rparr>"

lemma entry_id_stamped [simp]: "entry_id (stamped a) = post_requestId (fst a)"
  by (simp add: entry_id_def stamped_def)

text \<open>The posts with no later post under the same id, and the last \<open>n\<close> of a list.\<close>

fun latest :: "(TopScoresPost \<times> time_point) list \<Rightarrow> (TopScoresPost \<times> time_point) list" where
  "latest [] = []"
| "latest (a # as) = (if post_requestId (fst a) \<in> (\<lambda>b. post_requestId (fst b)) ` set as then latest as else a # latest as)"

definition last_n :: "nat \<Rightarrow> 'a list \<Rightarrow> 'a list" where
  "last_n n xs = drop (length xs - n) xs"

lemma set_latest: "(\<lambda>b. post_requestId (fst b)) ` set (latest as) = (\<lambda>b. post_requestId (fst b)) ` set as"
  by (induction as) auto

lemma distinct_latest: "distinct (map (\<lambda>b. post_requestId (fst b)) (latest as))"
proof (induction as)
  case (Cons a as)
  then show ?case using set_latest [of as] by simp
qed simp

lemma latest_snoc: "latest (as @ [a]) = filter (\<lambda>b. post_requestId (fst b) \<noteq> post_requestId (fst a)) (latest as) @ [a]"
  by (induction as) auto

text \<open>Dropping one key from a list without duplicates, seen through its last eight.\<close>

lemma last_n_filter:
  fixes f :: "'a \<Rightarrow> 'b"
  assumes "distinct (map f xs)"
  shows "(let st = filter (\<lambda>x. f x \<noteq> k) (last_n (Suc n) xs) in if length st \<ge> Suc n then tl st else st)
    = last_n n (filter (\<lambda>x. f x \<noteq> k) xs)"
proof -
  define pre where "pre = take (length xs - Suc n) xs"
  define st where "st = last_n (Suc n) xs"
  have xs: "xs = pre @ st" by (simp add: pre_def st_def last_n_def)
  have len: "length st \<le> Suc n" "length st < Suc n \<Longrightarrow> pre = []" by (auto simp: st_def pre_def last_n_def)
  have dist: "distinct (map f st)" "set (map f pre) \<inter> set (map f st) = {}" using assms by (simp_all add: xs)
  show ?thesis
  proof (cases "k \<in> f ` set st")
    case True
    then obtain x where x: "x \<in> set st" "f x = k" by auto
    have "length (filter (\<lambda>x. f x \<noteq> k) st) < length st" using x by (intro length_filter_less) auto
    with len(1) have short: "length (filter (\<lambda>x. f x \<noteq> k) st) \<le> n" by simp
    have pre: "filter (\<lambda>x. f x \<noteq> k) pre = pre" using dist(2) True by (intro filter_True) auto
    have "length (filter (\<lambda>x. f x = k) st) = 1"
    proof -
      have "filter (\<lambda>x. f x = k) st = filter (\<lambda>y. y = x) st"
        using dist(1) x by (intro filter_cong refl) (auto simp: distinct_map inj_on_def)
      moreover have "distinct st" using dist(1) by (simp add: distinct_map)
      ultimately show ?thesis using x(1) by (simp add: distinct_length_filter Int_absorb1 Collect_conv_if)
    qed
    then have "Suc (length (filter (\<lambda>x. f x \<noteq> k) st)) = length st"
      using sum_length_filter_compl [of "\<lambda>x. f x = k" st] by simp
    with len have full: "pre = [] \<or> length (filter (\<lambda>x. f x \<noteq> k) st) = n" by linarith
    have "filter (\<lambda>x. f x \<noteq> k) xs = pre @ filter (\<lambda>x. f x \<noteq> k) st" using pre by (simp add: xs)
    with full short show ?thesis unfolding st_def [symmetric] by (auto simp: last_n_def Let_def)
  next
    case False
    then have "filter (\<lambda>x. f x \<noteq> k) st = st" by (intro filter_True) auto
    with len show ?thesis unfolding st_def [symmetric]
      by (cases "length st < Suc n") (auto simp: xs last_n_def Let_def drop_Suc tl_drop)
  qed
qed

lemma store_adds:
  "fold (\<lambda>a st. store_Add (fst a) (snd a) st) as [] = map stamped (last_n CAPACITY (latest as))"
proof (induction as rule: rev_induct)
  case Nil
  then show ?case by (simp add: last_n_def)
next
  case (snoc a as)
  have f: "filter (\<lambda>e. entry_id e \<noteq> i) (map stamped xs) = map stamped (filter (\<lambda>b. post_requestId (fst b) \<noteq> i) xs)" for i xs
    by (simp add: filter_map comp_def)
  let ?i = "post_requestId (fst a)"
  have "store_Add (fst a) (snd a) (map stamped (last_n CAPACITY (latest as))) =
    map stamped (let st = filter (\<lambda>b. post_requestId (fst b) \<noteq> ?i) (last_n (Suc 7) (latest as)) in
      if length st \<ge> Suc 7 then tl st else st) @ [stamped a]"
    by (simp add: store_Add_def store_Release_def f Let_def CAPACITY_def map_tl stamped_def)
  also have "\<dots> = map stamped (last_n 7 (filter (\<lambda>b. post_requestId (fst b) \<noteq> ?i) (latest as))) @ [stamped a]"
    by (subst last_n_filter [OF distinct_latest]) simp
  also have "\<dots> = map stamped (last_n CAPACITY (latest (as @ [a])))"
    by (simp add: latest_snoc last_n_def CAPACITY_def Suc_diff_le)
  finally show ?case using snoc by simp
qed

section \<open>The script's numbers\<close>

lemma script_index:
  "ScriptIndex d lo hi = Some i \<longleftrightarrow> (\<exists>n k. d = Finite (n * 2 ^ k) k \<and> lo \<le> n \<and> n \<le> hi \<and> i = of_int n)"
proof (cases d)
  case (Finite m k)
  show ?thesis
  proof (cases "2 ^ k dvd m")
    case True
    then obtain n where m: "m = n * 2 ^ k" by (metis dvd_div_mult_self)
    have "(n * 2 ^ k < lo * 2 ^ k) = (n < lo)" "(n * 2 ^ k > hi * 2 ^ k) = (n > hi)" for n lo hi :: int by simp_all
    with Finite m show ?thesis by (auto simp: not_less)
  next
    case False
    with Finite show ?thesis by auto
  qed
qed simp

lemma age_bounds: "0 \<le> Age rid now s" "Age rid now s \<le> 0x7FFFFFFF"
  by (auto simp: Age_def Let_def split: option.split)

section \<open>What the state holds\<close>

text \<open>
  Every result held is of the current table, and of a request after the last identity change; the players
  are the current table's.
\<close>

definition state_current :: "ReadBackState \<Rightarrow> bool" where
  "state_current s \<longleftrightarrow> (\<forall>e \<in> set (rb_scores s). accepts_post s (entry_post e)) \<and> pp_epoch (rb_players s) = rb_epoch s
     \<and> length (pp_slots (rb_players s)) = unat MAX_PLAYERS"

datatype state_call =
    call_NewEpoch u64
  | call_ClearScores
  | call_NoteRequest u32
  | call_Drain ReadBackChannel time_point
  | call_Release double

fun state_step :: "state_call \<Rightarrow> ReadBackState \<Rightarrow> ReadBackState" where
  "state_step (call_NewEpoch ep) s = NewEpoch ep s"
| "state_step call_ClearScores s = ClearScores s"
| "state_step (call_NoteRequest i) s = NoteRequest i s"
| "state_step (call_Drain c now) s = snd (Drain now (c, s))"
| "state_step (call_Release rid) s = rb_Release rid s"

definition players_shaped :: "ReadBackChannel \<Rightarrow> bool" where
  "players_shaped c \<longleftrightarrow> (case m_slot (ch_players c) of None \<Rightarrow> True | Some p \<Rightarrow> length (pp_slots p) = unat MAX_PLAYERS)"

fun call_shaped :: "state_call \<Rightarrow> bool" where
  "call_shaped (call_Drain c now) \<longleftrightarrow> players_shaped c"
| "call_shaped x \<longleftrightarrow> True"

lemma accepts_post_scores [simp]: "accepts_post (s\<lparr>rb_scores := x\<rparr>) p = accepts_post s p"
  "accepts_post (s\<lparr>rb_players := y\<rparr>) p = accepts_post s p"
  by (simp_all add: accepts_post_def)

lemma in_tl: "x \<in> set (tl xs) \<Longrightarrow> x \<in> set xs"
  by (cases xs) simp_all

lemma store_Add_set: "set (store_Add p now st) \<subseteq> insert (stamped (p, now)) (set st)"
proof -
  have "set (tl (store_Release i st)) \<subseteq> set st" "set (store_Release i st) \<subseteq> set st" for i
    by (auto simp: store_Release_def dest: in_tl)
  then show ?thesis by (auto simp: store_Add_def Let_def stamped_def)
qed

definition drain_post :: "time_point \<Rightarrow> TopScoresPost \<Rightarrow> ReadBackState \<Rightarrow> ReadBackState" where
  "drain_post now p s = (if accepts_post s p then s\<lparr>rb_scores := store_Add p now (rb_scores s)\<rparr> else s)"

lemma drain_results:
  assumes "\<forall>e \<in> set (rb_scores s). accepts_post s (entry_post e)"
  shows "(\<forall>e \<in> set (rb_scores (fold (drain_post now) ps s)). accepts_post (fold (drain_post now) ps s) (entry_post e))
    \<and> rb_epoch (fold (drain_post now) ps s) = rb_epoch s \<and> rb_players (fold (drain_post now) ps s) = rb_players s"
  using assms
proof (induction ps arbitrary: s)
  case (Cons p ps)
  show ?case
  proof (cases "accepts_post s p")
    case True
    let ?t = "s\<lparr>rb_scores := store_Add p now (rb_scores s)\<rparr>"
    have "accepts_post s (entry_post e)" if "e \<in> set (store_Add p now (rb_scores s))" for e
      using that store_Add_set [of p now "rb_scores s"] True Cons.prems by (auto simp: stamped_def)
    then have "\<forall>e \<in> set (rb_scores ?t). accepts_post ?t (entry_post e)" by simp
    from Cons.IH [OF this] True show ?thesis by (simp add: drain_post_def)
  next
    case False
    with Cons.IH [OF Cons.prems] show ?thesis by (simp add: drain_post_def)
  qed
qed simp

lemma state_step_current:
  assumes "state_current s" "call_shaped x"
  shows "state_current (state_step x s)"
proof (cases x)
  case (call_Drain c now)
  let ?p = "m_slot (ch_players c)"
  define t where "t = (case ?p of None \<Rightarrow> s
                | Some p \<Rightarrow> if pp_epoch p = rb_epoch s then s\<lparr>rb_players := p\<rparr>
                           else s\<lparr>rb_players := (rb_players s)\<lparr>pp_claims := pp_claims p\<rparr>\<rparr>)"
  have "state_current t" using assms call_Drain
    by (auto simp: t_def state_current_def players_shaped_def split: option.splits)
  moreover have "snd (Drain now (c, s)) = fold (drain_post now) (ch_results c) t"
    by (simp add: drain_post_def [abs_def] Drain_def TakePlayers_def TakeResults_def latch_Take_def t_def Let_def)
  ultimately show ?thesis using drain_results [of t now "ch_results c"] call_Drain by (simp add: state_current_def)
next
  case (call_Release rid)
  then show ?thesis using assms(1)
    by (auto simp: rb_Release_def state_current_def store_Release_def split: option.split)
qed (use assms(1) in \<open>auto simp: NewEpoch_def ClearScores_def NoteRequest_def state_current_def PlayersPost0_def accepts_post_def\<close>)

lemma state_run_current:
  assumes "state_current s" "\<forall>x \<in> set xs. call_shaped x"
  shows "state_current (fold state_step xs s)"
  using assms by (induction xs arbitrary: s) (simp_all add: state_step_current)

section \<open>Properties\<close>

text \<open>
  C19. Every leaderboard request is accounted for: over every sequence of calls on the channel, the ids
  handed to the script are 1, 2, 3, ... wrapping within a positive Long, the requests the worker took
  or got back on closing, with those still queued, are exactly those ids in order, and the queue
  keeps its bound.
\<close>

theorem requests_accounted:
  "case channel_run calls ReadBackChannel_init of (ids, taken, c) \<Rightarrow>
     let given = filter (\<lambda>i. i \<noteq> 0) ids in
     ask_ids taken @ ask_ids (ch_requests c) = given \<and>
     map unat given = map (\<lambda>k. k mod 0x7FFFFFFF + 1) [0..<length given] \<and>
     length (ch_requests c) \<le> MAX_QUEUED"
proof -
  obtain ids taken c where r: "channel_run calls ReadBackChannel_init = (ids, taken, c)" by (cases "channel_run calls ReadBackChannel_init")
  have "channel_inv 0 ReadBackChannel_init" by (simp add: channel_inv_def ReadBackChannel_init_def id_after_def)
  from channel_run_inv [OF this r] obtain j where
    j: "map unat (filter (\<lambda>i. i \<noteq> 0) ids) = map id_after [0..<j]" "channel_inv j c"
      "ask_ids (ch_requests ReadBackChannel_init) @ filter (\<lambda>i. i \<noteq> 0) ids = ask_ids taken @ ask_ids (ch_requests c)" by auto
  from j(1) have "length (filter (\<lambda>i. i \<noteq> 0) ids) = j" by (metis length_map length_upt minus_nat.diff_0)
  moreover have "ch_requests ReadBackChannel_init = []" by (simp add: ReadBackChannel_init_def)
  ultimately show ?thesis using j unfolding r by (simp add: Let_def channel_inv_def id_after_def)
qed

text \<open>
  The store of results: after any sequence of posts it holds the latest post under each id, the last
  eight of those, in the order they were posted, each with the time it was received.
\<close>

theorem store_keeps_latest:
  "fold (\<lambda>(post, now) st. store_Add post now st) posts [] =
     map (\<lambda>(post, now). \<lparr>entry_post = post, entry_received = if post_received post = 0 then now else post_received post\<rparr>)
       (let kept = latest posts in drop (length kept - CAPACITY) kept)"
  using store_adds [of posts] by (simp add: stamped_def [abs_def] last_n_def case_prod_unfold Let_def)


definition post_example :: TopScoresPost where
  "post_example = \<lparr>post_epoch = 7, post_requestId = 2, post_result = 0, post_ageS = 3, post_entries = [TopScoreEntry0], post_received = 5\<rparr>"

definition drained_example :: ReadBackState where
  "drained_example = ReadBackState_init\<lparr>rb_epoch := 7, rb_players := PlayersPost0\<lparr>pp_epoch := 7\<rparr>,
     rb_scores := [\<lparr>entry_post = post_example, entry_received = 5\<rparr>]\<rparr>"

lemma drained_example_run:
  "fold state_step [call_NewEpoch 7, call_Drain (PostResult post_example ReadBackChannel_init) 9] ReadBackState_init = drained_example"
  by (simp add: NewEpoch_def Drain_def TakePlayers_def TakeResults_def PostResult_def ReadBackChannel_init_def Latch_def latch_Take_def
      MAX_QUEUED_def ReadBackState_init_def accepts_post_def post_example_def store_Add_def store_Release_def CAPACITY_def
      drained_example_def PlayersPost0_def)


text \<open>
  Indexes from a script: a row is read exactly when the request's result is held and the index is a
  whole number below its count, and then it is that row; any other number, fractional, negative,
  too large or not finite, reads as nothing.
\<close>

theorem score_exact:
  assumes "rb_Find rid s = Some e" "length (post_entries (entry_post e)) < 2 ^ 32"
  shows "Score rid index s = Some row \<longleftrightarrow>
    (\<exists>n k. index = Finite (int n * 2 ^ k) k \<and> n < length (post_entries (entry_post e)) \<and> row = post_entries (entry_post e) ! n)"
proof -
  let ?es = "post_entries (entry_post e)"
  have i: "ScriptIndex index 0 (int (length ?es) - 1) = Some i \<longleftrightarrow>
      (\<exists>n k. index = Finite (int n * 2 ^ k) k \<and> n < length ?es \<and> i = of_nat n)" for i
  proof
    assume "ScriptIndex index 0 (int (length ?es) - 1) = Some i"
    then obtain n k where "index = Finite (n * 2 ^ k) k" "0 \<le> n" "n \<le> int (length ?es) - 1" "i = of_int n"
      unfolding script_index by blast
    then show "\<exists>n k. index = Finite (int n * 2 ^ k) k \<and> n < length ?es \<and> i = of_nat n"
      by (intro exI [of _ "nat n"] exI [of _ k]) auto
  next
    assume "\<exists>n k. index = Finite (int n * 2 ^ k) k \<and> n < length ?es \<and> i = of_nat n"
    then obtain n k where "index = Finite (int n * 2 ^ k) k" "n < length ?es" "i = of_nat n" by blast
    then show "ScriptIndex index 0 (int (length ?es) - 1) = Some i"
      unfolding script_index by (intro exI [of _ "int n"] exI [of _ k]) auto
  qed
  have "Score rid index s = Some row \<longleftrightarrow>
      (\<exists>i. ScriptIndex index 0 (int (length ?es) - 1) = Some i \<and> row = ?es ! unat i)"
  proof (cases "?es = []")
    case True
    with assms(1) i show ?thesis by (simp add: Score_def)
  next
    case False
    with assms(1) show ?thesis
      by (cases "ScriptIndex index 0 (int (length ?es) - 1)") (auto simp: Score_def)
  qed
  also have "\<dots> \<longleftrightarrow> (\<exists>n k. index = Finite (int n * 2 ^ k) k \<and> n < length ?es \<and> row = ?es ! n)"
  proof -
    have "unat (of_nat n :: u32) = n" if "n < length ?es" for n using that assms(2) by (intro unat_of_nat_u32) simp
    then show ?thesis unfolding i by metis
  qed
  finally show ?thesis .
qed

theorem score_exact_witness:
  "Score (Finite 2 0) (Finite 0 0) drained_example = Some TopScoreEntry0"
proof -
  have f: "rb_Find (Finite 2 0) drained_example = Some \<lparr>entry_post = post_example, entry_received = 5\<rparr>"
    by (simp add: rb_Find_def drained_example_def store_Find_def entry_id_def post_example_def)
  show ?thesis
    by (subst score_exact [OF f]) (simp_all add: post_example_def)
qed

end
