(* ===== verification/Player_Table.thy ===== *)
theory Player_Table
  imports Read_Back
begin

text \<open>
  \<^verbatim>\<open>src/ReadBack.cpp\<close>, the worker's slot table and the picture files it owns. The file system is a map
  from paths to the contents of the regular files, with the set of the other things that exist. What the
  system calls of one operation answer is its argument \<open>picture_env\<close>: the outcome of making and checking
  the two directories (the POSIX branch), the entries a sweep lists, and whether the copy fails.
  Removing a file the table holds succeeds.
\<close>

section \<open>Files\<close>

record filesystem =
  fs_files :: "string \<Rightarrow> bytes option"
  fs_others :: "string set"

definition fs_remove :: "string \<Rightarrow> filesystem \<Rightarrow> filesystem" where
  "fs_remove p fs = fs\<lparr>fs_files := (fs_files fs)(p := None)\<rparr>"

definition fs_exists :: "string \<Rightarrow> filesystem \<Rightarrow> bool" where
  "fs_exists p fs \<longleftrightarrow> fs_files fs p \<noteq> None \<or> p \<in> fs_others fs"

definition path_join :: "string \<Rightarrow> string \<Rightarrow> string" where
  "path_join d n = (if d = [] then n else if last d = CHR ''/'' then d @ n else d @ ''/'' @ n)"

definition SameBytes :: "string \<Rightarrow> string \<Rightarrow> filesystem \<Rightarrow> bool" where
  "SameBytes a b fs = (case (fs_files fs a, fs_files fs b) of (Some x, Some y) \<Rightarrow> x = y | _ \<Rightarrow> False)"

datatype mkdir_outcome = MkdirDone | MkdirExists | MkdirError string

text \<open>\<open>dc_private\<close>: the \<^verbatim>\<open>lstat\<close> succeeds on a real directory of this user that no one else can write.\<close>

record dir_check =
  dc_mkdir :: mkdir_outcome
  dc_private :: bool

text \<open>
  One entry of the directory: whether it is a regular file, the process \<^verbatim>\<open>ParseCopyName\<close> reads off its
  name, whether that process is alive, and whether removing it fails.
\<close>

record dir_entry =
  de_name :: string
  de_regular :: bool
  de_pid :: "nat option"
  de_alive :: bool
  de_fails :: bool

record picture_env =
  env_pid :: nat
  env_parent :: dir_check
  env_leaf :: dir_check
  env_entries :: "dir_entry list"
  env_listError :: "string option"
  env_size_unreadable :: bool
  env_copyError :: "string option"

section \<open>The table\<close>

definition MAX_PICTURE_BYTES :: nat where "MAX_PICTURE_BYTES = 2097152"

datatype picture_result = Ignored | Unchanged | Stored | Removed | Failed

record Slot =
  slot_view :: PlayerView
  slot_source :: string
  slot_copy :: string

definition Slot0 :: Slot where
  "Slot0 = \<lparr>slot_view = PlayerView0, slot_source = [], slot_copy = []\<rparr>"

record PlayerTable =
  pt_slots :: "Slot list"
  pt_dir :: string
  pt_tag :: u64
  pt_copies :: u64
  pt_refused :: bool
  pt_swept :: bool
  pt_sweepError :: string

definition PlayerTable_init :: PlayerTable where
  "PlayerTable_init = \<lparr>pt_slots = replicate (unat MAX_PLAYERS) Slot0, pt_dir = [], pt_tag = 0, pt_copies = 0, pt_refused = False,
     pt_swept = False, pt_sweepError = []\<rparr>"

definition SetDirectory :: "string \<Rightarrow> u64 \<Rightarrow> PlayerTable \<Rightarrow> PlayerTable" where
  "SetDirectory dir tag t = t\<lparr>pt_dir := dir, pt_tag := tag\<rparr>"

fun sweep_entries :: "string \<Rightarrow> nat \<Rightarrow> dir_entry list \<Rightarrow> bool \<Rightarrow> filesystem \<Rightarrow> bool \<times> filesystem" where
  "sweep_entries dir pid [] failed fs = (failed, fs)"
| "sweep_entries dir pid (e # es) failed fs =
     (if \<not> de_regular e \<or> de_pid e = None \<or> de_pid e = Some pid \<or> de_alive e then sweep_entries dir pid es failed fs
      else if de_fails e then sweep_entries dir pid es True fs
      else sweep_entries dir pid es failed (fs_remove (path_join dir (de_name e)) fs))"

definition SweepOnce :: "picture_env \<Rightarrow> PlayerTable \<times> filesystem \<Rightarrow> PlayerTable \<times> filesystem" where
  "SweepOnce env tf = (case tf of (t, fs) \<Rightarrow>
     if pt_swept t then (t, fs)
     else let t = t\<lparr>pt_swept := True\<rparr>;
              (failed, fs) = sweep_entries (pt_dir t) (env_pid env) (env_entries env) False fs
          in (case env_listError env of
                Some m \<Rightarrow> t\<lparr>pt_sweepError := ''cannot remove pictures left by an earlier run ('' @ m @ '')''\<rparr>
              | None \<Rightarrow> if failed
                  then t\<lparr>pt_sweepError := ''cannot remove pictures left by an earlier run (Input/output error)''\<rparr> else t,
              fs))"

fun check_dirs :: "dir_check list \<Rightarrow> PlayerTable \<Rightarrow> string option \<times> PlayerTable" where
  "check_dirs [] t = (None, t)"
| "check_dirs (d # ds) t =
     (case dc_mkdir d of
        MkdirError m \<Rightarrow> (Some (''cannot create the picture directory ('' @ m @ '')''), t)
      | _ \<Rightarrow> if \<not> dc_private d then (Some ''the picture directory is not this user's alone'', t\<lparr>pt_refused := True\<rparr>)
             else check_dirs ds t)"

text \<open>\<open>PrepareDirectory\<close> returns the error, if any.\<close>

definition PrepareDirectory :: "picture_env \<Rightarrow> PlayerTable \<times> filesystem \<Rightarrow> string option \<times> PlayerTable \<times> filesystem" where
  "PrepareDirectory env tf = (case tf of (t, fs) \<Rightarrow>
     if pt_dir t = [] then (Some ''no directory for player pictures on this platform'', t, fs)
     else if pt_refused t then (Some ''the picture directory is not this user's alone'', t, fs)
     else case check_dirs [env_parent env, env_leaf env] t of
            (Some m, t) \<Rightarrow> (Some m, t, fs)
          | (None, t) \<Rightarrow> (None, SweepOnce env (t, fs)))"

definition DropPicture :: "Slot \<times> filesystem \<Rightarrow> Slot \<times> filesystem" where
  "DropPicture sf = (case sf of (s, fs) \<Rightarrow>
     (s\<lparr>slot_copy := [], slot_source := [], slot_view := (slot_view s)\<lparr>pv_picture := []\<rparr>\<rparr>,
      if slot_copy s \<noteq> [] then fs_remove (slot_copy s) fs else fs))"

text \<open>The view the message gives slot \<open>i\<close> (from 0): the last entry for it, or an empty one.\<close>

definition next_view :: "nat \<Rightarrow> PlayerSlot list \<Rightarrow> PlayerView" where
  "next_view i ss = fold (\<lambda>s next. if unat (PlayerSlot.player s) = i + 1
      then next\<lparr>pv_playerId := PlayerSlot.playerId s, pv_preferredName := preferredName s, pv_name := playerName s,
             pv_initials := PlayerSlot.initials s, pv_claimDeeplink := claimDeeplink s\<rparr>
      else next) ss PlayerView0"

definition apply_slot :: "PlayerView \<Rightarrow> Slot \<times> filesystem \<Rightarrow> bool \<times> Slot \<times> filesystem" where
  "apply_slot next sf =
     (let (s, fs) = (if \<not> Claimed next \<or> pv_playerId next \<noteq> pv_playerId (slot_view (fst sf)) then DropPicture sf else sf);
          next = next\<lparr>pv_picture := pv_picture (slot_view s)\<rparr>
      in if next \<noteq> slot_view s then (True, s\<lparr>slot_view := next\<rparr>, fs) else (False, s, fs))"

fun apply_slots :: "PlayerSlot list \<Rightarrow> nat \<Rightarrow> Slot list \<Rightarrow> filesystem \<Rightarrow> bool \<times> Slot list \<times> filesystem" where
  "apply_slots ss i [] fs = (False, [], fs)"
| "apply_slots ss i (s # rest) fs =
     (case apply_slot (next_view i ss) (s, fs) of (c, s', fs') \<Rightarrow>
      case apply_slots ss (Suc i) rest fs' of (c', rest', fs'') \<Rightarrow> (c \<or> c', s' # rest', fs''))"

definition ApplyPlayers :: "Players \<Rightarrow> PlayerTable \<times> filesystem \<Rightarrow> bool \<times> PlayerTable \<times> filesystem" where
  "ApplyPlayers v tf = (case tf of (t, fs) \<Rightarrow>
     case apply_slots (slots v) 0 (pt_slots t) fs of (changed, ss, fs') \<Rightarrow> (changed, t\<lparr>pt_slots := ss\<rparr>, fs'))"

text \<open>\<^verbatim>\<open>"%lu-%016llx-%u-%llu.jpg"\<close> into 64 characters.\<close>

definition hex_digit :: "nat \<Rightarrow> char" where
  "hex_digit d = (if d < 10 then char_of (48 + d) else char_of (87 + d))"

fun hex_pad :: "nat \<Rightarrow> nat \<Rightarrow> string" where
  "hex_pad 0 n = []"
| "hex_pad (Suc w) n = hex_pad w (n div 16) @ [hex_digit (n mod 16)]"

definition copy_name :: "nat \<Rightarrow> u64 \<Rightarrow> u8 \<Rightarrow> u64 \<Rightarrow> string" where
  "copy_name pid tag p n =
     take 63 (digits pid @ ''-'' @ hex_pad 16 (unat tag) @ ''-'' @ digits (unat p) @ ''-'' @ digits (unat n) @ ''.jpg'')"

definition store_picture :: "picture_env \<Rightarrow> PlayerPicture \<Rightarrow> PlayerTable \<times> filesystem \<Rightarrow> (picture_result \<times> string) \<times> PlayerTable \<times> filesystem" where
  "store_picture env v tf = (case tf of (t, fs) \<Rightarrow>
     case fs_files fs (picturePath v) of
       None \<Rightarrow> ((Failed, ''the picture is not a readable file''), t, fs)
     | Some content \<Rightarrow>
         if env_size_unreadable env then ((Failed, ''the picture's size is unreadable''), t, fs)
         else if length content > MAX_PICTURE_BYTES then ((Failed, ''the picture is over 2 MiB''), t, fs)
         else
           let t = t\<lparr>pt_copies := pt_copies t + 1\<rparr>;
               copy = path_join (pt_dir t) (copy_name (env_pid env) (pt_tag t) (PlayerPicture.player v) (pt_copies t))
           in case env_copyError env of
                Some m \<Rightarrow> ((Failed, ''cannot copy the picture ('' @ m @ '')''), t, fs_remove copy fs)
              | None \<Rightarrow>
                  let i = unat (PlayerPicture.player v) - 1; s = pt_slots t ! i in
                  ((Stored, []),
                   t\<lparr>pt_slots := (pt_slots t)[i := s\<lparr>slot_copy := copy, slot_source := picturePath v,
                       slot_view := (slot_view s)\<lparr>pv_picture := copy\<rparr>\<rparr>]\<rparr>,
                   fs\<lparr>fs_files := (fs_files fs)(copy := Some content)\<rparr>))"

definition drop_at :: "nat \<Rightarrow> PlayerTable \<times> filesystem \<Rightarrow> PlayerTable \<times> filesystem" where
  "drop_at i tf = (case tf of (t, fs) \<Rightarrow>
     case DropPicture (pt_slots t ! i, fs) of (s, fs') \<Rightarrow> (t\<lparr>pt_slots := (pt_slots t)[i := s]\<rparr>, fs'))"

definition ApplyPicture :: "picture_env \<Rightarrow> PlayerPicture \<Rightarrow> PlayerTable \<times> filesystem \<Rightarrow> (picture_result \<times> string) \<times> PlayerTable \<times> filesystem" where
  "ApplyPicture env v tf = (case tf of (t, fs) \<Rightarrow>
     if PlayerPicture.player v < 1 \<or> unat (PlayerPicture.player v) > length (pt_slots t) then ((Ignored, []), t, fs)
     else
       let i = unat (PlayerPicture.player v) - 1; s = pt_slots t ! i in
       if PlayerPicture.playerId v = [] \<or> PlayerPicture.playerId v \<noteq> pv_playerId (slot_view s) then ((Ignored, []), t, fs)
       else if picturePath v = [] then
         if slot_copy s = [] then ((Unchanged, []), t, fs) else ((Removed, []), drop_at i (t, fs))
       else if slot_copy s \<noteq> [] \<and> picturePath v = slot_source s \<and>
               (\<not> fs_exists (picturePath v) fs \<or> SameBytes (picturePath v) (slot_copy s) fs)
         then ((Unchanged, []), t, fs)
       else case PrepareDirectory env (drop_at i (t, fs)) of
              (Some m, t, fs) \<Rightarrow> ((Failed, m), t, fs)
            | (None, t, fs) \<Rightarrow> store_picture env v (t, fs))"

fun clear_slots :: "Slot list \<Rightarrow> filesystem \<Rightarrow> bool \<times> Slot list \<times> filesystem" where
  "clear_slots [] fs = (False, [], fs)"
| "clear_slots (s # rest) fs =
     (case DropPicture (s, fs) of (s', fs') \<Rightarrow>
      case clear_slots rest fs' of (held, rest', fs'') \<Rightarrow>
        (slot_view s \<noteq> PlayerView0 \<or> slot_copy s \<noteq> [] \<or> held, s'\<lparr>slot_view := PlayerView0\<rparr> # rest', fs''))"

definition table_Clear :: "PlayerTable \<times> filesystem \<Rightarrow> bool \<times> PlayerTable \<times> filesystem" where
  "table_Clear tf = (case tf of (t, fs) \<Rightarrow>
     case clear_slots (pt_slots t) fs of (held, ss, fs') \<Rightarrow> (held, t\<lparr>pt_slots := ss\<rparr>, fs'))"

definition Fill :: "PlayerTable \<Rightarrow> PlayersPost \<Rightarrow> PlayersPost" where
  "Fill t post = post\<lparr>pp_slots := map slot_view (pt_slots t)\<rparr>"

section \<open>The names of the copies\<close>

definition own_paths :: "nat \<Rightarrow> string \<Rightarrow> u64 \<Rightarrow> u64 \<Rightarrow> string set" where
  "own_paths pid dir tag n = {path_join dir (copy_name pid tag k n) | k. 1 \<le> unat k \<and> unat k \<le> 9}"

lemma path_join_inj: "path_join d a = path_join d b \<Longrightarrow> a = b"
  by (simp add: path_join_def split: if_splits)

lemma path_join_nonempty: "n \<noteq> [] \<Longrightarrow> path_join d n \<noteq> []"
  by (simp add: path_join_def)

lemma length_hex_pad [simp]: "length (hex_pad w n) = w"
  by (induction w arbitrary: n) simp_all

lemma copy_name_full:
  assumes "pid < 2 ^ 32" "unat k \<le> 9"
  shows "copy_name pid tag k n =
    digits pid @ ''-'' @ hex_pad 16 (unat tag) @ ''-'' @ [char_of (48 + unat k)] @ ''-'' @ digits (unat n) @ ''.jpg''"
proof -
  have "length (digits pid) \<le> Suc 9" using assms(1) by (intro length_digits) simp
  moreover have "length (digits (unat n)) \<le> Suc 19"
    using unsigned_less [of n, where 'a = nat] by (intro length_digits) simp
  ultimately show ?thesis using assms(2) by (simp add: copy_name_def digits_small)
qed

lemma copy_name_inj:
  assumes "pid < 2 ^ 32" "unat k \<le> 9" "unat k' \<le> 9" "copy_name pid tag k n = copy_name pid tag k' n'"
  shows "n = n'"
proof -
  have "digits (unat n) = digits (unat n')"
    using assms(4) by (simp add: copy_name_full [OF assms(1,2)] copy_name_full [OF assms(1,3)])
  then show ?thesis using digits_inj word_unat_eq_iff by blast
qed

lemma own_paths_disjoint:
  assumes "pid < 2 ^ 32" "p \<in> own_paths pid dir tag n" "p \<in> own_paths pid dir tag n'"
  shows "n = n'"
  using assms copy_name_inj [OF assms(1)] path_join_inj unfolding own_paths_def by blast

lemma own_paths_nonempty: "pid < 2 ^ 32 \<Longrightarrow> p \<in> own_paths pid dir tag n \<Longrightarrow> p \<noteq> []"
  unfolding own_paths_def using copy_name_full path_join_nonempty by fastforce

section \<open>The table owns its files\<close>

definition slot_ok :: "Slot \<Rightarrow> bool" where
  "slot_ok s \<longleftrightarrow> pv_picture (slot_view s) = slot_copy s \<and> (slot_copy s \<noteq> [] \<longrightarrow> Claimed (slot_view s))"

definition copies_distinct :: "Slot list \<Rightarrow> bool" where
  "copies_distinct ss \<longleftrightarrow> (\<forall>i < length ss. \<forall>j < length ss. i \<noteq> j \<longrightarrow> slot_copy (ss ! i) \<noteq> [] \<longrightarrow> slot_copy (ss ! i) \<noteq> slot_copy (ss ! j))"

definition table_inv :: "nat \<Rightarrow> PlayerTable \<times> filesystem \<Rightarrow> bool" where
  "table_inv pid tf \<longleftrightarrow> (case tf of (t, fs) \<Rightarrow>
     length (pt_slots t) = 9 \<and> (\<forall>s \<in> set (pt_slots t). slot_ok s) \<and> copies_distinct (pt_slots t) \<and>
     (\<forall>s \<in> set (pt_slots t). slot_copy s \<noteq> [] \<longrightarrow> (\<exists>n. n \<le> pt_copies t \<and> slot_copy s \<in> own_paths pid (pt_dir t) (pt_tag t) n)) \<and>
     (\<forall>n. \<forall>p \<in> own_paths pid (pt_dir t) (pt_tag t) n. fs_files fs p \<noteq> None \<longleftrightarrow> p \<in> slot_copy ` set (pt_slots t)) \<and>
     (\<not> pt_swept t \<longrightarrow> (\<forall>s \<in> set (pt_slots t). slot_copy s = [])))"

text \<open>
  What the operations on slots do to the files: each slot keeps its copy or drops it, and exactly the
  dropped copies are removed.
\<close>

definition dropped :: "Slot list \<Rightarrow> Slot list \<Rightarrow> string set" where
  "dropped ss ss' = {slot_copy s | s s'. (s, s') \<in> set (zip ss ss') \<and> slot_copy s' = [] \<and> slot_copy s \<noteq> []}"

definition drops :: "Slot list \<Rightarrow> filesystem \<Rightarrow> Slot list \<Rightarrow> filesystem \<Rightarrow> bool" where
  "drops ss fs ss' fs' \<longleftrightarrow> length ss' = length ss \<and> (\<forall>(s, s') \<in> set (zip ss ss'). slot_copy s' = slot_copy s \<or> slot_copy s' = []) \<and>
     (\<forall>p. fs_files fs' p = (if p \<in> dropped ss ss' then None else fs_files fs p))"

lemma dropped_Cons: "dropped (s # ss) (s' # ss') =
    (if slot_copy s' = [] \<and> slot_copy s \<noteq> [] then insert (slot_copy s) (dropped ss ss') else dropped ss ss')"
  by (auto simp: dropped_def)

lemma drops_Nil: "drops [] fs [] fs"
  by (simp add: drops_def dropped_def)

lemma drops_Cons:
  assumes "slot_copy s' = slot_copy s \<and> fs1 = fs \<or> slot_copy s' = [] \<and> fs1 = (if slot_copy s \<noteq> [] then fs_remove (slot_copy s) fs else fs)"
    and "drops ss fs1 ss' fs'"
  shows "drops (s # ss) fs (s' # ss') fs'"
  using assms by (auto simp: drops_def dropped_Cons fs_remove_def)

lemma drops_refl: "drops ss fs ss fs"
proof -
  have "dropped ss ss = {}" by (auto simp: dropped_def zip_same)
  then show ?thesis by (auto simp: drops_def zip_same)
qed

lemma drops_keeps_inv:
  assumes inv: "table_inv pid (t, fs)" and d: "drops (pt_slots t) fs ss' fs'" and ok: "\<forall>s \<in> set ss'. slot_ok s"
  shows "table_inv pid (t\<lparr>pt_slots := ss'\<rparr>, fs')"
proof -
  let ?ss = "pt_slots t"
  have len: "length ss' = length ?ss" and f: "\<And>p. fs_files fs' p = (if p \<in> dropped ?ss ss' then None else fs_files fs p)"
    and zipped: "\<And>s s'. (s, s') \<in> set (zip ?ss ss') \<Longrightarrow> slot_copy s' = slot_copy s \<or> slot_copy s' = []"
    using d by (auto simp: drops_def)
  have cp: "slot_copy (ss' ! i) = slot_copy (?ss ! i) \<or> slot_copy (ss' ! i) = []" if "i < length ?ss" for i
    by (rule zipped) (use that len in \<open>auto simp: set_zip\<close>)
  have dist: "copies_distinct ?ss" using inv by (simp add: table_inv_def)
  have dist': "copies_distinct ss'" using dist cp len unfolding copies_distinct_def by metis
  have mem: "p \<in> slot_copy ` set ss' \<longleftrightarrow> p \<in> slot_copy ` set ?ss \<and> p \<notin> dropped ?ss ss'" if "p \<noteq> []" for p
  proof
    assume "p \<in> slot_copy ` set ss'"
    then obtain i where i: "i < length ?ss" "p = slot_copy (ss' ! i)" using len by (auto simp: in_set_conv_nth)
    then have pi: "p = slot_copy (?ss ! i)" using cp [OF i(1)] that by auto
    have "p \<notin> dropped ?ss ss'"
    proof
      assume "p \<in> dropped ?ss ss'"
      then obtain j where j: "j < length ?ss" "p = slot_copy (?ss ! j)" "slot_copy (ss' ! j) = []"
        by (auto simp: dropped_def set_zip)
      have "i = j" using dist i(1) j(1,2) pi that unfolding copies_distinct_def by metis
      with j(3) i(2) that show False by simp
    qed
    with pi i(1) show "p \<in> slot_copy ` set ?ss \<and> p \<notin> dropped ?ss ss'" by auto
  next
    assume "p \<in> slot_copy ` set ?ss \<and> p \<notin> dropped ?ss ss'"
    then obtain i where i: "i < length ?ss" "p = slot_copy (?ss ! i)" "p \<notin> dropped ?ss ss'" by (auto simp: in_set_conv_nth)
    have "slot_copy (ss' ! i) \<noteq> []"
    proof
      assume "slot_copy (ss' ! i) = []"
      with i that len have "p \<in> dropped ?ss ss'" unfolding dropped_def set_zip by auto
      with i(3) show False by simp
    qed
    with cp [OF i(1)] i(2) have "p = slot_copy (ss' ! i)" by simp
    with i(1) len show "p \<in> slot_copy ` set ss'" by simp
  qed
  have was_held: "slot_copy s \<in> slot_copy ` set ?ss" if "s \<in> set ss'" "slot_copy s \<noteq> []" for s
    using mem [of "slot_copy s"] that by auto
  from inv have old: "length ?ss = 9" 
    "\<forall>s \<in> set ?ss. slot_copy s \<noteq> [] \<longrightarrow> (\<exists>n. n \<le> pt_copies t \<and> slot_copy s \<in> own_paths pid (pt_dir t) (pt_tag t) n)"
    "\<forall>n. \<forall>p \<in> own_paths pid (pt_dir t) (pt_tag t) n. fs_files fs p \<noteq> None \<longleftrightarrow> p \<in> slot_copy ` set ?ss"
    "\<not> pt_swept t \<longrightarrow> (\<forall>s \<in> set ?ss. slot_copy s = [])"
    by (simp_all add: table_inv_def)
  have "\<exists>n. n \<le> pt_copies t \<and> slot_copy s \<in> own_paths pid (pt_dir t) (pt_tag t) n" if "s \<in> set ss'" "slot_copy s \<noteq> []" for s
    using was_held [OF that] old(2) that(2) by (metis imageE)
  moreover have "slot_copy s = []" if "s \<in> set ss'" "\<not> pt_swept t" for s
    using was_held [of s] old(4) that by (metis imageE)
  moreover have "fs_files fs' p \<noteq> None \<longleftrightarrow> p \<in> slot_copy ` set ss'" if "p \<in> own_paths pid (pt_dir t) (pt_tag t) n" "p \<noteq> []" for n p
    using old(3) that mem [OF that(2)] f [of p] by auto
  moreover have "fs_files fs' [] \<noteq> None \<longleftrightarrow> [] \<in> slot_copy ` set ss'" if "[] \<in> own_paths pid (pt_dir t) (pt_tag t) n" for n
    using that copy_name_def by (auto simp: own_paths_def path_join_def split: if_splits)
  ultimately show ?thesis using old(1) len dist' ok unfolding table_inv_def
    by (simp) metis
qed

text \<open>The three operations that only drop copies.\<close>

lemma DropPicture_ok: "slot_ok (fst (DropPicture (s, fs)))"
  by (simp add: DropPicture_def slot_ok_def)

lemma apply_slot_drops:
  assumes "slot_ok s" "apply_slot next (s, fs) = (c, s', fs')"
  shows "slot_ok s'" "slot_copy s' = slot_copy s \<and> fs' = fs
    \<or> slot_copy s' = [] \<and> fs' = (if slot_copy s \<noteq> [] then fs_remove (slot_copy s) fs else fs)"
proof -
  have "slot_ok s' \<and> (slot_copy s' = slot_copy s \<and> fs' = fs
    \<or> slot_copy s' = [] \<and> fs' = (if slot_copy s \<noteq> [] then fs_remove (slot_copy s) fs else fs))"
  proof (cases "\<not> Claimed next \<or> pv_playerId next \<noteq> pv_playerId (slot_view s)")
    case True
    with assms show ?thesis by (auto simp: apply_slot_def DropPicture_def slot_ok_def Let_def split: if_splits)
  next
    case False
    with assms show ?thesis by (auto simp: apply_slot_def slot_ok_def Claimed_def Let_def split: if_splits)
  qed
  then show "slot_ok s'" "slot_copy s' = slot_copy s \<and> fs' = fs
    \<or> slot_copy s' = [] \<and> fs' = (if slot_copy s \<noteq> [] then fs_remove (slot_copy s) fs else fs)" by blast+
qed

lemma apply_slots_drops:
  assumes "\<forall>s \<in> set ss. slot_ok s" "apply_slots ms i ss fs = (c, ss', fs')"
  shows "drops ss fs ss' fs' \<and> (\<forall>s \<in> set ss'. slot_ok s)"
  using assms
proof (induction ss arbitrary: i fs c ss' fs')
  case (Cons s ss)
  obtain c1 s1 fs1 where a: "apply_slot (next_view i ms) (s, fs) = (c1, s1, fs1)" by (cases "apply_slot (next_view i ms) (s, fs)")
  obtain c2 ss2 fs2 where b: "apply_slots ms (Suc i) ss fs1 = (c2, ss2, fs2)" by (cases "apply_slots ms (Suc i) ss fs1")
  from Cons.prems a b have out: "ss' = s1 # ss2" "fs' = fs2" by simp_all
  have s: "slot_ok s" "\<forall>s \<in> set ss. slot_ok s" using Cons.prems(1) by simp_all
  note one = apply_slot_drops [OF s(1) a] and rest = Cons.IH [OF s(2) b]
  show ?case unfolding out using drops_Cons [OF one(2)] rest one(1) by simp
qed (simp add: drops_Nil)

lemma clear_slots_drops:
  assumes "clear_slots ss fs = (h, ss', fs')"
  shows "drops ss fs ss' fs' \<and> (\<forall>s \<in> set ss'. s = Slot0)"
  using assms
proof (induction ss arbitrary: fs h ss' fs')
  case (Cons s ss)
  obtain s1 fs1 where a: "DropPicture (s, fs) = (s1, fs1)" by (cases "DropPicture (s, fs)")
  obtain h2 ss2 fs2 where b: "clear_slots ss fs1 = (h2, ss2, fs2)" by (cases "clear_slots ss fs1")
  from Cons.prems a b have out: "ss' = s1\<lparr>slot_view := PlayerView0\<rparr> # ss2" "fs' = fs2" by auto
  have one: "s1\<lparr>slot_view := PlayerView0\<rparr> = Slot0" "fs1 = (if slot_copy s \<noteq> [] then fs_remove (slot_copy s) fs else fs)"
    using a by (auto simp: DropPicture_def Slot0_def)
  have "slot_copy (s1\<lparr>slot_view := PlayerView0\<rparr>) = slot_copy s \<and> fs1 = fs
    \<or> slot_copy (s1\<lparr>slot_view := PlayerView0\<rparr>) = [] \<and> fs1 = (if slot_copy s \<noteq> [] then fs_remove (slot_copy s) fs else fs)"
    using one by (simp add: Slot0_def)
  from drops_Cons [OF this] Cons.IH [OF b] show ?case unfolding out one(1) by simp
qed (simp add: drops_Nil)

lemma drops_update:
  assumes "i < length ss" "DropPicture (ss ! i, fs) = (s', fs')"
  shows "drops ss fs (ss[i := s']) fs'"
  using assms
proof (induction ss arbitrary: i)
  case (Cons s ss)
  have d: "slot_copy s' = []" "fs' = (if slot_copy ((s # ss) ! i) \<noteq> [] then fs_remove (slot_copy ((s # ss) ! i)) fs else fs)"
    using Cons.prems(2) by (auto simp: DropPicture_def)
  show ?case
  proof (cases i)
    case 0
    with d drops_Cons [OF _ drops_refl [of ss], of s' s fs' fs] show ?thesis by simp
  next
    case (Suc j)
    with Cons.IH [of j] Cons.prems have "drops ss fs (ss[j := s']) fs'" by simp
    from drops_Cons [OF _ this, of s s] show ?thesis by (simp add: Suc)
  qed
qed simp

lemma ApplyPlayers_inv:
  assumes "table_inv pid tf"
  shows "table_inv pid (snd (ApplyPlayers v tf))"
proof -
  obtain t fs where tf: "tf = (t, fs)" by (cases tf)
  obtain c ss' fs' where a: "apply_slots (slots v) 0 (pt_slots t) fs = (c, ss', fs')"
    by (cases "apply_slots (slots v) 0 (pt_slots t) fs")
  have "\<forall>s \<in> set (pt_slots t). slot_ok s" using assms by (simp add: tf table_inv_def)
  from apply_slots_drops [OF this a] drops_keeps_inv [OF assms [unfolded tf]] a show ?thesis
    by (simp add: tf ApplyPlayers_def)
qed

lemma table_Clear_inv:
  assumes "table_inv pid tf"
  shows "table_inv pid (snd (table_Clear tf))" "\<forall>s \<in> set (pt_slots (fst (snd (table_Clear tf)))). s = Slot0"
proof -
  obtain t fs where tf: "tf = (t, fs)" by (cases tf)
  obtain c ss' fs' where a: "clear_slots (pt_slots t) fs = (c, ss', fs')" by (cases "clear_slots (pt_slots t) fs")
  note cl = clear_slots_drops [OF a]
  have "\<forall>s \<in> set ss'. slot_ok s" using cl by (auto simp: slot_ok_def Slot0_def PlayerView0_def)
  with cl drops_keeps_inv [OF assms [unfolded tf]] a show "table_inv pid (snd (table_Clear tf))"
    by (simp add: tf table_Clear_def)
  show "\<forall>s \<in> set (pt_slots (fst (snd (table_Clear tf)))). s = Slot0" using cl a by (simp add: tf table_Clear_def)
qed

lemma set_update_ok: "\<forall>s \<in> set ss. P s \<Longrightarrow> P s' \<Longrightarrow> \<forall>s \<in> set (ss[i := s']). P s"
  using set_update_subset_insert [of ss i s'] by blast

lemma drop_at_inv:
  assumes inv: "table_inv pid (t, fs)" and i: "i < length (pt_slots t)"
  shows "table_inv pid (drop_at i (t, fs))"
    and "pt_slots (fst (drop_at i (t, fs))) ! i = fst (DropPicture (pt_slots t ! i, fs))"
    and "pt_slots (fst (drop_at i (t, fs))) = (pt_slots t)[i := fst (DropPicture (pt_slots t ! i, fs))]"
    and "pt_copies (fst (drop_at i (t, fs))) = pt_copies t"
proof -
  obtain s' fs' where d: "DropPicture (pt_slots t ! i, fs) = (s', fs')" by (cases "DropPicture (pt_slots t ! i, fs)")
  have "slot_ok s'" using DropPicture_ok [of "pt_slots t ! i" fs] d by simp
  moreover have "\<forall>s \<in> set (pt_slots t). slot_ok s" using inv by (simp add: table_inv_def)
  ultimately have "\<forall>s \<in> set ((pt_slots t)[i := s']). slot_ok s" by (metis set_update_ok)
  from drops_keeps_inv [OF inv drops_update [OF i d] this] show "table_inv pid (drop_at i (t, fs))"
    by (simp add: drop_at_def d)
qed (use i in \<open>simp_all add: drop_at_def split: prod.split\<close>)


text \<open>Preparing the directory: the sweep happens before the first copy, so it takes none of them.\<close>

lemma check_dirs_slots: "check_dirs ds t = (m, t') \<Longrightarrow> \<exists>b. t' = t\<lparr>pt_refused := b\<rparr>"
proof (induction ds)
  case Nil
  then show ?case by (intro exI [of _ "pt_refused t"]) simp
next
  case (Cons d ds)
  show ?case
  proof (cases "\<exists>msg. dc_mkdir d = MkdirError msg")
    case True
    with Cons.prems show ?thesis by (intro exI [of _ "pt_refused t"]) auto
  next
    case False
    show ?thesis
    proof (cases "dc_private d")
      case True
      with False Cons.prems have "check_dirs ds t = (m, t')" by (cases "dc_mkdir d") auto
      then show ?thesis by (rule Cons.IH)
    next
      case priv: False
      with False Cons.prems show ?thesis by (intro exI [of _ True]) (cases "dc_mkdir d"; auto)
    qed
  qed
qed

lemma sweep_removes: "fs_files (snd (sweep_entries dir pid es failed fs)) p \<noteq> None \<Longrightarrow> fs_files fs p \<noteq> None"
proof (induction es arbitrary: failed fs)
  case (Cons e es)
  let ?fs = "fs_remove (path_join dir (de_name e)) fs"
  have gone: "fs_files ?fs p \<noteq> None \<Longrightarrow> fs_files fs p \<noteq> None" by (auto simp: fs_remove_def split: if_splits)
  have step: "sweep_entries dir pid (e # es) failed fs \<in> {sweep_entries dir pid es failed fs, sweep_entries dir pid es True fs,
      sweep_entries dir pid es failed ?fs}"
    unfolding sweep_entries.simps by simp
  from Cons.prems show ?case
    using Cons.IH [of failed fs] Cons.IH [of True fs] Cons.IH [of failed ?fs] gone step
    by (elim insertE emptyE) simp_all
qed simp

lemma table_inv_files:
  assumes "table_inv pid (t, fs)" "p \<in> own_paths pid (pt_dir t) (pt_tag t) n"
  shows "fs_files fs p \<noteq> None \<longleftrightarrow> p \<in> slot_copy ` set (pt_slots t)"
  using assms unfolding table_inv_def prod.case by blast

lemma table_inv_refused: "table_inv pid (t\<lparr>pt_refused := b\<rparr>, fs) = table_inv pid (t, fs)"
  by (simp add: table_inv_def)

lemma SweepOnce_inv:
  assumes "table_inv pid (t, fs)" "SweepOnce env (t, fs) = (t', fs')"
  shows "table_inv pid (t', fs')" "pt_slots t' = pt_slots t" "pt_swept t'" "pt_copies t' = pt_copies t"
proof -
  show "pt_slots t' = pt_slots t" "pt_swept t'" "pt_copies t' = pt_copies t"
    using assms(2) by (auto simp: SweepOnce_def Let_def split: if_splits prod.splits option.splits)
  show "table_inv pid (t', fs')"
  proof (cases "pt_swept t")
    case True
    with assms show ?thesis by (simp add: SweepOnce_def)
  next
    case False
    obtain failed g where g: "sweep_entries (pt_dir t) (env_pid env) (env_entries env) False fs = (failed, g)"
      by (cases "sweep_entries (pt_dir t) (env_pid env) (env_entries env) False fs")
    have none: "\<forall>s \<in> set (pt_slots t). slot_copy s = []" using assms(1) False by (simp add: table_inv_def)
    have files: "fs_files fs' p = None" if "p \<in> own_paths pid (pt_dir t) (pt_tag t) n" "p \<noteq> []" for p n
    proof -
      have "p \<notin> slot_copy ` set (pt_slots t)" using none that(2) by auto
      with table_inv_files [OF assms(1) that(1)] have "fs_files fs p = None" by blast
      with sweep_removes [of "pt_dir t" "env_pid env" "env_entries env" False fs p] g have "fs_files g p = None" by (metis snd_conv)
      moreover have "fs' = g" using g False assms(2) by (simp add: SweepOnce_def Let_def)
      ultimately show ?thesis by simp
    qed
    have "p \<noteq> []" if "p \<in> own_paths pid (pt_dir t) (pt_tag t) n" for p n
      using that copy_name_def by (auto simp: own_paths_def path_join_def split: if_splits)
    moreover have "pt_slots t' = pt_slots t" "pt_dir t' = pt_dir t" "pt_tag t' = pt_tag t" "pt_copies t' = pt_copies t" "pt_swept t'"
      using assms(2) False g by (auto simp: SweepOnce_def Let_def split: option.splits if_splits)
    ultimately show ?thesis using assms(1) none files by (auto simp: table_inv_def)
  qed
qed

lemma PrepareDirectory_inv:
  assumes "table_inv pid (t, fs)" "PrepareDirectory env (t, fs) = (m, t', fs')"
  shows "table_inv pid (t', fs')" "pt_slots t' = pt_slots t" "m = None \<Longrightarrow> pt_swept t'" "pt_copies t' = pt_copies t"
proof -
  obtain m1 t1 where c: "check_dirs [env_parent env, env_leaf env] t = (m1, t1)" by (cases "check_dirs [env_parent env, env_leaf env] t")
  obtain b where t1: "t1 = t\<lparr>pt_refused := b\<rparr>" using check_dirs_slots [OF c] by blast
  have inv1: "table_inv pid (t1, fs)" using assms(1) by (simp add: t1 table_inv_refused)
  obtain t2 fs2 where s: "SweepOnce env (t1, fs) = (t2, fs2)" by (cases "SweepOnce env (t1, fs)")
  note sweep = SweepOnce_inv [OF inv1 s]
  have "table_inv pid (t', fs') \<and> pt_slots t' = pt_slots t \<and> (m = None \<longrightarrow> pt_swept t') \<and> pt_copies t' = pt_copies t"
  proof (cases "pt_dir t = [] \<or> pt_refused t")
    case True
    with assms show ?thesis by (auto simp: PrepareDirectory_def split: if_splits)
  next
    case False
    show ?thesis
    proof (cases m1)
      case None
      with False assms(2) c s have "t' = t2" "fs' = fs2" by (auto simp: PrepareDirectory_def)
      with sweep t1 show ?thesis by simp
    next
      case (Some e)
      with False assms(2) c have "t' = t1" "fs' = fs" "m = Some e" by (auto simp: PrepareDirectory_def)
      with inv1 t1 show ?thesis by simp
    qed
  qed
  then show "table_inv pid (t', fs')" "pt_slots t' = pt_slots t" "m = None \<Longrightarrow> pt_swept t'" "pt_copies t' = pt_copies t" by blast+
qed

lemma own_paths_ne: "p \<in> own_paths pid dir tag n \<Longrightarrow> p \<noteq> []"
  using copy_name_def by (auto simp: own_paths_def path_join_def split: if_splits)

lemma word_Suc_less: "(w :: u64) \<noteq> -1 \<Longrightarrow> w < w + 1"
proof -
  assume "w \<noteq> -1"
  then have "1 + w \<noteq> 0" by (metis add.commute add_eq_0_iff)
  then have "unat (1 + w) = Suc (unat w)" by (rule unatSuc)
  then show "w < w + 1" by (simp add: word_less_nat_alt add.commute)
qed

text \<open>A new copy has a new name, so it is no slot's.\<close>

lemma fresh_copy:
  assumes inv: "table_inv pid (t, fs)" and pid: "pid < 2 ^ 32" and wrap: "pt_copies t \<noteq> -1"
    and p: "p \<in> own_paths pid (pt_dir t) (pt_tag t) (pt_copies t + 1)"
  shows "p \<notin> slot_copy ` set (pt_slots t)" "fs_files fs p = None"
proof -
  show "p \<notin> slot_copy ` set (pt_slots t)"
  proof
    assume "p \<in> slot_copy ` set (pt_slots t)"
    then obtain s where "s \<in> set (pt_slots t)" "slot_copy s = p" by auto
    with inv own_paths_ne [OF p] obtain n where n: "n \<le> pt_copies t" "p \<in> own_paths pid (pt_dir t) (pt_tag t) n"
      unfolding table_inv_def prod.case by blast
    have "n = pt_copies t + 1" by (rule own_paths_disjoint [OF pid n(2) p])
    with n(1) word_Suc_less [OF wrap] show False by simp
  qed
  with table_inv_files [OF inv p] show "fs_files fs p = None" by blast
qed

lemma table_inv_counted:
  assumes "table_inv pid (t, fs)" "pt_copies t \<noteq> -1"
  shows "table_inv pid (t\<lparr>pt_copies := pt_copies t + 1\<rparr>, fs)"
proof -
  have "n \<le> pt_copies t + 1" if "n \<le> pt_copies t" for n
    using that word_Suc_less [OF assms(2)] by simp
  with assms(1) show ?thesis unfolding table_inv_def prod.case by (simp, blast)
qed

lemma fs_remove_absent: "fs_files fs p = None \<Longrightarrow> fs_remove p fs = fs"
  by (simp add: fs_remove_def fun_upd_idem)

lemma held_update:
  assumes "i < length ss" "slot_copy (ss ! i) = []" "slot_copy s' = p" "p \<noteq> []"
  shows "q \<noteq> [] \<Longrightarrow> q \<in> slot_copy ` set (ss[i := s']) \<longleftrightarrow> q = p \<or> q \<in> slot_copy ` set ss"
proof -
  assume q: "q \<noteq> []"
  show "q \<in> slot_copy ` set (ss[i := s']) \<longleftrightarrow> q = p \<or> q \<in> slot_copy ` set ss"
  proof
    assume "q \<in> slot_copy ` set (ss[i := s'])"
    then show "q = p \<or> q \<in> slot_copy ` set ss"
      using set_update_subset_insert [of ss i s'] assms(3) by auto
  next
    assume "q = p \<or> q \<in> slot_copy ` set ss"
    then show "q \<in> slot_copy ` set (ss[i := s'])"
    proof
      assume "q = p"
      with assms(1,3) show ?thesis by (metis image_eqI set_update_memI)
    next
      assume "q \<in> slot_copy ` set ss"
      then obtain j where j: "j < length ss" "q = slot_copy (ss ! j)" by (auto simp: in_set_conv_nth)
      with q assms(2) have "j \<noteq> i" by auto
      with j show ?thesis by (metis image_eqI length_list_update nth_list_update_neq nth_mem)
    qed
  qed
qed

lemma stored_inv:
  assumes inv: "table_inv pid (t, fs)" and i: "i < 9" and empty: "slot_copy (pt_slots t ! i) = []"
    and s': "slot_ok s'" "slot_copy s' = p"
    and p: "p \<in> own_paths pid (pt_dir t) (pt_tag t) (pt_copies t)" "p \<notin> slot_copy ` set (pt_slots t)"
    and swept: "pt_swept t"
  shows "table_inv pid (t\<lparr>pt_slots := (pt_slots t)[i := s']\<rparr>, fs\<lparr>fs_files := (fs_files fs)(p := Some c)\<rparr>)"
proof -
  let ?ss = "pt_slots t" and ?ss' = "(pt_slots t)[i := s']"
  have ss: "length ?ss = 9" "\<forall>s \<in> set ?ss. slot_ok s" "copies_distinct ?ss"
    "\<forall>s \<in> set ?ss. slot_copy s \<noteq> [] \<longrightarrow> (\<exists>n. n \<le> pt_copies t \<and> slot_copy s \<in> own_paths pid (pt_dir t) (pt_tag t) n)"
    using inv unfolding table_inv_def prod.case by blast+
  have pne: "p \<noteq> []" by (rule own_paths_ne [OF p(1)])
  have nth: "?ss' ! j = (if j = i then s' else ?ss ! j)" if "j < 9" for j using that ss(1) i by (simp add: nth_list_update)
  have held: "slot_copy (?ss ! j) \<noteq> p" if "j < 9" for j using p(2) that ss(1) by (metis image_eqI nth_mem)
  have "copies_distinct ?ss'" using ss(1,3) nth held s'(2) unfolding copies_distinct_def length_list_update ss(1)
    by (metis (no_types, lifting))
  moreover have "\<forall>s \<in> set ?ss'. slot_ok s" using ss(2) s'(1) by (rule set_update_ok)
  moreover have "\<forall>s \<in> set ?ss'. slot_copy s \<noteq> [] \<longrightarrow> (\<exists>n. n \<le> pt_copies t \<and> slot_copy s \<in> own_paths pid (pt_dir t) (pt_tag t) n)"
    by (rule set_update_ok [OF ss(4)]) (use p(1) s'(2) in blast)
  moreover have "fs_files (fs\<lparr>fs_files := (fs_files fs)(p := Some c)\<rparr>) q \<noteq> None \<longleftrightarrow> q \<in> slot_copy ` set ?ss'"
    if "q \<in> own_paths pid (pt_dir t) (pt_tag t) n" for q n
    using held_update [of i ?ss s' p q] i ss(1) empty s'(2) pne own_paths_ne [OF that] table_inv_files [OF inv that] by auto
  ultimately show ?thesis using ss(1) swept unfolding table_inv_def prod.case by simp
qed

lemma store_picture_inv:
  assumes inv: "table_inv pid (t, fs)" and pid: "pid < 2 ^ 32" "env_pid env = pid"
    and wrap: "pt_copies t \<noteq> -1" and swept: "pt_swept t"
    and player: "1 \<le> unat (PlayerPicture.player v)" "unat (PlayerPicture.player v) \<le> 9"
    and slot: "slot_copy (pt_slots t ! (unat (PlayerPicture.player v) - 1)) = []"
      "Claimed (slot_view (pt_slots t ! (unat (PlayerPicture.player v) - 1)))"
  shows "table_inv pid (snd (store_picture env v (t, fs)))"
proof (cases "fs_files fs (picturePath v)")
  case None
  with inv show ?thesis by (simp add: store_picture_def)
next
  case (Some content)
  let ?t = "t\<lparr>pt_copies := pt_copies t + 1\<rparr>" and ?i = "unat (PlayerPicture.player v) - 1"
  define p where "p = path_join (pt_dir t) (copy_name (env_pid env) (pt_tag t) (PlayerPicture.player v) (pt_copies t + 1))"
  have p: "p \<in> own_paths pid (pt_dir t) (pt_tag t) (pt_copies t + 1)"
    using player pid(2) by (auto simp: p_def own_paths_def)
  note fresh = fresh_copy [OF inv pid(1) wrap p]
  have inv': "table_inv pid (?t, fs)" by (rule table_inv_counted [OF inv wrap])
  let ?s = "(pt_slots t ! ?i)\<lparr>slot_copy := p, slot_source := picturePath v, slot_view := (slot_view (pt_slots t ! ?i))\<lparr>pv_picture := p\<rparr>\<rparr>"
  have i: "?i < 9" using player by simp
  have stored: "table_inv pid (?t\<lparr>pt_slots := (pt_slots t)[?i := ?s]\<rparr>, fs\<lparr>fs_files := (fs_files fs)(p := Some content)\<rparr>)"
    using stored_inv [OF inv' i, of ?s p content] slot swept p fresh(1) by (simp add: slot_ok_def Claimed_def)
  show ?thesis
  proof (cases "env_size_unreadable env \<or> length content > MAX_PICTURE_BYTES")
    case True
    with Some inv show ?thesis by (auto simp: store_picture_def)
  next
    case False
    show ?thesis
    proof (cases "env_copyError env")
      case None
      with Some False stored show ?thesis by (simp add: store_picture_def Let_def p_def)
    next
      case (Some m)
      with \<open>fs_files fs (picturePath v) = Some content\<close> False inv' fs_remove_absent [OF fresh(2)] show ?thesis
        by (simp add: store_picture_def Let_def p_def)
    qed
  qed
qed

lemma ApplyPicture_inv:
  assumes inv: "table_inv pid (t, fs)" and pid: "pid < 2 ^ 32" "env_pid env = pid" and wrap: "pt_copies t \<noteq> -1"
  shows "table_inv pid (snd (ApplyPicture env v (t, fs)))"
proof -
  let ?p = "PlayerPicture.player v" and ?i = "unat (PlayerPicture.player v) - 1"
  let ?s = "pt_slots t ! ?i"
  have len: "length (pt_slots t) = 9" using inv by (simp add: table_inv_def)
  show ?thesis
  proof (cases "?p < 1 \<or> unat ?p > length (pt_slots t) \<or> PlayerPicture.playerId v = [] \<or> PlayerPicture.playerId v \<noteq> pv_playerId (slot_view ?s)")
    case True
    with inv show ?thesis by (auto simp: ApplyPicture_def Let_def)
  next
    case False
    then have range: "1 \<le> unat ?p" "unat ?p \<le> 9" and i: "?i < length (pt_slots t)" and claimed: "Claimed (slot_view ?s)"
      using len by (auto simp: word_less_nat_alt Claimed_def)
    note drop = drop_at_inv [OF inv i]
    obtain t1 fs1 where d: "drop_at ?i (t, fs) = (t1, fs1)" by (cases "drop_at ?i (t, fs)")
    obtain m t2 fs2 where pr: "PrepareDirectory env (t1, fs1) = (m, t2, fs2)" by (cases "PrepareDirectory env (t1, fs1)")
    have inv1: "table_inv pid (t1, fs1)" using drop(1) d by simp
    note prep = PrepareDirectory_inv [OF inv1 pr]
    have slot2: "pt_slots t2 ! ?i = fst (DropPicture (?s, fs))" using drop(2) prep(2) d by simp
    have st: "table_inv pid (snd (store_picture env v (t2, fs2)))" if "m = None"
    proof (rule store_picture_inv [OF prep(1) pid _ prep(3) [OF that] range])
      show "pt_copies t2 \<noteq> -1" using wrap prep(4) drop(4) d by simp
      show "slot_copy (pt_slots t2 ! ?i) = []" unfolding slot2 by (simp add: DropPicture_def)
      show "Claimed (slot_view (pt_slots t2 ! ?i))" unfolding slot2 using claimed by (simp add: DropPicture_def Claimed_def)
    qed
    let ?same = "slot_copy ?s \<noteq> [] \<and> picturePath v = slot_source ?s \<and>
      (\<not> fs_exists (picturePath v) fs \<or> SameBytes (picturePath v) (slot_copy ?s) fs)"
    have eq: "ApplyPicture env v (t, fs) =
      (if picturePath v = [] then if slot_copy ?s = [] then ((Unchanged, []), t, fs) else ((Removed, []), t1, fs1)
       else if ?same then ((Unchanged, []), t, fs)
       else case m of Some e \<Rightarrow> ((Failed, e), t2, fs2) | None \<Rightarrow> store_picture env v (t2, fs2))"
    proof -
      have guards: "\<not> (?p < 1 \<or> unat ?p > length (pt_slots t))"
        "\<not> (PlayerPicture.playerId v = [] \<or> PlayerPicture.playerId v \<noteq> pv_playerId (slot_view ?s))" using False by blast+
      show ?thesis unfolding ApplyPicture_def Let_def prod.case if_not_P [OF guards(1)] if_not_P [OF guards(2)] d pr
        by (cases m) (simp_all only: option.case prod.case)
    qed
    show ?thesis unfolding eq using inv inv1 prep(1) st by (cases m) simp_all
  qed
qed

section \<open>Every reachable table\<close>

text \<open>
  The table from its construction on, with the worker's calls and, in between, any change of the file
  system that leaves the table's own names alone. The copy counter is 64 bits wide and does not wrap.
\<close>

inductive table_reach :: "nat \<Rightarrow> string \<Rightarrow> u64 \<Rightarrow> PlayerTable \<Rightarrow> filesystem \<Rightarrow> bool" for pid dir tag where
  reach_init: "(\<And>n p. p \<in> own_paths pid dir tag n \<Longrightarrow> fs_files fs p = None)
    \<Longrightarrow> table_reach pid dir tag (SetDirectory dir tag PlayerTable_init) fs"
| reach_players: "table_reach pid dir tag t fs \<Longrightarrow> ApplyPlayers v (t, fs) = (c, t', fs') \<Longrightarrow> table_reach pid dir tag t' fs'"
| reach_picture: "table_reach pid dir tag t fs \<Longrightarrow> env_pid env = pid \<Longrightarrow> pt_copies t \<noteq> -1
    \<Longrightarrow> ApplyPicture env v (t, fs) = (r, t', fs') \<Longrightarrow> table_reach pid dir tag t' fs'"
| reach_clear: "table_reach pid dir tag t fs \<Longrightarrow> table_Clear (t, fs) = (c, t', fs') \<Longrightarrow> table_reach pid dir tag t' fs'"
| reach_world: "table_reach pid dir tag t fs
    \<Longrightarrow> (\<And>n p. p \<in> own_paths pid dir tag n \<Longrightarrow> fs_files fs' p = fs_files fs p) \<Longrightarrow> table_reach pid dir tag t fs'"

lemma table_dir:
  shows "pt_dir (fst (snd (ApplyPlayers v (t, fs)))) = pt_dir t \<and> pt_tag (fst (snd (ApplyPlayers v (t, fs)))) = pt_tag t"
    and "pt_dir (fst (snd (table_Clear (t, fs)))) = pt_dir t \<and> pt_tag (fst (snd (table_Clear (t, fs)))) = pt_tag t"
    and "pt_dir (fst (snd (ApplyPicture env w (t, fs)))) = pt_dir t \<and> pt_tag (fst (snd (ApplyPicture env w (t, fs)))) = pt_tag t"
proof -
  show "pt_dir (fst (snd (ApplyPlayers v (t, fs)))) = pt_dir t \<and> pt_tag (fst (snd (ApplyPlayers v (t, fs)))) = pt_tag t"
    by (simp add: ApplyPlayers_def split: prod.split)
  show "pt_dir (fst (snd (table_Clear (t, fs)))) = pt_dir t \<and> pt_tag (fst (snd (table_Clear (t, fs)))) = pt_tag t"
    by (simp add: table_Clear_def split: prod.split)
  have drop: "pt_dir (fst (drop_at i (t, fs))) = pt_dir t \<and> pt_tag (fst (drop_at i (t, fs))) = pt_tag t" for i
    by (simp add: drop_at_def split: prod.split)
  have sweep: "pt_dir (fst (SweepOnce env tf)) = pt_dir (fst tf) \<and> pt_tag (fst (SweepOnce env tf)) = pt_tag (fst tf)" for tf
    by (simp add: SweepOnce_def Let_def split: prod.split option.split)
  have prep: "pt_dir t' = pt_dir (fst tf) \<and> pt_tag t' = pt_tag (fst tf)" if "PrepareDirectory env tf = (m, t', fs')" for tf m t' fs'
  proof -
    obtain t0 f0 where tf: "tf = (t0, f0)" by (cases tf)
    obtain m1 t1 where c: "check_dirs [env_parent env, env_leaf env] t0 = (m1, t1)" by (cases "check_dirs [env_parent env, env_leaf env] t0")
    obtain b where "t1 = t0\<lparr>pt_refused := b\<rparr>" using check_dirs_slots [OF c] by blast
    with that c sweep [of "(t1, f0)"] show ?thesis
      by (cases m1; cases "SweepOnce env (t1, f0)") (auto simp: PrepareDirectory_def tf split: if_splits)
  qed
  have store: "pt_dir (fst (snd (store_picture env w (t', fs')))) = pt_dir t' \<and> pt_tag (fst (snd (store_picture env w (t', fs')))) = pt_tag t'" for t' fs'
    by (simp add: store_picture_def Let_def split: option.split)
  obtain t1 fs1 where d: "drop_at (unat (PlayerPicture.player w) - 1) (t, fs) = (t1, fs1)"
    by (cases "drop_at (unat (PlayerPicture.player w) - 1) (t, fs)")
  obtain m t2 fs2 where pr: "PrepareDirectory env (t1, fs1) = (m, t2, fs2)" by (cases "PrepareDirectory env (t1, fs1)")
  have "pt_dir t1 = pt_dir t" "pt_tag t1 = pt_tag t" "pt_dir t2 = pt_dir t" "pt_tag t2 = pt_tag t"
    using drop [of "unat (PlayerPicture.player w) - 1"] d prep [OF pr] by simp_all
  with store [of t2 fs2] d pr
  show "pt_dir (fst (snd (ApplyPicture env w (t, fs)))) = pt_dir t \<and> pt_tag (fst (snd (ApplyPicture env w (t, fs)))) = pt_tag t"
    by (cases m) (auto simp: ApplyPicture_def Let_def)
qed

lemma table_reach_inv:
  assumes "table_reach pid dir tag t fs" "pid < 2 ^ 32"
  shows "table_inv pid (t, fs) \<and> pt_dir t = dir \<and> pt_tag t = tag"
  using assms
proof (induction rule: table_reach.induct)
  case (reach_init fs)
  have "slot_copy (replicate 9 Slot0 ! i) = []" if "i < 9" for i using that by (simp add: Slot0_def)
  then have "copies_distinct (replicate 9 Slot0)" by (simp add: copies_distinct_def)
  moreover have "p \<noteq> []" if "p \<in> own_paths pid dir tag n" for p n using that by (rule own_paths_ne)
  ultimately show ?case using reach_init(1)
    by (auto simp: table_inv_def SetDirectory_def PlayerTable_init_def read_back_bounds slot_ok_def Slot0_def PlayerView0_def)
next
  case (reach_players t fs v c t' fs')
  with ApplyPlayers_inv [of pid "(t, fs)" v] table_dir(1) [of v t fs] show ?case by simp
next
  case (reach_picture t fs env v r t' fs')
  with ApplyPicture_inv [of pid t fs env v] table_dir(3) [of env v t fs] show ?case by simp
next
  case (reach_clear t fs c t' fs')
  with table_Clear_inv(1) [of pid "(t, fs)"] table_dir(2) [of t fs] show ?case by simp
next
  case (reach_world t fs fs')
  then have dir: "pt_dir t = dir" "pt_tag t = tag" and inv: "table_inv pid (t, fs)" by blast+
  have "fs_files fs' p = fs_files fs p" if "p \<in> own_paths pid (pt_dir t) (pt_tag t) n" for p n
    using that reach_world.hyps(2) dir by simp
  with inv dir show ?case unfolding table_inv_def prod.case by auto
qed


section \<open>What applying a table does\<close>

definition kept_picture :: "PlayerView \<Rightarrow> PlayerView \<Rightarrow> string" where
  "kept_picture next old = (if Claimed next \<and> pv_playerId next = pv_playerId old then pv_picture old else [])"

lemma apply_slot_view:
  assumes "slot_ok s" "pv_picture next = []" "apply_slot next (s, fs) = (c, s', fs')"
  shows "slot_view s' = next\<lparr>pv_picture := kept_picture next (slot_view s)\<rparr>" "c \<longleftrightarrow> slot_view s' \<noteq> slot_view s"
proof -
  have "slot_view s' = next\<lparr>pv_picture := kept_picture next (slot_view s)\<rparr> \<and> (c \<longleftrightarrow> slot_view s' \<noteq> slot_view s)"
  proof (cases "Claimed next \<and> pv_playerId next = pv_playerId (slot_view s)")
    case True
    with assms(3) show ?thesis by (auto simp: apply_slot_def kept_picture_def Let_def split: if_splits)
  next
    case False
    have drop: "DropPicture (s, fs) = (s\<lparr>slot_copy := [], slot_source := [], slot_view := (slot_view s)\<lparr>pv_picture := []\<rparr>\<rparr>,
      if slot_copy s \<noteq> [] then fs_remove (slot_copy s) fs else fs)" by (simp add: DropPicture_def)
    let ?old = "(slot_view s)\<lparr>pv_picture := []\<rparr>"
    have same: "next\<lparr>pv_picture := []\<rparr> = ?old \<longleftrightarrow> next\<lparr>pv_picture := []\<rparr> = slot_view s"
    proof
      assume "next\<lparr>pv_picture := []\<rparr> = ?old"
      then have "pv_playerId next = pv_playerId (slot_view s)" by (metis PlayerView.select_convs(1) PlayerView.surjective PlayerView.update_convs(6))
      with False have "\<not> Claimed (slot_view s)" by (auto simp: Claimed_def)
      with assms(1) have "pv_picture (slot_view s) = []" by (auto simp: slot_ok_def)
      then have "?old = slot_view s" by simp
      with \<open>next\<lparr>pv_picture := []\<rparr> = ?old\<close> show "next\<lparr>pv_picture := []\<rparr> = slot_view s" by simp
    next
      assume "next\<lparr>pv_picture := []\<rparr> = slot_view s"
      then show "next\<lparr>pv_picture := []\<rparr> = ?old" by (metis PlayerView.simps(12) PlayerView.surjective PlayerView.update_convs(6))
    qed
    from False assms(3) have "(if next\<lparr>pv_picture := []\<rparr> \<noteq> ?old then (True, next\<lparr>pv_picture := []\<rparr>) else (False, ?old)) = (c, slot_view s')"
      by (auto simp: apply_slot_def drop Let_def split: if_splits)
    with same False show ?thesis by (auto simp: kept_picture_def split: if_splits)
  qed
  then show "slot_view s' = next\<lparr>pv_picture := kept_picture next (slot_view s)\<rparr>" "c \<longleftrightarrow> slot_view s' \<noteq> slot_view s" by blast+
qed

lemma next_view_picture: "pv_picture (next_view i ss) = []"
proof -
  have "pv_picture v = [] \<Longrightarrow> pv_picture (fold (\<lambda>s next. if unat (PlayerSlot.player s) = i + 1
      then next\<lparr>pv_playerId := PlayerSlot.playerId s, pv_preferredName := preferredName s, pv_name := playerName s,
             pv_initials := PlayerSlot.initials s, pv_claimDeeplink := claimDeeplink s\<rparr>
      else next) ss v) = []" for v :: PlayerView
    by (induction ss arbitrary: v) simp_all
  then show ?thesis by (simp add: next_view_def PlayerView0_def)
qed

lemma apply_slots_views:
  assumes "\<forall>s \<in> set ss. slot_ok s" "apply_slots ms i ss fs = (c, ss', fs')"
  shows "length ss' = length ss \<and> (c \<longleftrightarrow> map slot_view ss' \<noteq> map slot_view ss) \<and>
    (\<forall>j < length ss. slot_view (ss' ! j) =
       (next_view (i + j) ms)\<lparr>pv_picture := kept_picture (next_view (i + j) ms) (slot_view (ss ! j))\<rparr>)"
  using assms
proof (induction ss arbitrary: i fs c ss' fs')
  case (Cons s ss)
  obtain c1 s1 fs1 where a: "apply_slot (next_view i ms) (s, fs) = (c1, s1, fs1)" by (cases "apply_slot (next_view i ms) (s, fs)")
  obtain c2 ss2 fs2 where b: "apply_slots ms (Suc i) ss fs1 = (c2, ss2, fs2)" by (cases "apply_slots ms (Suc i) ss fs1")
  from Cons.prems a b have out: "ss' = s1 # ss2" "c = (c1 \<or> c2)" and ok: "slot_ok s" "\<forall>s \<in> set ss. slot_ok s" by auto
  show ?case using Cons.IH [OF ok(2) b] apply_slot_view [OF ok(1) next_view_picture a]
    by (auto simp: out less_Suc_eq_0_disj)
qed simp

section \<open>Properties\<close>


definition no_files :: filesystem where
  "no_files = \<lparr>fs_files = (\<lambda>_. None), fs_others = {}\<rparr>"


text \<open>
  Applying a players message: slot by slot the view becomes the message's last entry for it, or an
  empty one, a picture survives exactly when the same player still holds the claim, and the call
  reports a change exactly when some view changed.
\<close>

theorem players_applied:
  assumes "table_reach pid dir tag t fs" "pid < 2 ^ 32" "ApplyPlayers v (t, fs) = (changed, t', fs')"
  shows "(changed \<longleftrightarrow> map slot_view (pt_slots t') \<noteq> map slot_view (pt_slots t)) \<and>
    map slot_view (pt_slots t') = map (\<lambda>i. let next = next_view i (slots v) in
      next\<lparr>pv_picture := if Claimed next \<and> pv_playerId next = pv_playerId (slot_view (pt_slots t ! i))
                         then pv_picture (slot_view (pt_slots t ! i)) else []\<rparr>) [0..<9]"
proof -
  from table_reach_inv [OF assms(1,2)] have inv: "table_inv pid (t, fs)" by blast
  then have ok: "\<forall>s \<in> set (pt_slots t). slot_ok s" and len: "length (pt_slots t) = 9" by (simp_all add: table_inv_def)
  from assms(3) obtain ss where a: "apply_slots (slots v) 0 (pt_slots t) fs = (changed, ss, fs')" and t': "pt_slots t' = ss"
    by (auto simp: ApplyPlayers_def split: prod.splits)
  note views = apply_slots_views [OF ok a]
  have "map slot_view ss = map (\<lambda>i. (next_view i (slots v))\<lparr>pv_picture := kept_picture (next_view i (slots v)) (slot_view (pt_slots t ! i))\<rparr>) [0..<9]"
    using views len by (intro nth_equalityI) simp_all
  with views show ?thesis by (simp add: t' kept_picture_def Let_def)
qed

definition players_one :: Players where
  "players_one = \<lparr>slots = [PlayerSlot0\<lparr>PlayerSlot.player := 1, PlayerSlot.playerId := ''ann''\<rparr>]\<rparr>"

theorem players_applied_witness:
  "fst (ApplyPlayers players_one (SetDirectory ''/run/pictures'' 5 PlayerTable_init, no_files))"
proof -
  obtain c t' fs' where a: "ApplyPlayers players_one (SetDirectory ''/run/pictures'' 5 PlayerTable_init, no_files) = (c, t', fs')"
    by (cases "ApplyPlayers players_one (SetDirectory ''/run/pictures'' 5 PlayerTable_init, no_files)")
  have r: "table_reach 77 ''/run/pictures'' 5 (SetDirectory ''/run/pictures'' 5 PlayerTable_init) no_files"
    by (rule reach_init) (simp add: no_files_def)
  from players_applied [OF r _ a] have views: "c \<longleftrightarrow> map slot_view (pt_slots t') \<noteq> map slot_view (pt_slots (SetDirectory ''/run/pictures'' 5 PlayerTable_init))"
    and at0: "pv_playerId (map slot_view (pt_slots t') ! 0) = ''ann''"
    by (simp_all add: players_one_def next_view_def PlayerSlot0_def PlayerView0_def Let_def upt_rec)
  have "map slot_view (pt_slots (SetDirectory ''/run/pictures'' 5 PlayerTable_init)) ! 0 = PlayerView0"
    by (simp add: SetDirectory_def PlayerTable_init_def read_back_bounds Slot0_def)
  with at0 have "c" unfolding views by (auto simp: PlayerView0_def)
  with a show ?thesis by simp
qed

end
