(* ===== verification/Memory_Bridge.thy ===== *)
theory Memory_Bridge
  imports Wire_Memory Overlay
begin

text \<open>
  \<^verbatim>\<open>src/MemoryBridge.{h,cpp}\<close>: the worker's memory requests, answered by the API thread once per frame. The
  shared request objects are a heap, and a \<^verbatim>\<open>shared_ptr\<close> to one is its index; a critical section of
  \<^verbatim>\<open>m_mutex\<close> is one step. PinMAME's two functions are parameters: \<open>read k a n\<close> gives the bytes the \<open>k\<close>-th
  call of one pass reads at \<open>a\<close> (its length is the count returned; two reads may differ), and \<open>write\<close> the
  number of operations applied (\<open>None\<close>: no write function was given). The snapshot crosses through the sequence lock, whose
  reads are whole (theory \<open>Seq_Lock\<close>) and may fail. The atomic flags \<open>Submit\<close>'s callers look at before they take
  the mutex, and the two reads of \<open>Poll\<close>, are taken to be part of the step that follows them.
\<close>

section \<open>Records\<close>

definition MainCpuAddressSpace :: "u64 \<Rightarrow> u64" where
  "MainCpuAddressSpace hardwareGen =
     (if hardwareGen AND (GEN_ALLWPC OR GEN_DEDMD16 OR GEN_DEDMD32 OR GEN_DEDMD64 OR GEN_ALLWS OR GEN_GTS3 OR GEN_ALVG OR GEN_ALVG_DMD2) \<noteq> 0
      then 0x10000 else 0)"

type_synonym ReadFn = "nat \<Rightarrow> u32 \<Rightarrow> u32 \<Rightarrow> bytes"
type_synonym WriteFn = "WriteOp list \<Rightarrow> u32"

definition NO_WRITE_HANDLER :: u32 where "NO_WRITE_HANDLER = 0xFFFFFFFF"

datatype mb_result = MB_Ok | MB_Busy | MB_NoGame | MB_OutOfRange | MB_TooLarge | MB_Unsupported

datatype request_kind = KSubscribe | KReadDirect | KWrite

record MemoryRequest =
  rq_kind :: request_kind
  rq_ranges :: "MemoryRange list"
  rq_address :: u32
  rq_length :: u32
  rq_subscriptionId :: u64
  rq_ops :: "WriteOp list"
  rq_accepted :: "MemoryRange list"
  rq_reply :: ReadDirectReply
  rq_writeReply :: WriteReply
  rq_result :: mb_result
  rq_done :: bool
  rq_abandoned :: bool
  rq_taken :: bool

definition ReadDirectReply0 :: ReadDirectReply where
  "ReadDirectReply0 = \<lparr>ReadDirectReply.frame = 0, ReadDirectReply.address = 0, unstableOffsets = [], ReadDirectReply.bytes = []\<rparr>"

definition Request0 :: MemoryRequest where
  "Request0 = \<lparr>rq_kind = KReadDirect, rq_ranges = [], rq_address = 0, rq_length = 0, rq_subscriptionId = 0, rq_ops = [],
     rq_accepted = [], rq_reply = ReadDirectReply0, rq_writeReply = \<lparr>WriteReply.frame = 0, applied = 0\<rparr>,
     rq_result = MB_Busy, rq_done = False, rq_abandoned = False, rq_taken = False\<rparr>"

record SnapshotHeader =
  sh_frame :: u64
  sh_rangesId :: u64
  sh_blocks :: u32
  sh_playerRunning :: u8
  sh_complete :: u8

definition SNAPSHOT_HEADER_BYTES :: nat where "SNAPSHOT_HEADER_BYTES = 24"
definition SNAPSHOT_BYTES :: nat where
  "SNAPSHOT_BYTES = SNAPSHOT_HEADER_BYTES + MAX_SUBSCRIBE_RANGES * 8 + MAX_SUBSCRIBE_BYTES"

definition QUEUE_LIMIT :: nat where "QUEUE_LIMIT = 64"

record bridge =
  mb_heap :: "MemoryRequest list"
  mb_queue :: "nat list"
  mb_ranges :: "MemoryRange list"
  mb_subscriptionId :: u64
  mb_nextSubscriptionId :: u64
  mb_nextSnapshot :: PollReply
  mb_snapshot :: "bytes option"
  mb_gameRunning :: bool
  mb_writesUnsupported :: bool
  mb_addressSpace :: u64

definition PollReply0 :: PollReply where
  "PollReply0 = \<lparr>PollReply.frame = 0, PollReply.playerRunning = 0, blocks = []\<rparr>"

definition MemoryBridge :: bridge where
  "MemoryBridge = \<lparr>mb_heap = [], mb_queue = [], mb_ranges = [], mb_subscriptionId = 0, mb_nextSubscriptionId = 1,
     mb_nextSnapshot = PollReply0, mb_snapshot = None, mb_gameRunning = False, mb_writesUnsupported = False,
     mb_addressSpace = 0\<rparr>"

definition SetAddressSpace :: "u64 \<Rightarrow> bridge \<Rightarrow> bridge" where
  "SetAddressSpace n b = b\<lparr>mb_addressSpace := n\<rparr>"

definition WritesUnsupported :: "bridge \<Rightarrow> bool" where
  "WritesUnsupported b = mb_writesUnsupported b"

section \<open>Bounds\<close>

definition Wraps :: "u32 \<Rightarrow> u32 \<Rightarrow> bool" where
  "Wraps a n \<longleftrightarrow> unat a + unat n > 0x100000000"

definition BeyondSpace :: "WriteOp list \<Rightarrow> u64 \<Rightarrow> bool" where
  "BeyondSpace os space \<longleftrightarrow> (\<exists>x \<in> set os. space \<noteq> 0 \<and> WriteOp.bytes x \<noteq> [] \<and>
     ucast (WriteOp.address x) + of_nat (length (WriteOp.bytes x)) > space)"

section \<open>Answering a request\<close>

text \<open>The reads of a direct request: chunk by chunk, each read twice, as far as both reads got.\<close>

record read_state =
  rs_bytes :: bytes
  rs_unstable :: "u32 list"

definition chunk_want :: "u32 \<Rightarrow> nat \<Rightarrow> u32" where
  "chunk_want len offset = min READ_CHUNK_BYTES (len - of_nat offset)"

function read_chunks :: "ReadFn \<Rightarrow> nat \<Rightarrow> u32 \<Rightarrow> u32 \<Rightarrow> nat \<Rightarrow> read_state \<Rightarrow> read_state" where
  "read_chunks read k addr len offset st =
     (if offset < unat len then
        let want = chunk_want len offset;
            first = read k (addr + of_nat offset) want;
            again = read (Suc k) (addr + of_nat offset) want;
            got = min (min (length first) (length again)) (unat want)
        in if got = 0 then st
           else let st = \<lparr>rs_bytes = rs_bytes st @ take got first,
                          rs_unstable = if length again \<noteq> length first \<or> take got first \<noteq> take got again
                            then rs_unstable st @ [of_nat offset] else rs_unstable st\<rparr>
                in if got < unat want then st else read_chunks read (k + 2) addr len (offset + unat READ_CHUNK_BYTES) st
      else st)"
  by pat_completeness auto
termination
  by (relation "measure (\<lambda>(read, k, addr, len, offset, st). unat len - offset)") (auto simp: READ_CHUNK_BYTES_def)

declare read_chunks.simps [simp del]

definition direct_reply :: "ReadFn \<Rightarrow> u64 \<Rightarrow> u32 \<Rightarrow> u32 \<Rightarrow> ReadDirectReply" where
  "direct_reply read fr addr len =
     (let st = read_chunks read 0 addr len 0 \<lparr>rs_bytes = [], rs_unstable = []\<rparr>
      in \<lparr>ReadDirectReply.frame = fr, ReadDirectReply.address = addr, unstableOffsets = rs_unstable st,
          ReadDirectReply.bytes = rs_bytes st\<rparr>)"

definition readable :: "ReadFn \<Rightarrow> nat \<Rightarrow> MemoryRange \<Rightarrow> bool" where
  "readable read k r \<longleftrightarrow> length (read k (MemoryRange.address r) (MemoryRange.length' r)) = unat (MemoryRange.length' r)"

fun accept_from :: "ReadFn \<Rightarrow> bool \<Rightarrow> nat \<Rightarrow> MemoryRange list \<Rightarrow> MemoryRange list" where
  "accept_from read gameRunning k [] = []"
| "accept_from read gameRunning k (r # rs) =
     (if \<not> gameRunning \<or> MemoryRange.length' r = 0 then accept_from read gameRunning (Suc k) rs
      else if readable read k r then r # accept_from read gameRunning (Suc k) rs
      else accept_from read gameRunning (Suc k) rs)"

definition Answer :: "ReadFn \<Rightarrow> WriteFn option \<Rightarrow> u64 \<Rightarrow> bool \<Rightarrow> u64 \<Rightarrow> MemoryRequest \<Rightarrow> MemoryRequest" where
  "Answer read write fr gameRunning addressSpace q =
     (case rq_kind q of
        KWrite \<Rightarrow>
          if \<not> gameRunning then q\<lparr>rq_result := MB_NoGame\<rparr>
          else if BeyondSpace (rq_ops q) addressSpace then q\<lparr>rq_result := MB_OutOfRange\<rparr>
          else let n = (case write of Some w \<Rightarrow> w (rq_ops q) | None \<Rightarrow> NO_WRITE_HANDLER)
               in if n = NO_WRITE_HANDLER then q\<lparr>rq_result := MB_Unsupported\<rparr>
                  else if n = 0 then q\<lparr>rq_result := MB_Busy\<rparr>
                  else q\<lparr>rq_writeReply := \<lparr>WriteReply.frame = fr, applied = ucast n\<rparr>, rq_result := MB_Ok\<rparr>
      | KSubscribe \<Rightarrow>
          q\<lparr>rq_accepted := accept_from read gameRunning 0 (rq_ranges q), rq_result := MB_Ok\<rparr>
      | KReadDirect \<Rightarrow>
          if \<not> gameRunning then q\<lparr>rq_result := MB_NoGame\<rparr>
          else let reply = direct_reply read fr (rq_address q) (rq_length q)
               in q\<lparr>rq_reply := reply, rq_result := if ReadDirectReply.bytes reply = [] then MB_OutOfRange else MB_Ok\<rparr>)"

text \<open>Whether answering a write hands its operations to the write function.\<close>

definition hands_over :: "WriteFn option \<Rightarrow> bool \<Rightarrow> u64 \<Rightarrow> MemoryRequest \<Rightarrow> bool" where
  "hands_over write gameRunning addressSpace q \<longleftrightarrow>
     rq_kind q = KWrite \<and> gameRunning \<and> \<not> BeyondSpace (rq_ops q) addressSpace \<and> write \<noteq> None"

definition on_heap :: "(MemoryRequest \<Rightarrow> MemoryRequest) \<Rightarrow> nat list \<Rightarrow> MemoryRequest list \<Rightarrow> MemoryRequest list" where
  "on_heap f ids heap = fold (\<lambda>i h. h[i := f (h ! i)]) ids heap"

definition complete_one :: "nat \<Rightarrow> bridge \<Rightarrow> bridge" where
  "complete_one i b =
     (let q = mb_heap b ! i;
          b = (if rq_kind q = KWrite \<and> rq_result q = MB_Unsupported then b\<lparr>mb_writesUnsupported := True\<rparr> else b);
          b = (if \<not> rq_abandoned q \<and> rq_kind q = KSubscribe \<and> rq_subscriptionId q > mb_subscriptionId b
               then b\<lparr>mb_ranges := rq_accepted q, mb_subscriptionId := rq_subscriptionId q\<rparr> else b)
      in b\<lparr>mb_heap := (mb_heap b)[i := q\<lparr>rq_done := True\<rparr>]\<rparr>)"

definition Complete :: "nat list \<Rightarrow> bridge \<Rightarrow> bridge" where
  "Complete ids b = fold complete_one ids b"

section \<open>The snapshot\<close>

definition resize :: "nat \<Rightarrow> 'a \<Rightarrow> 'a list \<Rightarrow> 'a list" where
  "resize n x xs = take n xs @ replicate (n - length xs) x"

text \<open>The ranges from the \<open>i\<close>-th on, into the blocks; a short read ends it.\<close>

fun snapshot_from :: "ReadFn \<Rightarrow> MemoryRange list \<Rightarrow> nat \<Rightarrow> MemoryBlock list \<Rightarrow> bool \<times> MemoryBlock list" where
  "snapshot_from read [] i bs = (True, bs)"
| "snapshot_from read (r # rs) i bs =
     (let n = unat (MemoryRange.length' r);
          got = read i (MemoryRange.address r) (MemoryRange.length' r);
          buf = resize n 0 (MemoryBlock.bytes (bs ! i));
          bs = bs[i := \<lparr>MemoryBlock.address = MemoryRange.address r, MemoryBlock.bytes = take n (got @ drop (length got) buf)\<rparr>]
      in if length got \<noteq> n then (False, bs) else snapshot_from read rs (Suc i) bs)"

definition TakeSnapshot :: "ReadFn \<Rightarrow> MemoryRange list \<Rightarrow> u64 \<Rightarrow> bool \<Rightarrow> bool \<Rightarrow> bridge \<Rightarrow> bool \<times> bridge" where
  "TakeSnapshot read rs fr running gameRunning b =
     (let s = (mb_nextSnapshot b)\<lparr>PollReply.frame := fr, PollReply.playerRunning := of_bool running\<rparr>
      in if rs = [] \<or> \<not> gameRunning then (False, b\<lparr>mb_nextSnapshot := s\<lparr>blocks := []\<rparr>\<rparr>)
         else case snapshot_from read rs 0 (resize (length rs) MemoryBlock0 (blocks s)) of
                (ok, bs) \<Rightarrow> (ok, b\<lparr>mb_nextSnapshot := s\<lparr>blocks := bs\<rparr>\<rparr>))"

text \<open>The header's memory image, with its two bytes of padding, then the blocks' headers and bytes.\<close>

definition header_image :: "SnapshotHeader \<Rightarrow> bytes" where
  "header_image h = le64 (sh_frame h) @ le64 (sh_rangesId h) @ le32 (sh_blocks h) @ [sh_playerRunning h, sh_complete h, 0, 0]"

definition publish_image :: "PollReply \<Rightarrow> u64 \<Rightarrow> bool \<Rightarrow> bytes" where
  "publish_image s rangesId done =
     header_image \<lparr>sh_frame = PollReply.frame s, sh_rangesId = rangesId, sh_blocks = of_nat (length (blocks s)),
       sh_playerRunning = PollReply.playerRunning s, sh_complete = of_bool done\<rparr> @
     concat (map (\<lambda>b. le32 (MemoryBlock.address b) @ le32 (of_nat (length (MemoryBlock.bytes b)))) (blocks s)) @
     concat (map MemoryBlock.bytes (blocks s))"

definition PublishSnapshot :: "u64 \<Rightarrow> bool \<Rightarrow> bridge \<Rightarrow> bridge" where
  "PublishSnapshot rangesId done b =
     (let image = publish_image (mb_nextSnapshot b) rangesId done
      in if length image > SNAPSHOT_BYTES then b else b\<lparr>mb_snapshot := Some image\<rparr>)"

definition load32 :: "bytes \<Rightarrow> nat \<Rightarrow> u32" where
  "load32 m a = ucast (m ! a) OR push_bit 8 (ucast (m ! (a + 1))) OR push_bit 16 (ucast (m ! (a + 2)))
     OR push_bit 24 (ucast (m ! (a + 3)))"

definition load64 :: "bytes \<Rightarrow> nat \<Rightarrow> u64" where
  "load64 m a = ucast (load32 m a) OR push_bit 32 (ucast (load32 m (a + 4)))"

definition load_header :: "bytes \<Rightarrow> SnapshotHeader" where
  "load_header m = \<lparr>sh_frame = load64 m 0, sh_rangesId = load64 m 8, sh_blocks = load32 m 16,
     sh_playerRunning = m ! 20, sh_complete = m ! 21\<rparr>"

text \<open>The two loops of \<open>Poll\<close>: the addresses and lengths, then the bytes, each checked against what was read.\<close>

fun load_shapes :: "bytes \<Rightarrow> nat \<Rightarrow> nat \<Rightarrow> (u32 \<times> nat) list" where
  "load_shapes m a 0 = []"
| "load_shapes m a (Suc n) = (load32 m a, unat (load32 m (a + 4))) # load_shapes m (a + 8) n"

fun load_blocks :: "bytes \<Rightarrow> nat \<Rightarrow> (u32 \<times> nat) list \<Rightarrow> MemoryBlock list option" where
  "load_blocks m a [] = Some []"
| "load_blocks m a ((addr, n) # rest) =
     (if a + n > length m then None
      else map_option (\<lambda>bs. \<lparr>MemoryBlock.address = addr, MemoryBlock.bytes = take n (drop a m)\<rparr> # bs) (load_blocks m (a + n) rest))"

text \<open>\<open>torn\<close>: the sequence lock's read failed.\<close>

definition Poll :: "bool \<Rightarrow> bridge \<Rightarrow> mb_result \<times> PollReply" where
  "Poll torn b =
     (if \<not> mb_gameRunning b then (MB_NoGame, PollReply0)
      else let image = (if torn then None else case mb_snapshot b of Some m \<Rightarrow> if length m \<ge> SNAPSHOT_HEADER_BYTES then Some m else None | None \<Rightarrow> None)
           in if mb_ranges b = []
              then (MB_Ok, case image of Some m \<Rightarrow> PollReply0\<lparr>PollReply.frame := sh_frame (load_header m),
                                             PollReply.playerRunning := sh_playerRunning (load_header m)\<rparr>
                                      | None \<Rightarrow> PollReply0)
              else case image of
                     None \<Rightarrow> (MB_Busy, PollReply0)
                   | Some m \<Rightarrow>
                       let h = load_header m in
                       if sh_complete h = 0 \<or> sh_rangesId h \<noteq> mb_subscriptionId b then (MB_Busy, PollReply0)
                       else let shapes = load_shapes m SNAPSHOT_HEADER_BYTES (unat (sh_blocks h))
                            in case load_blocks m (SNAPSHOT_HEADER_BYTES + 8 * unat (sh_blocks h)) shapes of
                                 None \<Rightarrow> (MB_Busy, PollReply0)
                               | Some bs \<Rightarrow> (MB_Ok, \<lparr>PollReply.frame = sh_frame h, PollReply.playerRunning = sh_playerRunning h, blocks = bs\<rparr>))"

section \<open>The worker's calls\<close>

text \<open>A call either answers at once, or makes a request to submit.\<close>

definition new_request :: "MemoryRequest \<Rightarrow> bridge \<Rightarrow> nat \<times> bridge" where
  "new_request q b = (length (mb_heap b), b\<lparr>mb_heap := mb_heap b @ [q]\<rparr>)"

definition ResetSubscription :: "bridge \<Rightarrow> bridge" where
  "ResetSubscription b = b\<lparr>mb_ranges := [], mb_subscriptionId := mb_nextSubscriptionId b,
     mb_nextSubscriptionId := mb_nextSubscriptionId b + 1\<rparr>"

definition bridge_Clear :: "bridge \<Rightarrow> bridge" where
  "bridge_Clear b = ResetSubscription (b\<lparr>mb_writesUnsupported := False\<rparr>)"

definition Subscribe :: "MemoryRange list \<Rightarrow> bridge \<Rightarrow> (mb_result + nat) \<times> bridge" where
  "Subscribe rs b =
     (if length rs > MAX_SUBSCRIBE_RANGES then (Inl MB_TooLarge, b)
      else if \<exists>r \<in> set rs. Wraps (MemoryRange.address r) (MemoryRange.length' r) then (Inl MB_OutOfRange, b)
      else if sum_list (map (\<lambda>r. unat (MemoryRange.length' r)) rs) > MAX_SUBSCRIBE_BYTES then (Inl MB_TooLarge, b)
      else if rs = [] \<or> \<not> mb_gameRunning b then (Inl MB_Ok, ResetSubscription b)
      else let q = Request0\<lparr>rq_kind := KSubscribe, rq_ranges := rs, rq_subscriptionId := mb_nextSubscriptionId b\<rparr>;
               (i, b) = new_request q (b\<lparr>mb_nextSubscriptionId := mb_nextSubscriptionId b + 1\<rparr>)
           in (Inr i, b))"

definition ReadDirect :: "u32 \<Rightarrow> u32 \<Rightarrow> bridge \<Rightarrow> (mb_result + nat) \<times> bridge" where
  "ReadDirect addr len b =
     (if len > MAX_READ_DIRECT_BYTES then (Inl MB_TooLarge, b)
      else if len = 0 \<or> Wraps addr len then (Inl MB_OutOfRange, b)
      else if \<not> mb_gameRunning b then (Inl MB_NoGame, b)
      else let (i, b) = new_request (Request0\<lparr>rq_kind := KReadDirect, rq_address := addr, rq_length := len\<rparr>) b in (Inr i, b))"

definition bridge_Write :: "WriteOp list \<Rightarrow> bridge \<Rightarrow> (mb_result + nat) \<times> bridge" where
  "bridge_Write os b =
     (if length os > MAX_WRITE_OPS then (Inl MB_TooLarge, b)
      else if os = [] then (Inl MB_OutOfRange, b)
      else if \<exists>x \<in> set os. Wraps (WriteOp.address x) (of_nat (length (WriteOp.bytes x))) then (Inl MB_OutOfRange, b)
      else if BeyondSpace os (mb_addressSpace b) then (Inl MB_OutOfRange, b)
      else if mb_writesUnsupported b then (Inl MB_Unsupported, b)
      else if \<not> mb_gameRunning b then (Inl MB_NoGame, b)
      else let (i, b) = new_request (Request0\<lparr>rq_kind := KWrite, rq_ops := os\<rparr>) b in (Inr i, b))"

text \<open>
  \<open>Submit\<close> in its two critical sections: entering the queue (or the answer at once), and leaving the wait, which
  either has the answer or abandons the request. \<open>waiting\<close> is the loop's condition.
\<close>

definition no_read :: ReadFn where "no_read k a n = []"

definition Submit_enter :: "nat \<Rightarrow> bridge \<Rightarrow> mb_result option \<times> bridge" where
  "Submit_enter i b =
     (if \<not> mb_gameRunning b then
        let b = Complete [i] (b\<lparr>mb_heap := on_heap (Answer no_read None 0 False 0) [i] (mb_heap b)\<rparr>)
        in (Some (rq_result (mb_heap b ! i)), b)
      else if length (mb_queue b) \<ge> QUEUE_LIMIT then (Some MB_Busy, b)
      else (None, b\<lparr>mb_queue := mb_queue b @ [i]\<rparr>))"

definition waiting :: "MemoryRequest \<Rightarrow> bool \<Rightarrow> bool \<Rightarrow> bool" where
  "waiting q running early \<longleftrightarrow> \<not> (rq_done q \<or> \<not> running) \<and> (rq_kind q = KWrite \<and> rq_taken q \<or> early)"

definition Submit_leave :: "nat \<Rightarrow> bridge \<Rightarrow> mb_result \<times> bridge" where
  "Submit_leave i b =
     (let q = mb_heap b ! i in
      if rq_done q then (rq_result q, b)
      else (MB_Busy, b\<lparr>mb_heap := (mb_heap b)[i := q\<lparr>rq_abandoned := True\<rparr>], mb_queue := removeAll i (mb_queue b)\<rparr>))"

section \<open>The API thread's calls\<close>

definition SetGameRunning :: "bool \<Rightarrow> bridge \<Rightarrow> bridge" where
  "SetGameRunning running b =
     (let b = b\<lparr>mb_gameRunning := running\<rparr> in
      if running then b
      else let pending = mb_queue b;
               b = b\<lparr>mb_queue := [], mb_heap := on_heap (Answer no_read None 0 False 0) pending (mb_heap b)\<rparr>;
               b = Complete pending b
           in PublishSnapshot 0 False (b\<lparr>mb_nextSnapshot := (mb_nextSnapshot b)\<lparr>PollReply.playerRunning := 0, blocks := []\<rparr>\<rparr>))"

text \<open>\<open>Service\<close>: taking the queue, answering and publishing, completing.\<close>

definition service_take :: "bool \<Rightarrow> bridge \<Rightarrow> (nat list \<times> MemoryRange list \<times> u64) \<times> bridge" where
  "service_take gameRunning b =
     ((mb_queue b, mb_ranges b, mb_subscriptionId b),
      b\<lparr>mb_gameRunning := gameRunning, mb_queue := [], mb_heap := on_heap (rq_taken_update (\<lambda>_. True)) (mb_queue b) (mb_heap b)\<rparr>)"

fun answer_all :: "(nat \<Rightarrow> ReadFn) \<Rightarrow> WriteFn option \<Rightarrow> u64 \<Rightarrow> bool \<Rightarrow> nat list \<Rightarrow> MemoryRange list \<times> u64 \<Rightarrow> bridge
    \<Rightarrow> (MemoryRange list \<times> u64) \<times> bridge" where
  "answer_all reads write fr gameRunning [] rr b = (rr, b)"
| "answer_all reads write fr gameRunning (i # work) (rs, rangesId) b =
     (let q = Answer (reads i) write fr gameRunning (mb_addressSpace b) (mb_heap b ! i);
          b = b\<lparr>mb_heap := (mb_heap b)[i := q]\<rparr>;
          rr = (if rq_kind q = KSubscribe \<and> rq_subscriptionId q > rangesId then (rq_accepted q, rq_subscriptionId q) else (rs, rangesId))
      in answer_all reads write fr gameRunning work rr b)"

definition service_answer :: "(nat \<Rightarrow> ReadFn) \<Rightarrow> ReadFn \<Rightarrow> WriteFn option \<Rightarrow> u64 \<Rightarrow> bool \<Rightarrow> bool
    \<Rightarrow> nat list \<times> MemoryRange list \<times> u64 \<Rightarrow> bridge \<Rightarrow> bridge" where
  "service_answer reads snap write fr running gameRunning taken b = (case taken of (work, rs, rangesId) \<Rightarrow>
     case answer_all reads write fr gameRunning work (rs, rangesId) b of ((rs, rangesId), b) \<Rightarrow>
     case TakeSnapshot snap rs fr running gameRunning b of (have, b) \<Rightarrow> PublishSnapshot rangesId have b)"

text \<open>The whole pass, when nothing comes in between; \<open>locked\<close>: the \<^verbatim>\<open>try_lock\<close> failed.\<close>

definition Service :: "bool \<Rightarrow> (nat \<Rightarrow> ReadFn) \<Rightarrow> ReadFn \<Rightarrow> WriteFn option \<Rightarrow> u64 \<Rightarrow> bool \<Rightarrow> bool \<Rightarrow> bridge \<Rightarrow> bridge" where
  "Service locked reads snap write fr running gameRunning b =
     (if locked then b
      else case service_take gameRunning b of (taken, b) \<Rightarrow>
             Complete (fst taken) (service_answer reads snap write fr running gameRunning taken b))"

section \<open>The heap\<close>

lemma Answer_keeps [simp]:
  "rq_kind (Answer read write fr g a q) = rq_kind q" "rq_subscriptionId (Answer read write fr g a q) = rq_subscriptionId q"
  "rq_done (Answer read write fr g a q) = rq_done q" "rq_abandoned (Answer read write fr g a q) = rq_abandoned q"
  "rq_taken (Answer read write fr g a q) = rq_taken q"
  by (cases "rq_kind q"; simp add: Answer_def Let_def)+

lemma length_on_heap [simp]: "length (on_heap f ids h) = length h"
  unfolding on_heap_def by (induction ids arbitrary: h) simp_all

lemma on_heap_nth:
  "distinct ids \<Longrightarrow> j < length h \<Longrightarrow> on_heap f ids h ! j = (if j \<in> set ids then f (h ! j) else h ! j)"
proof (induction ids arbitrary: h)
  case (Cons i ids)
  have "on_heap f (i # ids) h = on_heap f ids (h[i := f (h ! i)])" by (simp add: on_heap_def)
  then show ?case using Cons.IH [of "h[i := f (h ! i)]"] Cons.prems
    by (cases "j = i") (auto simp: nth_list_update_eq nth_list_update_neq)
qed (simp add: on_heap_def)

text \<open>Completing: every request is done, and the subscription is the old one or one of the requests'.\<close>

lemma Complete_spec:
  assumes "distinct ids" "set ids \<subseteq> {..<length (mb_heap b)}"
  shows "mb_heap (Complete ids b) = on_heap (rq_done_update (\<lambda>_. True)) ids (mb_heap b) \<and>
    mb_queue (Complete ids b) = mb_queue b \<and> mb_nextSubscriptionId (Complete ids b) = mb_nextSubscriptionId b \<and>
    mb_snapshot (Complete ids b) = mb_snapshot b \<and> mb_nextSnapshot (Complete ids b) = mb_nextSnapshot b \<and>
    mb_gameRunning (Complete ids b) = mb_gameRunning b \<and>
    (mb_ranges (Complete ids b) = mb_ranges b \<and> mb_subscriptionId (Complete ids b) = mb_subscriptionId b \<or>
     (\<exists>i \<in> set ids. rq_kind (mb_heap b ! i) = KSubscribe \<and> mb_ranges (Complete ids b) = rq_accepted (mb_heap b ! i) \<and>
        mb_subscriptionId (Complete ids b) = rq_subscriptionId (mb_heap b ! i)))"
  using assms
proof (induction ids arbitrary: b)
  case Nil
  then show ?case by (simp add: Complete_def on_heap_def)
next
  case (Cons i ids)
  let ?c = "complete_one i b"
  have step: "Complete (i # ids) b = Complete ids ?c" by (simp add: Complete_def)
  have c: "mb_heap ?c = (mb_heap b)[i := (mb_heap b ! i)\<lparr>rq_done := True\<rparr>]" "mb_queue ?c = mb_queue b"
    "mb_nextSubscriptionId ?c = mb_nextSubscriptionId b" "mb_snapshot ?c = mb_snapshot b"
    "mb_nextSnapshot ?c = mb_nextSnapshot b" "mb_gameRunning ?c = mb_gameRunning b"
    by (simp_all add: complete_one_def Let_def)
  have sub: "mb_ranges ?c = mb_ranges b \<and> mb_subscriptionId ?c = mb_subscriptionId b \<or>
    rq_kind (mb_heap b ! i) = KSubscribe \<and> mb_ranges ?c = rq_accepted (mb_heap b ! i) \<and> mb_subscriptionId ?c = rq_subscriptionId (mb_heap b ! i)"
    by (simp add: complete_one_def Let_def)
  have other: "mb_heap ?c ! j = mb_heap b ! j" if "j \<in> set ids" for j
  proof -
    have "j \<noteq> i" using that Cons.prems(1) by auto
    then show ?thesis by (simp add: c(1))
  qed
  have ih: "distinct ids" "set ids \<subseteq> {..<length (mb_heap ?c)}" using Cons.prems c(1) by auto
  have heap: "on_heap (rq_done_update (\<lambda>_. True)) ids (mb_heap ?c) = on_heap (rq_done_update (\<lambda>_. True)) (i # ids) (mb_heap b)"
    by (simp add: c(1) on_heap_def)
  show ?case unfolding step using Cons.IH [OF ih] c(2-6) heap sub other by auto
qed

lemma answer_all_spec:
  assumes "distinct work" "set work \<subseteq> {..<length (mb_heap b)}"
    and "answer_all reads write fr g work (rs, rid) b = ((rs', rid'), b')"
  shows "(\<exists>h. b' = b\<lparr>mb_heap := h\<rparr> \<and> length h = length (mb_heap b) \<and>
      (\<forall>j < length h. h ! j = (if j \<in> set work then Answer (reads j) write fr g (mb_addressSpace b) (mb_heap b ! j) else mb_heap b ! j)))
    \<and> (rs' = rs \<and> rid' = rid \<or> (\<exists>i \<in> set work. rq_kind (mb_heap b' ! i) = KSubscribe \<and> rs' = rq_accepted (mb_heap b' ! i)
        \<and> rid' = rq_subscriptionId (mb_heap b' ! i)))"
  using assms
proof (induction work arbitrary: rs rid b)
  case Nil
  then show ?case by (auto intro!: exI [of _ "mb_heap b"])
next
  case (Cons i work)
  define q where "q = Answer (reads i) write fr g (mb_addressSpace b) (mb_heap b ! i)"
  define b1 where "b1 = b\<lparr>mb_heap := (mb_heap b)[i := q]\<rparr>"
  define rr where "rr = (if rq_kind q = KSubscribe \<and> rq_subscriptionId q > rid then (rq_accepted q, rq_subscriptionId q) else (rs, rid))"
  obtain rs1 rid1 where rr1: "rr = (rs1, rid1)" by (cases rr)
  have i: "i < length (mb_heap b)" "i \<notin> set work" using Cons.prems(1,2) by auto
  have step: "answer_all reads write fr g work (rs1, rid1) b1 = ((rs', rid'), b')"
    using Cons.prems(3) rr1 unfolding answer_all.simps Let_def q_def [symmetric] b1_def [symmetric] rr_def [symmetric] by simp
  have "distinct work" "set work \<subseteq> {..<length (mb_heap b1)}" using Cons.prems(1,2) by (auto simp: b1_def)
  from Cons.IH [OF this step] obtain h where h: "b' = b1\<lparr>mb_heap := h\<rparr>" "length h = length (mb_heap b1)"
    "\<forall>j < length h. h ! j = (if j \<in> set work then Answer (reads j) write fr g (mb_addressSpace b1) (mb_heap b1 ! j) else mb_heap b1 ! j)"
    and sub: "rs' = rs1 \<and> rid' = rid1 \<or> (\<exists>i \<in> set work. rq_kind (mb_heap b' ! i) = KSubscribe \<and> rs' = rq_accepted (mb_heap b' ! i)
        \<and> rid' = rq_subscriptionId (mb_heap b' ! i))" by blast
  have b': "b' = b\<lparr>mb_heap := h\<rparr>" "length h = length (mb_heap b)" using h(1,2) by (simp_all add: b1_def)
  have nth: "h ! j = (if j \<in> set (i # work) then Answer (reads j) write fr g (mb_addressSpace b) (mb_heap b ! j) else mb_heap b ! j)"
    if "j < length h" for j
    using h(2,3) that i by (auto simp: b1_def q_def nth_list_update)
  have hi: "mb_heap b' ! i = q" using nth [of i] i b' by (simp add: q_def)
  show ?case
  proof (intro conjI)
    show "\<exists>h. b' = b\<lparr>mb_heap := h\<rparr> \<and> length h = length (mb_heap b) \<and>
      (\<forall>j < length h. h ! j = (if j \<in> set (i # work) then Answer (reads j) write fr g (mb_addressSpace b) (mb_heap b ! j) else mb_heap b ! j))"
      using b' nth by blast
    from sub show "rs' = rs \<and> rid' = rid \<or> (\<exists>j \<in> set (i # work). rq_kind (mb_heap b' ! j) = KSubscribe \<and> rs' = rq_accepted (mb_heap b' ! j)
        \<and> rid' = rq_subscriptionId (mb_heap b' ! j))"
    proof
      assume "rs' = rs1 \<and> rid' = rid1"
      with rr1 hi show ?thesis by (auto simp: rr_def split: if_splits)
    qed auto
  qed
qed

section \<open>The snapshot survives the crossing\<close>

lemma load32_le32: "load32 (pre @ le32 x @ post) (length pre) = x"
proof -
  have "(pre @ le32 x @ post) ! (length pre + k) = le32 x ! k" if "k < 4" for k using that by (simp add: nth_append)
  from this [of 0] this [of 1] this [of 2] this [of 3] show ?thesis using le32_join [of x] by (simp add: load32_def)
qed

lemma load32_at: "m = pre @ le32 x @ post \<Longrightarrow> a = length pre \<Longrightarrow> load32 m a = x"
  by (simp add: load32_le32)

lemma load64_at: "m = pre @ le64 x @ post \<Longrightarrow> a = length pre \<Longrightarrow> load64 m a = x"
proof -
  assume m: "m = pre @ le64 x @ post" and a: "a = length pre"
  have "load32 m a = ucast (x AND 0xFFFFFFFF)"
    by (rule load32_at [of _ pre _ "le32 (ucast (drop_bit 32 x AND 0xFFFFFFFF)) @ post"]) (simp_all add: m a le64_def)
  moreover have "load32 m (a + 4) = ucast (drop_bit 32 x AND 0xFFFFFFFF)"
    by (rule load32_at [of _ "pre @ le32 (ucast (x AND 0xFFFFFFFF))" _ post]) (simp_all add: m a le64_def)
  ultimately show ?thesis using le64_join [of x] by (simp add: load64_def)
qed

lemma length_header_image [simp]: "length (header_image h) = 24"
  by (simp add: header_image_def)

lemma load_header_image: "load_header (header_image h @ rest) = h"
proof -
  have "load64 (header_image h @ rest) 0 = sh_frame h"
    by (rule load64_at [of _ "[]"]) (simp_all add: header_image_def)
  moreover have "load64 (header_image h @ rest) 8 = sh_rangesId h"
    by (rule load64_at [of _ "le64 (sh_frame h)"]) (simp_all add: header_image_def)
  moreover have "load32 (header_image h @ rest) 16 = sh_blocks h"
    by (rule load32_at [of _ "le64 (sh_frame h) @ le64 (sh_rangesId h)"]) (simp_all add: header_image_def)
  moreover have "(header_image h @ rest) ! 20 = sh_playerRunning h" "(header_image h @ rest) ! 21 = sh_complete h"
    by (simp_all add: header_image_def nth_append)
  ultimately show ?thesis by (simp add: load_header_def)
qed

definition shape_image :: "MemoryBlock \<Rightarrow> bytes" where
  "shape_image b = le32 (MemoryBlock.address b) @ le32 (of_nat (length (MemoryBlock.bytes b)))"

lemma length_shape_image [simp]: "length (shape_image b) = 8"
  by (simp add: shape_image_def)

lemma length_shapes [simp]: "length (concat (map shape_image bs)) = 8 * length bs"
  by (induction bs) simp_all

lemma load_shapes_image:
  assumes "\<forall>b \<in> set bs. length (MemoryBlock.bytes b) < 2 ^ 32"
  shows "load_shapes (pre @ concat (map shape_image bs) @ post) (length pre) (length bs)
    = map (\<lambda>b. (MemoryBlock.address b, length (MemoryBlock.bytes b))) bs"
  using assms
proof (induction bs arbitrary: pre)
  case (Cons b bs)
  let ?m = "pre @ concat (map shape_image (b # bs)) @ post"
  have "load32 ?m (length pre) = MemoryBlock.address b"
    by (rule load32_at [of _ pre]) (simp_all add: shape_image_def)
  moreover have "load32 ?m (length pre + 4) = of_nat (length (MemoryBlock.bytes b))"
    by (rule load32_at [of _ "pre @ le32 (MemoryBlock.address b)"]) (simp_all add: shape_image_def)
  moreover have "load_shapes ?m (length pre + 8) (length bs) = map (\<lambda>b. (MemoryBlock.address b, length (MemoryBlock.bytes b))) bs"
    using Cons.IH [of "pre @ shape_image b"] Cons.prems by simp
  moreover have "unat (of_nat (length (MemoryBlock.bytes b)) :: u32) = length (MemoryBlock.bytes b)"
    using Cons.prems by (intro unat_of_nat_u32) simp
  ultimately show ?case by simp
qed simp

lemma load_blocks_image:
  "load_blocks (pre @ concat (map MemoryBlock.bytes bs)) (length pre) (map (\<lambda>b. (MemoryBlock.address b, length (MemoryBlock.bytes b))) bs) = Some bs"
proof (induction bs arbitrary: pre)
  case (Cons b bs)
  from Cons.IH [of "pre @ MemoryBlock.bytes b"] show ?case by simp
qed simp

lemma length_publish_image:
  "length (publish_image s rid c) = 24 + 8 * length (blocks s) + sum_list (map (\<lambda>b. length (MemoryBlock.bytes b)) (blocks s))"
  by (simp add: publish_image_def length_concat comp_def sum_list_triv)

lemma published:
  assumes "length (publish_image s rid c) \<le> SNAPSHOT_BYTES"
  defines "m \<equiv> publish_image s rid c"
  shows "load_header m = \<lparr>sh_frame = PollReply.frame s, sh_rangesId = rid, sh_blocks = of_nat (length (blocks s)),
      sh_playerRunning = PollReply.playerRunning s, sh_complete = of_bool c\<rparr>"
    and "unat (sh_blocks (load_header m)) = length (blocks s)"
    and "load_shapes m 24 (length (blocks s)) = map (\<lambda>b. (MemoryBlock.address b, length (MemoryBlock.bytes b))) (blocks s)"
    and "load_blocks m (24 + 8 * length (blocks s)) (map (\<lambda>b. (MemoryBlock.address b, length (MemoryBlock.bytes b))) (blocks s)) = Some (blocks s)"
proof -
  let ?h = "\<lparr>sh_frame = PollReply.frame s, sh_rangesId = rid, sh_blocks = of_nat (length (blocks s)),
      sh_playerRunning = PollReply.playerRunning s, sh_complete = of_bool c\<rparr>"
  have m: "m = header_image ?h @ concat (map shape_image (blocks s)) @ concat (map MemoryBlock.bytes (blocks s))"
    by (simp add: m_def publish_image_def shape_image_def [abs_def])
  have len: "8 * length (blocks s) + sum_list (map (\<lambda>b. length (MemoryBlock.bytes b)) (blocks s)) \<le> 16896"
    using assms(1) by (simp add: length_publish_image SNAPSHOT_BYTES_def SNAPSHOT_HEADER_BYTES_def MAX_SUBSCRIBE_RANGES_def MAX_SUBSCRIBE_BYTES_def)
  have each: "length (MemoryBlock.bytes b) \<le> 16896" if "b \<in> set (blocks s)" for b
    using member_le_sum_list [of "length (MemoryBlock.bytes b)" "map (\<lambda>b. length (MemoryBlock.bytes b)) (blocks s)"] that len by simp
  show h: "load_header m = ?h" unfolding m by (rule load_header_image)
  show "unat (sh_blocks (load_header m)) = length (blocks s)" using len by (simp add: h unat_of_nat_u32)
  show "load_shapes m 24 (length (blocks s)) = map (\<lambda>b. (MemoryBlock.address b, length (MemoryBlock.bytes b))) (blocks s)"
    using load_shapes_image [of "blocks s" "header_image ?h"] each unfolding m by fastforce
  show "load_blocks m (24 + 8 * length (blocks s)) (map (\<lambda>b. (MemoryBlock.address b, length (MemoryBlock.bytes b))) (blocks s)) = Some (blocks s)"
    using load_blocks_image [of "header_image ?h @ concat (map shape_image (blocks s))" "blocks s"] unfolding m by simp
qed

end
