(* ===== verification/Memory_Protocol.thy ===== *)
theory Memory_Protocol
  imports Memory_Bridge
begin

text \<open>
  The memory bridge between its two threads: every interleaving of the worker's calls with the API
  thread's, a critical section at a time. Beside the two program counters the state has three ghosts:
  the requests whose write operations were handed to PinMAME, the requests the worker was told are
  busy and will be retried, and the accepted set of every subscription answered so far.
\<close>

section \<open>The system\<close>

datatype worker_pc = W_Idle | W_Submit nat | W_Wait nat
datatype api_pc = A_Idle | A_Taken "nat list" "MemoryRange list" u64 bool | A_Published "nat list"

record bridge_sys =
  bs_bridge :: bridge
  bs_worker :: worker_pc
  bs_api :: api_pc
  bs_applied :: "nat list"
  bs_refused :: "nat set"
  bs_sets :: "u64 \<Rightarrow> MemoryRange list option"

datatype memory_call = C_Subscribe "MemoryRange list" | C_ReadDirect u32 u32 | C_Write "WriteOp list"

fun call_bridge :: "memory_call \<Rightarrow> bridge \<Rightarrow> (mb_result + nat) \<times> bridge" where
  "call_bridge (C_Subscribe rs) b = Subscribe rs b"
| "call_bridge (C_ReadDirect a n) b = ReadDirect a n b"
| "call_bridge (C_Write os) b = bridge_Write os b"

definition record_sets :: "nat list \<Rightarrow> bridge \<Rightarrow> (u64 \<Rightarrow> MemoryRange list option) \<Rightarrow> u64 \<Rightarrow> MemoryRange list option" where
  "record_sets ids b sets = fold (\<lambda>i G. if rq_kind (mb_heap b ! i) = KSubscribe
     then G(rq_subscriptionId (mb_heap b ! i) := Some (rq_accepted (mb_heap b ! i))) else G) ids sets"

inductive bridge_reach :: "bridge_sys \<Rightarrow> bool" where
  br_init: "bridge_reach \<lparr>bs_bridge = MemoryBridge, bs_worker = W_Idle, bs_api = A_Idle, bs_applied = [], bs_refused = {},
    bs_sets = (\<lambda>_. None)\<rparr>"
| br_call: "bridge_reach s \<Longrightarrow> bs_worker s = W_Idle \<Longrightarrow> mb_nextSubscriptionId (bs_bridge s) \<noteq> -1 \<Longrightarrow>
    call_bridge c (bs_bridge s) = (r, b) \<Longrightarrow>
    bridge_reach (s\<lparr>bs_bridge := b, bs_worker := case r of Inl _ \<Rightarrow> W_Idle | Inr i \<Rightarrow> W_Submit i\<rparr>)"
| br_clear: "bridge_reach s \<Longrightarrow> bs_worker s = W_Idle \<Longrightarrow> mb_nextSubscriptionId (bs_bridge s) \<noteq> -1 \<Longrightarrow>
    bridge_reach (s\<lparr>bs_bridge := bridge_Clear (bs_bridge s)\<rparr>)"
| br_enter: "bridge_reach s \<Longrightarrow> bs_worker s = W_Submit i \<Longrightarrow> Submit_enter i (bs_bridge s) = (r, b) \<Longrightarrow>
    bridge_reach (s\<lparr>bs_bridge := b, bs_worker := case r of Some _ \<Rightarrow> W_Idle | None \<Rightarrow> W_Wait i,
      bs_refused := if mb_gameRunning (bs_bridge s) \<and> r \<noteq> None then insert i (bs_refused s) else bs_refused s,
      bs_sets := if mb_gameRunning (bs_bridge s) then bs_sets s else record_sets [i] b (bs_sets s)\<rparr>)"
| br_leave: "bridge_reach s \<Longrightarrow> bs_worker s = W_Wait i \<Longrightarrow> \<not> waiting (mb_heap (bs_bridge s) ! i) running early \<Longrightarrow>
    Submit_leave i (bs_bridge s) = (r, b) \<Longrightarrow>
    bridge_reach (s\<lparr>bs_bridge := b, bs_worker := W_Idle,
      bs_refused := if running \<and> \<not> rq_done (mb_heap (bs_bridge s) ! i) then insert i (bs_refused s) else bs_refused s\<rparr>)"
| br_space: "bridge_reach s \<Longrightarrow> bridge_reach (s\<lparr>bs_bridge := SetAddressSpace n (bs_bridge s)\<rparr>)"
| br_running: "bridge_reach s \<Longrightarrow> bs_api s = A_Idle \<Longrightarrow> b = SetGameRunning g (bs_bridge s) \<Longrightarrow>
    bridge_reach (s\<lparr>bs_bridge := b, bs_sets := if g then bs_sets s else record_sets (mb_queue (bs_bridge s)) b (bs_sets s)\<rparr>)"
| br_take: "bridge_reach s \<Longrightarrow> bs_api s = A_Idle \<Longrightarrow> service_take g (bs_bridge s) = ((work, rs, rid), b) \<Longrightarrow>
    bridge_reach (s\<lparr>bs_bridge := b, bs_api := A_Taken work rs rid g\<rparr>)"
| br_answer: "bridge_reach s \<Longrightarrow> bs_api s = A_Taken work rs rid g \<Longrightarrow>
    service_answer reads snap write fr running g (work, rs, rid) (bs_bridge s) = b \<Longrightarrow>
    bridge_reach (s\<lparr>bs_bridge := b, bs_api := A_Published work,
      bs_applied := bs_applied s @ filter (\<lambda>i. hands_over write g (mb_addressSpace (bs_bridge s)) (mb_heap (bs_bridge s) ! i)) work,
      bs_sets := record_sets work b (bs_sets s)\<rparr>)"
| br_complete: "bridge_reach s \<Longrightarrow> bs_api s = A_Published work \<Longrightarrow>
    bridge_reach (s\<lparr>bs_bridge := Complete work (bs_bridge s), bs_api := A_Idle\<rparr>)"

section \<open>Invariants\<close>

fun api_work :: "api_pc \<Rightarrow> nat list" where
  "api_work A_Idle = []"
| "api_work (A_Taken work rs rid g) = work"
| "api_work (A_Published work) = work"

fun api_unanswered :: "api_pc \<Rightarrow> nat list" where
  "api_unanswered (A_Taken work rs rid g) = work"
| "api_unanswered a = []"

fun submitting :: "worker_pc \<Rightarrow> nat set" where
  "submitting (W_Submit i) = {i}"
| "submitting w = {}"

fun at_request :: "worker_pc \<Rightarrow> nat set" where
  "at_request W_Idle = {}"
| "at_request (W_Submit i) = {i}"
| "at_request (W_Wait i) = {i}"

definition valid_ids :: "bridge_sys \<Rightarrow> bool" where
  "valid_ids s \<longleftrightarrow> set (mb_queue (bs_bridge s)) \<union> set (api_work (bs_api s)) \<union> at_request (bs_worker s) \<union> set (bs_applied s) \<union> bs_refused s
     \<subseteq> {..<length (mb_heap (bs_bridge s))}"

text \<open>Who holds a request: the queue, the frame in progress, or the worker that is about to submit it.\<close>

definition held_once :: "bridge_sys \<Rightarrow> bool" where
  "held_once s \<longleftrightarrow> distinct (mb_queue (bs_bridge s) @ api_work (bs_api s)) \<and>
     (\<forall>i \<in> set (mb_queue (bs_bridge s)) \<union> submitting (bs_worker s). \<not> rq_taken (mb_heap (bs_bridge s) ! i)) \<and>
     (\<forall>i \<in> set (api_work (bs_api s)). rq_taken (mb_heap (bs_bridge s) ! i)) \<and>
     submitting (bs_worker s) \<inter> set (mb_queue (bs_bridge s)) = {}"

definition writes_once :: "bridge_sys \<Rightarrow> bool" where
  "writes_once s \<longleftrightarrow> distinct (bs_applied s) \<and> set (bs_applied s) \<inter> set (api_unanswered (bs_api s)) = {} \<and>
     (\<forall>i \<in> set (bs_applied s). rq_taken (mb_heap (bs_bridge s) ! i) \<and> rq_kind (mb_heap (bs_bridge s) ! i) = KWrite) \<and>
     bs_refused s \<inter> (set (mb_queue (bs_bridge s)) \<union> at_request (bs_worker s)) = {} \<and>
     (\<forall>i \<in> bs_refused s. rq_kind (mb_heap (bs_bridge s) ! i) = KWrite \<longrightarrow> \<not> rq_taken (mb_heap (bs_bridge s) ! i))"

lemmas queue_inv_defs = valid_ids_def held_once_def writes_once_def

text \<open>Operations that leave kinds and taken flags alone.\<close>

definition same_flags :: "MemoryRequest list \<Rightarrow> MemoryRequest list \<Rightarrow> bool" where
  "same_flags h h' \<longleftrightarrow> length h' = length h \<and> (\<forall>i < length h. rq_kind (h' ! i) = rq_kind (h ! i) \<and> rq_taken (h' ! i) = rq_taken (h ! i)
     \<and> rq_subscriptionId (h' ! i) = rq_subscriptionId (h ! i))"

lemma same_flags_refl: "same_flags h h"
  by (simp add: same_flags_def)

lemma same_flags_trans: "same_flags a b \<Longrightarrow> same_flags b c \<Longrightarrow> same_flags a c"
  by (simp add: same_flags_def)

lemma same_flags_on_heap:
  assumes "distinct ids" "\<And>q. rq_kind (f q) = rq_kind q" "\<And>q. rq_taken (f q) = rq_taken q"
    "\<And>q. rq_subscriptionId (f q) = rq_subscriptionId q"
  shows "same_flags h (on_heap f ids h)"
  using assms by (simp add: same_flags_def on_heap_nth)

lemma same_flags_Complete:
  assumes "distinct ids" "set ids \<subseteq> {..<length (mb_heap b)}"
  shows "same_flags (mb_heap b) (mb_heap (Complete ids b))"
  using Complete_spec [OF assms] same_flags_on_heap [OF assms(1), of "rq_done_update (\<lambda>_. True)" "mb_heap b"] by simp

lemma same_flags_answer_all:
  assumes "distinct work" "set work \<subseteq> {..<length (mb_heap b)}" "answer_all reads write fr g work (rs, rid) b = (rr, b')"
  shows "same_flags (mb_heap b) (mb_heap b')"
proof -
  obtain rs' rid' where "rr = (rs', rid')" by (cases rr)
  from answer_all_spec [OF assms(1,2) assms(3) [unfolded this]] obtain h where "b' = b\<lparr>mb_heap := h\<rparr>" "length h = length (mb_heap b)"
    "\<forall>j < length h. h ! j = (if j \<in> set work then Answer (reads j) write fr g (mb_addressSpace b) (mb_heap b ! j) else mb_heap b ! j)" by blast
  then show ?thesis by (simp add: same_flags_def)
qed

lemma TakeSnapshot_keeps:
  assumes "TakeSnapshot read rs fr running g b = (ok, b')"
  shows "\<exists>s. b' = b\<lparr>mb_nextSnapshot := s\<rparr>"
  using assms by (auto simp: TakeSnapshot_def Let_def split: if_splits prod.splits)

lemma PublishSnapshot_keeps: "\<exists>m. PublishSnapshot rid c b = b\<lparr>mb_snapshot := m\<rparr>"
  by (cases "length (publish_image (mb_nextSnapshot b) rid c) > SNAPSHOT_BYTES")
    (auto simp: PublishSnapshot_def Let_def intro: exI [of _ "mb_snapshot b"])

text \<open>One step of the invariants for every step that moves no request between holders.\<close>

lemma quiet_step:
  assumes inv: "valid_ids s" "held_once s" "writes_once s"
    and flags: "same_flags (mb_heap (bs_bridge s)) (mb_heap (bs_bridge s'))"
    and q: "mb_queue (bs_bridge s') = mb_queue (bs_bridge s) \<or> mb_queue (bs_bridge s') = []"
    and w: "bs_worker s' = bs_worker s \<or> bs_worker s' = W_Idle"
    and a: "api_work (bs_api s') = api_work (bs_api s) \<and> set (api_unanswered (bs_api s')) \<subseteq> set (api_unanswered (bs_api s))
      \<or> bs_api s' = A_Idle"
    and g: "bs_applied s' = bs_applied s" "bs_refused s' = bs_refused s"
  shows "valid_ids s' \<and> held_once s' \<and> writes_once s'"
proof -
  let ?h = "mb_heap (bs_bridge s)" and ?h' = "mb_heap (bs_bridge s')"
  have len: "length ?h' = length ?h" using flags by (simp add: same_flags_def)
  have fl: "rq_taken (?h' ! i) = rq_taken (?h ! i)" "rq_kind (?h' ! i) = rq_kind (?h ! i)" if "i < length ?h" for i
    using flags that by (simp_all add: same_flags_def)
  have sub: "set (mb_queue (bs_bridge s')) \<subseteq> set (mb_queue (bs_bridge s))" "set (api_work (bs_api s')) \<subseteq> set (api_work (bs_api s))"
    "set (api_unanswered (bs_api s')) \<subseteq> set (api_unanswered (bs_api s))"
    "at_request (bs_worker s') \<subseteq> at_request (bs_worker s)" "submitting (bs_worker s') \<subseteq> submitting (bs_worker s)"
    using q w a by auto
  have dist: "distinct (mb_queue (bs_bridge s') @ api_work (bs_api s'))"
    using inv(2) q a by (auto simp: held_once_def)
  have sv: "submitting (bs_worker s) \<subseteq> at_request (bs_worker s)" by (cases "bs_worker s") auto
  have v: "valid_ids s'" using inv(1) sub(1,2,4) len g by (auto simp: valid_ids_def)
  moreover have "held_once s'"
    unfolding held_once_def
  proof (intro conjI ballI)
    fix i assume "i \<in> set (mb_queue (bs_bridge s')) \<union> submitting (bs_worker s')"
    then have "i \<in> set (mb_queue (bs_bridge s)) \<union> submitting (bs_worker s)" using sub(1,5) by blast
    moreover from this have "i < length ?h" using inv(1) sv by (auto simp: valid_ids_def)
    ultimately show "\<not> rq_taken (?h' ! i)" using inv(2) fl(1) by (simp add: held_once_def)
  next
    fix i assume "i \<in> set (api_work (bs_api s'))"
    then have "i \<in> set (api_work (bs_api s))" using sub(2) by blast
    moreover from this have "i < length ?h" using inv(1) by (auto simp: valid_ids_def)
    ultimately show "rq_taken (?h' ! i)" using inv(2) fl(1) by (simp add: held_once_def)
  next
    show "submitting (bs_worker s') \<inter> set (mb_queue (bs_bridge s')) = {}" using inv(2) sub(1,5) by (auto simp: held_once_def)
  qed (rule dist)
  moreover have "writes_once s'"
    unfolding writes_once_def g
  proof (intro conjI ballI)
    show "distinct (bs_applied s)" "set (bs_applied s) \<inter> set (api_unanswered (bs_api s')) = {}"
      using inv(3) sub(3) by (auto simp: writes_once_def)
    show "bs_refused s \<inter> (set (mb_queue (bs_bridge s')) \<union> at_request (bs_worker s')) = {}"
      using inv(3) sub(1,4) by (auto simp: writes_once_def)
    fix i assume i: "i \<in> set (bs_applied s)"
    then have "i < length ?h" using inv(1) by (auto simp: valid_ids_def)
    then show "rq_taken (?h' ! i)" "rq_kind (?h' ! i) = KWrite" using inv(3) fl i by (simp_all add: writes_once_def)
  next
    fix i assume i: "i \<in> bs_refused s"
    then have "i < length ?h" using inv(1) by (auto simp: valid_ids_def)
    then show "rq_kind (?h' ! i) = KWrite \<longrightarrow> \<not> rq_taken (?h' ! i)" using inv(3) fl i by (simp add: writes_once_def)
  qed
  ultimately show ?thesis by blast
qed

lemma SetGameRunning_keeps:
  assumes "distinct (mb_queue b)" "set (mb_queue b) \<subseteq> {..<length (mb_heap b)}"
  shows "same_flags (mb_heap b) (mb_heap (SetGameRunning g b))"
    and "mb_queue (SetGameRunning g b) = (if g then mb_queue b else [])"
proof -
  let ?b = "b\<lparr>mb_gameRunning := False, mb_queue := [], mb_heap := on_heap (Answer no_read None 0 False 0) (mb_queue b) (mb_heap b)\<rparr>"
  have f1: "same_flags (mb_heap b) (mb_heap ?b)" using same_flags_on_heap [OF assms(1)] by simp
  have ids: "set (mb_queue b) \<subseteq> {..<length (mb_heap ?b)}" using assms(2) by simp
  note c = Complete_spec [OF assms(1) ids] and f2 = same_flags_Complete [OF assms(1) ids]
  obtain m where m: "SetGameRunning False b = (Complete (mb_queue b) ?b)\<lparr>mb_nextSnapshot :=
      (mb_nextSnapshot (Complete (mb_queue b) ?b))\<lparr>PollReply.playerRunning := 0, blocks := []\<rparr>, mb_snapshot := m\<rparr>"
    using PublishSnapshot_keeps [of 0 False "(Complete (mb_queue b) ?b)\<lparr>mb_nextSnapshot :=
      (mb_nextSnapshot (Complete (mb_queue b) ?b))\<lparr>PollReply.playerRunning := 0, blocks := []\<rparr>\<rparr>"]
    by (auto simp: SetGameRunning_def Let_def)
  have "same_flags (mb_heap b) (mb_heap (SetGameRunning False b))" using same_flags_trans [OF f1 f2] by (simp add: m)
  moreover have "mb_queue (SetGameRunning False b) = []" using c by (simp add: m)
  ultimately show "same_flags (mb_heap b) (mb_heap (SetGameRunning g b))" "mb_queue (SetGameRunning g b) = (if g then mb_queue b else [])"
    by (cases g; simp add: SetGameRunning_def same_flags_refl)+
qed

lemma service_answer_keeps:
  assumes "distinct work" "set work \<subseteq> {..<length (mb_heap b)}"
    and "service_answer reads snap write fr running g (work, rs, rid) b = b'"
  shows "same_flags (mb_heap b) (mb_heap b')" "mb_queue b' = mb_queue b"
proof -
  obtain rs1 rid1 b1 where a: "answer_all reads write fr g work (rs, rid) b = ((rs1, rid1), b1)"
    by (metis surj_pair)
  obtain ok b2 where t: "TakeSnapshot snap rs1 fr running g b1 = (ok, b2)" by (cases "TakeSnapshot snap rs1 fr running g b1")
  obtain s where b2: "b2 = b1\<lparr>mb_nextSnapshot := s\<rparr>" using TakeSnapshot_keeps [OF t] by blast
  obtain m where "PublishSnapshot rid1 ok b2 = b2\<lparr>mb_snapshot := m\<rparr>" using PublishSnapshot_keeps by blast
  with assms(3) a t have b': "b' = b2\<lparr>mb_snapshot := m\<rparr>" by (simp add: service_answer_def)
  show "same_flags (mb_heap b) (mb_heap b')" using same_flags_answer_all [OF assms(1,2) a] by (simp add: b' b2)
  show "mb_queue b' = mb_queue b" using answer_all_spec [OF assms(1,2) a] by (auto simp: b' b2)
qed

text \<open>The steps that move a request: making it, entering the queue, leaving the wait, and being taken.\<close>

definition queue_inv :: "bridge_sys \<Rightarrow> bool" where
  "queue_inv s \<longleftrightarrow> valid_ids s \<and> held_once s \<and> writes_once s"

definition call_effect :: "mb_result + nat \<Rightarrow> bridge \<Rightarrow> bridge \<Rightarrow> bool" where
  "call_effect r b b' \<longleftrightarrow> mb_queue b' = mb_queue b \<and>
     ((\<exists>x. r = Inl x) \<and> mb_heap b' = mb_heap b \<or>
      r = Inr (length (mb_heap b)) \<and> (\<exists>q. mb_heap b' = mb_heap b @ [q] \<and> \<not> rq_taken q))"

lemma call_effect: "call_bridge c b = (r, b') \<Longrightarrow> call_effect r b b'"
proof (cases c)
  case (C_Subscribe rs)
  moreover assume "call_bridge c b = (r, b')"
  ultimately show ?thesis
    by (auto simp: call_effect_def Subscribe_def new_request_def ResetSubscription_def Request0_def Let_def split: if_splits)
next
  case (C_ReadDirect a n)
  moreover assume "call_bridge c b = (r, b')"
  ultimately show ?thesis by (auto simp: call_effect_def ReadDirect_def new_request_def Request0_def Let_def split: if_splits)
next
  case (C_Write os)
  moreover assume "call_bridge c b = (r, b')"
  ultimately show ?thesis by (auto simp: call_effect_def bridge_Write_def new_request_def Request0_def Let_def split: if_splits)
qed

lemma call_cases:
  assumes "call_bridge c b = (r, b')"
  obtains x where "r = Inl x" "mb_heap b' = mb_heap b" "mb_queue b' = mb_queue b"
  | q where "r = Inr (length (mb_heap b))" "mb_heap b' = mb_heap b @ [q]" "mb_queue b' = mb_queue b" "\<not> rq_taken q"
  using call_effect [OF assms] unfolding call_effect_def by blast

lemma queue_inv_call:
  assumes inv: "queue_inv s" and w: "bs_worker s = W_Idle" and c: "call_bridge c (bs_bridge s) = (r, b)"
  shows "queue_inv (s\<lparr>bs_bridge := b, bs_worker := case r of Inl _ \<Rightarrow> W_Idle | Inr i \<Rightarrow> W_Submit i\<rparr>)"
  using c
proof (cases rule: call_cases)
  case (1 x)
  then show ?thesis using inv w quiet_step [of s "s\<lparr>bs_bridge := b, bs_worker := W_Idle\<rparr>"]
    by (auto simp: queue_inv_def same_flags_refl)
next
  case (2 q)
  let ?h = "mb_heap (bs_bridge s)"
  have lt: "i < length ?h" if "i \<in> set (mb_queue (bs_bridge s)) \<union> set (api_work (bs_api s)) \<union> set (bs_applied s) \<union> bs_refused s" for i
    using that inv by (auto simp: queue_inv_def valid_ids_def)
  have nth: "(?h @ [q]) ! i = ?h ! i" if "i < length ?h" for i using that by (simp add: nth_append)
  have "valid_ids (s\<lparr>bs_bridge := b, bs_worker := W_Submit (length ?h)\<rparr>)"
    using lt 2 by (auto simp: valid_ids_def less_Suc_eq)
  moreover have "held_once (s\<lparr>bs_bridge := b, bs_worker := W_Submit (length ?h)\<rparr>)"
    using inv lt nth 2 by (auto simp: queue_inv_def held_once_def)
  moreover have "writes_once (s\<lparr>bs_bridge := b, bs_worker := W_Submit (length ?h)\<rparr>)"
    using inv lt nth 2 by (auto simp: queue_inv_def writes_once_def)
  ultimately show ?thesis using 2(1) by (simp add: queue_inv_def)
qed

lemma queue_inv_enter:
  assumes inv: "queue_inv s" and w: "bs_worker s = W_Submit i" and e: "Submit_enter i (bs_bridge s) = (r, b)"
  shows "queue_inv (s\<lparr>bs_bridge := b, bs_worker := case r of Some _ \<Rightarrow> W_Idle | None \<Rightarrow> W_Wait i,
      bs_refused := if mb_gameRunning (bs_bridge s) \<and> r \<noteq> None then insert i (bs_refused s) else bs_refused s, bs_sets := G\<rparr>)"
proof -
  let ?b = "bs_bridge s"
  have i: "i < length (mb_heap ?b)" "\<not> rq_taken (mb_heap ?b ! i)" "i \<notin> set (mb_queue ?b)" "i \<notin> bs_refused s"
    using inv w by (auto simp: queue_inv_def queue_inv_defs)
  have nw: "i \<notin> set (api_work (bs_api s))" using i(2) inv by (auto simp: queue_inv_def held_once_def)
  consider "\<not> mb_gameRunning ?b" | "mb_gameRunning ?b" "r = Some MB_Busy" "b = ?b"
    | "mb_gameRunning ?b" "r = None" "b = ?b\<lparr>mb_queue := mb_queue ?b @ [i]\<rparr>"
    using e by (auto simp: Submit_enter_def Let_def split: if_splits)
  then show ?thesis
  proof cases
    case 1
    let ?c = "?b\<lparr>mb_heap := on_heap (Answer no_read None 0 False 0) [i] (mb_heap ?b)\<rparr>"
    have ids: "distinct [i]" "set [i] \<subseteq> {..<length (mb_heap ?c)}" using i(1) by simp_all
    have b: "b = Complete [i] ?c" "r \<noteq> None" using e 1 by (auto simp: Submit_enter_def Let_def)
    have "same_flags (mb_heap ?b) (mb_heap ?c)" using same_flags_on_heap [OF ids(1)] by simp
    then have "same_flags (mb_heap ?b) (mb_heap b)" using same_flags_Complete [OF ids] b(1) same_flags_trans by blast
    moreover have "mb_queue b = mb_queue ?b" using Complete_spec [OF ids] b(1) by simp
    ultimately show ?thesis using inv 1 b(2) quiet_step [of s "s\<lparr>bs_bridge := b, bs_worker := W_Idle, bs_sets := G\<rparr>"]
      by (auto simp: queue_inv_def)
  next
    case 2
    with inv i nw w show ?thesis by (auto simp: queue_inv_def queue_inv_defs)
  next
    case 3
    with inv i nw w show ?thesis by (auto simp: queue_inv_def queue_inv_defs)
  qed
qed

lemma queue_inv_leave:
  assumes inv: "queue_inv s" and w: "bs_worker s = W_Wait i" and nw: "\<not> waiting (mb_heap (bs_bridge s) ! i) running early"
    and e: "Submit_leave i (bs_bridge s) = (r, b)"
  shows "queue_inv (s\<lparr>bs_bridge := b, bs_worker := W_Idle,
      bs_refused := if running \<and> \<not> rq_done (mb_heap (bs_bridge s) ! i) then insert i (bs_refused s) else bs_refused s\<rparr>)"
proof -
  let ?b = "bs_bridge s" and ?q = "mb_heap (bs_bridge s) ! i"
  have i: "i < length (mb_heap ?b)" using inv w by (auto simp: queue_inv_def valid_ids_def)
  show ?thesis
  proof (cases "rq_done ?q")
    case True
    then show ?thesis using inv e quiet_step [of s "s\<lparr>bs_worker := W_Idle\<rparr>"]
      by (auto simp: queue_inv_def Submit_leave_def same_flags_refl)
  next
    case False
    let ?b' = "?b\<lparr>mb_heap := (mb_heap ?b)[i := ?q\<lparr>rq_abandoned := True\<rparr>], mb_queue := removeAll i (mb_queue ?b)\<rparr>"
    have b: "b = ?b'" using e False by (simp add: Submit_leave_def)
    have nth: "rq_taken (mb_heap ?b' ! j) = rq_taken (mb_heap ?b ! j)" "rq_kind (mb_heap ?b' ! j) = rq_kind (mb_heap ?b ! j)" for j
      using i by (cases "j = i"; simp)+
    have tk: "rq_kind ?q = KWrite \<longrightarrow> \<not> rq_taken ?q" if running using nw False that by (auto simp: waiting_def)
    have "valid_ids (s\<lparr>bs_bridge := ?b', bs_worker := W_Idle, bs_refused := if running then insert i (bs_refused s) else bs_refused s\<rparr>)"
      using inv i by (auto simp: queue_inv_def valid_ids_def)
    moreover have "held_once (s\<lparr>bs_bridge := ?b', bs_worker := W_Idle, bs_refused := if running then insert i (bs_refused s) else bs_refused s\<rparr>)"
      using inv nth by (auto simp: queue_inv_def held_once_def distinct_removeAll)
    moreover have "writes_once (s\<lparr>bs_bridge := ?b', bs_worker := W_Idle, bs_refused := if running then insert i (bs_refused s) else bs_refused s\<rparr>)"
      using inv nth tk w by (auto simp: queue_inv_def writes_once_def)
    ultimately show ?thesis using False by (simp add: queue_inv_def b)
  qed
qed

lemma queue_inv_take:
  assumes inv: "queue_inv s" and a: "bs_api s = A_Idle" and t: "service_take g (bs_bridge s) = ((work, rs, rid), b)"
  shows "queue_inv (s\<lparr>bs_bridge := b, bs_api := A_Taken work rs rid g\<rparr>)"
proof -
  let ?b = "bs_bridge s"
  have w: "work = mb_queue ?b" and b: "b = ?b\<lparr>mb_gameRunning := g, mb_queue := [], mb_heap := on_heap (rq_taken_update (\<lambda>_. True)) work (mb_heap ?b)\<rparr>"
    using t by (auto simp: service_take_def)
  have d: "distinct work" "set work \<subseteq> {..<length (mb_heap ?b)}" using inv w by (auto simp: queue_inv_def held_once_def valid_ids_def)
  have nth: "mb_heap b ! j = (if j \<in> set work then (mb_heap ?b ! j)\<lparr>rq_taken := True\<rparr> else mb_heap ?b ! j)" if "j < length (mb_heap ?b)" for j
    using on_heap_nth [OF d(1) that] by (simp add: b)
  have v: "i < length (mb_heap ?b)" if "i \<in> at_request (bs_worker s) \<union> set (bs_applied s) \<union> bs_refused s" for i
    using that inv by (auto simp: queue_inv_def valid_ids_def)
  have sv: "submitting (bs_worker s) \<subseteq> at_request (bs_worker s)" by (cases "bs_worker s") auto
  have ap: "set (bs_applied s) \<inter> set work = {}" "bs_refused s \<inter> set work = {}" "submitting (bs_worker s) \<inter> set work = {}"
    using inv w by (auto simp: queue_inv_def held_once_def writes_once_def)
  have "valid_ids (s\<lparr>bs_bridge := b, bs_api := A_Taken work rs rid g\<rparr>)" using inv d(2) by (auto simp: queue_inv_def valid_ids_def b)
  moreover have "held_once (s\<lparr>bs_bridge := b, bs_api := A_Taken work rs rid g\<rparr>)"
    unfolding held_once_def
  proof (intro conjI ballI)
    fix i assume "i \<in> set (mb_queue (bs_bridge (s\<lparr>bs_bridge := b, bs_api := A_Taken work rs rid g\<rparr>)))
      \<union> submitting (bs_worker (s\<lparr>bs_bridge := b, bs_api := A_Taken work rs rid g\<rparr>))"
    then have "i \<in> submitting (bs_worker s)" by (simp add: b)
    moreover from this have "i < length (mb_heap ?b)" "i \<notin> set work" using v sv ap(3) by blast+
    ultimately show "\<not> rq_taken (mb_heap (bs_bridge (s\<lparr>bs_bridge := b, bs_api := A_Taken work rs rid g\<rparr>)) ! i)"
      using inv nth by (simp add: queue_inv_def held_once_def)
  qed (use d nth in \<open>auto simp: b\<close>)
  moreover have "writes_once (s\<lparr>bs_bridge := b, bs_api := A_Taken work rs rid g\<rparr>)"
  proof -
    have "rq_taken (mb_heap b ! i) \<and> rq_kind (mb_heap b ! i) = KWrite" if "i \<in> set (bs_applied s)" for i
      using that v nth inv ap(1) by (auto simp: queue_inv_def writes_once_def)
    moreover have "rq_kind (mb_heap b ! i) = KWrite \<longrightarrow> \<not> rq_taken (mb_heap b ! i)" if "i \<in> bs_refused s" for i
      using that v nth inv ap(2) by (auto simp: queue_inv_def writes_once_def)
    moreover have "mb_queue b = []" by (simp add: b)
    ultimately show ?thesis using inv ap by (auto simp: queue_inv_def writes_once_def)
  qed
  ultimately show ?thesis by (simp add: queue_inv_def)
qed

lemma queue_inv_answer:
  assumes inv: "queue_inv s" and a: "bs_api s = A_Taken work rs rid g"
    and e: "service_answer reads snap write fr running g (work, rs, rid) (bs_bridge s) = b"
  shows "queue_inv (s\<lparr>bs_bridge := b, bs_api := A_Published work,
      bs_applied := bs_applied s @ filter (\<lambda>i. hands_over write g (mb_addressSpace (bs_bridge s)) (mb_heap (bs_bridge s) ! i)) work, bs_sets := G\<rparr>)"
proof -
  let ?b = "bs_bridge s" and ?new = "filter (\<lambda>i. hands_over write g (mb_addressSpace (bs_bridge s)) (mb_heap (bs_bridge s) ! i)) work"
  have d: "distinct work" "set work \<subseteq> {..<length (mb_heap ?b)}" using inv a by (auto simp: queue_inv_def held_once_def valid_ids_def)
  note keeps = service_answer_keeps [OF d e]
  have base: "queue_inv (s\<lparr>bs_bridge := b, bs_api := A_Published work, bs_sets := G\<rparr>)"
    using inv a keeps quiet_step [of s "s\<lparr>bs_bridge := b, bs_api := A_Published work, bs_sets := G\<rparr>"]
    by (auto simp: queue_inv_def)
  have fl: "rq_taken (mb_heap b ! i) = rq_taken (mb_heap ?b ! i)" "rq_kind (mb_heap b ! i) = rq_kind (mb_heap ?b ! i)" "length (mb_heap b) = length (mb_heap ?b)"
    if "i \<in> set work" for i using keeps(1) that d(2) by (auto simp: same_flags_def)
  have new: "rq_taken (mb_heap b ! i)" "rq_kind (mb_heap b ! i) = KWrite" "i < length (mb_heap b)" if "i \<in> set ?new" for i
  proof -
    from that have i: "i \<in> set work" "rq_kind (mb_heap ?b ! i) = KWrite" by (auto simp: hands_over_def)
    moreover have "rq_taken (mb_heap ?b ! i)" using inv a i(1) by (simp add: queue_inv_def held_once_def)
    ultimately show "rq_taken (mb_heap b ! i)" "rq_kind (mb_heap b ! i) = KWrite" "i < length (mb_heap b)"
      using fl [OF i(1)] d(2) by auto
  qed
  have "set (bs_applied s) \<inter> set work = {}" using inv a by (simp add: queue_inv_def writes_once_def)
  with base new d(1) show ?thesis by (auto simp: queue_inv_def queue_inv_defs)
qed

lemma queue_inv_reach:
  assumes "bridge_reach s"
  shows "queue_inv s"
  using assms
proof (induction rule: bridge_reach.induct)
  case br_init
  show ?case by (simp add: queue_inv_def queue_inv_defs MemoryBridge_def)
next
  case (br_call s c r b)
  then show ?case by (intro queue_inv_call)
next
  case (br_clear s)
  then show ?case using quiet_step [of s "s\<lparr>bs_bridge := bridge_Clear (bs_bridge s)\<rparr>"]
    by (auto simp: queue_inv_def bridge_Clear_def ResetSubscription_def same_flags_refl)
next
  case (br_enter s i r b)
  then show ?case by (intro queue_inv_enter)
next
  case (br_leave s i running early r b)
  then show ?case by (intro queue_inv_leave)
next
  case (br_space s n)
  then show ?case using quiet_step [of s "s\<lparr>bs_bridge := SetAddressSpace n (bs_bridge s)\<rparr>"]
    by (auto simp: queue_inv_def SetAddressSpace_def same_flags_refl)
next
  case (br_running s b g)
  then have "distinct (mb_queue (bs_bridge s))" "set (mb_queue (bs_bridge s)) \<subseteq> {..<length (mb_heap (bs_bridge s))}"
    by (auto simp: queue_inv_def held_once_def valid_ids_def)
  note k = SetGameRunning_keeps [OF this, of g]
  show ?case using br_running k quiet_step [of s "s\<lparr>bs_bridge := b, bs_sets := if g then bs_sets s else record_sets (mb_queue (bs_bridge s)) b (bs_sets s)\<rparr>"]
    by (auto simp: queue_inv_def split: if_splits)
next
  case (br_take s g work rs rid b)
  then show ?case by (intro queue_inv_take)
next
  case (br_answer s work rs rid g reads snap wr fr running b)
  then show ?case by (intro queue_inv_answer)
next
  case (br_complete s work)
  then have d: "distinct work" "set work \<subseteq> {..<length (mb_heap (bs_bridge s))}" by (auto simp: queue_inv_def held_once_def valid_ids_def)
  show ?case using br_complete quiet_step [of s "s\<lparr>bs_bridge := Complete work (bs_bridge s), bs_api := A_Idle\<rparr>"]
      same_flags_Complete [OF d] Complete_spec [OF d] by (auto simp: queue_inv_def)
qed

section \<open>Subscriptions and snapshots\<close>

definition block_shape :: "MemoryBlock \<Rightarrow> u32 \<times> nat" where
  "block_shape b = (MemoryBlock.address b, length (MemoryBlock.bytes b))"

definition range_shape :: "MemoryRange \<Rightarrow> u32 \<times> nat" where
  "range_shape r = (MemoryRange.address r, unat (MemoryRange.length' r))"

lemma snapshot_from_shapes:
  assumes "snapshot_from read rs i bs = (True, bs')" "i + length rs \<le> length bs"
  shows "length bs' = length bs \<and> (\<forall>j < i. bs' ! j = bs ! j) \<and> (\<forall>j < length rs. block_shape (bs' ! (i + j)) = range_shape (rs ! j))"
  using assms
proof (induction rs arbitrary: i bs)
  case (Cons r rs)
  let ?n = "unat (MemoryRange.length' r)" and ?got = "read i (MemoryRange.address r) (MemoryRange.length' r)"
  define b1 where "b1 = \<lparr>MemoryBlock.address = MemoryRange.address r,
    MemoryBlock.bytes = take ?n (?got @ drop (length ?got) (resize ?n 0 (MemoryBlock.bytes (bs ! i))))\<rparr>"
  from Cons.prems(1) have got: "length ?got = ?n" and rest: "snapshot_from read rs (Suc i) (bs[i := b1]) = (True, bs')"
    by (simp_all add: b1_def Let_def split: if_splits)
  have ih: "length bs' = length bs" "\<forall>j < Suc i. bs' ! j = (bs[i := b1]) ! j"
    "\<forall>j < length rs. block_shape (bs' ! (Suc i + j)) = range_shape (rs ! j)"
    using Cons.IH [OF rest] Cons.prems(2) by simp_all
  have "block_shape (bs' ! i) = range_shape r"
    using ih(2) Cons.prems(2) got by (simp add: b1_def block_shape_def range_shape_def)
  moreover have "bs' ! j = bs ! j" if "j < i" for j using ih(2) that by simp
  moreover have "block_shape (bs' ! (i + j)) = range_shape ((r # rs) ! j)" if "j < Suc (length rs)" for j
    using that ih(3) \<open>block_shape (bs' ! i) = range_shape r\<close> by (cases j) auto
  ultimately show ?case using ih(1) by simp
qed simp

lemma TakeSnapshot_shapes:
  assumes "TakeSnapshot read rs fr running g b = (True, b')"
  shows "map block_shape (blocks (mb_nextSnapshot b')) = map range_shape rs" "rs \<noteq> []"
proof -
  from assms have rs: "rs \<noteq> []" "g" by (auto simp: TakeSnapshot_def Let_def split: if_splits)
  then show "rs \<noteq> []" by simp
  let ?bs = "resize (length rs) MemoryBlock0 (blocks (mb_nextSnapshot b))"
  have len: "length ?bs = length rs" by (simp add: resize_def)
  obtain ok bs' where s: "snapshot_from read rs 0 ?bs = (ok, bs')" by (cases "snapshot_from read rs 0 ?bs")
  with assms rs have "ok" "blocks (mb_nextSnapshot b') = bs'" by (auto simp: TakeSnapshot_def Let_def split: prod.splits)
  moreover from this have "length bs' = length rs \<and> (\<forall>j < length rs. block_shape (bs' ! j) = range_shape (rs ! j))"
    using snapshot_from_shapes [of read rs 0 ?bs bs'] s len by simp
  ultimately show "map block_shape (blocks (mb_nextSnapshot b')) = map range_shape rs" by (simp add: list_eq_iff_nth_eq)
qed

definition sub_id :: "bridge_sys \<Rightarrow> nat \<Rightarrow> u64" where
  "sub_id s i = rq_subscriptionId (mb_heap (bs_bridge s) ! i)"

definition is_sub :: "bridge_sys \<Rightarrow> nat \<Rightarrow> bool" where
  "is_sub s i \<longleftrightarrow> i < length (mb_heap (bs_bridge s)) \<and> rq_kind (mb_heap (bs_bridge s) ! i) = KSubscribe"

definition unanswered :: "bridge_sys \<Rightarrow> nat set" where
  "unanswered s = set (mb_queue (bs_bridge s)) \<union> set (api_unanswered (bs_api s)) \<union> submitting (bs_worker s)"

definition ids_unique :: "bridge_sys \<Rightarrow> bool" where
  "ids_unique s \<longleftrightarrow> (\<forall>i. is_sub s i \<longrightarrow> sub_id s i < mb_nextSubscriptionId (bs_bridge s)) \<and>
     (\<forall>i j. is_sub s i \<longrightarrow> is_sub s j \<longrightarrow> sub_id s i = sub_id s j \<longrightarrow> i = j) \<and>
     (\<forall>k. bs_sets s k \<noteq> None \<longrightarrow> k < mb_nextSubscriptionId (bs_bridge s)) \<and>
     (\<forall>i \<in> unanswered s. is_sub s i \<longrightarrow> bs_sets s (sub_id s i) = None)"

definition image_ok :: "(u64 \<Rightarrow> MemoryRange list option) \<Rightarrow> bytes \<Rightarrow> bool" where
  "image_ok G m \<longleftrightarrow> (\<exists>p rid c. m = publish_image p rid c \<and> length m \<le> SNAPSHOT_BYTES \<and>
     (c \<longrightarrow> (\<exists>rs. G rid = Some rs \<and> map block_shape (blocks p) = map range_shape rs)))"

definition sets_ok :: "bridge_sys \<Rightarrow> bool" where
  "sets_ok s \<longleftrightarrow> (mb_ranges (bs_bridge s) \<noteq> [] \<longrightarrow> bs_sets s (mb_subscriptionId (bs_bridge s)) = Some (mb_ranges (bs_bridge s))) \<and>
     (case bs_api s of A_Taken work rs rid g \<Rightarrow> rs \<noteq> [] \<longrightarrow> bs_sets s rid = Some rs
      | A_Published work \<Rightarrow> \<forall>i \<in> set work. is_sub s i \<longrightarrow> bs_sets s (sub_id s i) = Some (rq_accepted (mb_heap (bs_bridge s) ! i))
      | A_Idle \<Rightarrow> True) \<and>
     (case mb_snapshot (bs_bridge s) of Some m \<Rightarrow> image_ok (bs_sets s) m | None \<Rightarrow> True)"

definition extends :: "(u64 \<Rightarrow> MemoryRange list option) \<Rightarrow> (u64 \<Rightarrow> MemoryRange list option) \<Rightarrow> bool" where
  "extends G G' \<longleftrightarrow> (\<forall>k v. G k = Some v \<longrightarrow> G' k = Some v)"

lemma image_ok_extends: "image_ok G m \<Longrightarrow> extends G G' \<Longrightarrow> image_ok G' m"
  unfolding image_ok_def extends_def by blast

lemma record_sets_other:
  "(\<And>i. i \<in> set ids \<Longrightarrow> rq_kind (mb_heap b ! i) = KSubscribe \<Longrightarrow> rq_subscriptionId (mb_heap b ! i) \<noteq> k) \<Longrightarrow> record_sets ids b G k = G k"
proof (induction ids arbitrary: G)
  case (Cons i ids)
  have "record_sets (i # ids) b G = record_sets ids b (record_sets [i] b G)" by (simp add: record_sets_def)
  moreover have "record_sets [i] b G k = G k" using Cons.prems [of i] by (auto simp: record_sets_def)
  ultimately show ?case using Cons.IH [of "record_sets [i] b G"] Cons.prems by auto
qed (simp add: record_sets_def)

lemma record_sets_at:
  assumes "distinct ids" "i \<in> set ids" "rq_kind (mb_heap b ! i) = KSubscribe"
    and "\<And>j. j \<in> set ids \<Longrightarrow> rq_kind (mb_heap b ! j) = KSubscribe \<Longrightarrow> rq_subscriptionId (mb_heap b ! j) = rq_subscriptionId (mb_heap b ! i) \<Longrightarrow> j = i"
  shows "record_sets ids b G (rq_subscriptionId (mb_heap b ! i)) = Some (rq_accepted (mb_heap b ! i))"
  using assms
proof (induction ids arbitrary: G)
  case (Cons j ids)
  have step: "record_sets (j # ids) b G = record_sets ids b (record_sets [j] b G)" by (simp add: record_sets_def)
  show ?case
  proof (cases "j = i")
    case True
    have "record_sets ids b (record_sets [i] b G) (rq_subscriptionId (mb_heap b ! i)) = record_sets [i] b G (rq_subscriptionId (mb_heap b ! i))"
      by (rule record_sets_other) (use Cons.prems True in auto)
    with True step Cons.prems(3) show ?thesis by (simp add: record_sets_def)
  next
    case False
    then show ?thesis unfolding step using Cons by auto
  qed
qed simp

text \<open>Recording the answers of unanswered requests adds to the sets and changes none.\<close>

lemma record_sets_extends:
  assumes "ids_unique s" "set ids \<subseteq> unanswered s" "set ids \<subseteq> {..<length (mb_heap (bs_bridge s))}"
    and flags: "same_flags (mb_heap (bs_bridge s)) (mb_heap b)"
  shows "extends (bs_sets s) (record_sets ids b (bs_sets s))"
  unfolding extends_def
proof (intro allI impI)
  fix k v assume k: "bs_sets s k = Some v"
  have "record_sets ids b (bs_sets s) k = bs_sets s k"
  proof (rule record_sets_other)
    fix i assume i: "i \<in> set ids" "rq_kind (mb_heap b ! i) = KSubscribe"
    then have lt: "i < length (mb_heap (bs_bridge s))" using assms(3) by auto
    then have "is_sub s i" "sub_id s i = rq_subscriptionId (mb_heap b ! i)"
      using i flags by (auto simp: is_sub_def sub_id_def same_flags_def)
    with assms(1,2) i(1) k show "rq_subscriptionId (mb_heap b ! i) \<noteq> k" unfolding ids_unique_def by fastforce
  qed
  with k show "record_sets ids b (bs_sets s) k = Some v" by simp
qed

lemma record_sets_domain:
  assumes "ids_unique s" "set ids \<subseteq> {..<length (mb_heap (bs_bridge s))}" "same_flags (mb_heap (bs_bridge s)) (mb_heap b)"
    and "record_sets ids b (bs_sets s) k \<noteq> None"
  shows "k < mb_nextSubscriptionId (bs_bridge s)" "bs_sets s k \<noteq> None \<or> (\<exists>i \<in> set ids. is_sub s i \<and> sub_id s i = k)"
proof -
  have *: "bs_sets s k \<noteq> None \<or> (\<exists>i \<in> set ids. is_sub s i \<and> sub_id s i = k)"
  proof (rule ccontr)
    assume neg: "\<not> ?thesis"
    moreover have "record_sets ids b (bs_sets s) k = bs_sets s k"
    proof (rule record_sets_other)
      fix i assume i: "i \<in> set ids" "rq_kind (mb_heap b ! i) = KSubscribe"
      then have "is_sub s i" "sub_id s i = rq_subscriptionId (mb_heap b ! i)"
        using assms(2,3) by (auto simp: is_sub_def sub_id_def same_flags_def)
      with neg i(1) show "rq_subscriptionId (mb_heap b ! i) \<noteq> k" by auto
    qed
    ultimately show False using assms(4) by simp
  qed
  then show "bs_sets s k \<noteq> None \<or> (\<exists>i \<in> set ids. is_sub s i \<and> sub_id s i = k)" .
  with assms(1) show "k < mb_nextSubscriptionId (bs_bridge s)" unfolding ids_unique_def by blast
qed

text \<open>
  A step that answers the requests \<open>ids\<close> (or none), moves no id back to unanswered and makes no new
  request keeps the ids unique.
\<close>

lemma ids_unique_step:
  assumes u: "ids_unique s" and ids: "set ids \<subseteq> unanswered s" "set ids \<subseteq> {..<length (mb_heap (bs_bridge s))}"
    and flags: "same_flags (mb_heap (bs_bridge s)) (mb_heap (bs_bridge s'))"
    and nxt: "mb_nextSubscriptionId (bs_bridge s') = mb_nextSubscriptionId (bs_bridge s)"
    and sets: "bs_sets s' = record_sets ids b (bs_sets s)" "same_flags (mb_heap (bs_bridge s)) (mb_heap b)"
    and un: "unanswered s' \<subseteq> unanswered s - set ids"
  shows "ids_unique s'"
proof -
  have sub: "is_sub s' i \<longleftrightarrow> is_sub s i" "is_sub s i \<Longrightarrow> sub_id s' i = sub_id s i" for i
    using flags by (auto simp: is_sub_def sub_id_def same_flags_def)
  have none: "bs_sets s' (sub_id s' i) = None" if "i \<in> unanswered s'" "is_sub s' i" for i
  proof (rule ccontr)
    assume "bs_sets s' (sub_id s' i) \<noteq> None"
    then have "bs_sets s (sub_id s i) \<noteq> None \<or> (\<exists>j \<in> set ids. is_sub s j \<and> sub_id s j = sub_id s i)"
      using record_sets_domain(2) [OF u ids(2) sets(2)] sets(1) sub that by simp
    moreover have "bs_sets s (sub_id s i) = None" using u un that sub unfolding ids_unique_def by blast
    ultimately obtain j where "j \<in> set ids" "is_sub s j" "sub_id s j = sub_id s i" by blast
    moreover from this have "j = i" using u sub that unfolding ids_unique_def by blast
    ultimately show False using un that by blast
  qed
  have dom: "k < mb_nextSubscriptionId (bs_bridge s')" if "bs_sets s' k \<noteq> None" for k
    using record_sets_domain(1) [OF u ids(2) sets(2)] sets(1) nxt that by simp
  show ?thesis unfolding ids_unique_def
  proof (intro conjI allI ballI impI)
    fix i assume "is_sub s' i"
    then show "sub_id s' i < mb_nextSubscriptionId (bs_bridge s')" using u sub nxt unfolding ids_unique_def by simp
  next
    fix i j assume "is_sub s' i" "is_sub s' j" "sub_id s' i = sub_id s' j"
    then show "i = j" using u sub unfolding ids_unique_def by metis
  qed (use none dom in blast)+
qed

lemma sub_same:
  assumes "same_flags (mb_heap (bs_bridge s)) (mb_heap (bs_bridge s'))"
  shows "is_sub s' i \<longleftrightarrow> is_sub s i" "is_sub s i \<Longrightarrow> sub_id s' i = sub_id s i"
  using assms by (auto simp: is_sub_def sub_id_def same_flags_def)

lemma ids_unique_quiet:
  assumes "ids_unique s" "same_flags (mb_heap (bs_bridge s)) (mb_heap (bs_bridge s'))"
    and "mb_nextSubscriptionId (bs_bridge s') = mb_nextSubscriptionId (bs_bridge s)" "bs_sets s' = bs_sets s"
    and "unanswered s' \<subseteq> unanswered s"
  shows "ids_unique s'"
  using ids_unique_step [of s "[]" s' "bs_bridge s"] assms by (simp add: record_sets_def same_flags_refl)

text \<open>New ids: a subscription id below the next one is never that of a new request, nor recorded.\<close>

lemma ids_unique_next:
  assumes u: "ids_unique s" and nxt: "mb_nextSubscriptionId (bs_bridge s) \<noteq> -1"
    and heap: "mb_heap b = mb_heap (bs_bridge s) @ new" "length new \<le> 1"
    and n: "mb_nextSubscriptionId b = mb_nextSubscriptionId (bs_bridge s) \<or> mb_nextSubscriptionId b = mb_nextSubscriptionId (bs_bridge s) + 1"
    and q: "\<And>q. q \<in> set new \<Longrightarrow> rq_kind q = KSubscribe \<Longrightarrow> rq_subscriptionId q = mb_nextSubscriptionId (bs_bridge s) \<and>
      mb_nextSubscriptionId b = mb_nextSubscriptionId (bs_bridge s) + 1"
    and queue: "mb_queue b = mb_queue (bs_bridge s)" and s': "bs_bridge s' = b" "bs_sets s' = bs_sets s" "bs_api s' = bs_api s"
    and w: "submitting (bs_worker s') \<subseteq> {length (mb_heap (bs_bridge s))} \<union> submitting (bs_worker s)"
    and v: "unanswered s \<subseteq> {..<length (mb_heap (bs_bridge s))}"
  shows "ids_unique s'"
proof -
  let ?n = "mb_nextSubscriptionId (bs_bridge s)" and ?len = "length (mb_heap (bs_bridge s))"
  have lt: "?n < ?n + 1"
  proof -
    have "1 + ?n \<noteq> 0" using nxt by (metis add.commute add_eq_0_iff)
    then have "unat (1 + ?n) = Suc (unat ?n)" by (rule unatSuc)
    then show ?thesis by (simp add: word_less_nat_alt add.commute)
  qed
  have le: "?n \<le> mb_nextSubscriptionId b" using n lt by auto
  have sub: "is_sub s' i \<Longrightarrow> is_sub s i \<and> sub_id s' i = sub_id s i \<or> i = ?len \<and> sub_id s' i = ?n \<and> mb_nextSubscriptionId b = ?n + 1" for i
  proof -
    assume i: "is_sub s' i"
    show ?thesis
    proof (cases "i < ?len")
      case True
      with i heap s' show ?thesis by (auto simp: is_sub_def sub_id_def nth_append)
    next
      case False
      with i heap s' have e: "i = ?len" "new \<noteq> []" by (auto simp: is_sub_def)
      then have "(mb_heap b) ! i = hd new" "hd new \<in> set new" using heap by (simp_all add: nth_append hd_conv_nth)
      with e q [of "hd new"] i s' show ?thesis by (auto simp: is_sub_def sub_id_def)
    qed
  qed
  have old: "sub_id s i < ?n" if "is_sub s i" for i using u that by (simp add: ids_unique_def)
  have un: "unanswered s' \<subseteq> insert ?len (unanswered s)" using w queue s' by (auto simp: unanswered_def)
  have fresh: "bs_sets s ?n = None" using u unfolding ids_unique_def by (metis less_irrefl)
  show ?thesis unfolding ids_unique_def
  proof (intro conjI allI ballI impI)
    fix i assume "is_sub s' i"
    with sub [OF this] old [of i] le lt s' show "sub_id s' i < mb_nextSubscriptionId (bs_bridge s')" by auto
  next
    fix i j assume a: "is_sub s' i" "is_sub s' j" "sub_id s' i = sub_id s' j"
    show "i = j"
      using sub [OF a(1)] sub [OF a(2)] a(3) old [of i] old [of j] u unfolding ids_unique_def by (metis less_irrefl)
  next
    fix k assume "bs_sets s' k \<noteq> None"
    then have "k < ?n" using u s' by (simp add: ids_unique_def)
    with le s' show "k < mb_nextSubscriptionId (bs_bridge s')" by simp
  next
    fix i assume a: "i \<in> unanswered s'" "is_sub s' i"
    show "bs_sets s' (sub_id s' i) = None"
    proof (cases "i = ?len")
      case True
      then have "\<not> is_sub s i" by (simp add: is_sub_def)
      with sub [OF a(2)] fresh s' show ?thesis by auto
    next
      case False
      with a un have "i \<in> unanswered s" by blast
      moreover have "is_sub s i" "sub_id s' i = sub_id s i" using sub [OF a(2)] False by auto
      ultimately show ?thesis using u s' by (simp add: ids_unique_def)
    qed
  qed
qed

text \<open>The sets hold across a step whose sets extend the old ones and whose snapshot is kept.\<close>

lemma sets_ok_step:
  assumes ok: "sets_ok s" and ext: "extends (bs_sets s) (bs_sets s')"
    and r: "mb_ranges (bs_bridge s') = [] \<or> mb_ranges (bs_bridge s') = mb_ranges (bs_bridge s) \<and> mb_subscriptionId (bs_bridge s') = mb_subscriptionId (bs_bridge s)"
    and snap: "mb_snapshot (bs_bridge s') = mb_snapshot (bs_bridge s)"
    and a: "bs_api s' = bs_api s"
    and h: "\<And>work i. bs_api s = A_Published work \<Longrightarrow> i \<in> set work \<Longrightarrow> is_sub s' i \<Longrightarrow>
      is_sub s i \<and> sub_id s' i = sub_id s i \<and> rq_accepted (mb_heap (bs_bridge s') ! i) = rq_accepted (mb_heap (bs_bridge s) ! i)"
  shows "sets_ok s'"
  unfolding sets_ok_def
proof (intro conjI)
  show "mb_ranges (bs_bridge s') \<noteq> [] \<longrightarrow> bs_sets s' (mb_subscriptionId (bs_bridge s')) = Some (mb_ranges (bs_bridge s'))"
    using ok ext r by (auto simp: sets_ok_def extends_def)
  show "case mb_snapshot (bs_bridge s') of Some m \<Rightarrow> image_ok (bs_sets s') m | None \<Rightarrow> True"
    using ok ext snap image_ok_extends by (auto simp: sets_ok_def split: option.splits)
  show "case bs_api s' of A_Taken work rs rid g \<Rightarrow> rs \<noteq> [] \<longrightarrow> bs_sets s' rid = Some rs
      | A_Published work \<Rightarrow> \<forall>i \<in> set work. is_sub s' i \<longrightarrow> bs_sets s' (sub_id s' i) = Some (rq_accepted (mb_heap (bs_bridge s') ! i))
      | A_Idle \<Rightarrow> True"
  proof (cases "bs_api s")
    case (A_Taken work rs rid g)
    with ok ext a show ?thesis by (simp add: sets_ok_def extends_def)
  next
    case (A_Published work)
    have "bs_sets s' (sub_id s' i) = Some (rq_accepted (mb_heap (bs_bridge s') ! i))" if "i \<in> set work" "is_sub s' i" for i
      using h [OF A_Published that] ok ext A_Published that(1) by (simp add: sets_ok_def extends_def)
    with a A_Published show ?thesis by simp
  qed (simp add: a)
qed

lemma extends_refl: "extends G G"
  by (simp add: extends_def)

definition sub_inv :: "bridge_sys \<Rightarrow> bool" where
  "sub_inv s \<longleftrightarrow> ids_unique s \<and> sets_ok s"

lemma unanswered_valid: "queue_inv s \<Longrightarrow> unanswered s \<subseteq> {..<length (mb_heap (bs_bridge s))}"
  by (cases "bs_worker s"; cases "bs_api s") (auto simp: queue_inv_def valid_ids_def unanswered_def)

lemma call_subscription:
  assumes "call_bridge c b = (r, b')"
  shows "\<exists>new. mb_heap b' = mb_heap b @ new \<and> length new \<le> 1 \<and>
      (mb_nextSubscriptionId b' = mb_nextSubscriptionId b \<or> mb_nextSubscriptionId b' = mb_nextSubscriptionId b + 1) \<and>
      (\<forall>q \<in> set new. rq_kind q = KSubscribe \<longrightarrow> rq_subscriptionId q = mb_nextSubscriptionId b \<and> mb_nextSubscriptionId b' = mb_nextSubscriptionId b + 1)"
    and "mb_ranges b' = [] \<or> mb_ranges b' = mb_ranges b \<and> mb_subscriptionId b' = mb_subscriptionId b"
    and "mb_snapshot b' = mb_snapshot b" "mb_queue b' = mb_queue b"
  using assms
  by (cases c; auto simp: Subscribe_def ReadDirect_def bridge_Write_def new_request_def ResetSubscription_def Request0_def Let_def
      split: if_splits)+

lemma Complete_answered:
  assumes "distinct ids" "set ids \<subseteq> {..<length (mb_heap b)}" "i < length (mb_heap b)"
  shows "rq_accepted (mb_heap (Complete ids b) ! i) = rq_accepted (mb_heap b ! i)"
  using Complete_spec [OF assms(1,2)] on_heap_nth [OF assms(1,3), of "rq_done_update (\<lambda>_. True)"] by simp

lemma no_game_answer: "rq_kind q = KSubscribe \<Longrightarrow> rq_accepted (Answer no_read None 0 False 0 q) = []"
proof -
  have "accept_from no_read False k rs = []" for k rs by (induction rs arbitrary: k) simp_all
  then show "rq_kind q = KSubscribe \<Longrightarrow> rq_accepted (Answer no_read None 0 False 0 q) = []" by (simp add: Answer_def)
qed

text \<open>Answering without a game, as \<open>Submit\<close> and \<open>SetGameRunning\<close> do: nothing is accepted.\<close>

lemma no_game_complete:
  assumes d: "distinct ids" "set ids \<subseteq> {..<length (mb_heap b)}"
  defines "b' \<equiv> Complete ids (b\<lparr>mb_heap := on_heap (Answer no_read None 0 False 0) ids (mb_heap b)\<rparr>)"
  shows "same_flags (mb_heap b) (mb_heap b')" "mb_nextSubscriptionId b' = mb_nextSubscriptionId b" "mb_queue b' = mb_queue b"
    and "mb_snapshot b' = mb_snapshot b"
    and "mb_ranges b' = [] \<or> mb_ranges b' = mb_ranges b \<and> mb_subscriptionId b' = mb_subscriptionId b"
    and "i < length (mb_heap b) \<Longrightarrow> i \<notin> set ids \<Longrightarrow> rq_accepted (mb_heap b' ! i) = rq_accepted (mb_heap b ! i)"
proof -
  let ?c = "b\<lparr>mb_heap := on_heap (Answer no_read None 0 False 0) ids (mb_heap b)\<rparr>"
  have ids: "set ids \<subseteq> {..<length (mb_heap ?c)}" using d(2) by simp
  note c = Complete_spec [OF d(1) ids]
  have nth: "mb_heap ?c ! i = (if i \<in> set ids then Answer no_read None 0 False 0 (mb_heap b ! i) else mb_heap b ! i)"
    if "i < length (mb_heap b)" for i using on_heap_nth [OF d(1) that] by simp
  have "same_flags (mb_heap b) (mb_heap ?c)" using same_flags_on_heap [OF d(1)] by simp
  then show "same_flags (mb_heap b) (mb_heap b')" using same_flags_Complete [OF d(1) ids] same_flags_trans b'_def by blast
  show "mb_nextSubscriptionId b' = mb_nextSubscriptionId b" "mb_queue b' = mb_queue b" "mb_snapshot b' = mb_snapshot b"
    using c by (simp_all add: b'_def)
  have "rq_accepted (mb_heap ?c ! i) = []" if "i \<in> set ids" "rq_kind (mb_heap ?c ! i) = KSubscribe" for i
    using that nth [of i] d(2) no_game_answer by auto
  then show "mb_ranges b' = [] \<or> mb_ranges b' = mb_ranges b \<and> mb_subscriptionId b' = mb_subscriptionId b"
    using c by (auto simp: b'_def)
  show "rq_accepted (mb_heap b' ! i) = rq_accepted (mb_heap b ! i)" if "i < length (mb_heap b)" "i \<notin> set ids"
    using Complete_answered [OF d(1) ids, of i] nth [OF that(1)] that by (simp add: b'_def)
qed

lemma sub_inv_enter:
  assumes inv: "sub_inv s" "queue_inv s" and w: "bs_worker s = W_Submit i" and e: "Submit_enter i (bs_bridge s) = (r, b)"
  shows "sub_inv (s\<lparr>bs_bridge := b, bs_worker := case r of Some _ \<Rightarrow> W_Idle | None \<Rightarrow> W_Wait i, bs_refused := R,
      bs_sets := if mb_gameRunning (bs_bridge s) then bs_sets s else record_sets [i] b (bs_sets s)\<rparr>)"
    (is "sub_inv ?t")
proof -
  let ?b = "bs_bridge s"
  have i: "i < length (mb_heap ?b)" "\<not> rq_taken (mb_heap ?b ! i)" "i \<notin> set (mb_queue ?b)" using inv(2) w by (auto simp: queue_inv_def queue_inv_defs)
  have nw: "i \<notin> set (api_work (bs_api s))" using i(2) inv(2) by (auto simp: queue_inv_def held_once_def)
  have nu: "i \<notin> set (api_unanswered (bs_api s))" using nw by (cases "bs_api s") auto
  have u: "ids_unique s" "sets_ok s" using inv(1) by (simp_all add: sub_inv_def)
  show ?thesis
  proof (cases "mb_gameRunning ?b")
    case True
    then have "mb_heap b = mb_heap ?b" "mb_ranges b = mb_ranges ?b" "mb_subscriptionId b = mb_subscriptionId ?b" "mb_snapshot b = mb_snapshot ?b"
      "mb_nextSubscriptionId b = mb_nextSubscriptionId ?b" "mb_queue b = mb_queue ?b \<and> r \<noteq> None \<or> mb_queue b = mb_queue ?b @ [i] \<and> r = None"
      using e by (auto simp: Submit_enter_def split: if_splits)
    moreover from this have "unanswered ?t \<subseteq> unanswered s" using w by (auto simp: unanswered_def split: option.splits)
    ultimately have "ids_unique ?t" "sets_ok ?t"
      using True u by (auto intro!: ids_unique_quiet [of s] sets_ok_step [of s] simp: same_flags_refl extends_refl is_sub_def sub_id_def)
    then show ?thesis by (simp add: sub_inv_def)
  next
    case False
    have ids: "distinct [i]" "set [i] \<subseteq> {..<length (mb_heap ?b)}" using i(1) by simp_all
    have b: "b = Complete [i] (?b\<lparr>mb_heap := on_heap (Answer no_read None 0 False 0) [i] (mb_heap ?b)\<rparr>)" "r \<noteq> None"
      using e False by (auto simp: Submit_enter_def Let_def)
    note n = no_game_complete [OF ids, folded b(1)]
    have un: "set [i] \<subseteq> unanswered s" using w by (simp add: unanswered_def)
    have flags: "same_flags (mb_heap ?b) (mb_heap (bs_bridge ?t))" using n(1) by simp
    have "ids_unique ?t"
      by (rule ids_unique_step [OF u(1) un ids(2) flags _ _ n(1)])
        (use False b(2) n w i nu in \<open>auto simp: unanswered_def\<close>)
    moreover have "sets_ok ?t"
    proof (rule sets_ok_step [OF u(2)])
      show "extends (bs_sets s) (bs_sets ?t)" using record_sets_extends [OF u(1) un ids(2) n(1)] False by simp
      fix work j assume "bs_api s = A_Published work" "j \<in> set work" "is_sub ?t j"
      moreover from this have "j \<noteq> i" "j < length (mb_heap ?b)" using nw n(1) by (auto simp: is_sub_def same_flags_def)
      ultimately show "is_sub s j \<and> sub_id ?t j = sub_id s j \<and> rq_accepted (mb_heap (bs_bridge ?t) ! j) = rq_accepted (mb_heap ?b ! j)"
        using sub_same [OF flags] n(6) [of j] by auto
    qed (use n in auto)
    ultimately show ?thesis by (simp add: sub_inv_def)
  qed
qed

lemma sub_inv_leave:
  assumes inv: "sub_inv s" "queue_inv s" and w: "bs_worker s = W_Wait i" and e: "Submit_leave i (bs_bridge s) = (r, b)"
  shows "sub_inv (s\<lparr>bs_bridge := b, bs_worker := W_Idle, bs_refused := R\<rparr>)" (is "sub_inv ?t")
proof -
  let ?b = "bs_bridge s"
  have u: "ids_unique s" "sets_ok s" using inv(1) by (simp_all add: sub_inv_def)
  have flags: "same_flags (mb_heap ?b) (mb_heap b)" and acc: "rq_accepted (mb_heap b ! j) = rq_accepted (mb_heap ?b ! j)" for j
  proof -
    have "i < length (mb_heap ?b)" using inv(2) w by (auto simp: queue_inv_def valid_ids_def)
    then show "same_flags (mb_heap ?b) (mb_heap b)" "rq_accepted (mb_heap b ! j) = rq_accepted (mb_heap ?b ! j)"
      using e by (auto simp: Submit_leave_def Let_def same_flags_def nth_list_update split: if_splits)
  qed
  have b: "mb_ranges b = mb_ranges ?b" "mb_subscriptionId b = mb_subscriptionId ?b" "mb_snapshot b = mb_snapshot ?b"
    "mb_nextSubscriptionId b = mb_nextSubscriptionId ?b" "set (mb_queue b) \<subseteq> set (mb_queue ?b)"
    using e by (auto simp: Submit_leave_def Let_def split: if_splits)
  have "ids_unique ?t" by (rule ids_unique_quiet [OF u(1)]) (use flags b in \<open>auto simp: unanswered_def\<close>)
  moreover have "sets_ok ?t"
    by (rule sets_ok_step [OF u(2)]) (use flags b acc sub_same [of s ?t] in \<open>auto simp: extends_refl\<close>)
  ultimately show ?thesis by (simp add: sub_inv_def)
qed

lemma image_ok_incomplete:
  "mb_snapshot (PublishSnapshot rid False b) = Some m \<Longrightarrow> mb_snapshot b = Some m \<or> image_ok G m"
  by (auto simp: PublishSnapshot_def Let_def image_ok_def split: if_splits)

lemma sub_inv_running:
  assumes inv: "sub_inv s" "queue_inv s" and a: "bs_api s = A_Idle" and b: "b = SetGameRunning g (bs_bridge s)"
  shows "sub_inv (s\<lparr>bs_bridge := b, bs_sets := if g then bs_sets s else record_sets (mb_queue (bs_bridge s)) b (bs_sets s)\<rparr>)" (is "sub_inv ?t")
proof -
  let ?b = "bs_bridge s"
  have u: "ids_unique s" "sets_ok s" using inv(1) by (simp_all add: sub_inv_def)
  show ?thesis
  proof (cases g)
    case True
    then have "mb_heap b = mb_heap ?b" "mb_ranges b = mb_ranges ?b" "mb_subscriptionId b = mb_subscriptionId ?b" "mb_snapshot b = mb_snapshot ?b"
      "mb_nextSubscriptionId b = mb_nextSubscriptionId ?b" "mb_queue b = mb_queue ?b" by (simp_all add: b SetGameRunning_def)
    with True u have "ids_unique ?t" "sets_ok ?t"
      by (auto intro!: ids_unique_quiet [of s] sets_ok_step [of s] simp: same_flags_refl extends_refl is_sub_def sub_id_def unanswered_def)
    then show ?thesis by (simp add: sub_inv_def)
  next
    case False
    let ?ids = "mb_queue ?b" and ?bb = "?b\<lparr>mb_gameRunning := False, mb_queue := []\<rparr>"
    have ids: "distinct ?ids" "set ?ids \<subseteq> {..<length (mb_heap ?bb)}" using inv(2) by (auto simp: queue_inv_def held_once_def valid_ids_def)
    define c where "c = Complete ?ids (?bb\<lparr>mb_heap := on_heap (Answer no_read None 0 False 0) ?ids (mb_heap ?bb)\<rparr>)"
    note n = no_game_complete [OF ids, folded c_def]
    let ?d = "c\<lparr>mb_nextSnapshot := (mb_nextSnapshot c)\<lparr>PollReply.playerRunning := 0, blocks := []\<rparr>\<rparr>"
    have bp: "b = PublishSnapshot 0 False ?d" using False by (simp add: b c_def SetGameRunning_def Let_def)
    obtain m where m: "b = ?d\<lparr>mb_snapshot := m\<rparr>" using PublishSnapshot_keeps bp by metis
    have un: "set ?ids \<subseteq> unanswered s" by (auto simp: unanswered_def)
    have flags: "same_flags (mb_heap ?b) (mb_heap b)" using n(1) by (simp add: m)
    have nq: "submitting (bs_worker s) \<inter> set ?ids = {}" using inv(2) by (simp add: queue_inv_def held_once_def)
    have ids': "set ?ids \<subseteq> {..<length (mb_heap ?b)}" using ids(2) by simp
    have ext: "extends (bs_sets s) (bs_sets ?t)" using record_sets_extends [OF u(1) un ids' flags] False by simp
    have "ids_unique ?t"
      by (rule ids_unique_step [OF u(1) un ids' _ _ _ flags]) (use flags False n nq a in \<open>auto simp: unanswered_def m\<close>)
    moreover have "sets_ok (?t\<lparr>bs_bridge := b\<lparr>mb_snapshot := mb_snapshot ?b\<rparr>\<rparr>)"
      by (rule sets_ok_step [OF u(2)]) (use ext n a in \<open>auto simp: m\<close>)
    then have "sets_ok ?t" using image_ok_incomplete [of 0 ?d _ "bs_sets ?t"] n(4)
      by (auto simp: sets_ok_def bp [symmetric] is_sub_def sub_id_def a split: option.splits)
    ultimately show ?thesis by (simp add: sub_inv_def)
  qed
qed

lemma sub_inv_call:
  assumes inv: "sub_inv s" "queue_inv s" and w: "bs_worker s = W_Idle" and nxt: "mb_nextSubscriptionId (bs_bridge s) \<noteq> -1"
    and c: "call_bridge c (bs_bridge s) = (r, b)"
  shows "sub_inv (s\<lparr>bs_bridge := b, bs_worker := case r of Inl _ \<Rightarrow> W_Idle | Inr i \<Rightarrow> W_Submit i\<rparr>)" (is "sub_inv ?t")
proof -
  have u: "ids_unique s" "sets_ok s" using inv(1) by (simp_all add: sub_inv_def)
  obtain new where new: "mb_heap b = mb_heap (bs_bridge s) @ new" "length new \<le> 1"
    and n: "mb_nextSubscriptionId b = mb_nextSubscriptionId (bs_bridge s) \<or> mb_nextSubscriptionId b = mb_nextSubscriptionId (bs_bridge s) + 1"
    and q: "\<forall>q \<in> set new. rq_kind q = KSubscribe \<longrightarrow> rq_subscriptionId q = mb_nextSubscriptionId (bs_bridge s) \<and>
      mb_nextSubscriptionId b = mb_nextSubscriptionId (bs_bridge s) + 1"
    using call_subscription(1) [OF c] by blast
  note keeps = call_subscription(2-4) [OF c]
  have sw: "submitting (bs_worker ?t) \<subseteq> {length (mb_heap (bs_bridge s))} \<union> submitting (bs_worker s)"
    using c by (cases rule: call_cases) auto
  have "ids_unique ?t"
    by (rule ids_unique_next [OF u(1) nxt new n _ keeps(3) _ _ _ sw unanswered_valid [OF inv(2)]]) (use q in auto)
  moreover have "sets_ok ?t"
  proof (rule sets_ok_step [OF u(2)])
    fix work i assume "bs_api s = A_Published work" "i \<in> set work" "is_sub ?t i"
    moreover from this have "i < length (mb_heap (bs_bridge s))" using inv(2) by (auto simp: queue_inv_def valid_ids_def)
    ultimately show "is_sub s i \<and> sub_id ?t i = sub_id s i \<and>
      rq_accepted (mb_heap (bs_bridge ?t) ! i) = rq_accepted (mb_heap (bs_bridge s) ! i)"
      using new by (auto simp: is_sub_def sub_id_def nth_append)
  qed (use keeps in \<open>auto simp: extends_refl\<close>)
  ultimately show ?thesis by (simp add: sub_inv_def)
qed

lemma sub_inv_clear:
  assumes inv: "sub_inv s" "queue_inv s" and nxt: "mb_nextSubscriptionId (bs_bridge s) \<noteq> -1"
  shows "sub_inv (s\<lparr>bs_bridge := bridge_Clear (bs_bridge s)\<rparr>)" (is "sub_inv ?t")
proof -
  let ?b = "bridge_Clear (bs_bridge s)"
  have u: "ids_unique s" "sets_ok s" using inv(1) by (simp_all add: sub_inv_def)
  have b: "mb_heap ?b = mb_heap (bs_bridge s) @ []" "mb_nextSubscriptionId ?b = mb_nextSubscriptionId (bs_bridge s) + 1"
    "mb_queue ?b = mb_queue (bs_bridge s)" "mb_ranges ?b = []" "mb_snapshot ?b = mb_snapshot (bs_bridge s)"
    by (simp_all add: bridge_Clear_def ResetSubscription_def)
  have "ids_unique ?t"
    by (rule ids_unique_next [OF u(1) nxt b(1) _ _ _ b(3) _ _ _ _ unanswered_valid [OF inv(2)]]) (use b in auto)
  moreover have "sets_ok ?t"
    by (rule sets_ok_step [OF u(2)]) (use b in \<open>auto simp: extends_refl is_sub_def sub_id_def\<close>)
  ultimately show ?thesis by (simp add: sub_inv_def)
qed

lemma sub_inv_space:
  assumes "sub_inv s"
  shows "sub_inv (s\<lparr>bs_bridge := SetAddressSpace n (bs_bridge s)\<rparr>)" (is "sub_inv ?t")
proof -
  have u: "ids_unique s" "sets_ok s" using assms by (simp_all add: sub_inv_def)
  have "ids_unique ?t" by (rule ids_unique_quiet [OF u(1)]) (auto simp: SetAddressSpace_def same_flags_refl unanswered_def)
  moreover have "sets_ok ?t" by (rule sets_ok_step [OF u(2)]) (auto simp: SetAddressSpace_def extends_refl is_sub_def sub_id_def)
  ultimately show ?thesis by (simp add: sub_inv_def)
qed

lemma sub_inv_take:
  assumes inv: "sub_inv s" "queue_inv s" and a: "bs_api s = A_Idle" and t: "service_take g (bs_bridge s) = ((work, rs, rid), b)"
  shows "sub_inv (s\<lparr>bs_bridge := b, bs_api := A_Taken work rs rid g\<rparr>)" (is "sub_inv ?t")
proof -
  let ?b = "bs_bridge s"
  have u: "ids_unique s" "sets_ok s" using inv(1) by (simp_all add: sub_inv_def)
  have w: "work = mb_queue ?b" "rs = mb_ranges ?b" "rid = mb_subscriptionId ?b"
    and b: "b = ?b\<lparr>mb_gameRunning := g, mb_queue := [], mb_heap := on_heap (rq_taken_update (\<lambda>_. True)) work (mb_heap ?b)\<rparr>"
    using t by (auto simp: service_take_def)
  have d: "distinct work" using inv(2) w by (simp add: queue_inv_def held_once_def)
  have sub: "is_sub ?t i \<longleftrightarrow> is_sub s i" "is_sub s i \<Longrightarrow> sub_id ?t i = sub_id s i" for i
    using on_heap_nth [OF d, of i "mb_heap ?b" "rq_taken_update (\<lambda>_. True)"] by (auto simp: is_sub_def sub_id_def b split: if_splits)
  have un: "unanswered ?t = unanswered s" using a by (auto simp: unanswered_def b w)
  have "ids_unique ?t" using u(1) unfolding ids_unique_def un using sub by (auto simp: b)
  moreover have "sets_ok ?t" using u(2) by (auto simp: sets_ok_def b w split: option.splits)
  ultimately show ?thesis by (simp add: sub_inv_def)
qed

lemma sub_inv_complete:
  assumes inv: "sub_inv s" "queue_inv s" and a: "bs_api s = A_Published work"
  shows "sub_inv (s\<lparr>bs_bridge := Complete work (bs_bridge s), bs_api := A_Idle\<rparr>)" (is "sub_inv ?t")
proof -
  have u: "ids_unique s" "sets_ok s" using inv(1) by (simp_all add: sub_inv_def)
  have d: "distinct work" "set work \<subseteq> {..<length (mb_heap (bs_bridge s))}"
    using inv(2) a by (auto simp: queue_inv_def held_once_def valid_ids_def)
  note c = Complete_spec [OF d]
  have "ids_unique ?t"
    by (rule ids_unique_quiet [OF u(1)]) (use c a same_flags_Complete [OF d] in \<open>auto simp: unanswered_def\<close>)
  moreover have "bs_sets s (mb_subscriptionId (Complete work (bs_bridge s))) = Some (mb_ranges (Complete work (bs_bridge s)))"
    if "mb_ranges (Complete work (bs_bridge s)) \<noteq> []"
    using c u(2) a d(2) that by (auto simp: sets_ok_def is_sub_def sub_id_def)
  then have "sets_ok ?t" using u(2) c by (auto simp: sets_ok_def split: option.splits)
  ultimately show ?thesis by (simp add: sub_inv_def)
qed

lemma sub_inv_answer:
  assumes inv: "sub_inv s" "queue_inv s" and a: "bs_api s = A_Taken work rs rid g"
    and e: "service_answer reads snap write fr running g (work, rs, rid) (bs_bridge s) = b"
  shows "sub_inv (s\<lparr>bs_bridge := b, bs_api := A_Published work, bs_applied := L, bs_sets := record_sets work b (bs_sets s)\<rparr>)" (is "sub_inv ?t")
proof -
  let ?b = "bs_bridge s"
  have u: "ids_unique s" "sets_ok s" using inv(1) by (simp_all add: sub_inv_def)
  have d: "distinct work" "set work \<subseteq> {..<length (mb_heap ?b)}" using inv(2) a by (auto simp: queue_inv_def held_once_def valid_ids_def)
  obtain rs1 rid1 b1 where ans: "answer_all reads write fr g work (rs, rid) ?b = ((rs1, rid1), b1)" by (metis surj_pair)
  obtain ok b2 where t: "TakeSnapshot snap rs1 fr running g b1 = (ok, b2)" by (cases "TakeSnapshot snap rs1 fr running g b1")
  obtain p where b2: "b2 = b1\<lparr>mb_nextSnapshot := p\<rparr>" using TakeSnapshot_keeps [OF t] by blast
  have b: "b = PublishSnapshot rid1 ok b2" using e ans t by (simp add: service_answer_def)
  obtain m where m: "b = b1\<lparr>mb_nextSnapshot := p, mb_snapshot := m\<rparr>" using PublishSnapshot_keeps [of rid1 ok b2] b b2 by auto
  obtain h where h: "b1 = ?b\<lparr>mb_heap := h\<rparr>" using answer_all_spec [OF d ans] by blast
  have flags: "same_flags (mb_heap ?b) (mb_heap b)" using same_flags_answer_all [OF d ans] by (simp add: m)
  have un: "set work \<subseteq> unanswered s" using a by (auto simp: unanswered_def)
  have held: "set work \<inter> (set (mb_queue ?b) \<union> submitting (bs_worker s)) = {}"
    using inv(2) a by (auto simp: queue_inv_def held_once_def)
  have ext: "extends (bs_sets s) (bs_sets ?t)" using record_sets_extends [OF u(1) un d(2) flags] by simp
  have "ids_unique ?t"
    by (rule ids_unique_step [OF u(1) un d(2) _ _ _ flags]) (use flags a held in \<open>auto simp: m h unanswered_def\<close>)
  have sub: "is_sub s i \<and> sub_id s i = rq_subscriptionId (mb_heap b ! i)" if "i \<in> set work" "rq_kind (mb_heap b ! i) = KSubscribe" for i
    using that d(2) flags by (auto simp: is_sub_def sub_id_def same_flags_def)
  have at: "record_sets work b (bs_sets s) (rq_subscriptionId (mb_heap b ! i)) = Some (rq_accepted (mb_heap b ! i))"
    if "i \<in> set work" "rq_kind (mb_heap b ! i) = KSubscribe" for i
    using d(1) that
  proof (rule record_sets_at)
    fix j assume "j \<in> set work" "rq_kind (mb_heap b ! j) = KSubscribe" "rq_subscriptionId (mb_heap b ! j) = rq_subscriptionId (mb_heap b ! i)"
    with sub [of j] sub [OF that] u(1) show "j = i" unfolding ids_unique_def by metis
  qed
  have set1: "bs_sets ?t rid1 = Some rs1" if "rs1 \<noteq> []"
    using answer_all_spec [OF d ans] at that u(2) a ext by (auto simp: m sets_ok_def extends_def)
  have img: "image_ok (bs_sets ?t) x" if x: "mb_snapshot b = Some x" for x
  proof (cases "length (publish_image p rid1 ok) > SNAPSHOT_BYTES")
    case True
    then have "mb_snapshot ?b = Some x" using x by (simp add: b b2 h PublishSnapshot_def)
    then show ?thesis using u(2) image_ok_extends [OF _ ext] by (simp add: sets_ok_def)
  next
    case False
    then have "x = publish_image p rid1 ok" using x by (simp add: b b2 PublishSnapshot_def)
    moreover have "map block_shape (blocks p) = map range_shape rs1 \<and> rs1 \<noteq> []" if ok
      using TakeSnapshot_shapes [of snap rs1 fr running g b1 b2] t that by (simp add: b2)
    ultimately show ?thesis using False set1 unfolding image_ok_def by (metis not_less)
  qed
  have "sets_ok ?t" unfolding sets_ok_def
  proof (intro conjI)
    show "mb_ranges (bs_bridge ?t) \<noteq> [] \<longrightarrow> bs_sets ?t (mb_subscriptionId (bs_bridge ?t)) = Some (mb_ranges (bs_bridge ?t))"
      using u(2) ext by (auto simp: sets_ok_def extends_def m h)
  qed (use at img in \<open>auto simp: is_sub_def sub_id_def split: option.splits\<close>)
  with \<open>ids_unique ?t\<close> show ?thesis by (simp add: sub_inv_def)
qed

lemma sub_inv_reach:
  assumes "bridge_reach s"
  shows "sub_inv s"
  using assms
proof (induction rule: bridge_reach.induct)
  case br_init
  show ?case by (simp add: sub_inv_def ids_unique_def sets_ok_def MemoryBridge_def is_sub_def)
next
  case (br_call s c r b)
  then show ?case using sub_inv_call queue_inv_reach by blast
next
  case (br_clear s)
  then show ?case using sub_inv_clear queue_inv_reach by blast
next
  case (br_enter s i r b)
  then show ?case using sub_inv_enter queue_inv_reach by blast
next
  case (br_leave s i running early r b)
  then show ?case using sub_inv_leave queue_inv_reach by blast
next
  case (br_space s n)
  then show ?case using sub_inv_space by blast
next
  case (br_running s b g)
  then show ?case using sub_inv_running queue_inv_reach by blast
next
  case (br_take s g work rs rid b)
  then show ?case using sub_inv_take queue_inv_reach by blast
next
  case (br_answer s work rs rid g reads snap wr fr running b)
  then show ?case using sub_inv_answer queue_inv_reach by blast
next
  case (br_complete s work)
  then show ?case using sub_inv_complete queue_inv_reach by blast
qed

section \<open>Direct reads\<close>

definition chunks :: "u32 \<Rightarrow> nat" where
  "chunks len = (unat len + 255) div 256"

definition chunk_read :: "ReadFn \<Rightarrow> nat \<Rightarrow> u32 \<Rightarrow> u32 \<Rightarrow> nat \<Rightarrow> bytes" where
  "chunk_read read k addr len i = read k (addr + of_nat (256 * i)) (chunk_want len (256 * i))"

lemma chunk_want_unat:
  assumes "offset < unat len"
  shows "unat (chunk_want len offset) = min 256 (unat len - offset)"
proof -
  have small: "unat (of_nat offset :: u32) = offset" using assms unsigned_less [of len, where 'a = nat] by (intro unat_of_nat_u32) simp
  then have "unat (len - of_nat offset) = unat len - offset" using assms by (subst unat_sub) (simp_all add: word_le_nat_alt)
  then show ?thesis by (auto simp: chunk_want_def READ_CHUNK_BYTES_def min_def word_le_nat_alt)
qed

lemma chunks_more: "256 * i < unat len \<longleftrightarrow> i < chunks len"
  by (auto simp: chunks_def)

lemma read_chunks_exact:
  assumes full: "\<And>k a n. length (read k a n) = unat n"
  shows "read_chunks read (2 * i) addr len (256 * i) st =
    \<lparr>rs_bytes = rs_bytes st @ concat (map (\<lambda>i. chunk_read read (2 * i) addr len i) [i..<chunks len]),
     rs_unstable = rs_unstable st @ map (\<lambda>i. of_nat (256 * i))
       (filter (\<lambda>i. chunk_read read (2 * i) addr len i \<noteq> chunk_read read (2 * i + 1) addr len i) [i..<chunks len])\<rparr>"
proof (induction "chunks len - i" arbitrary: i st)
  case 0
  then have "\<not> 256 * i < unat len" "[i..<chunks len] = []" using chunks_more [of i len] by simp_all
  moreover from this have "read_chunks read (2 * i) addr len (256 * i) st = st" by (subst read_chunks.simps) simp
  ultimately show ?case unfolding \<open>[i..<chunks len] = []\<close> by simp
next
  case (Suc n)
  then have i: "i < chunks len" "n = chunks len - Suc i" by simp_all
  let ?want = "chunk_want len (256 * i)" and ?f = "chunk_read read (2 * i) addr len i" and ?g = "chunk_read read (2 * i + 1) addr len i"
  have off: "256 * i < unat len" using i(1) chunks_more by blast
  then have w: "unat ?want \<noteq> 0" using chunk_want_unat [OF off] by simp
  let ?st = "\<lparr>rs_bytes = rs_bytes st @ ?f, rs_unstable = if ?f \<noteq> ?g then rs_unstable st @ [of_nat (256 * i)] else rs_unstable st\<rparr>"
  have c: "unat READ_CHUNK_BYTES = 256" by (simp add: READ_CHUNK_BYTES_def)
  have "read_chunks read (2 * i) addr len (256 * i) st = read_chunks read (2 * Suc i) addr len (256 * Suc i) ?st"
    using off w c by (subst read_chunks.simps) (simp add: Let_def full chunk_read_def add.commute)
  then show ?case unfolding Suc(1) [OF i(2)] upt_conv_Cons [OF i(1)] by simp
qed

section \<open>What the bridge promises\<close>

text \<open>
  C7. However the worker and the API thread interleave, the operations of a write request are handed to PinMAME at most
  once, and never for a request the bridge itself answered busy (a full queue, or the budget over while the worker
  runs): a retry of such a write cannot apply it twice.
\<close>

theorem write_applied_once:
  assumes "bridge_reach s"
  shows "distinct (bs_applied s) \<and> set (bs_applied s) \<inter> bs_refused s = {}"
  using queue_inv_reach [OF assms] by (auto simp: queue_inv_def writes_once_def)

text \<open>
  C12. A poll that succeeds answers the subscription in force: one block per accepted range, in its order, with
  its address and its length, never a snapshot of an earlier subscription.
\<close>

theorem poll_exact:
  assumes "bridge_reach s" "Poll torn (bs_bridge s) = (MB_Ok, out)"
  shows "map block_shape (blocks out) = map range_shape (mb_ranges (bs_bridge s))"
proof (cases "mb_ranges (bs_bridge s) = []")
  case True
  then show ?thesis using assms(2) by (auto simp: Poll_def Let_def PollReply0_def split: if_splits option.splits)
next
  case False
  let ?b = "bs_bridge s"
  from assms(2) False obtain m where m: "mb_snapshot ?b = Some m" "sh_complete (load_header m) \<noteq> 0" "sh_rangesId (load_header m) = mb_subscriptionId ?b"
    "load_blocks m (24 + 8 * unat (sh_blocks (load_header m))) (load_shapes m 24 (unat (sh_blocks (load_header m)))) = Some (blocks out)"
    by (auto simp: Poll_def Let_def SNAPSHOT_HEADER_BYTES_def split: if_splits option.splits)
  have ok: "sets_ok s" using sub_inv_reach [OF assms(1)] by (simp add: sub_inv_def)
  then have "image_ok (bs_sets s) m" using m(1) by (simp add: sets_ok_def)
  then obtain p rid c where p: "m = publish_image p rid c" "length m \<le> SNAPSHOT_BYTES"
    "c \<longrightarrow> (\<exists>rs. bs_sets s rid = Some rs \<and> map block_shape (blocks p) = map range_shape rs)" unfolding image_ok_def by blast
  note pub = published [OF p(2) [unfolded p(1)], folded p(1)]
  have "c" "rid = mb_subscriptionId ?b" using m(2,3) by (auto simp: pub(1))
  moreover have "blocks out = blocks p" using m(4) pub(3,4) by (simp add: pub(2))
  ultimately show ?thesis using ok False p(3) by (simp add: sets_ok_def)
qed

text \<open>
  A direct read within readable memory returns every byte asked for, the first of each chunk's two reads, and its
  unstable offsets are exactly those of the chunks whose two reads differ.
\<close>

theorem read_direct_exact:
  assumes "\<And>k a n. length (read k a n) = unat n"
  shows "length (ReadDirectReply.bytes (direct_reply read fr addr len)) = unat len \<and>
    ReadDirectReply.bytes (direct_reply read fr addr len) = concat (map (\<lambda>i. chunk_read read (2 * i) addr len i) [0..<chunks len]) \<and>
    unstableOffsets (direct_reply read fr addr len) = map (\<lambda>i. of_nat (256 * i))
      (filter (\<lambda>i. chunk_read read (2 * i) addr len i \<noteq> chunk_read read (2 * i + 1) addr len i) [0..<chunks len])"
proof -
  have "length (concat (map (\<lambda>i. chunk_read read (2 * i) addr len i) [0..<n])) = min (256 * n) (unat len)" if "n \<le> chunks len" for n
    using that
  proof (induction n)
    case (Suc n)
    then have "256 * n < unat len" using chunks_more by (simp add: Suc_le_eq)
    with Suc show ?case using chunk_want_unat [of "256 * n" len] by (simp add: chunk_read_def assms)
  qed simp
  moreover have "unat len \<le> 256 * chunks len" by (simp add: chunks_def)
  ultimately have "length (concat (map (\<lambda>i. chunk_read read (2 * i) addr len i) [0..<chunks len])) = unat len"
    by simp
  with read_chunks_exact [of read 0 addr len "\<lparr>rs_bytes = [], rs_unstable = []\<rparr>"] assms show ?thesis
    by (simp add: direct_reply_def)
qed

section \<open>Runs\<close>

definition demo_range :: MemoryRange where "demo_range = \<lparr>MemoryRange.address = 16, MemoryRange.length' = 2\<rparr>"
definition demo_read :: ReadFn where "demo_read k a n = replicate (unat n) 7"
definition demo_start :: bridge_sys where
  "demo_start = \<lparr>bs_bridge = SetGameRunning True MemoryBridge, bs_worker = W_Idle, bs_api = A_Idle, bs_applied = [], bs_refused = {},
    bs_sets = (\<lambda>_. None)\<rparr>"

text \<open>A call, submitted, and the frame that answers it.\<close>

definition demo_submit :: "memory_call \<Rightarrow> bridge_sys \<Rightarrow> bridge_sys" where
  "demo_submit c s = (let i = length (mb_heap (bs_bridge s)) in
     s\<lparr>bs_bridge := snd (Submit_enter i (snd (call_bridge c (bs_bridge s)))), bs_worker := W_Wait i\<rparr>)"

definition demo_frame :: "bridge_sys \<Rightarrow> bridge_sys" where
  "demo_frame s = (let (taken, b) = service_take True (bs_bridge s);
       b' = service_answer (\<lambda>_. demo_read) demo_read (Some (\<lambda>os. 1)) 9 True True taken b in
     s\<lparr>bs_applied := bs_applied s @ filter (\<lambda>i. hands_over (Some (\<lambda>os. 1)) True (mb_addressSpace b) (mb_heap b ! i)) (fst taken),
       bs_sets := record_sets (fst taken) b' (bs_sets s), bs_bridge := Complete (fst taken) b', bs_api := A_Idle\<rparr>)"

lemma demo_start_reach: "bridge_reach demo_start"
  using br_running [OF br_init _ refl, of True] by (simp add: demo_start_def)

lemma demo_submit_reach:
  assumes "bridge_reach s" "bs_worker s = W_Idle" "mb_nextSubscriptionId (bs_bridge s) \<noteq> -1"
    and "fst (call_bridge c (bs_bridge s)) = Inr (length (mb_heap (bs_bridge s)))"
    and "mb_gameRunning (snd (call_bridge c (bs_bridge s)))" "length (mb_queue (snd (call_bridge c (bs_bridge s)))) < QUEUE_LIMIT"
  shows "bridge_reach (demo_submit c s)"
proof -
  obtain b where b: "call_bridge c (bs_bridge s) = (Inr (length (mb_heap (bs_bridge s))), b)" using assms(4) by (metis prod.collapse)
  let ?s = "s\<lparr>bs_bridge := b, bs_worker := W_Submit (length (mb_heap (bs_bridge s)))\<rparr>"
  have "bridge_reach ?s" using br_call [OF assms(1-3) b] by simp
  from br_enter [OF this, of "length (mb_heap (bs_bridge s))"] b assms(5,6) show ?thesis
    by (simp add: demo_submit_def Let_def Submit_enter_def)
qed

lemma demo_frame_reach:
  assumes "bridge_reach s" "bs_api s = A_Idle"
  shows "bridge_reach (demo_frame s)"
proof -
  obtain work rs rid b where t: "service_take True (bs_bridge s) = ((work, rs, rid), b)" by (metis surj_pair)
  note taken = br_take [OF assms t]
  have "bs_api (s\<lparr>bs_bridge := b, bs_api := A_Taken work rs rid True\<rparr>) = A_Taken work rs rid True" by simp
  note answered = br_answer [OF taken this refl, of "\<lambda>_. demo_read" demo_read "Some (\<lambda>os. 1)" 9 True]
  from br_complete [OF answered, of work] show ?thesis by (simp add: demo_frame_def t Let_def)
qed

lemmas demo_simps = demo_frame_def demo_submit_def demo_start_def SetGameRunning_def MemoryBridge_def Subscribe_def bridge_Write_def
  new_request_def Request0_def Submit_enter_def QUEUE_LIMIT_def service_take_def service_answer_def TakeSnapshot_def PublishSnapshot_def
  Answer_def readable_def resize_def on_heap_def Complete_def complete_one_def record_sets_def hands_over_def BeyondSpace_def Wraps_def
  MAX_SUBSCRIBE_RANGES_def MAX_SUBSCRIBE_BYTES_def MAX_WRITE_OPS_def PollReply0_def MemoryBlock0_def Let_def
  length_publish_image SNAPSHOT_BYTES_def SNAPSHOT_HEADER_BYTES_def NO_WRITE_HANDLER_def demo_read_def

definition demo_poll :: bridge_sys where
  "demo_poll = demo_frame (demo_submit (C_Subscribe [demo_range]) demo_start)"

lemma demo_poll_reach: "bridge_reach demo_poll"
  unfolding demo_poll_def
  by (intro demo_frame_reach demo_submit_reach demo_start_reach) (simp_all add: demo_simps demo_range_def)

definition demo_out :: PollReply where
  "demo_out = \<lparr>PollReply.frame = 9, PollReply.playerRunning = 1, blocks = [\<lparr>MemoryBlock.address = 16, MemoryBlock.bytes = [7, 7]\<rparr>]\<rparr>"

lemma demo_poll_answer: "Poll False (bs_bridge demo_poll) = (MB_Ok, demo_out)"
proof -
  let ?p = "mb_nextSnapshot (bs_bridge demo_poll)"
  have two: "replicate 2 x = [x, x]" for x :: u8 by (simp add: numeral_2_eq_2)
  have p: "?p = demo_out" and len: "length (publish_image ?p 1 True) \<le> SNAPSHOT_BYTES"
    and b: "mb_snapshot (bs_bridge demo_poll) = Some (publish_image ?p 1 True)" "mb_subscriptionId (bs_bridge demo_poll) = 1"
      "mb_gameRunning (bs_bridge demo_poll)" "mb_ranges (bs_bridge demo_poll) = [demo_range]"
    by (simp_all add: demo_poll_def demo_out_def demo_simps demo_range_def two)
  note pub = published [OF len]
  show ?thesis using b pub len unfolding Poll_def
    by (simp add: p demo_out_def SNAPSHOT_HEADER_BYTES_def length_publish_image)
qed

theorem poll_exact_witness:
  "bridge_reach demo_poll \<and> Poll False (bs_bridge demo_poll) = (MB_Ok, demo_out) \<and>
   map block_shape (blocks demo_out) = map range_shape (mb_ranges (bs_bridge demo_poll))"
  using demo_poll_reach demo_poll_answer poll_exact [OF demo_poll_reach demo_poll_answer] by blast

text \<open>A write applied, and then one that the worker gave up waiting for.\<close>

definition demo_op :: WriteOp where "demo_op = \<lparr>WriteOp.address = 16, WriteOp.bytes = [1]\<rparr>"

definition demo_wrote :: bridge_sys where
  "demo_wrote = (demo_frame (demo_submit (C_Write [demo_op]) demo_start))\<lparr>bs_worker := W_Idle\<rparr>"

definition demo_refused :: bridge_sys where
  "demo_refused = (let s = demo_submit (C_Write [demo_op]) demo_wrote in
     s\<lparr>bs_bridge := snd (Submit_leave 1 (bs_bridge s)), bs_worker := W_Idle, bs_refused := insert 1 (bs_refused s)\<rparr>)"

lemma demo_wrote_reach: "bridge_reach demo_wrote"
proof -
  let ?s = "demo_frame (demo_submit (C_Write [demo_op]) demo_start)"
  have r: "bridge_reach ?s" by (intro demo_frame_reach demo_submit_reach demo_start_reach) (simp_all add: demo_simps demo_op_def)
  have w: "bs_worker ?s = W_Wait 0" "rq_done (mb_heap (bs_bridge ?s) ! 0)" by (simp_all add: demo_simps demo_op_def)
  from br_leave [OF r w(1), of True False] w(2) show ?thesis
    by (simp add: waiting_def Submit_leave_def demo_wrote_def)
qed

lemma demo_refused_reach: "bridge_reach demo_refused"
proof -
  let ?s = "demo_submit (C_Write [demo_op]) demo_wrote"
  have r: "bridge_reach ?s" by (intro demo_submit_reach demo_wrote_reach) (simp_all add: demo_simps demo_wrote_def demo_op_def)
  have w: "bs_worker ?s = W_Wait 1" "\<not> rq_done (mb_heap (bs_bridge ?s) ! 1)" "\<not> rq_taken (mb_heap (bs_bridge ?s) ! 1)"
    by (simp_all add: demo_simps demo_wrote_def demo_op_def)
  obtain x b where l: "Submit_leave 1 (bs_bridge ?s) = (x, b)" by (cases "Submit_leave 1 (bs_bridge ?s)")
  from br_leave [OF r w(1) _ l, of True False] w(2,3) show ?thesis
    using l by (simp add: waiting_def demo_refused_def Let_def)
qed

theorem write_applied_once_witness:
  "bridge_reach demo_refused \<and> bs_applied demo_refused = [0] \<and> bs_refused demo_refused = {1} \<and>
   distinct (bs_applied demo_refused) \<and> set (bs_applied demo_refused) \<inter> bs_refused demo_refused = {}"
proof -
  have "bs_applied demo_refused = [0]" by (simp add: demo_refused_def demo_simps demo_wrote_def demo_op_def)
  moreover have "bs_refused demo_refused = {1}" by (simp add: demo_refused_def demo_simps demo_wrote_def demo_op_def)
  ultimately show ?thesis using demo_refused_reach write_applied_once [OF demo_refused_reach] by blast
qed

text \<open>Memory whose second chunk changes between its two reads.\<close>

definition demo_torn :: ReadFn where "demo_torn k a n = replicate (unat n) (if a = 272 then of_nat k else 7)"

theorem read_direct_exact_witness:
  "length (ReadDirectReply.bytes (direct_reply demo_torn 9 16 300)) = 300 \<and>
   unstableOffsets (direct_reply demo_torn 9 16 300) = [256]"
proof -
  have full: "length (demo_torn k a n) = unat n" for k a n by (simp add: demo_torn_def)
  have c: "chunks 300 = 2" "chunk_want 300 0 = 256" "chunk_want 300 256 = 44" by code_simp+
  have "filter (\<lambda>i. chunk_read demo_torn (2 * i) 16 300 i \<noteq> chunk_read demo_torn (2 * i + 1) 16 300 i) [0..<2] = [1]"
    by (simp add: upt_rec chunk_read_def c demo_torn_def)
  moreover have "unstableOffsets (direct_reply demo_torn 9 16 300) = map (\<lambda>i. of_nat (256 * i))
      (filter (\<lambda>i. chunk_read demo_torn (2 * i) 16 300 i \<noteq> chunk_read demo_torn (2 * i + 1) 16 300 i) [0..<chunks 300])"
    using read_direct_exact [of demo_torn 9 16 300, OF full] by blast
  moreover have "length (ReadDirectReply.bytes (direct_reply demo_torn 9 16 300)) = unat (300 :: u32)"
    using read_direct_exact [of demo_torn 9 16 300, OF full] by blast
  ultimately show ?thesis by (simp add: c(1))
qed

end
