(* ===== verification/Worker_Status.thy ===== *)
theory Worker_Status
  imports Status_Notice Game_Queue Wire_Session
begin

text \<open>
  The socket worker's data (\<^verbatim>\<open>src/SocketWorker.h\<close>) and the part of \<^verbatim>\<open>src/SocketWorker.cpp\<close> that follows the daemon's
  status: the record posted to the API thread, and the ROM game it says is being played, which has to outlive a
  daemon that restarts. Logging, and the flags that only limit it, are not modelled in any of the worker's theories.
\<close>

section \<open>Data\<close>

record FrameSnapshot =
  fs_hasSource :: bool
  fs_frameId :: u32
  fs_generation :: u32
  fs_width :: u16
  fs_height :: u16
  fs_shades :: u8
  fs_pixels :: bytes

record DeclareSnapshot =
  ds_declare :: Declare
  ds_epoch :: u64
  ds_surfaceGeneration :: u64
  ds_identity :: u64

definition Declare0 :: Declare where
  "Declare0 = \<lparr>Declare.romId = [], tablePath = [], vpxVersion = [], vpxRevision = [], width = 0, height = 0, shades = 0,
     sourceGeneration = 0, identifyFormat = [], tableKind = TABLE_ROM, machineUuid = [], tableFullPath = [], vpxAppPath = [],
     prefsPath = []\<rparr>"

definition DeclareSnapshot0 :: DeclareSnapshot where
  "DeclareSnapshot0 = \<lparr>ds_declare = Declare0, ds_epoch = 0, ds_surfaceGeneration = 0, ds_identity = 0\<rparr>"

record SessionSnapshot =
  ss_renderedFrame :: u64
  ss_playerRunning :: bool

text \<open>The configuration, and which of the optional targets the worker was given.\<close>

record SocketWorkerConfig =
  cf_pluginVersion :: string
  cf_pluginApiCommit :: string
  cf_authoredTables :: bool
  cf_noGameDeferMs :: int
  cf_romGameLostMs :: int
  cf_memory :: bool
  cf_overlay :: bool
  cf_status :: bool
  cf_readBack :: bool
  cf_instanceId :: u64

section \<open>The status record\<close>

record status_part =
  st_record :: StatusRecord
  st_history :: StatusHistory
  st_historyTable :: "DeclareSnapshot"
  st_haveHistoryTable :: bool
  st_sessionStart :: time_point
  st_latch :: "StatusRecord latch"

definition status_part0 :: "time_point \<Rightarrow> status_part" where
  "status_part0 now = \<lparr>st_record = StatusRecord0\<lparr>sr_since := now\<rparr>, st_history = StatusHistory0, st_historyTable = DeclareSnapshot0,
     st_haveHistoryTable = False, st_sessionStart = 0, st_latch = Latch\<rparr>"

definition PostStatus :: "SocketWorkerConfig \<Rightarrow> status_part \<Rightarrow> status_part" where
  "PostStatus cf s =
     (let s = s\<lparr>st_record := (st_record s)\<lparr>sr_history := st_history s\<rparr>\<rparr>
      in if cf_status cf then s\<lparr>st_latch := latch_Post (st_record s) (st_latch s)\<rparr> else s)"

definition FollowGame :: "SocketWorkerConfig \<Rightarrow> Status \<Rightarrow> time_point \<Rightarrow> status_part \<Rightarrow> status_part" where
  "FollowGame cf status now s =
     (let h = st_history s;
          warningsBefore = warnings h;
          h = (if sessionState status \<noteq> SESSION_HIDDEN \<and> Marker status = ''[!]''
               then h\<lparr>warnings := warnings h + 1, lastWarning := Describe status\<rparr> else h);
          h = (if romGameEndsAt h \<noteq> 0 \<and> now \<ge> romGameEndsAt h then h\<lparr>romGame := False, romGameEndsAt := 0\<rparr> else h);
          defer = st_sessionStart s + milliseconds (cf_noGameDeferMs cf);
          h = (if sessionState status = SESSION_TRACKING
               then (if \<not> romGame h then h\<lparr>romGame := True, romGames := romGames h + 1, warningsAtGameStart := warningsBefore\<rparr>
                     else h)\<lparr>romGameEndsAt := 0\<rparr>
               else if sessionState status = SESSION_NO_DATA then h\<lparr>romGameEndsAt := 0\<rparr>
               else if sessionState status = SESSION_NONE
               then if \<not> romGame h then h
                    else if now < defer then if romGameEndsAt h = 0 then h\<lparr>romGameEndsAt := defer\<rparr> else h
                    else h\<lparr>romGame := False\<rparr>
               else h)
      in s\<lparr>st_history := h\<rparr>)"

text \<open>\<open>now\<close> is the clock's reading, which is only taken when a session is lost.\<close>

definition NoSession :: "SocketWorkerConfig \<Rightarrow> string \<Rightarrow> time_point \<Rightarrow> status_part \<Rightarrow> status_part" where
  "NoSession cf why now s =
     (if \<not> inSession (st_record s) \<and> sr_reason (st_record s) = why then s
      else let r = st_record s;
               r = (if inSession r then r\<lparr>sr_since := now\<rparr> else r);
               r = r\<lparr>inSession := False, haveStatus := False, sr_status := Status0, sr_reason := why\<rparr>
           in PostStatus cf (s\<lparr>st_record := r\<rparr>))"

text \<open>The status part of \<open>Handshake\<close>, \<open>AnswerStatus\<close> and \<open>MaybeDeclare\<close>.\<close>

definition handshake_status :: "SocketWorkerConfig \<Rightarrow> time_point \<Rightarrow> status_part \<Rightarrow> status_part" where
  "handshake_status cf now s =
     (let h = st_history s; r = st_record s;
          h = (if romGame h \<and> \<not> inSession r \<and> now - sr_since r \<ge> milliseconds (cf_romGameLostMs cf) then h\<lparr>romGame := False\<rparr> else h);
          h = (if romGameEndsAt h \<noteq> 0 \<and> now \<ge> romGameEndsAt h then h\<lparr>romGame := False\<rparr> else h);
          h = h\<lparr>romGameEndsAt := 0\<rparr>
      in PostStatus cf (s\<lparr>st_sessionStart := now, st_history := h, st_record := StatusRecord0\<lparr>inSession := True\<rparr>\<rparr>))"

definition take_status :: "SocketWorkerConfig \<Rightarrow> Status \<Rightarrow> time_point \<Rightarrow> status_part \<Rightarrow> status_part" where
  "take_status cf status now s =
     (let s = FollowGame cf status now s
      in PostStatus cf (s\<lparr>st_record := (st_record s)\<lparr>haveStatus := True, sr_status := status\<rparr>\<rparr>))"

definition declare_status :: "SocketWorkerConfig \<Rightarrow> DeclareSnapshot \<Rightarrow> status_part \<Rightarrow> status_part" where
  "declare_status cf now s =
     (let s = (if st_haveHistoryTable s
                   \<and> (ds_epoch now \<noteq> ds_epoch (st_historyTable s) \<or> NewIdentity (ds_declare (st_historyTable s)) (ds_declare now))
                   \<and> romGame (st_history s)
               then PostStatus cf (s\<lparr>st_history := (st_history s)\<lparr>romGame := False, romGameEndsAt := 0\<rparr>\<rparr>) else s)
      in s\<lparr>st_historyTable := now, st_haveHistoryTable := True\<rparr>)"

section \<open>The ROM game across a restart\<close>

definition follow :: "SocketWorkerConfig \<Rightarrow> (Status \<times> time_point) list \<Rightarrow> status_part \<Rightarrow> status_part" where
  "follow cf evs s = fold (\<lambda>(x, t). take_status cf x t) evs s"

text \<open>Whether the last status that speaks of a game says there is none.\<close>

definition says_none :: "(Status \<times> time_point) list \<Rightarrow> bool" where
  "says_none evs = (case filter (\<lambda>x. sessionState x \<in> {SESSION_NONE, SESSION_TRACKING, SESSION_NO_DATA}) (rev (map fst evs)) of
     [] \<Rightarrow> False | x # _ \<Rightarrow> sessionState x = SESSION_NONE)"

lemma PostStatus_keeps [simp]:
  "st_history (PostStatus cf s) = st_history s" "st_sessionStart (PostStatus cf s) = st_sessionStart s"
  "st_historyTable (PostStatus cf s) = st_historyTable s" "st_haveHistoryTable (PostStatus cf s) = st_haveHistoryTable s"
  "inSession (st_record (PostStatus cf s)) = inSession (st_record s)"
  by (simp_all add: PostStatus_def Let_def)

lemma take_status_keeps [simp]: "st_sessionStart (take_status cf x t s) = st_sessionStart s"
  by (simp add: take_status_def FollowGame_def Let_def)

lemma says_none_snoc:
  "says_none (evs @ [(x, t)]) = (if sessionState x \<in> {SESSION_NONE, SESSION_TRACKING, SESSION_NO_DATA}
     then sessionState x = SESSION_NONE else says_none evs)"
  by (simp add: says_none_def)

lemma follow_snoc: "follow cf (evs @ [(x, t)]) s = take_status cf x t (follow cf evs s)"
  by (simp add: follow_def)

lemma take_status_history: "st_history (take_status cf x t s) = st_history (FollowGame cf x t s)"
  by (simp add: take_status_def Let_def)

lemma follow_sessionStart: "st_sessionStart (follow cf evs s) = st_sessionStart s"
  by (induction evs rule: rev_induct) (auto simp: follow_def)

text \<open>One status before a deferral would run out.\<close>

lemma FollowGame_in_window:
  assumes "romGame (st_history s)" "t < st_sessionStart s + milliseconds (cf_noGameDeferMs cf)"
    and "st_sessionStart s + milliseconds (cf_noGameDeferMs cf) \<noteq> 0"
    and "romGameEndsAt (st_history s) = (if none then st_sessionStart s + milliseconds (cf_noGameDeferMs cf) else 0)"
  shows "romGame (st_history (FollowGame cf x t s)) \<and> romGames (st_history (FollowGame cf x t s)) = romGames (st_history s) \<and>
    romGameEndsAt (st_history (FollowGame cf x t s)) =
      (if (if sessionState x \<in> {SESSION_NONE, SESSION_TRACKING, SESSION_NO_DATA} then sessionState x = SESSION_NONE else none)
       then st_sessionStart s + milliseconds (cf_noGameDeferMs cf) else 0)"
  using assms by (auto simp: FollowGame_def Let_def)

lemma FollowGame_none_late:
  assumes "sessionState x = SESSION_NONE" "t \<ge> st_sessionStart s + milliseconds (cf_noGameDeferMs cf)"
  shows "\<not> romGame (st_history (FollowGame cf x t s))"
  using assms by (simp add: FollowGame_def Let_def)

text \<open>
  C15. A ROM game outlives a restarted daemon. With a game being played when a session opens (the outage shorter than
  the bound, and no deferred end reached), no status of the session's first \<open>noGameDeferMs\<close> ends it or counts another
  game, whatever the daemon says; a "no game" there only sets the game's end to the close of that window, which holds
  exactly while it is the last word on a game; and a "no game" from then on ends the game at once.
\<close>

theorem rom_game_survives_restart:
  assumes "romGame (st_history s)" "inSession (st_record s) \<or> t0 - sr_since (st_record s) < milliseconds (cf_romGameLostMs cf)"
    and "romGameEndsAt (st_history s) = 0 \<or> t0 < romGameEndsAt (st_history s)"
    and "t0 > 0" "cf_noGameDeferMs cf > 0" "\<forall>(x, t) \<in> set evs. t < t0 + milliseconds (cf_noGameDeferMs cf)"
  defines "h \<equiv> st_history (follow cf evs (handshake_status cf t0 s))"
  shows "romGame h \<and> romGames h = romGames (st_history s) \<and>
    romGameEndsAt h = (if says_none evs then t0 + milliseconds (cf_noGameDeferMs cf) else 0) \<and>
    (\<forall>x t. sessionState x = SESSION_NONE \<and> t \<ge> t0 + milliseconds (cf_noGameDeferMs cf) \<longrightarrow>
       \<not> romGame (st_history (take_status cf x t (follow cf evs (handshake_status cf t0 s)))))"
proof -
  let ?s = "handshake_status cf t0 s" and ?until = "t0 + milliseconds (cf_noGameDeferMs cf)"
  have start: "st_sessionStart (follow cf es ?s) = t0" for es by (simp add: follow_sessionStart) (simp add: handshake_status_def Let_def)
  have pos: "?until \<noteq> 0" using assms(4,5) by linarith
  have hs: "romGame (st_history ?s)" "romGames (st_history ?s) = romGames (st_history s)" "romGameEndsAt (st_history ?s) = 0"
    using assms(1-3) by (auto simp: handshake_status_def Let_def)
  have "romGame (st_history (follow cf evs ?s)) \<and> romGames (st_history (follow cf evs ?s)) = romGames (st_history s) \<and>
    romGameEndsAt (st_history (follow cf evs ?s)) = (if says_none evs then ?until else 0)"
    using assms(6)
  proof (induction evs rule: rev_induct)
    case Nil
    then show ?case using hs by (simp add: follow_def says_none_def)
  next
    case (snoc e es)
    obtain x t where e: "e = (x, t)" by (cases e)
    let ?f = "follow cf es ?s"
    have ih: "romGame (st_history ?f)" "romGames (st_history ?f) = romGames (st_history s)"
      "romGameEndsAt (st_history ?f) = (if says_none es then ?until else 0)" using snoc by auto
    have "t < st_sessionStart ?f + milliseconds (cf_noGameDeferMs cf)" using snoc.prems by (simp add: e start)
    from FollowGame_in_window [OF ih(1) this, of "says_none es" x] ih(2,3) pos show ?case
      by (simp add: e follow_snoc take_status_history says_none_snoc start)
  qed
  then show ?thesis using FollowGame_none_late [of _ "follow cf evs ?s"] by (simp add: h_def take_status_history start)
qed

definition config_example :: SocketWorkerConfig where
  "config_example = \<lparr>cf_pluginVersion = ''1.0'', cf_pluginApiCommit = ''abc'', cf_authoredTables = True, cf_noGameDeferMs = 15000,
     cf_romGameLostMs = 60000, cf_memory = True, cf_overlay = True, cf_status = True, cf_readBack = True, cf_instanceId = 7\<rparr>"

definition playing_example :: status_part where
  "playing_example = (status_part0 5)\<lparr>st_history := StatusHistory0\<lparr>romGame := True, romGames := 3\<rparr>\<rparr>"

theorem rom_game_survives_restart_witness:
  "romGame (st_history (follow config_example [(Status0, seconds 12)] (handshake_status config_example (seconds 10) playing_example))) \<and>
   romGameEndsAt (st_history (follow config_example [(Status0, seconds 12)] (handshake_status config_example (seconds 10) playing_example)))
     = seconds 25"
  using rom_game_survives_restart [of playing_example "seconds 10" config_example "[(Status0, seconds 12)]"]
  by (simp add: playing_example_def config_example_def status_part0_def StatusRecord0_def StatusHistory0_def says_none_def Status0_def)

end
