(* ===== verification/Worker_Transport.thy ===== *)
theory Worker_Transport
  imports Wire_Dump Worker_Status
begin

text \<open>
  The socket worker's byte stream (\<^verbatim>\<open>src/SocketWorker.cpp\<close>): sending and receiving on a nonblocking socket, and the
  messages on it. What the system calls of one send or receive do is a list of events, and the list ends where the
  deadline passes; the bytes the daemon sends and this side has not read yet are part of the state. The texts of errors
  are kept, since they go over the wire.
\<close>

section \<open>The socket\<close>

datatype send_event = SendSome nat | SendBlocked | SendFailed
datatype recv_event = RecvSome nat | RecvClosed | RecvBlocked | RecvFailed | RecvStopped

text \<open>\<open>SendAll\<close> from \<open>sent\<close> bytes on: the result, and how far it got.\<close>

fun SendAll :: "send_event list \<Rightarrow> bytes \<Rightarrow> nat \<Rightarrow> bool \<times> nat" where
  "SendAll [] data sent = (sent \<ge> length data, sent)"
| "SendAll (e # es) data sent =
     (if sent \<ge> length data then (True, sent)
      else case e of
             SendSome n \<Rightarrow> if n > 0 then SendAll es data (sent + min n (length data - sent)) else (False, sent)
           | SendBlocked \<Rightarrow> SendAll es data sent
           | SendFailed \<Rightarrow> (False, sent))"

text \<open>\<open>ReadExact\<close> with the bytes \<open>got\<close> so far and the bytes \<open>inp\<close> on their way: a receive takes some of them.\<close>

fun ReadExact :: "recv_event list \<Rightarrow> nat \<Rightarrow> bytes \<Rightarrow> bytes \<Rightarrow> bytes option \<times> bytes" where
  "ReadExact [] want got inp = (if length got \<ge> want then Some got else None, inp)"
| "ReadExact (e # es) want got inp =
     (if length got \<ge> want then (Some got, inp)
      else case e of
             RecvSome n \<Rightarrow>
               let k = min n (want - length got)
               in if take k inp = [] then (None, inp) else ReadExact es want (got @ take k inp) (drop k inp)
           | RecvBlocked \<Rightarrow> ReadExact es want got inp
           | _ \<Rightarrow> (None, inp))"

record io_part =
  io_in :: bytes
  io_out :: bytes
  io_dump :: wire_dump
  io_tick :: nat

text \<open>What the system gives, call by call: the calls of a run are numbered by \<open>io_tick\<close>.\<close>

record io_env =
  en_send :: "nat \<Rightarrow> send_event list"
  en_recv :: "nat \<Rightarrow> recv_event list"
  en_micros :: "nat \<Rightarrow> u64"

definition framed :: "SensitiveSpan list \<Rightarrow> SensitiveSpan list" where
  "framed sensitive = map (\<lambda>s. s\<lparr>span_offset := span_offset s + LENGTH_BYTES + HEADER_BYTES\<rparr>) sensitive"

definition SendWireMessage :: "'a io_env_scheme \<Rightarrow> u16 \<Rightarrow> u16 \<Rightarrow> u32 \<Rightarrow> bytes \<Rightarrow> SensitiveSpan list \<Rightarrow> io_part \<Rightarrow> bool \<times> io_part" where
  "SendWireMessage e ty fl sq pl sensitive s =
     (let bs = EncodeMessage ty fl sq pl
      in if bs = [] then (False, s)
         else let s = s\<lparr>io_dump := Sent bs (framed sensitive) (en_micros e (io_tick s)) (io_dump s)\<rparr>;
                  (ok, n) = SendAll (en_send e (io_tick s)) bs 0
              in (ok, s\<lparr>io_out := io_out s @ take n bs, io_tick := io_tick s + 1\<rparr>))"

definition SendError :: "'a io_env_scheme \<Rightarrow> u16 \<Rightarrow> u32 \<Rightarrow> u16 \<Rightarrow> string \<Rightarrow> io_part \<Rightarrow> bool \<times> io_part" where
  "SendError e ty sq c why s =
     SendWireMessage e ty (FLAG_RESPONSE OR FLAG_ERROR) sq (Encode_ErrorPayload \<lparr>code = c, ErrorPayload.reason = why\<rparr>) [] s"

definition message0 :: message where
  "message0 = \<lparr>m_header = \<lparr>h_type = 0, h_flags = 0, h_seq = 0\<rparr>, m_payload = []\<rparr>"

definition ReadMessage :: "'a io_env_scheme \<Rightarrow> io_part \<Rightarrow> message option \<times> io_part" where
  "ReadMessage e s =
     (case ReadExact (en_recv e (io_tick s)) LENGTH_BYTES [] (io_in s) of
        (None, rest) \<Rightarrow> (None, s\<lparr>io_in := rest, io_tick := io_tick s + 1\<rparr>)
      | (Some lengthBytes, rest) \<Rightarrow>
          let s = s\<lparr>io_in := rest, io_tick := io_tick s + 1\<rparr>;
              len = unat (fst (snd (r_U32 0 (Reader lengthBytes))))
          in if len < HEADER_BYTES \<or> len > MAX_MESSAGE_BYTES
             then (None, snd (SendError e 0 0 ERR_MALFORMED ''message length out of bounds'' s))
             else case ReadExact (en_recv e (io_tick s)) len [] (io_in s) of
                    (None, rest) \<Rightarrow> (None, s\<lparr>io_in := rest, io_tick := io_tick s + 1\<rparr>)
                  | (Some body, rest) \<Rightarrow>
                      let s = s\<lparr>io_in := rest, io_tick := io_tick s + 1\<rparr>;
                          (decoded, out) = DecodeBody body message0;
                          sensitive = (if decoded \<and> dump_Enabled (io_dump s) then framed (ReceivedSensitive out) else []);
                          s = s\<lparr>io_dump := Received lengthBytes body sensitive (en_micros e (io_tick s)) (io_dump s)\<rparr>
                      in if \<not> decoded
                         then (None, snd (SendError e 0 0 ERR_MALFORMED ''message shorter than a header'' s))
                         else (Some out, s))"

section \<open>However the bytes arrive\<close>

lemma ReadExact_takes:
  "ReadExact es want got inp = (Some bs, rest) \<Longrightarrow> length got \<le> want \<Longrightarrow> bs @ rest = got @ inp \<and> length bs = want"
proof (induction es want got inp rule: ReadExact.induct)
  case (1 want got inp)
  then show ?case by (auto split: if_splits)
next
  case (2 e es want got inp)
  show ?case
  proof (cases "length got \<ge> want")
    case True
    then show ?thesis using "2.prems" by simp
  next
    case False
    show ?thesis
    proof (cases e)
      case (RecvSome n)
      let ?k = "min n (want - length got)"
      have ne: "take ?k inp \<noteq> []" using "2.prems"(1) False by (auto simp: RecvSome Let_def split: if_splits)
      have step: "ReadExact es want (got @ take ?k inp) (drop ?k inp) = (Some bs, rest)"
        using "2.prems"(1) False ne by (simp add: RecvSome Let_def split: if_splits)
      have "length (got @ take ?k inp) \<le> want" using "2.prems"(2) by simp
      from "2.IH"(1) [OF False RecvSome refl ne step this] show ?thesis by simp
    next
      case RecvBlocked
      then show ?thesis using "2.IH"(2) [OF False RecvBlocked] "2.prems" False by simp
    qed (use "2.prems" False in simp_all)
  qed
qed

text \<open>Enough for \<open>want\<close> bytes: some are received each time, with waits in between, and nothing fails before.\<close>

fun delivers :: "recv_event list \<Rightarrow> nat \<Rightarrow> bool" where
  "delivers es 0 = True"
| "delivers [] (Suc n) = False"
| "delivers (RecvSome k # es) (Suc n) = (k > 0 \<and> delivers es (Suc n - k))"
| "delivers (RecvBlocked # es) (Suc n) = delivers es (Suc n)"
| "delivers (e # es) (Suc n) = False"

lemma ReadExact_delivers:
  "delivers es n \<Longrightarrow> n = want - length got \<Longrightarrow> length got \<le> want \<Longrightarrow> n \<le> length inp \<Longrightarrow>
   ReadExact es want got inp = (Some (got @ take n inp), drop n inp)"
proof (induction es n arbitrary: got inp rule: delivers.induct)
  case (1 es)
  then show ?case by (cases es) auto
next
  case (3 k es n)
  let ?k = "min k (Suc n)"
  have got: "\<not> length got \<ge> want" "want - length got = Suc n" using "3.prems"(2) by simp_all
  have k: "k > 0" "delivers es (Suc n - k)" using "3.prems"(1) by simp_all
  have "take ?k inp \<noteq> []" using k(1) "3.prems"(4) by (cases inp; cases k) auto
  then have "ReadExact (RecvSome k # es) want got inp = ReadExact es want (got @ take ?k inp) (drop ?k inp)"
    using got k(1) by (auto simp: Let_def)
  also have "\<dots> = (Some ((got @ take ?k inp) @ take (Suc n - k) (drop ?k inp)), drop (Suc n - k) (drop ?k inp))"
  proof (rule "3.IH" [OF k(2)])
    have "length (take ?k inp) = ?k" using "3.prems"(4) by simp
    then show "Suc n - k = want - length (got @ take ?k inp)" "length (got @ take ?k inp) \<le> want" "Suc n - k \<le> length (drop ?k inp)"
      using got "3.prems"(3,4) by simp_all
  qed
  finally have step: "ReadExact (RecvSome k # es) want got inp = (Some ((got @ take ?k inp) @ take (Suc n - k) (drop ?k inp)),
    drop (Suc n - k) (drop ?k inp))" .
  have "take ?k inp @ take (Suc n - k) (drop ?k inp) = take (Suc n) inp"
    by (cases "k \<le> Suc n") (auto simp: min_def take_add [symmetric])
  moreover have "drop (Suc n - k) (drop ?k inp) = drop (Suc n) inp" by (cases "k \<le> Suc n") (auto simp: min_def)
  ultimately show ?case unfolding step append_assoc by simp
next
  case (4 es n)
  have "delivers es (Suc n)" using "4.prems"(1) by simp
  from "4.IH" [OF this "4.prems"(2-4)] "4.prems"(2) show ?case by simp
qed (simp_all (no_asm_use))

definition frame_of :: "message \<Rightarrow> bytes" where
  "frame_of m = EncodeMessage (h_type (m_header m)) (h_flags (m_header m)) (h_seq (m_header m)) (m_payload m)"

lemma ReadMessage_frame:
  assumes len: "length (m_payload m) \<le> MAX_PAYLOAD_BYTES" and inp: "io_in s = frame_of m @ rest"
    and ev: "delivers (en_recv e (io_tick s)) LENGTH_BYTES" "delivers (en_recv e (io_tick s + 1)) (HEADER_BYTES + length (m_payload m))"
  shows "\<exists>d. ReadMessage e s = (Some m, s\<lparr>io_in := rest, io_tick := io_tick s + 2, io_dump := d\<rparr>)"
proof -
  obtain ty fl sq pl where m: "m = \<lparr>m_header = \<lparr>h_type = ty, h_flags = fl, h_seq = sq\<rparr>, m_payload = pl\<rparr>"
    by (metis message.surjective header.surjective old.unit.exhaust)
  let ?n = "HEADER_BYTES + length pl" and ?body = "le16 ty @ le16 fl @ le32 sq @ pl"
  let ?lb = "le32 (of_nat ?n)"
  have f: "frame_of m = ?lb @ ?body" using len by (simp add: frame_of_def m EncodeMessage_bytes)
  have lb: "length ?lb = LENGTH_BYTES" "length ?body = ?n" by (simp_all add: LENGTH_BYTES_def HEADER_BYTES_def)
  have n: "unat (of_nat ?n :: u32) = ?n" using len by (intro HEADER_plus_payload) (simp add: m)
  have u: "fst (snd (r_U32 0 (Reader ?lb))) = of_nat ?n" using r_U32_rd [of 0 "[]" "of_nat ?n" "[]"] by (simp add: Reader_rd)
  have bound: "\<not> (?n < HEADER_BYTES \<or> ?n > MAX_MESSAGE_BYTES)" using len by (simp add: m bound_defs)
  have r1: "ReadExact (en_recv e (io_tick s)) LENGTH_BYTES [] (io_in s) = (Some ?lb, ?body @ rest)"
    using ReadExact_delivers [OF ev(1), of LENGTH_BYTES "[]" "io_in s"] lb(1) by (simp add: inp f)
  have r2: "ReadExact (en_recv e (Suc (io_tick s))) ?n [] (?body @ rest) = (Some ?body, rest)"
    using ReadExact_delivers [OF ev(2), of ?n "[]" "?body @ rest"] lb(2) by (simp add: m)
  have dec: "DecodeBody ?body message0 = (True, m)" by (simp only: DecodeBody_bytes m)
  have "ReadMessage e s = (Some m, s\<lparr>io_in := rest, io_tick := io_tick s + 2, io_dump := Received ?lb ?body
      (if dump_Enabled (io_dump s) then framed (ReceivedSensitive m) else []) (en_micros e (io_tick s + 2)) (io_dump s)\<rparr>)"
    unfolding ReadMessage_def r1 Let_def prod.case option.case u n if_not_P [OF bound] using r2 dec by simp
  then show ?thesis by blast
qed

fun read_messages :: "'a io_env_scheme \<Rightarrow> nat \<Rightarrow> io_part \<Rightarrow> message option list \<times> io_part" where
  "read_messages e 0 s = ([], s)"
| "read_messages e (Suc n) s = (case ReadMessage e s of (m, s) \<Rightarrow> case read_messages e n s of (ms, s) \<Rightarrow> (m # ms, s))"

text \<open>
  C14. However the daemon's bytes are cut up on their way (any number at a time, with waits in between), reading messages
  gives exactly the messages whose frames were sent, whole and in order, and leaves what follows them unread; and nothing is
  sent back while reading them.
\<close>

theorem messages_read_in_order:
  assumes "io_in s = concat (map frame_of ms) @ rest" "\<forall>m \<in> set ms. length (m_payload m) \<le> MAX_PAYLOAD_BYTES"
    and "\<And>t n. n \<le> MAX_MESSAGE_BYTES \<Longrightarrow> delivers (en_recv e t) n"
  shows "fst (read_messages e (length ms) s) = map Some ms \<and> io_in (snd (read_messages e (length ms) s)) = rest \<and>
    io_out (snd (read_messages e (length ms) s)) = io_out s"
  using assms(1,2)
proof (induction ms arbitrary: s)
  case (Cons m ms)
  have len: "length (m_payload m) \<le> MAX_PAYLOAD_BYTES" using Cons.prems(2) by simp
  have "delivers (en_recv e t) LENGTH_BYTES" "delivers (en_recv e t) (HEADER_BYTES + length (m_payload m))" for t
    using len by (auto intro!: assms(3) simp: bound_defs LENGTH_BYTES_def)
  with ReadMessage_frame [OF len, of s "concat (map frame_of ms) @ rest" e] Cons.prems(1) obtain d where
    r: "ReadMessage e s = (Some m, s\<lparr>io_in := concat (map frame_of ms) @ rest, io_tick := io_tick s + 2, io_dump := d\<rparr>)" by auto
  from Cons.IH [of "s\<lparr>io_in := concat (map frame_of ms) @ rest, io_tick := io_tick s + 2, io_dump := d\<rparr>"] Cons.prems(2)
  show ?case by (simp add: r case_prod_unfold)
qed simp

definition io_example :: io_part where
  "io_example = \<lparr>io_in = frame_of message0 @ frame_of (message0\<lparr>m_payload := [1, 2]\<rparr>), io_out = [],
     io_dump = \<lparr>m_file = None, m_openMicros = 0, m_redacted = []\<rparr>, io_tick = 0\<rparr>"

definition slow_env :: io_env where
  "slow_env = \<lparr>en_send = (\<lambda>_. []), en_recv = (\<lambda>_. [RecvSome 1, RecvBlocked, RecvSome 2, RecvSome 2000000]), en_micros = (\<lambda>_. 0)\<rparr>"

theorem messages_read_in_order_witness:
  "fst (read_messages slow_env 2 io_example) = [Some message0, Some (message0\<lparr>m_payload := [1, 2]\<rparr>)]"
proof -
  have d: "delivers (en_recv slow_env t) n" if "n \<le> MAX_MESSAGE_BYTES" for t n
  proof -
    have big: "delivers [RecvSome 2000000] k" if "k \<le> 2000000" for k using that by (cases k) auto
    have two: "delivers [RecvSome 2, RecvSome 2000000] k" if "k \<le> 2000000" for k using that big [of "k - 2"] by (cases k) auto
    have "delivers [RecvBlocked, RecvSome 2, RecvSome 2000000] k" if "k \<le> 2000000" for k using two [OF that] by (cases k) auto
    then show ?thesis using \<open>n \<le> MAX_MESSAGE_BYTES\<close> by (cases n) (auto simp: slow_env_def bound_defs)
  qed
  show ?thesis
    using messages_read_in_order [of io_example "[message0, message0\<lparr>m_payload := [1, 2]\<rparr>]" "[]" slow_env, OF _ _ d]
    by (simp add: io_example_def message0_def bound_defs numeral_2_eq_2)
qed

end
