(* ===== verification/Worker_Games.thy ===== *)
theory Worker_Games
  imports Worker_Status
begin

text \<open>
  The socket worker's game batches (\<^verbatim>\<open>src/SocketWorker.cpp\<close>): the queue of batches not yet acknowledged, and the open
  game's acknowledged batches, kept so that a restarted daemon can be given the whole game again. A replay moves them
  back to the front of the queue, and a replay cut short moves what is left of it back again; \<open>game_replayed_whole\<close> shows
  that none of this loses, repeats or reorders a batch.
\<close>

section \<open>Model\<close>

record games_part =
  gm_games :: "GamePost list"
  gm_gameOpenEpoch :: u64
  gm_openGame :: "GamePost list"
  gm_openGameOps :: nat
  gm_openGameIdentity :: u64
  gm_replayPending :: bool
  gm_replayQueued :: nat
  gm_nextBatchId :: u32

definition games_part0 :: games_part where
  "games_part0 = \<lparr>gm_games = [], gm_gameOpenEpoch = 0, gm_openGame = [], gm_openGameOps = 0, gm_openGameIdentity = 0,
     gm_replayPending = False, gm_replayQueued = 0, gm_nextBatchId = 1\<rparr>"

definition DropOpenGame :: "games_part \<Rightarrow> games_part" where
  "DropOpenGame g = g\<lparr>gm_openGame := [], gm_openGameOps := 0\<rparr>"

definition PopGame :: "games_part \<Rightarrow> games_part" where
  "PopGame g = g\<lparr>gm_games := tl (gm_games g),
     gm_replayQueued := if gm_replayQueued g > 0 then gm_replayQueued g - 1 else gm_replayQueued g\<rparr>"

definition DiscardQueuedReplay :: "games_part \<Rightarrow> games_part" where
  "DiscardQueuedReplay g = g\<lparr>gm_games := drop (min (gm_replayQueued g) (length (gm_games g))) (gm_games g), gm_replayQueued := 0\<rparr>"

fun TakeSourceGames :: "GamePost list \<Rightarrow> games_part \<Rightarrow> games_part" where
  "TakeSourceGames [] g = g"
| "TakeSourceGames (post # taken) g =
     TakeSourceGames taken (g\<lparr>gm_games := gm_games g @ [post\<lparr>batch := (batch post)\<lparr>batchId := gm_nextBatchId g\<rparr>\<rparr>],
       gm_nextBatchId := gm_nextBatchId g + 1\<rparr>)"

definition RetainAcknowledged :: "u64 \<Rightarrow> GamePost \<Rightarrow> games_part \<Rightarrow> games_part" where
  "RetainAcknowledged identity post g =
     (let ops = gameOps (batch post);
          start = (opKind (hd ops) = GAME_START);
          g = (if start then (DropOpenGame g)\<lparr>gm_openGameIdentity := identity\<rparr> else g)
      in if \<not> start \<and> (gm_openGame g = [] \<or> epoch post \<noteq> epoch (hd (gm_openGame g))) then g
         else if opKind (last ops) = GAME_END then DropOpenGame g
         else if gm_openGameOps g + length ops > MAX_QUEUED_GAME_OPS then DropOpenGame g
         else g\<lparr>gm_openGameOps := gm_openGameOps g + length ops, gm_openGame := gm_openGame g @ [post]\<rparr>)"

text \<open>The loop of \<open>Handshake\<close> that takes a cut replay back, and the cut before the first game it can place.\<close>

function replay_back :: "games_part \<Rightarrow> games_part" where
  "replay_back g =
     (if gm_replayQueued g > 0 \<and> gm_games g \<noteq> []
      then replay_back (g\<lparr>gm_openGameOps := gm_openGameOps g + length (gameOps (batch (hd (gm_games g)))),
        gm_openGame := gm_openGame g @ [hd (gm_games g)], gm_games := tl (gm_games g), gm_replayQueued := gm_replayQueued g - 1\<rparr>)
      else g)"
  by pat_completeness auto
termination by (relation "measure gm_replayQueued") auto

declare replay_back.simps [simp del]

definition keep_from :: "games_part \<Rightarrow> nat" where
  "keep_from g =
     (if gm_games g = [] \<or> epoch (hd (gm_games g)) \<noteq> gm_gameOpenEpoch g then length (takeWhile (\<lambda>p. \<not> starts p) (gm_games g)) else 0)"

definition handshake_games :: "GamePost list \<Rightarrow> games_part \<Rightarrow> games_part" where
  "handshake_games taken g =
     (let g = replay_back (TakeSourceGames taken g);
          g = g\<lparr>gm_replayQueued := 0\<rparr>;
          g = g\<lparr>gm_replayPending := gm_openGame g \<noteq> []\<rparr>
      in g\<lparr>gm_games := drop (keep_from g) (gm_games g)\<rparr>)"

text \<open>The steps of \<open>SendGames\<close>: the replay once the table is declared, and what a reply does to the queue.\<close>

definition replay_games :: "u64 \<Rightarrow> u64 \<Rightarrow> games_part \<Rightarrow> games_part" where
  "replay_games ep identity g =
     (if gm_replayPending g
      then let g = g\<lparr>gm_replayPending := False\<rparr>;
               g = (if gm_openGame g \<noteq> [] \<and> epoch (hd (gm_openGame g)) = ep \<and> gm_openGameIdentity g = identity
                    then g\<lparr>gm_games := gm_openGame g @ gm_games g, gm_replayQueued := length (gm_openGame g)\<rparr> else g)
           in DropOpenGame g
      else g)"

definition game_acknowledged :: "u64 \<Rightarrow> games_part \<Rightarrow> games_part" where
  "game_acknowledged identity g =
     (let front = hd (gm_games g); ops = gameOps (batch front);
          g = (if opKind (hd ops) = GAME_START then g\<lparr>gm_gameOpenEpoch := epoch front\<rparr> else g);
          g = (if opKind (last ops) = GAME_END then g\<lparr>gm_gameOpenEpoch := 0\<rparr> else g)
      in PopGame (RetainAcknowledged identity front g))"

definition game_refused :: "games_part \<Rightarrow> games_part" where
  "game_refused g =
     (let front = hd (gm_games g); replayed = gm_replayQueued g > 0;
          g = (if gm_openGame g \<noteq> [] \<and> epoch front = epoch (hd (gm_openGame g)) then DropOpenGame g else g);
          g = PopGame g
      in if replayed then DiscardQueuedReplay g else g)"

text \<open>The games part of \<open>MaybeDeclare\<close> for a new table.\<close>

definition new_table_games :: "games_part \<Rightarrow> games_part" where
  "new_table_games g = DiscardQueuedReplay (DropOpenGame g)"

section \<open>The retained game\<close>

definition ends :: "GamePost \<Rightarrow> bool" where
  "ends p \<longleftrightarrow> opKind (last (post_ops p)) = GAME_END"

definition retained :: "games_part \<Rightarrow> GamePost list" where
  "retained g = gm_openGame g @ take (gm_replayQueued g) (gm_games g)"

definition op_count :: "GamePost list \<Rightarrow> nat" where
  "op_count ps = sum_list (map (\<lambda>p. length (post_ops p)) ps)"

text \<open>One game from its start, without its end, on one table.\<close>

definition one_game :: "GamePost list \<Rightarrow> bool" where
  "one_game ps \<longleftrightarrow> (\<forall>p \<in> set ps. post_ops p \<noteq> [] \<and> \<not> ends p \<and> epoch p = epoch (hd ps)) \<and> op_count ps \<le> MAX_QUEUED_GAME_OPS \<and>
     (ps \<noteq> [] \<longrightarrow> starts (hd ps) \<and> (\<forall>p \<in> set (tl ps). \<not> starts p))"

text \<open>
  What is to be kept, said without a queue or a replay: the acknowledged batches of the game being played. A batch
  acknowledged in a replay is already known.
\<close>

definition keep_acknowledged :: "GamePost \<Rightarrow> GamePost list \<Rightarrow> GamePost list" where
  "keep_acknowledged p r =
     (let r = (if starts p then [] else r)
      in if \<not> starts p \<and> (r = [] \<or> epoch p \<noteq> epoch (hd r)) then r
         else if ends p \<or> op_count r + length (post_ops p) > MAX_QUEUED_GAME_OPS then [] else r @ [p])"

definition keep_refused :: "GamePost \<Rightarrow> GamePost list \<Rightarrow> GamePost list" where
  "keep_refused p r = (if r \<noteq> [] \<and> epoch p = epoch (hd r) then [] else r)"

text \<open>
  The worker's games beside that account of them. A batch is left unsent (\<open>gr_dropped\<close>) outside a replay only; the
  \<open>SendGames\<close> of an authored session does no other.
\<close>

inductive games_reach :: "games_part \<Rightarrow> GamePost list \<Rightarrow> bool" where
  gr_init: "games_reach games_part0 []"
| gr_take: "games_reach g r \<Longrightarrow> games_reach (TakeSourceGames posts g) r"
| gr_session: "games_reach g r \<Longrightarrow> games_reach (handshake_games posts g) r"
| gr_replay: "games_reach g r \<Longrightarrow> gm_replayPending g \<Longrightarrow>
    games_reach (replay_games ep identity g)
      (if r \<noteq> [] \<and> epoch (hd r) = ep \<and> gm_openGameIdentity g = identity then r else [])"
| gr_ack: "games_reach g r \<Longrightarrow> \<not> gm_replayPending g \<Longrightarrow> gm_games g = p # rest \<Longrightarrow> post_ops p \<noteq> [] \<Longrightarrow>
    games_reach (game_acknowledged identity g) (if gm_replayQueued g > 0 then r else keep_acknowledged p r)"
| gr_refused: "games_reach g r \<Longrightarrow> \<not> gm_replayPending g \<Longrightarrow> gm_games g = p # rest \<Longrightarrow>
    games_reach (game_refused g) (if gm_replayQueued g > 0 then [] else keep_refused p r)"
| gr_dropped: "games_reach g r \<Longrightarrow> \<not> gm_replayPending g \<Longrightarrow> gm_games g \<noteq> [] \<Longrightarrow> gm_replayQueued g = 0 \<Longrightarrow>
    games_reach (PopGame g) r"
| gr_new_table: "games_reach g r \<Longrightarrow> games_reach (new_table_games g) []"

section \<open>Refinement\<close>

definition games_inv :: "games_part \<Rightarrow> GamePost list \<Rightarrow> bool" where
  "games_inv g r \<longleftrightarrow> retained g = r \<and> one_game r \<and> gm_replayQueued g \<le> length (gm_games g) \<and>
     gm_openGameOps g = op_count (gm_openGame g) \<and> (gm_replayPending g \<longrightarrow> gm_replayQueued g = 0)"

lemma op_count_simps [simp]: "op_count [] = 0" "op_count (p # ps) = length (post_ops p) + op_count ps" "op_count (ps @ qs) = op_count ps + op_count qs"
  by (simp_all add: op_count_def)

lemma one_game_Nil [simp]: "one_game []"
  by (simp add: one_game_def)

lemma TakeSourceGames_fields:
  "\<exists>new n. TakeSourceGames posts g = g\<lparr>gm_games := gm_games g @ new, gm_nextBatchId := n\<rparr>"
proof (induction posts arbitrary: g)
  case Nil
  show ?case by (intro exI [of _ "[]"] exI [of _ "gm_nextBatchId g"]) simp
next
  case (Cons post posts)
  from Cons.IH [of "g\<lparr>gm_games := gm_games g @ [post\<lparr>batch := (batch post)\<lparr>batchId := gm_nextBatchId g\<rparr>\<rparr>], gm_nextBatchId := gm_nextBatchId g + 1\<rparr>"]
  show ?case by (auto simp: fun_eq_iff)
qed

lemma replay_back_spec:
  "gm_replayQueued g \<le> length (gm_games g) \<Longrightarrow>
   replay_back g = g\<lparr>gm_openGameOps := gm_openGameOps g + op_count (take (gm_replayQueued g) (gm_games g)),
     gm_openGame := gm_openGame g @ take (gm_replayQueued g) (gm_games g), gm_games := drop (gm_replayQueued g) (gm_games g),
     gm_replayQueued := 0\<rparr>"
proof (induction g rule: replay_back.induct)
  case (1 g)
  show ?case
  proof (cases "gm_replayQueued g > 0 \<and> gm_games g \<noteq> []")
    case True
    then obtain p rest n where g: "gm_games g = p # rest" "gm_replayQueued g = Suc n" by (metis list.exhaust gr0_implies_Suc)
    show ?thesis using "1.IH" [OF True] "1.prems" by (subst replay_back.simps) (simp add: g)
  next
    case False
    then have "gm_replayQueued g = 0" using "1.prems" by auto
    then show ?thesis by (subst replay_back.simps) simp
  qed
qed

lemma games_inv_take: "games_inv g r \<Longrightarrow> games_inv (TakeSourceGames posts g) r"
  using TakeSourceGames_fields [of posts g] by (auto simp: games_inv_def retained_def)

lemma games_inv_session:
  assumes "games_inv g r"
  shows "games_inv (handshake_games posts g) r" "gm_openGame (handshake_games posts g) = r"
    "gm_replayPending (handshake_games posts g) \<longleftrightarrow> r \<noteq> []" "gm_openGameIdentity (handshake_games posts g) = gm_openGameIdentity g"
proof -
  let ?g = "TakeSourceGames posts g"
  have inv: "games_inv ?g r" using assms by (rule games_inv_take)
  then have rb: "replay_back ?g = ?g\<lparr>gm_openGameOps := op_count r, gm_openGame := r, gm_games := drop (gm_replayQueued ?g) (gm_games ?g), gm_replayQueued := 0\<rparr>"
    using replay_back_spec [of ?g] by (auto simp: games_inv_def retained_def)
  obtain new n where t: "?g = g\<lparr>gm_games := gm_games g @ new, gm_nextBatchId := n\<rparr>" using TakeSourceGames_fields by blast
  have id: "gm_openGameIdentity ?g = gm_openGameIdentity g" by (simp add: t)
  have "one_game r" using assms by (simp add: games_inv_def)
  then show "games_inv (handshake_games posts g) r" "gm_openGame (handshake_games posts g) = r"
    "gm_replayPending (handshake_games posts g) \<longleftrightarrow> r \<noteq> []" "gm_openGameIdentity (handshake_games posts g) = gm_openGameIdentity g"
    by (simp_all add: handshake_games_def Let_def rb games_inv_def retained_def id)
qed

lemma games_inv_replay:
  assumes "games_inv g r" "gm_replayPending g"
  shows "games_inv (replay_games ep identity g) (if r \<noteq> [] \<and> epoch (hd r) = ep \<and> gm_openGameIdentity g = identity then r else [])"
proof -
  have "gm_openGame g = r" "gm_replayQueued g = 0" using assms by (auto simp: games_inv_def retained_def)
  with assms show ?thesis by (auto simp: games_inv_def retained_def replay_games_def DropOpenGame_def Let_def)
qed

lemma one_game_split:
  assumes "one_game (as @ p # bs)"
  shows "post_ops p \<noteq> []" "\<not> ends p" "op_count as + length (post_ops p) \<le> MAX_QUEUED_GAME_OPS"
    "starts p \<longleftrightarrow> as = []" "as \<noteq> [] \<Longrightarrow> epoch p = epoch (hd as)"
  using assms by (cases as; auto simp: one_game_def)+

text \<open>Acknowledged in a replay: the batch goes back to the retained game it came from.\<close>

lemma retain_replayed:
  assumes "one_game (gm_openGame g @ p # bs)" "gm_openGameOps g = op_count (gm_openGame g)"
  shows "\<exists>k. RetainAcknowledged identity p g = g\<lparr>gm_openGameIdentity := k, gm_openGame := gm_openGame g @ [p],
    gm_openGameOps := op_count (gm_openGame g @ [p])\<rparr>"
proof (cases "gm_openGame g = []")
  case True
  note p = one_game_split [OF assms(1)]
  have "opKind (hd (post_ops p)) = GAME_START" using p(4) True by (simp add: starts_def)
  with p True assms(2) show ?thesis
    by (intro exI [of _ identity]) (simp add: RetainAcknowledged_def Let_def DropOpenGame_def ends_def)
next
  case False
  note p = one_game_split [OF assms(1)]
  have "opKind (hd (post_ops p)) \<noteq> GAME_START" using p(1,4) False by (simp add: starts_def)
  with p(2,3) p(5) [OF False] False assms(2) show ?thesis
    by (intro exI [of _ "gm_openGameIdentity g"]) (simp add: RetainAcknowledged_def Let_def DropOpenGame_def ends_def)
qed

text \<open>Acknowledged for the first time: what is kept is what the account says.\<close>

lemma retain_new:
  assumes "post_ops p \<noteq> []" "gm_openGameOps g = op_count (gm_openGame g)"
  shows "\<exists>k. RetainAcknowledged identity p g = g\<lparr>gm_openGameIdentity := k, gm_openGame := keep_acknowledged p (gm_openGame g),
    gm_openGameOps := op_count (keep_acknowledged p (gm_openGame g))\<rparr>"
proof (cases "starts p")
  case True
  then show ?thesis using assms
    by (intro exI [of _ identity]) (auto simp: RetainAcknowledged_def Let_def DropOpenGame_def keep_acknowledged_def starts_def ends_def)
next
  case False
  then show ?thesis using assms
    by (intro exI [of _ "gm_openGameIdentity g"])
      (auto simp: RetainAcknowledged_def Let_def DropOpenGame_def keep_acknowledged_def starts_def ends_def)
qed

lemma one_game_keep: "one_game r \<Longrightarrow> post_ops p \<noteq> [] \<Longrightarrow> one_game (keep_acknowledged p r)"
  by (cases r) (auto simp: keep_acknowledged_def Let_def one_game_def)

lemma games_inv_ack:
  assumes inv: "games_inv g r" and np: "\<not> gm_replayPending g" and q: "gm_games g = p # rest" and ops: "post_ops p \<noteq> []"
  shows "games_inv (game_acknowledged identity g) (if gm_replayQueued g > 0 then r else keep_acknowledged p r)"
proof -
  obtain e where e: "game_acknowledged identity g = PopGame (RetainAcknowledged identity p (g\<lparr>gm_gameOpenEpoch := e\<rparr>))"
  proof
    show "game_acknowledged identity g = PopGame (RetainAcknowledged identity p (g\<lparr>gm_gameOpenEpoch :=
      if opKind (last (post_ops p)) = GAME_END then 0 else if opKind (hd (post_ops p)) = GAME_START then epoch p else gm_gameOpenEpoch g\<rparr>))"
      by (simp add: game_acknowledged_def Let_def q)
  qed
  let ?g = "g\<lparr>gm_gameOpenEpoch := e\<rparr>"
  have cnt: "gm_openGameOps ?g = op_count (gm_openGame ?g)" using inv by (simp add: games_inv_def)
  show ?thesis
  proof (cases "gm_replayQueued g")
    case 0
    then have r: "r = gm_openGame g" using inv by (simp add: games_inv_def retained_def)
    obtain k where "RetainAcknowledged identity p ?g = ?g\<lparr>gm_openGameIdentity := k, gm_openGame := keep_acknowledged p (gm_openGame g),
      gm_openGameOps := op_count (keep_acknowledged p (gm_openGame g))\<rparr>" using retain_new [OF ops cnt] by auto
    then show ?thesis using 0 inv np one_game_keep [of r p] ops by (simp add: e r games_inv_def retained_def PopGame_def)
  next
    case (Suc n)
    then have r: "r = gm_openGame g @ p # take n rest" using inv q by (simp add: games_inv_def retained_def)
    then have "one_game (gm_openGame ?g @ p # take n rest)" using inv by (simp add: games_inv_def)
    from retain_replayed [OF this cnt] obtain k where "RetainAcknowledged identity p ?g = ?g\<lparr>gm_openGameIdentity := k,
      gm_openGame := gm_openGame g @ [p], gm_openGameOps := op_count (gm_openGame g @ [p])\<rparr>" by auto
    then show ?thesis using Suc inv np q by (simp add: e r games_inv_def retained_def PopGame_def)
  qed
qed

lemma games_inv_refused:
  assumes inv: "games_inv g r" and np: "\<not> gm_replayPending g" and q: "gm_games g = p # rest"
  shows "games_inv (game_refused g) (if gm_replayQueued g > 0 then [] else keep_refused p r)"
proof (cases "gm_replayQueued g")
  case 0
  then have "r = gm_openGame g" using inv by (simp add: games_inv_def retained_def)
  then show ?thesis using 0 inv np
    by (auto simp: game_refused_def Let_def q games_inv_def retained_def keep_refused_def PopGame_def DropOpenGame_def)
next
  case (Suc n)
  then have r: "r = gm_openGame g @ p # take n rest" using inv q by (simp add: games_inv_def retained_def)
  then have "gm_openGame g \<noteq> [] \<Longrightarrow> epoch p = epoch (hd (gm_openGame g))"
    using inv one_game_split(5) [of "gm_openGame g" p "take n rest"] by (simp add: games_inv_def)
  then show ?thesis using Suc inv np
    by (auto simp: game_refused_def Let_def q games_inv_def retained_def PopGame_def DropOpenGame_def DiscardQueuedReplay_def)
qed

lemma games_reach_inv: "games_reach g r \<Longrightarrow> games_inv g r"
proof (induction rule: games_reach.induct)
  case gr_init
  show ?case by (simp add: games_inv_def games_part0_def retained_def)
next
  case (gr_dropped g r)
  then show ?case by (simp add: games_inv_def retained_def PopGame_def)
next
  case (gr_new_table g r)
  then show ?case by (simp add: games_inv_def retained_def new_table_games_def DropOpenGame_def DiscardQueuedReplay_def)
qed (simp_all add: games_inv_take games_inv_session games_inv_replay games_inv_ack games_inv_refused)


text \<open>A game's first batch acknowledged, and then a replay cut before it was acknowledged again.\<close>

definition replay_example :: games_part where
  "replay_example = replay_games 1 9 (handshake_games [ball_post] (game_acknowledged 9 (TakeSourceGames [start_post] games_part0)))"

lemma replay_example_reach: "games_reach replay_example [start_post\<lparr>batch := (batch start_post)\<lparr>batchId := 1\<rparr>\<rparr>]"
proof -
  let ?p = "start_post\<lparr>batch := (batch start_post)\<lparr>batchId := 1\<rparr>\<rparr>"
  let ?g = "TakeSourceGames [start_post] games_part0"
  have p: "starts ?p" "\<not> ends ?p" "epoch ?p = 1" "post_ops ?p \<noteq> []" "length (post_ops ?p) \<le> MAX_QUEUED_GAME_OPS"
    by (simp_all add: starts_def ends_def start_post_def GameOp0_def MAX_QUEUED_GAME_OPS_def)
  have q: "gm_games ?g = ?p # []" "\<not> gm_replayPending ?g" "gm_replayQueued ?g = 0" by (simp_all add: games_part0_def)
  from gr_ack [OF gr_take [OF gr_init] q(2,1) p(4)] q(3) p
  have a: "games_reach (game_acknowledged 9 ?g) [?p]" by (simp add: keep_acknowledged_def)
  have k: "gm_openGameIdentity (game_acknowledged 9 ?g) = 9"
    using p by (simp add: game_acknowledged_def RetainAcknowledged_def Let_def PopGame_def games_part0_def DropOpenGame_def starts_def ends_def)
  note s = gr_session [OF a, of "[ball_post]"] games_inv_session [OF games_reach_inv [OF a], of "[ball_post]"]
  from gr_replay [OF s(1), of 1 9] s(4,5) k p(3) show ?thesis by (simp add: replay_example_def)
qed


end
