(* ===== verification/Worker_ReadBack.thy ===== *)
theory Worker_ReadBack
  imports Worker_Status Player_Table "HOL-Library.Multiset"
begin

text \<open>
  The socket worker's read-backs (\<^verbatim>\<open>src/SocketWorker.cpp\<close>): the leaderboard requests a script made, from the channel to
  their one answer, and the players and their pictures. What goes back to the script is the list of results posted to
  the channel; the requests the channel hands over (\<open>TakeRequests\<close>, \<open>Close\<close>) are arguments. One call reads the clock
  once.
\<close>

section \<open>Leaderboard requests\<close>

definition MAX_PENDING_SCORES :: nat where "MAX_PENDING_SCORES = 64"

text \<open>
  \<open>sp_pending\<close> is the \<^verbatim>\<open>std::map\<close> of requests sent, by id. \<open>sp_taken\<close> is no state of the program: it lists the ids the
  channel has handed over.
\<close>

record scores_part =
  sp_asks :: "TopScoresAsk list"
  sp_pending :: "(u32 \<times> u64) list"
  sp_posted :: "TopScoresPost list"
  sp_taken :: "u32 list"

definition scores_part0 :: scores_part where
  "scores_part0 = \<lparr>sp_asks = [], sp_pending = [], sp_posted = [], sp_taken = []\<rparr>"

fun pending_put :: "u32 \<Rightarrow> u64 \<Rightarrow> (u32 \<times> u64) list \<Rightarrow> (u32 \<times> u64) list" where
  "pending_put i e [] = [(i, e)]"
| "pending_put i e ((j, f) # m) = (if i < j then (i, e) # (j, f) # m else if i = j then (i, e) # m else (j, f) # pending_put i e m)"

definition pending_erase :: "u32 \<Rightarrow> (u32 \<times> u64) list \<Rightarrow> (u32 \<times> u64) list" where
  "pending_erase i m = filter (\<lambda>x. fst x \<noteq> i) m"

abbreviation ask_id :: "TopScoresAsk \<Rightarrow> u32" where
  "ask_id a \<equiv> TopScoresRequest.requestId (ask_request a)"

definition PostScores :: "time_point \<Rightarrow> u64 \<Rightarrow> u32 \<Rightarrow> int \<Rightarrow> scores_part \<Rightarrow> scores_part" where
  "PostScores now ep rid result s = s\<lparr>sp_posted := sp_posted s @
     [\<lparr>post_epoch = ep, post_requestId = rid, post_result = result, post_ageS = 0, post_entries = [], post_received = now\<rparr>]\<rparr>"

text \<open>The leaderboard part of \<open>EndReadBacks\<close>; \<open>closed\<close> is what the channel held when it was closed.\<close>

definition end_scores :: "time_point \<Rightarrow> bool \<Rightarrow> TopScoresAsk list \<Rightarrow> scores_part \<Rightarrow> scores_part" where
  "end_scores now lost closed s =
     (let s = (if lost
               then (fold (\<lambda>a. PostScores now (ask_epoch a) (ask_id a) SCORES_LOST) (sp_asks s @ closed) s)
                      \<lparr>sp_asks := [], sp_taken := sp_taken s @ map ask_id closed\<rparr>
               else s)
      in (fold (\<lambda>(i, ep). PostScores now ep i SCORES_LOST) (sp_pending s) s)\<lparr>sp_pending := []\<rparr>)"

definition take_asks :: "TopScoresAsk list \<Rightarrow> scores_part \<Rightarrow> scores_part" where
  "take_asks taken s = s\<lparr>sp_asks := sp_asks s @ taken, sp_taken := sp_taken s @ map ask_id taken\<rparr>"

definition stale_ask :: "DeclareSnapshot \<Rightarrow> TopScoresAsk \<Rightarrow> bool" where
  "stale_ask declared a \<longleftrightarrow> \<not> (ask_epoch a \<noteq> ds_epoch declared \<or> ask_identity a \<ge> ds_identity declared)"

definition LoseQueuedRequests :: "SocketWorkerConfig \<Rightarrow> time_point \<Rightarrow> DeclareSnapshot \<Rightarrow> TopScoresAsk list \<Rightarrow> scores_part \<Rightarrow> scores_part" where
  "LoseQueuedRequests cf now declared taken s =
     (if \<not> cf_readBack cf then s
      else let s = take_asks taken s
           in (fold (\<lambda>a. PostScores now (ask_epoch a) (ask_id a) SCORES_LOST) (filter (stale_ask declared) (sp_asks s)) s)
                \<lparr>sp_asks := filter (\<lambda>a. \<not> stale_ask declared a) (sp_asks s)\<rparr>)"

text \<open>
  The front request of \<open>SendTopScoresRequests\<close>: it waits for its table, or it is answered here, or its payload is sent.
\<close>

datatype ask_step = AskWait | AskAnswer int | AskSend bytes

definition ask_decide :: "bool \<Rightarrow> DeclareSnapshot \<Rightarrow> bool \<Rightarrow> bool \<Rightarrow> TopScoresAsk \<Rightarrow> ask_step" where
  "ask_decide haveDeclared declared allowed identified a =
     (if \<not> haveDeclared \<or> ask_epoch a > ds_epoch declared
         \<or> (ask_epoch a = ds_epoch declared \<and> ask_identity a > ds_identity declared) then AskWait
      else if ask_epoch a < ds_epoch declared \<or> ask_identity a < ds_identity declared then AskAnswer SCORES_LOST
      else if \<not> allowed then AskAnswer SCORES_UNSUPPORTED
      else if \<not> identified then AskAnswer SCORES_NOT_DECLARED
      else let pl = Encode_TopScoresRequest (ask_request a)
           in if pl = [] then AskAnswer SCORES_MALFORMED else AskSend pl)"

definition answer_ask :: "time_point \<Rightarrow> int \<Rightarrow> scores_part \<Rightarrow> scores_part" where
  "answer_ask now result s =
     PostScores now (ask_epoch (hd (sp_asks s))) (ask_id (hd (sp_asks s))) result (s\<lparr>sp_asks := tl (sp_asks s)\<rparr>)"

definition register_ask :: "time_point \<Rightarrow> scores_part \<Rightarrow> scores_part" where
  "register_ask now s =
     (let a = hd (sp_asks s);
          s = s\<lparr>sp_asks := tl (sp_asks s)\<rparr>;
          s = (if length (sp_pending s) \<ge> MAX_PENDING_SCORES
               then (PostScores now (snd (hd (sp_pending s))) (fst (hd (sp_pending s))) SCORES_LOST s)\<lparr>sp_pending := tl (sp_pending s)\<rparr>
               else s)
      in s\<lparr>sp_pending := pending_put (ask_id a) (ask_epoch a) (sp_pending s)\<rparr>)"

definition refusal_result :: "u16 \<Rightarrow> int" where
  "refusal_result c =
     (if c = ERR_NOT_DECLARED then SCORES_NOT_DECLARED
      else if c = ERR_UNSUPPORTED_OPERATION \<or> c = ERR_UNSUPPORTED_TYPE then SCORES_UNSUPPORTED
      else if c = ERR_MALFORMED then SCORES_MALFORMED
      else uint TOP_SCORES_FAILED)"

definition refuse_ask :: "time_point \<Rightarrow> u16 \<Rightarrow> TopScoresAsk \<Rightarrow> scores_part \<Rightarrow> scores_part" where
  "refuse_ask now c a s =
     (if map_of (sp_pending s) (ask_id a) = None then s
      else PostScores now (ask_epoch a) (ask_id a) (refusal_result c) (s\<lparr>sp_pending := pending_erase (ask_id a) (sp_pending s)\<rparr>))"

text \<open>\<open>AnswerTopScores\<close> without its reply: whether the payload decoded, and what becomes of the request.\<close>

definition take_scores :: "time_point \<Rightarrow> bytes \<Rightarrow> scores_part \<Rightarrow> bool \<times> scores_part" where
  "take_scores now pl s =
     (case Decode_TopScores pl TopScores0 of (decoded, v) \<Rightarrow>
        if \<not> decoded
        then (False, case r_U32 0 (Reader pl) of
                (True, i, _) \<Rightarrow> (case map_of (sp_pending s) i of
                    Some ep \<Rightarrow> (PostScores now ep i SCORES_MALFORMED s)\<lparr>sp_pending := pending_erase i (sp_pending s)\<rparr>
                  | None \<Rightarrow> s)
              | (False, _, _) \<Rightarrow> s)
        else (True, case map_of (sp_pending s) (TopScores.requestId v) of
                None \<Rightarrow> s
              | Some ep \<Rightarrow> s\<lparr>sp_pending := pending_erase (TopScores.requestId v) (sp_pending s),
                    sp_posted := sp_posted s @ [\<lparr>post_epoch = ep, post_requestId = TopScores.requestId v,
                      post_result = uint (scoresResult v), post_ageS = ageS v, post_entries = entries v, post_received = now\<rparr>]\<rparr>))"

section \<open>Players\<close>

record players_part =
  pl_table :: PlayerTable
  pl_files :: filesystem
  pl_snapshotDue :: bool
  pl_claims :: u32
  pl_latch :: "PlayersPost latch"

definition players_part0 :: "string \<Rightarrow> u64 \<Rightarrow> filesystem \<Rightarrow> players_part" where
  "players_part0 dir tag fs = \<lparr>pl_table = SetDirectory dir tag PlayerTable_init, pl_files = fs, pl_snapshotDue = False, pl_claims = 0,
     pl_latch = Latch\<rparr>"

definition worker_PostPlayers :: "DeclareSnapshot \<Rightarrow> players_part \<Rightarrow> players_part" where
  "worker_PostPlayers declared p =
     p\<lparr>pl_latch := latch_Post (Fill (pl_table p) (PlayersPost0\<lparr>pp_epoch := ds_epoch declared, pp_claims := pl_claims p\<rparr>)) (pl_latch p)\<rparr>"

text \<open>The players' part of \<open>EndReadBacks\<close>.\<close>

definition end_players :: "DeclareSnapshot \<Rightarrow> players_part \<Rightarrow> players_part" where
  "end_players declared p =
     (case table_Clear (pl_table p, pl_files p) of (held, t, fs) \<Rightarrow>
        let p = p\<lparr>pl_table := t, pl_files := fs\<rparr> in if held then worker_PostPlayers declared p else p)"

text \<open>\<open>AnswerPlayers\<close> and \<open>AnswerPlayerPicture\<close> without their replies.\<close>

definition new_claims :: "PlayerView list \<Rightarrow> PlayerSlot list \<Rightarrow> nat" where
  "new_claims before ss = length (filter (\<lambda>s. PlayerSlot.playerId s \<noteq> [] \<and> PlayerSlot.player s \<ge> 1 \<and>
     unat (PlayerSlot.player s) \<le> length before \<and> PlayerSlot.playerId s \<noteq> pv_playerId (before ! (unat (PlayerSlot.player s) - 1))) ss)"

definition take_players :: "DeclareSnapshot \<Rightarrow> bytes \<Rightarrow> players_part \<Rightarrow> bool \<times> players_part" where
  "take_players declared pl p =
     (case Decode_Players pl Players0 of (decoded, v, _) \<Rightarrow>
        if \<not> decoded then (False, p)
        else let snapshot = pl_snapshotDue p;
                 p = p\<lparr>pl_snapshotDue := False\<rparr>;
                 p = (if snapshot then p
                      else p\<lparr>pl_claims := pl_claims p + of_nat (new_claims (pp_slots (Fill (pl_table p) PlayersPost0)) (slots v))\<rparr>)
             in case ApplyPlayers v (pl_table p, pl_files p) of (changed, t, fs) \<Rightarrow>
                  let p = p\<lparr>pl_table := t, pl_files := fs\<rparr>
                  in (True, if changed then worker_PostPlayers declared p else p))"

definition take_picture :: "picture_env \<Rightarrow> DeclareSnapshot \<Rightarrow> bytes \<Rightarrow> players_part \<Rightarrow> bool \<times> players_part" where
  "take_picture env declared pl p =
     (case Decode_PlayerPicture pl PlayerPicture0 of (decoded, v, _) \<Rightarrow>
        if \<not> decoded then (False, p)
        else case ApplyPicture env v (pl_table p, pl_files p) of ((outcome, _), t, fs) \<Rightarrow>
               let p = p\<lparr>pl_table := t, pl_files := fs\<rparr>
               in (True, if outcome = Ignored \<or> outcome = Unchanged then p else worker_PostPlayers declared p))"

section \<open>Every request is answered once\<close>

text \<open>The requests of a script, however the session goes.\<close>

inductive scores_reach :: "scores_part \<Rightarrow> bool" where
  sr_init: "scores_reach scores_part0"
| sr_take: "scores_reach s \<Longrightarrow> scores_reach (take_asks new s)"
| sr_answer: "scores_reach s \<Longrightarrow> sp_asks s \<noteq> [] \<Longrightarrow> scores_reach (answer_ask now x s)"
| sr_register: "scores_reach s \<Longrightarrow> sp_asks s \<noteq> [] \<Longrightarrow> scores_reach (register_ask now s)"
| sr_refuse: "scores_reach s \<Longrightarrow> scores_reach (refuse_ask now c a s)"
| sr_scores: "scores_reach s \<Longrightarrow> scores_reach (snd (take_scores now pl s))"
| sr_lose: "scores_reach s \<Longrightarrow> scores_reach (LoseQueuedRequests cf now declared new s)"
| sr_end: "scores_reach s \<Longrightarrow> scores_reach (end_scores now lost closed s)"

definition posted_ids :: "scores_part \<Rightarrow> u32 list" where
  "posted_ids s = map post_requestId (sp_posted s)"

definition account :: "scores_part \<Rightarrow> u32 multiset" where
  "account s = mset (posted_ids s) + mset (map fst (sp_pending s)) + mset (map ask_id (sp_asks s))"

lemma PostScores_fields [simp]:
  "sp_asks (PostScores now e i x s) = sp_asks s" "sp_pending (PostScores now e i x s) = sp_pending s"
  "posted_ids (PostScores now e i x s) = posted_ids s @ [i]" "sp_taken (PostScores now e i x s) = sp_taken s"
  by (simp_all add: PostScores_def posted_ids_def)

lemma posted_ids_update [simp]:
  "posted_ids (s\<lparr>sp_asks := as\<rparr>) = posted_ids s" "posted_ids (s\<lparr>sp_pending := m\<rparr>) = posted_ids s"
  "posted_ids (s\<lparr>sp_taken := t\<rparr>) = posted_ids s"
  by (simp_all add: posted_ids_def)

lemma post_each:
  "sp_asks (fold (\<lambda>a. PostScores now (f a) (g a) x) as s) = sp_asks s"
  "sp_pending (fold (\<lambda>a. PostScores now (f a) (g a) x) as s) = sp_pending s"
  "posted_ids (fold (\<lambda>a. PostScores now (f a) (g a) x) as s) = posted_ids s @ map g as"
  "sp_taken (fold (\<lambda>a. PostScores now (f a) (g a) x) as s) = sp_taken s"
  by (induction as arbitrary: s) simp_all

lemma post_each_pending:
  "sp_asks (fold (\<lambda>(i, ep). PostScores now ep i x) m s) = sp_asks s"
  "posted_ids (fold (\<lambda>(i, ep). PostScores now ep i x) m s) = posted_ids s @ map fst m"
  "sp_taken (fold (\<lambda>(i, ep). PostScores now ep i x) m s) = sp_taken s"
  using post_each [of now snd fst x m s] by (simp_all add: case_prod_unfold)

lemma pending_put_new: "i \<notin> fst ` set m \<Longrightarrow> mset (map fst (pending_put i e m)) = mset (map fst m) + {#i#}"
  by (induction i e m rule: pending_put.induct) auto

lemma pending_erase_one:
  assumes "distinct (map fst m)" "map_of m i \<noteq> None"
  shows "mset (map fst (pending_erase i m)) + {#i#} = mset (map fst m)"
  using assms
proof (induction m)
  case (Cons x m)
  show ?case
  proof (cases "fst x = i")
    case True
    then have "filter (\<lambda>y. fst y \<noteq> i) m = m" using Cons.prems(1) by (intro filter_True) (auto simp: rev_image_eqI)
    with True show ?thesis by (simp add: pending_erase_def)
  next
    case False
    with Cons show ?thesis by (cases x) (auto simp: pending_erase_def)
  qed
qed simp

lemma account_distinct:
  assumes "account s = mset ids" "distinct ids"
  shows "distinct (map fst (sp_pending s))" "set (map fst (sp_pending s)) \<inter> set (map ask_id (sp_asks s)) = {}" "distinct (posted_ids s)"
proof -
  have "mset (posted_ids s @ map fst (sp_pending s) @ map ask_id (sp_asks s)) = mset ids" using assms(1) by (simp add: account_def ac_simps)
  then have "distinct (posted_ids s @ map fst (sp_pending s) @ map ask_id (sp_asks s))" using assms(2) by (metis mset_eq_imp_distinct_iff)
  then show "distinct (map fst (sp_pending s))" "set (map fst (sp_pending s)) \<inter> set (map ask_id (sp_asks s)) = {}" "distinct (posted_ids s)"
    by auto
qed

lemma account_register:
  assumes acc: "account s = mset ids" "distinct ids" and a: "sp_asks s = a # as"
  shows "account (register_ask now s) = mset ids" "length (sp_pending s) \<le> MAX_PENDING_SCORES \<Longrightarrow>
    length (sp_pending (register_ask now s)) \<le> MAX_PENDING_SCORES"
proof -
  let ?full = "length (sp_pending s) \<ge> MAX_PENDING_SCORES"
  define m where "m = (if ?full then tl (sp_pending s) else sp_pending s)"
  have new: "ask_id a \<notin> fst ` set (sp_pending s)" using account_distinct(2) [OF acc] a by auto
  have sub: "set m \<subseteq> set (sp_pending s)" unfolding m_def by (cases "sp_pending s") auto
  have put: "mset (map fst (pending_put (ask_id a) (ask_epoch a) m)) = mset (map fst m) + {#ask_id a#}"
    using new sub by (intro pending_put_new) auto
  have ne: "sp_pending s \<noteq> []" if ?full using that by (auto simp: MAX_PENDING_SCORES_def)
  have r: "sp_asks (register_ask now s) = as" "sp_pending (register_ask now s) = pending_put (ask_id a) (ask_epoch a) m"
    "posted_ids (register_ask now s) = posted_ids s @ (if ?full then [fst (hd (sp_pending s))] else [])"
    by (simp_all add: register_ask_def Let_def a m_def)
  have "mset (map fst (sp_pending s)) = mset (map fst m) + mset (if ?full then [fst (hd (sp_pending s))] else [])"
    using ne by (cases "sp_pending s") (auto simp: m_def)
  with acc(1) put show "account (register_ask now s) = mset ids" by (simp add: account_def r a ac_simps split: if_splits)
  have "length (pending_put (ask_id a) (ask_epoch a) m) = Suc (length m)"
    using arg_cong [OF put, of size] by simp
  moreover assume "length (sp_pending s) \<le> MAX_PENDING_SCORES"
  ultimately show "length (sp_pending (register_ask now s)) \<le> MAX_PENDING_SCORES"
    by (cases ?full) (auto simp: r m_def MAX_PENDING_SCORES_def)
qed

text \<open>A pending request answered: by a refusal, by its result, or by a payload that is not one.\<close>

lemma account_answered:
  assumes "account s = mset ids" "distinct ids" "map_of (sp_pending s) i \<noteq> None"
    and "sp_asks s' = sp_asks s" "sp_pending s' = pending_erase i (sp_pending s)" "posted_ids s' = posted_ids s @ [i]"
  shows "account s' = mset ids"
proof -
  have e: "mset (map fst (pending_erase i (sp_pending s))) + {#i#} = mset (map fst (sp_pending s))"
    using account_distinct(1) [OF assms(1,2)] assms(3) by (rule pending_erase_one)
  have "account s' = mset (posted_ids s) + (mset (map fst (pending_erase i (sp_pending s))) + {#i#}) + mset (map ask_id (sp_asks s))"
    using assms(4-6) by (simp add: account_def ac_simps)
  then show ?thesis unfolding e using assms(1) by (simp add: account_def)
qed

lemma take_scores_cases:
  obtains "snd (take_scores now pl s) = s"
  | i where "map_of (sp_pending s) i \<noteq> None" "sp_asks (snd (take_scores now pl s)) = sp_asks s"
      "sp_pending (snd (take_scores now pl s)) = pending_erase i (sp_pending s)"
      "posted_ids (snd (take_scores now pl s)) = posted_ids s @ [i]" "sp_taken (snd (take_scores now pl s)) = sp_taken s"
proof -
  obtain d v where dec: "Decode_TopScores pl TopScores0 = (d, v)" by (cases "Decode_TopScores pl TopScores0")
  obtain ok i r where u: "r_U32 0 (Reader pl) = (ok, i, r)" by (cases "r_U32 0 (Reader pl)")
  let ?i = "if d then TopScores.requestId v else i"
  show thesis
  proof (cases "map_of (sp_pending s) ?i = None \<or> \<not> d \<and> \<not> ok")
    case True
    then have "snd (take_scores now pl s) = s" by (auto simp: take_scores_def dec u split: bool.splits)
    then show thesis by (rule that(1))
  next
    case False
    then obtain ep where "map_of (sp_pending s) ?i = Some ep" "d \<or> ok" by auto
    then show thesis by (intro that(2) [of ?i]; cases d; auto simp: take_scores_def dec u posted_ids_def PostScores_def)
  qed
qed

lemma length_pending_erase: "length (pending_erase i m) \<le> length m"
  by (simp add: pending_erase_def)

lemma sp_taken_keeps [simp]:
  "sp_taken (answer_ask now x s) = sp_taken s" "sp_taken (register_ask now s) = sp_taken s" "sp_taken (refuse_ask now c a s) = sp_taken s"
  by (simp_all add: answer_ask_def register_ask_def refuse_ask_def Let_def)

lemma account_lose:
  shows "account (LoseQueuedRequests cf now declared new s) = account s + mset (if cf_readBack cf then map ask_id new else [])"
    "sp_taken (LoseQueuedRequests cf now declared new s) = sp_taken s @ (if cf_readBack cf then map ask_id new else [])"
    "sp_pending (LoseQueuedRequests cf now declared new s) = sp_pending s"
proof -
  have split: "mset (map ask_id (filter P as)) + mset (map ask_id (filter (\<lambda>a. \<not> P a) as)) = mset (map ask_id as)" for P as
    by (induction as) auto
  let ?s = "LoseQueuedRequests cf now declared new s" and ?as = "sp_asks s @ new"
  show f2: "sp_pending ?s = sp_pending s" by (simp add: LoseQueuedRequests_def Let_def post_each take_asks_def)
  show "sp_taken ?s = sp_taken s @ (if cf_readBack cf then map ask_id new else [])"
    by (simp add: LoseQueuedRequests_def Let_def post_each take_asks_def)
  show "account ?s = account s + mset (if cf_readBack cf then map ask_id new else [])"
  proof (cases "cf_readBack cf")
    case True
    then have f: "posted_ids ?s = posted_ids s @ map ask_id (filter (stale_ask declared) ?as)"
      "sp_asks ?s = filter (\<lambda>a. \<not> stale_ask declared a) ?as"
      by (simp_all add: LoseQueuedRequests_def Let_def post_each take_asks_def)
    have "account ?s = mset (posted_ids s) + mset (map fst (sp_pending s)) +
        (mset (map ask_id (filter (stale_ask declared) ?as)) + mset (map ask_id (filter (\<lambda>a. \<not> stale_ask declared a) ?as)))"
      unfolding account_def f f2 mset_append by (simp add: ac_simps)
    also have "\<dots> = account s + mset (map ask_id new)" unfolding split by (simp add: account_def ac_simps)
    finally show ?thesis using True by simp
  qed (simp add: LoseQueuedRequests_def)
qed

lemma account_end:
  "account (end_scores now lost closed s) = account s + mset (if lost then map ask_id closed else [])"
  "sp_taken (end_scores now lost closed s) = sp_taken s @ (if lost then map ask_id closed else [])"
  "sp_pending (end_scores now lost closed s) = []"
  "sp_asks (end_scores now True closed s) = []"
  by (auto simp: account_def end_scores_def Let_def post_each post_each_pending ac_simps)

lemma scores_reach_account:
  assumes "scores_reach s" "distinct (sp_taken s)"
  shows "account s = mset (sp_taken s) \<and> length (sp_pending s) \<le> MAX_PENDING_SCORES"
  using assms
proof (induction rule: scores_reach.induct)
  case sr_init
  show ?case by (simp add: account_def scores_part0_def posted_ids_def)
next
  case (sr_take s new)
  then show ?case by (auto simp: account_def take_asks_def posted_ids_def ac_simps)
next
  case (sr_answer s now x)
  then show ?case by (cases "sp_asks s") (auto simp: account_def answer_ask_def)
next
  case (sr_register s now)
  then obtain a as where "sp_asks s = a # as" by (cases "sp_asks s") auto
  with sr_register account_register [of s "sp_taken s" a as now] show ?case by simp
next
  case (sr_refuse s now c a)
  then show ?case using account_answered [of s "sp_taken s" "ask_id a" "refuse_ask now c a s"] length_pending_erase [of "ask_id a" "sp_pending s"]
    by (auto simp: refuse_ask_def)
next
  case (sr_scores s now pl)
  show ?case using take_scores_cases [where now = now and pl = pl and s = s]
  proof cases
    case 1
    then show ?thesis using sr_scores by simp
  next
    case (2 i)
    then show ?thesis using sr_scores account_answered [of s "sp_taken s" i "snd (take_scores now pl s)"] length_pending_erase [of i "sp_pending s"] by auto
  qed
next
  case (sr_lose s cf now declared new)
  then show ?case by (simp add: account_lose split: if_splits)
next
  case (sr_end s now lost closed)
  then show ?case by (simp add: account_end split: if_splits)
qed

text \<open>
  C11. Every leaderboard request a script makes is answered exactly once. However requests are queued, sent, refused,
  answered, pushed out by newer ones or lost, the ids handed over by the channel are split between those answered, each with one
  result, those awaiting the daemon (at most 64) and those not yet sent; and when the session ends none is left
  waiting.
\<close>

theorem scores_answered_once:
  assumes "scores_reach s" "distinct (sp_taken s)"
  shows "mset (sp_taken s) = mset (posted_ids s) + mset (map fst (sp_pending s)) + mset (map ask_id (sp_asks s)) \<and>
    distinct (posted_ids s) \<and> length (sp_pending s) \<le> MAX_PENDING_SCORES \<and>
    mset (posted_ids (end_scores now True closed s)) = mset (sp_taken s @ map ask_id closed)"
proof -
  note acc = scores_reach_account [OF assms]
  have "account (end_scores now True closed s) = mset (posted_ids (end_scores now True closed s))"
    unfolding account_def by (simp add: account_end)
  with acc account_end(1) [of now True closed s] account_distinct(3) [OF _ assms(2)] show ?thesis by (auto simp: account_def)
qed

definition ask_example :: "u32 \<Rightarrow> TopScoresAsk" where
  "ask_example i = \<lparr>ask_epoch = 1, ask_identity = 0, ask_request = TopScoresRequest0\<lparr>TopScoresRequest.requestId := i\<rparr>\<rparr>"

theorem scores_answered_once_witness:
  "mset (posted_ids (end_scores 7 True [ask_example 6] (register_ask 3 (take_asks [ask_example 5] scores_part0)))) = {#5, 6#}"
proof -
  let ?s = "register_ask 3 (take_asks [ask_example 5] scores_part0)"
  have r: "scores_reach ?s" by (intro sr_register sr_take sr_init) (simp add: take_asks_def)
  have t: "sp_taken ?s = [5]" by (simp add: take_asks_def scores_part0_def ask_example_def)
  from scores_answered_once [OF r, of 7 "[ask_example 6]"] show ?thesis unfolding t by (simp add: ask_example_def)
qed

end
