(* ===== verification/Worker_Dispatch.thy ===== *)
theory Worker_Dispatch
  imports Worker_Transport Worker_Games Worker_ReadBack Memory_Bridge Overlay
begin

text \<open>
  The requests the daemon makes of the socket worker (\<^verbatim>\<open>src/SocketWorker.cpp\<close>): the worker's whole state, what it
  negotiated, and one handler per request type. The memory bridge, the overlay target and the session source are reached
  through their interfaces: what they answer is part of the environment (the bridge is the theory \<open>Memory_Protocol\<close>, the
  overlay \<open>Overlay\<close>), and the calls that tell them something are listed in \<open>wk_calls\<close>.
\<close>

section \<open>The worker\<close>

datatype target_call = MemoryClear | OverlayUpload bytes | OverlayControlCall bool u32 | OverlayClear

record worker =
  wk_io :: io_part
  wk_connected :: bool
  wk_seq :: u32
  wk_current :: DeclareSnapshot
  wk_declared :: DeclareSnapshot
  wk_haveDeclared :: bool
  wk_peerMinor :: u16
  wk_peerCapabilities :: u32
  wk_games :: games_part
  wk_status :: status_part
  wk_scores :: scores_part
  wk_players :: players_part
  wk_leaderboards :: bool
  wk_lastActivity :: time_point
  wk_calls :: "target_call list"

definition SocketWorker :: "string \<Rightarrow> u64 \<Rightarrow> filesystem \<Rightarrow> time_point \<Rightarrow> worker" where
  "SocketWorker dir tag fs now =
     \<lparr>wk_io = \<lparr>io_in = [], io_out = [], io_dump = \<lparr>m_file = None, m_openMicros = 0, m_redacted = []\<rparr>, io_tick = 0\<rparr>,
      wk_connected = False, wk_seq = 0, wk_current = DeclareSnapshot0, wk_declared = DeclareSnapshot0, wk_haveDeclared = False,
      wk_peerMinor = 0, wk_peerCapabilities = 0, wk_games = games_part0, wk_status = status_part0 now, wk_scores = scores_part0,
      wk_players = players_part0 dir tag fs, wk_leaderboards = False, wk_lastActivity = 0, wk_calls = []\<rparr>"

record worker_env = io_env +
  en_stop :: nat
  en_wait :: "nat \<Rightarrow> int"
  en_expired :: "nat \<Rightarrow> bool"
  en_now :: "nat \<Rightarrow> time_point"
  en_token :: "nat \<Rightarrow> string option"
  en_connect :: "nat \<Rightarrow> bytes option"
  en_declare :: "nat \<Rightarrow> DeclareSnapshot option"
  en_games :: "nat \<Rightarrow> GamePost list"
  en_requests :: "nat \<Rightarrow> TopScoresAsk list"
  en_frame :: "nat \<Rightarrow> FrameSnapshot"
  en_session :: "nat \<Rightarrow> SessionSnapshot"
  en_surface :: "nat \<Rightarrow> bool"
  en_upload :: "nat \<Rightarrow> bytes \<Rightarrow> Upload"
  en_subscribe :: "nat \<Rightarrow> MemoryRange list \<Rightarrow> mb_result \<times> MemoryRange list"
  en_poll :: "nat \<Rightarrow> mb_result \<times> PollReply"
  en_read :: "nat \<Rightarrow> u32 \<Rightarrow> u32 \<Rightarrow> mb_result \<times> ReadDirectReply"
  en_write :: "nat \<Rightarrow> WriteOp list \<Rightarrow> mb_result \<times> WriteReply"
  en_unsupported :: "nat \<Rightarrow> bool"
  en_picture :: "nat \<Rightarrow> picture_env"

abbreviation wk_tick :: "worker \<Rightarrow> nat" where
  "wk_tick w \<equiv> io_tick (wk_io w)"

definition next_tick :: "worker \<Rightarrow> worker" where
  "next_tick w = w\<lparr>wk_io := (wk_io w)\<lparr>io_tick := io_tick (wk_io w) + 1\<rparr>\<rparr>"

definition on_io :: "(io_part \<Rightarrow> 'a \<times> io_part) \<Rightarrow> worker \<Rightarrow> 'a \<times> worker" where
  "on_io f w = (case f (wk_io w) of (r, s) \<Rightarrow> (r, w\<lparr>wk_io := s\<rparr>))"

definition call_target :: "target_call \<Rightarrow> worker \<Rightarrow> worker" where
  "call_target c w = w\<lparr>wk_calls := wk_calls w @ [c]\<rparr>"

section \<open>What was negotiated\<close>

definition AuthoredAllowed :: "worker \<Rightarrow> bool" where
  "AuthoredAllowed w \<longleftrightarrow> wk_peerMinor w \<ge> 1 \<and> wk_peerCapabilities w AND CAP_AUTHORED_TABLES \<noteq> 0"

definition OwnCapabilities :: "SocketWorkerConfig \<Rightarrow> u32" where
  "OwnCapabilities cf =
     CAP_IDENTIFY_FRAMES
     OR (if cf_memory cf then CAP_MEMORY_READ OR CAP_MEMORY_WRITE else 0)
     OR (if cf_overlay cf then CAP_OVERLAY else 0)
     OR (if cf_authoredTables cf then CAP_AUTHORED_TABLES else 0)
     OR (if cf_authoredTables cf \<and> cf_readBack cf then CAP_LEADERBOARDS OR CAP_PLAYERS OR CAP_PLAYER_PICTURES else 0)"

definition capability_shared :: "SocketWorkerConfig \<Rightarrow> u32 \<Rightarrow> worker \<Rightarrow> bool" where
  "capability_shared cf cap w \<longleftrightarrow>
     wk_peerMinor w \<ge> 2 \<and> OwnCapabilities cf AND cap \<noteq> 0 \<and> wk_peerCapabilities w AND cap \<noteq> 0"

definition ReadBackAllowed :: "SocketWorkerConfig \<Rightarrow> u32 \<Rightarrow> worker \<Rightarrow> bool" where
  "ReadBackAllowed cf cap w \<longleftrightarrow>
     (cap = CAP_PLAYER_PICTURES \<longrightarrow> capability_shared cf CAP_PLAYERS w) \<and> capability_shared cf cap w"

definition Identifies :: "Declare \<Rightarrow> worker \<Rightarrow> bool" where
  "Identifies d w \<longleftrightarrow> Declare.romId d \<noteq> [] \<or>
     (tablePath d \<noteq> [] \<and> tableKind d = TABLE_AUTHORED \<and> machineUuid d \<noteq> [] \<and> AuthoredAllowed w)"

definition TableIdentified :: "worker \<Rightarrow> bool" where
  "TableIdentified w \<longleftrightarrow> wk_haveDeclared w \<and> Identifies (ds_declare (wk_declared w)) w"

definition TableActive :: "worker \<Rightarrow> bool" where
  "TableActive w \<longleftrightarrow> wk_haveDeclared w \<and>
     (tablePath (ds_declare (wk_declared w)) \<noteq> [] \<or> Declare.romId (ds_declare (wk_declared w)) \<noteq> [])"

section \<open>Handlers\<close>

definition reply :: "'a worker_env_scheme \<Rightarrow> message \<Rightarrow> bytes \<Rightarrow> worker \<Rightarrow> bool \<times> worker" where
  "reply e msg pl w = on_io (SendWireMessage e (h_type (m_header msg)) FLAG_RESPONSE (h_seq (m_header msg)) pl []) w"

definition refuse :: "'a worker_env_scheme \<Rightarrow> message \<Rightarrow> u16 \<Rightarrow> string \<Rightarrow> worker \<Rightarrow> bool \<times> worker" where
  "refuse e msg c why w = on_io (SendError e (h_type (m_header msg)) (h_seq (m_header msg)) c why) w"

definition refuse_closing :: "'a worker_env_scheme \<Rightarrow> message \<Rightarrow> string \<Rightarrow> worker \<Rightarrow> bool \<times> worker" where
  "refuse_closing e msg why w = (False, snd (refuse e msg ERR_MALFORMED why w))"

definition SendMemoryError :: "'a worker_env_scheme \<Rightarrow> message \<Rightarrow> mb_result \<Rightarrow> worker \<Rightarrow> bool \<times> worker" where
  "SendMemoryError e msg result w =
     (case result of
        MB_NoGame \<Rightarrow> refuse e msg ERR_NO_GAME ''no ROM is running'' w
      | MB_OutOfRange \<Rightarrow> refuse e msg ERR_OUT_OF_RANGE ''range is outside readable memory'' w
      | MB_TooLarge \<Rightarrow> refuse e msg ERR_TOO_LARGE ''request exceeds the slice 2 limits'' w
      | MB_Unsupported \<Rightarrow> refuse e msg ERR_UNSUPPORTED_OPERATION ''this PinMAME applies no memory writes (needs pinmame #634)'' w
      | _ \<Rightarrow> refuse e msg ERR_BUSY ''memory was not serviced in time, ask again'' w)"

definition AnswerSubscribe :: "'a worker_env_scheme \<Rightarrow> message \<Rightarrow> worker \<Rightarrow> bool \<times> worker" where
  "AnswerSubscribe e msg w =
     (case Decode_Subscription (m_payload msg) \<lparr>ranges = []\<rparr> of (decoded, req) \<Rightarrow>
        if \<not> decoded then refuse_closing e msg ''Subscribe request payload'' w
        else case en_subscribe e (wk_tick w) (ranges req) of (result, accepted) \<Rightarrow>
               let w = next_tick w
               in if result \<noteq> MB_Ok then SendMemoryError e msg result w
                  else reply e msg (Encode_Subscription \<lparr>ranges = accepted\<rparr>) w)"

definition AnswerPoll :: "'a worker_env_scheme \<Rightarrow> message \<Rightarrow> worker \<Rightarrow> bool \<times> worker" where
  "AnswerPoll e msg w =
     (case en_poll e (wk_tick w) of (result, out) \<Rightarrow>
        let w = next_tick w
        in if result \<noteq> MB_Ok then SendMemoryError e msg result w else reply e msg (Encode_PollReply out) w)"

definition AnswerReadDirect :: "'a worker_env_scheme \<Rightarrow> message \<Rightarrow> worker \<Rightarrow> bool \<times> worker" where
  "AnswerReadDirect e msg w =
     (case Decode_ReadDirectRequest (m_payload msg) \<lparr>ReadDirectRequest.address = 0, ReadDirectRequest.length' = 0\<rparr> of (decoded, req) \<Rightarrow>
        if \<not> decoded then refuse_closing e msg ''ReadDirect request payload'' w
        else case en_read e (wk_tick w) (ReadDirectRequest.address req) (ReadDirectRequest.length' req) of (result, out) \<Rightarrow>
               let w = next_tick w
               in if result \<noteq> MB_Ok then SendMemoryError e msg result w else reply e msg (Encode_ReadDirectReply out) w)"

definition AnswerWrite :: "'a worker_env_scheme \<Rightarrow> message \<Rightarrow> worker \<Rightarrow> bool \<times> worker" where
  "AnswerWrite e msg w =
     (case Decode_WriteRequest (m_payload msg) \<lparr>ops = []\<rparr> of (decoded, req) \<Rightarrow>
        if \<not> decoded then refuse_closing e msg ''Write request payload'' w
        else case en_write e (wk_tick w) (ops req) of (result, out) \<Rightarrow>
               let w = next_tick w
               in if result = MB_OutOfRange
                  then refuse e msg ERR_OUT_OF_RANGE ''the Write names no ops, or an op runs past the end of the address space'' w
                  else if result \<noteq> MB_Ok then SendMemoryError e msg result w else reply e msg (Encode_WriteReply out) w)"

definition AnswerNvRam :: "'a worker_env_scheme \<Rightarrow> message \<Rightarrow> worker \<Rightarrow> bool \<times> worker" where
  "AnswerNvRam e msg w =
     (if \<not> fst (Decode_NvRamParameters (m_payload msg)
          \<lparr>start = 0, NvRamParameters.length' = 0, unlockAddress = 0, unlockValue = 0, lockValue = 0\<rparr>)
      then refuse_closing e msg ''NvRam request payload'' w
      else reply e msg [] w)"

definition AnswerOverlay :: "'a worker_env_scheme \<Rightarrow> message \<Rightarrow> worker \<Rightarrow> bool \<times> worker" where
  "AnswerOverlay e msg w =
     (if \<not> wk_haveDeclared w then refuse e msg ERR_NOT_DECLARED ''Overlay before the first Declare'' w
      else if Declare.shades (ds_declare (wk_declared w)) = 0 \<or> \<not> en_surface e (wk_tick w)
      then refuse e msg ERR_UNSUPPORTED_OPERATION ''no DMD source'' (next_tick w)
      else let w = next_tick w;
               (d1, req) = Decode_OverlayRequest (m_payload msg) \<lparr>overlayOp = 0, payload = []\<rparr>;
               (d2, ctl) = Decode_OverlayControl (payload req) \<lparr>control = 0, durationMs = 0\<rparr>
           in if \<not> (d1 \<and> (overlayOp req = OVERLAY_OP_UPLOAD \<or> overlayOp req = OVERLAY_OP_CONTROL \<and> d2))
              then refuse e msg ERR_MALFORMED ''unknown op, or a payload shorter than its fields'' w
              else if overlayOp req = OVERLAY_OP_UPLOAD
              then let outcome = en_upload e (wk_tick w) (payload req);
                       w = call_target (OverlayUpload (payload req)) (next_tick w)
                   in if outcome = Malformed then refuse e msg ERR_MALFORMED ''upload shorter than its width and height'' w
                      else reply e msg [] w
              else reply e msg [] (call_target (OverlayControlCall (control ctl AND OVERLAY_CONTROL_ENABLE \<noteq> 0) (ucast (durationMs ctl))) w))"

definition AnswerStatus :: "SocketWorkerConfig \<Rightarrow> 'a worker_env_scheme \<Rightarrow> message \<Rightarrow> worker \<Rightarrow> bool \<times> worker" where
  "AnswerStatus cf e msg w =
     (if \<not> wk_haveDeclared w then refuse e msg ERR_NOT_DECLARED ''Status before the first Declare'' w
      else case Decode_Status (m_payload msg) Status0 (wk_peerMinor w) of (decoded, status) \<Rightarrow>
             if \<not> decoded
             then refuse e msg ERR_MALFORMED ''a short payload, support_text over 256 bytes, or an unknown auth_status'' w
             else reply e msg []
               ((next_tick w)\<lparr>wk_status := take_status cf status (en_now e (wk_tick w)) (wk_status w)\<rparr>))"

definition AnswerFrame :: "'a worker_env_scheme \<Rightarrow> message \<Rightarrow> worker \<Rightarrow> bool \<times> worker" where
  "AnswerFrame e msg w =
     (case Decode_FrameRequest (m_payload msg) \<lparr>sinceFrameId = 0, sinceGeneration = 0\<rparr> of (decoded, req) \<Rightarrow>
        if \<not> decoded then refuse_closing e msg ''Frame request payload'' w
        else let snap = en_frame e (wk_tick w);
                 w = next_tick w;
                 out = \<lparr>frameId = 0, sourceGeneration = fs_generation snap, width = 0, height = 0, FrameReply.shades = 0,
                        hasPixels = 0, pixels = []\<rparr>;
                 out = (if fs_hasSource snap
                        then let out = out\<lparr>frameId := fs_frameId snap, FrameReply.width := fs_width snap,
                                          FrameReply.height := fs_height snap, FrameReply.shades := fs_shades snap\<rparr>;
                                 holdsNothing = (sinceFrameId req = SINCE_FRAME_NONE);
                                 unchanged = (\<not> holdsNothing \<and> fs_frameId snap = sinceFrameId req
                                              \<and> fs_generation snap = sinceGeneration req)
                             in if \<not> unchanged then out\<lparr>hasPixels := 1, pixels := fs_pixels snap\<rparr> else out
                        else out);
                 pl = Encode_FrameReply out
             in if pl = [] then refuse e msg ERR_MALFORMED ''frame exceeds the message bound'' w
                else reply e msg pl w)"

definition AnswerPing :: "SocketWorkerConfig \<Rightarrow> 'a worker_env_scheme \<Rightarrow> message \<Rightarrow> worker \<Rightarrow> bool \<times> worker" where
  "AnswerPing cf e msg w =
     (let session = en_session e (wk_tick w);
          writes = cf_memory cf \<and> \<not> en_unsupported e (wk_tick w)
      in on_io (SendWireMessage e TYPE_PONG FLAG_RESPONSE (h_seq (m_header msg))
           (Encode_Pong \<lparr>renderedFrame = ss_renderedFrame session, Pong.playerRunning = of_bool (ss_playerRunning session),
              writesSupported = of_bool writes\<rparr>) []) (next_tick w))"

definition AnswerTopScores :: "'a worker_env_scheme \<Rightarrow> message \<Rightarrow> worker \<Rightarrow> bool \<times> worker" where
  "AnswerTopScores e msg w =
     (case take_scores (en_now e (wk_tick w)) (m_payload msg) (wk_scores w) of (decoded, s) \<Rightarrow>
        let w = (next_tick w)\<lparr>wk_scores := s\<rparr>
        in if \<not> decoded then refuse e msg ERR_MALFORMED ''TopScores payload'' w else reply e msg [] w)"

definition AnswerPlayers :: "'a worker_env_scheme \<Rightarrow> message \<Rightarrow> worker \<Rightarrow> bool \<times> worker" where
  "AnswerPlayers e msg w =
     (case take_players (wk_declared w) (m_payload msg) (wk_players w) of (decoded, p) \<Rightarrow>
        if \<not> decoded
        then refuse e msg ERR_MALFORMED ''a short payload, slots not 1 to 9 ascending, or an over-long string'' w
        else reply e msg [] (w\<lparr>wk_players := p\<rparr>))"

definition AnswerPlayerPicture :: "'a worker_env_scheme \<Rightarrow> message \<Rightarrow> worker \<Rightarrow> bool \<times> worker" where
  "AnswerPlayerPicture e msg w =
     (case take_picture (en_picture e (wk_tick w)) (wk_declared w) (m_payload msg) (wk_players w) of (decoded, p) \<Rightarrow>
        if \<not> decoded then refuse e msg ERR_MALFORMED ''a short payload, or a player not 1 to 9'' w
        else reply e msg [] ((next_tick w)\<lparr>wk_players := p\<rparr>))"

definition refuse_unserved :: "'a worker_env_scheme \<Rightarrow> message \<Rightarrow> worker \<Rightarrow> bool \<times> worker" where
  "refuse_unserved e msg w =
     refuse e msg ERR_UNSUPPORTED_TYPE (TypeName (h_type (m_header msg)) @ '' is not served by this plugin'') w"

definition Dispatch :: "SocketWorkerConfig \<Rightarrow> 'a worker_env_scheme \<Rightarrow> message \<Rightarrow> worker \<Rightarrow> bool \<times> worker" where
  "Dispatch cf e msg w =
     (let ty = h_type (m_header msg) in
      if ty = TYPE_FRAME then AnswerFrame e msg w
      else if ty = TYPE_PING then AnswerPing cf e msg w
      else if ty = TYPE_SUBSCRIBE \<and> cf_memory cf then AnswerSubscribe e msg w
      else if ty = TYPE_POLL \<and> cf_memory cf then AnswerPoll e msg w
      else if ty = TYPE_READ_DIRECT \<and> cf_memory cf then AnswerReadDirect e msg w
      else if ty = TYPE_WRITE \<and> cf_memory cf then AnswerWrite e msg w
      else if ty = TYPE_NVRAM \<and> cf_memory cf then AnswerNvRam e msg w
      else if ty = TYPE_OVERLAY \<and> cf_overlay cf then AnswerOverlay e msg w
      else if ty = TYPE_STATUS \<and> cf_status cf then AnswerStatus cf e msg w
      else if ty = TYPE_TOP_SCORES \<and> ReadBackAllowed cf CAP_LEADERBOARDS w then AnswerTopScores e msg w
      else if ty = TYPE_PLAYERS \<and> ReadBackAllowed cf CAP_PLAYERS w then AnswerPlayers e msg w
      else if ty = TYPE_PLAYER_PICTURE \<and> ReadBackAllowed cf CAP_PLAYER_PICTURES w then AnswerPlayerPicture e msg w
      else if ty = TYPE_BYE then (False, w)
      else refuse_unserved e msg w)"

section \<open>One answer to each request\<close>

text \<open>What an encoder gives always fits a message.\<close>

definition fits :: "writer \<Rightarrow> bool" where
  "fits w \<longleftrightarrow> length (w_data w) \<le> MAX_PAYLOAD_BYTES"

named_theorems fits_intros

lemma fits_Writer [fits_intros]: "fits Writer"
  by (simp add: fits_def Writer_def)

lemma fits_U8 [fits_intros]: "fits w \<Longrightarrow> fits (w_U8 v w)"
  by (simp add: fits_def w_U8_def)

lemma fits_U16 [fits_intros]: "fits w \<Longrightarrow> fits (w_U16 v w)"
  by (simp add: w_U16_def fits_intros)

lemma fits_U32 [fits_intros]: "fits w \<Longrightarrow> fits (w_U32 v w)"
  by (simp add: w_U32_def fits_intros)

lemma fits_U64 [fits_intros]: "fits w \<Longrightarrow> fits (w_U64 v w)"
  by (simp add: w_U64_def fits_intros)

lemma fits_Bytes [fits_intros]: "fits w \<Longrightarrow> fits (w_Bytes v w)"
  by (simp add: fits_def w_Bytes_def)

lemma fits_ok: "fits (w\<lparr>w_ok := b\<rparr>) = fits w"
  by (simp add: fits_def)

lemma fits_Str [fits_intros]: "fits w \<Longrightarrow> fits (w_Str v w)"
  by (simp add: w_Str_def fits_ok fits_intros)

lemma fits_seq [fits_intros]: "fits w \<Longrightarrow> (\<And>f w. f \<in> set fs \<Longrightarrow> fits w \<Longrightarrow> fits (f w)) \<Longrightarrow> fits (w_seq fs w)"
  by (induction fs arbitrary: w) (auto simp: w_seq.simps)

lemma fits_result: "fits w \<Longrightarrow> length (w_result w) \<le> MAX_PAYLOAD_BYTES"
  by (simp add: fits_def w_result_def)

lemma replies_fit:
  "length (Encode_Subscription a) \<le> MAX_PAYLOAD_BYTES" "length (Encode_PollReply b) \<le> MAX_PAYLOAD_BYTES"
  "length (Encode_ReadDirectReply c) \<le> MAX_PAYLOAD_BYTES" "length (Encode_WriteReply d) \<le> MAX_PAYLOAD_BYTES"
  "length (Encode_FrameReply f) \<le> MAX_PAYLOAD_BYTES" "length (Encode_Pong p) \<le> MAX_PAYLOAD_BYTES"
  "length (Encode_ErrorPayload x) \<le> MAX_PAYLOAD_BYTES"
  by (auto simp: Encode_Subscription_def Encode_PollReply_def Encode_ReadDirectReply_def Encode_WriteReply_def Encode_FrameReply_def
      Encode_Pong_def Encode_ErrorPayload_def Let_def intro!: fits_result fits_intros)

text \<open>A socket that takes every message before the deadline.\<close>

definition sends :: "send_event list \<Rightarrow> bool" where
  "sends es \<longleftrightarrow> (\<forall>data. length data \<le> LENGTH_BYTES + MAX_MESSAGE_BYTES \<longrightarrow> SendAll es data 0 = (True, length data))"

lemma SendWireMessage_sends:
  assumes "length pl \<le> MAX_PAYLOAD_BYTES" "sends (en_send e (io_tick s))"
  shows "\<exists>d. SendWireMessage e ty fl sq pl sensitive s =
    (True, s\<lparr>io_dump := d, io_out := io_out s @ EncodeMessage ty fl sq pl, io_tick := io_tick s + 1\<rparr>)"
proof -
  let ?bs = "EncodeMessage ty fl sq pl"
  have "?bs \<noteq> []" "length ?bs \<le> LENGTH_BYTES + MAX_MESSAGE_BYTES"
    using assms(1) by (auto simp: EncodeMessage_bytes bound_defs)
  with assms(2) show ?thesis by (auto simp: SendWireMessage_def Let_def sends_def)
qed

text \<open>A handler's effect on the wire: one response to the message, whole, and a result.\<close>

definition responds :: "message \<Rightarrow> worker \<Rightarrow> bool \<times> worker \<Rightarrow> bool \<Rightarrow> bool" where
  "responds msg w r go \<longleftrightarrow> fst r = go \<and> (\<exists>ty fl pl. length pl \<le> MAX_PAYLOAD_BYTES \<and> fl AND FLAG_RESPONSE \<noteq> 0 \<and>
     (ty = h_type (m_header msg) \<or> h_type (m_header msg) = TYPE_PING \<and> ty = TYPE_PONG) \<and>
     io_out (wk_io (snd r)) = io_out (wk_io w) @ EncodeMessage ty fl (h_seq (m_header msg)) pl)"

lemma on_io_send:
  assumes "length pl \<le> MAX_PAYLOAD_BYTES" "\<And>t. sends (en_send e t)"
  shows "fst (on_io (SendWireMessage e ty fl sq pl sp) w) \<and>
    io_out (wk_io (snd (on_io (SendWireMessage e ty fl sq pl sp) w))) = io_out (wk_io w) @ EncodeMessage ty fl sq pl"
  using SendWireMessage_sends [OF assms(1) assms(2) [of "io_tick (wk_io w)"], of ty fl sq sp] by (auto simp: on_io_def)

lemma responds_reply:
  assumes "\<And>t. sends (en_send e t)" "length pl \<le> MAX_PAYLOAD_BYTES" "io_out (wk_io w') = io_out (wk_io w)"
  shows "responds msg w (reply e msg pl w') True"
  using on_io_send [OF assms(2,1)] assms(2,3) unfolding responds_def reply_def
  by (intro conjI exI [of _ "h_type (m_header msg)"] exI [of _ FLAG_RESPONSE] exI [of _ pl]) auto

lemma responds_refuse:
  assumes "\<And>t. sends (en_send e t)" "io_out (wk_io w') = io_out (wk_io w)"
  shows "responds msg w (refuse e msg c why w') True"
  using on_io_send [OF replies_fit(7) assms(1)] assms(2) replies_fit(7) unfolding responds_def refuse_def SendError_def
  by (intro conjI exI [of _ "h_type (m_header msg)"] exI [of _ "FLAG_RESPONSE OR FLAG_ERROR"]
      exI [of _ "Encode_ErrorPayload \<lparr>code = c, ErrorPayload.reason = why\<rparr>"]) auto

lemma responds_closing:
  assumes "\<And>t. sends (en_send e t)" "io_out (wk_io w') = io_out (wk_io w)"
  shows "responds msg w (refuse_closing e msg why w') False"
  using responds_refuse [OF assms] by (auto simp: responds_def refuse_closing_def)

lemma keeps_out [simp]:
  "io_out (wk_io (next_tick w)) = io_out (wk_io w)" "io_out (wk_io (call_target c w)) = io_out (wk_io w)"
  by (simp_all add: next_tick_def call_target_def)

lemma responds_memory_error:
  assumes "\<And>t. sends (en_send e t)" "io_out (wk_io w') = io_out (wk_io w)"
  shows "responds msg w (SendMemoryError e msg x w') True"
  using responds_refuse [OF assms] by (cases x) (simp_all add: SendMemoryError_def)

named_theorems responds_intros
lemmas [responds_intros] = responds_reply responds_refuse responds_closing responds_memory_error

lemma AnswerSubscribe_responds:
  assumes "\<And>t. sends (en_send e t)"
  shows "responds msg w (AnswerSubscribe e msg w) (fst (Decode_Subscription (m_payload msg) \<lparr>ranges = []\<rparr>))"
  using assms by (auto simp: AnswerSubscribe_def Let_def replies_fit split: prod.splits intro!: responds_intros)

lemma AnswerPoll_responds:
  assumes "\<And>t. sends (en_send e t)"
  shows "responds msg w (AnswerPoll e msg w) True"
  using assms by (auto simp: AnswerPoll_def Let_def replies_fit split: prod.splits intro!: responds_intros)

lemma AnswerReadDirect_responds:
  assumes "\<And>t. sends (en_send e t)"
  shows "responds msg w (AnswerReadDirect e msg w)
    (fst (Decode_ReadDirectRequest (m_payload msg) \<lparr>ReadDirectRequest.address = 0, ReadDirectRequest.length' = 0\<rparr>))"
  using assms by (auto simp: AnswerReadDirect_def Let_def replies_fit split: prod.splits intro!: responds_intros)

lemma AnswerWrite_responds:
  assumes "\<And>t. sends (en_send e t)"
  shows "responds msg w (AnswerWrite e msg w) (fst (Decode_WriteRequest (m_payload msg) \<lparr>ops = []\<rparr>))"
  using assms by (auto simp: AnswerWrite_def Let_def replies_fit split: prod.splits intro!: responds_intros)

lemma AnswerNvRam_responds:
  assumes "\<And>t. sends (en_send e t)"
  shows "responds msg w (AnswerNvRam e msg w) (fst (Decode_NvRamParameters (m_payload msg)
    \<lparr>start = 0, NvRamParameters.length' = 0, unlockAddress = 0, unlockValue = 0, lockValue = 0\<rparr>))"
  using assms by (auto simp: AnswerNvRam_def intro!: responds_intros)

lemma AnswerOverlay_responds:
  assumes "\<And>t. sends (en_send e t)"
  shows "responds msg w (AnswerOverlay e msg w) True"
  using assms by (auto simp: AnswerOverlay_def Let_def split: prod.splits intro!: responds_intros)

lemma AnswerStatus_responds:
  assumes "\<And>t. sends (en_send e t)"
  shows "responds msg w (AnswerStatus cf e msg w) True"
  using assms by (auto simp: AnswerStatus_def Let_def next_tick_def split: prod.splits intro!: responds_intros)

lemma AnswerFrame_responds:
  assumes "\<And>t. sends (en_send e t)"
  shows "responds msg w (AnswerFrame e msg w) (fst (Decode_FrameRequest (m_payload msg) \<lparr>sinceFrameId = 0, sinceGeneration = 0\<rparr>))"
proof -
  obtain d req where "Decode_FrameRequest (m_payload msg) \<lparr>sinceFrameId = 0, sinceGeneration = 0\<rparr> = (d, req)"
    by (cases "Decode_FrameRequest (m_payload msg) \<lparr>sinceFrameId = 0, sinceGeneration = 0\<rparr>")
  then show ?thesis using assms
    by (cases d) (simp_all add: AnswerFrame_def Let_def responds_intros replies_fit del: if_image_distrib)
qed

lemma AnswerPing_responds:
  assumes "\<And>t. sends (en_send e t)" "h_type (m_header msg) = TYPE_PING"
  shows "responds msg w (AnswerPing cf e msg w) True"
proof -
  let ?pl = "Encode_Pong \<lparr>renderedFrame = ss_renderedFrame (en_session e (wk_tick w)), Pong.playerRunning = of_bool (ss_playerRunning (en_session e (wk_tick w))),
    writesSupported = of_bool (cf_memory cf \<and> \<not> en_unsupported e (wk_tick w))\<rparr>"
  show ?thesis
    using on_io_send [where pl = ?pl and ty = TYPE_PONG and fl = FLAG_RESPONSE and sq = "h_seq (m_header msg)" and sp = "[]" and w = "next_tick w",
        OF replies_fit(6) assms(1)] assms(2) replies_fit(6) unfolding responds_def AnswerPing_def Let_def
    by (intro conjI exI [of _ TYPE_PONG] exI [of _ FLAG_RESPONSE] exI [of _ ?pl]) auto
qed

lemma read_backs_respond:
  assumes "\<And>t. sends (en_send e t)"
  shows "responds msg w (AnswerTopScores e msg w) True" "responds msg w (AnswerPlayers e msg w) True"
    "responds msg w (AnswerPlayerPicture e msg w) True"
  using assms by (auto simp: AnswerTopScores_def AnswerPlayers_def AnswerPlayerPicture_def Let_def next_tick_def split: prod.splits intro!: responds_intros)

lemma responds_if:
  "(c \<Longrightarrow> responds msg w a g) \<Longrightarrow> (\<not> c \<Longrightarrow> responds msg w b g) \<Longrightarrow> responds msg w (if c then a else b) g"
  by simp

text \<open>The requests whose malformed payload closes the session.\<close>

definition unreadable :: "SocketWorkerConfig \<Rightarrow> message \<Rightarrow> bool" where
  "unreadable cf msg \<longleftrightarrow> (let ty = h_type (m_header msg); pl = m_payload msg in
     ty = TYPE_FRAME \<and> \<not> fst (Decode_FrameRequest pl \<lparr>sinceFrameId = 0, sinceGeneration = 0\<rparr>) \<or>
     cf_memory cf \<and>
      (ty = TYPE_SUBSCRIBE \<and> \<not> fst (Decode_Subscription pl \<lparr>ranges = []\<rparr>) \<or>
       ty = TYPE_READ_DIRECT \<and> \<not> fst (Decode_ReadDirectRequest pl \<lparr>ReadDirectRequest.address = 0, ReadDirectRequest.length' = 0\<rparr>) \<or>
       ty = TYPE_WRITE \<and> \<not> fst (Decode_WriteRequest pl \<lparr>ops = []\<rparr>) \<or>
       ty = TYPE_NVRAM \<and> \<not> fst (Decode_NvRamParameters pl
         \<lparr>start = 0, NvRamParameters.length' = 0, unlockAddress = 0, unlockValue = 0, lockValue = 0\<rparr>)))"

text \<open>
  C13. Every request of the daemon gets one answer. For every message but Bye, whatever its type, payload and flags
  and whatever state the worker is in, dispatching it puts exactly one whole message on the wire: a response with the
  request's sequence number and type (Pong for Ping); and the session goes on unless the payload of a frame or memory
  request cannot be read.
\<close>

theorem dispatch_answers_once:
  assumes "\<And>t. sends (en_send e t)" "h_type (m_header msg) \<noteq> TYPE_BYE"
  shows "\<exists>ty fl pl. length pl \<le> MAX_PAYLOAD_BYTES \<and> fl AND FLAG_RESPONSE \<noteq> 0 \<and>
     (ty = h_type (m_header msg) \<or> h_type (m_header msg) = TYPE_PING \<and> ty = TYPE_PONG) \<and>
     io_out (wk_io (snd (Dispatch cf e msg w))) = io_out (wk_io w) @ EncodeMessage ty fl (h_seq (m_header msg)) pl \<and>
     (fst (Dispatch cf e msg w) \<longleftrightarrow> \<not> unreadable cf msg)"
proof -
  let ?ty = "h_type (m_header msg)" and ?go = "\<not> unreadable cf msg"
  have closing: "responds msg w (AnswerFrame e msg w) ?go" if "?ty = TYPE_FRAME"
    using AnswerFrame_responds [OF assms(1), of msg w] that by (simp add: unreadable_def)
  have memory_go: "?ty = TYPE_SUBSCRIBE \<Longrightarrow> responds msg w (AnswerSubscribe e msg w) ?go"
    "?ty = TYPE_READ_DIRECT \<Longrightarrow> responds msg w (AnswerReadDirect e msg w) ?go"
    "?ty = TYPE_WRITE \<Longrightarrow> responds msg w (AnswerWrite e msg w) ?go"
    "?ty = TYPE_NVRAM \<Longrightarrow> responds msg w (AnswerNvRam e msg w) ?go" if "cf_memory cf"
    using that AnswerSubscribe_responds [OF assms(1), of msg w] AnswerReadDirect_responds [OF assms(1), of msg w]
      AnswerWrite_responds [OF assms(1), of msg w] AnswerNvRam_responds [OF assms(1), of msg w] by (simp_all add: unreadable_def)
  have other: ?go if "?ty \<noteq> TYPE_FRAME" "\<not> (?ty \<in> {TYPE_SUBSCRIBE, TYPE_READ_DIRECT, TYPE_WRITE, TYPE_NVRAM} \<and> cf_memory cf)"
    using that by (auto simp: unreadable_def)
  note open_handlers = AnswerPing_responds [OF assms(1)] AnswerPoll_responds [OF assms(1)] AnswerOverlay_responds [OF assms(1)]
    AnswerStatus_responds [OF assms(1)] read_backs_respond [OF assms(1)] responds_refuse [OF assms(1) refl]
  consider (frame) "?ty = TYPE_FRAME" | (memory) "?ty \<in> {TYPE_SUBSCRIBE, TYPE_READ_DIRECT, TYPE_WRITE, TYPE_NVRAM}" "cf_memory cf"
    | (served) "?ty \<noteq> TYPE_FRAME" "\<not> (?ty \<in> {TYPE_SUBSCRIBE, TYPE_READ_DIRECT, TYPE_WRITE, TYPE_NVRAM} \<and> cf_memory cf)" by blast
  then have "responds msg w (Dispatch cf e msg w) ?go"
  proof cases
    case frame
    then show ?thesis using closing by (simp add: Dispatch_def)
  next
    case memory
    then show ?thesis using memory_go [OF memory(2)] by (elim insertE) (simp_all add: Dispatch_def)
  next
    case served
    have "?go = True" using other [OF served] by simp
    then show ?thesis unfolding Dispatch_def Let_def
      by (simp only:) (intro responds_if; use served assms(2) in \<open>simp add: open_handlers refuse_unserved_def\<close>)
  qed
  then show ?thesis unfolding responds_def by blast
qed

definition picture_env_example :: picture_env where
  "picture_env_example = \<lparr>env_pid = 77, env_parent = \<lparr>dc_mkdir = MkdirDone, dc_private = True\<rparr>,
     env_leaf = \<lparr>dc_mkdir = MkdirDone, dc_private = True\<rparr>, env_entries = [], env_listError = None, env_size_unreadable = False,
     env_copyError = None\<rparr>"

definition env_example :: worker_env where
  "env_example = \<lparr>en_send = (\<lambda>_. [SendSome 1, SendBlocked, SendSome 2000000]), en_recv = (\<lambda>_. [RecvSome 2000000]), en_micros = (\<lambda>_. 0), en_stop = 100,
     en_wait = (\<lambda>_. 0), en_expired = (\<lambda>_. False), en_now = (\<lambda>_. 1), en_token = (\<lambda>_. None), en_connect = (\<lambda>_. None),
     en_declare = (\<lambda>_. None), en_games = (\<lambda>_. []), en_requests = (\<lambda>_. []),
     en_frame = (\<lambda>_. \<lparr>fs_hasSource = False, fs_frameId = 0, fs_generation = 0, fs_width = 0, fs_height = 0, fs_shades = 0, fs_pixels = []\<rparr>),
     en_session = (\<lambda>_. \<lparr>ss_renderedFrame = 8, ss_playerRunning = True\<rparr>), en_surface = (\<lambda>_. False), en_upload = (\<lambda>_ _. Malformed),
     en_subscribe = (\<lambda>_ _. (MB_Busy, [])), en_poll = (\<lambda>_. (MB_Busy, PollReply0)), en_read = (\<lambda>_ _ _. (MB_Busy, ReadDirectReply0)),
     en_write = (\<lambda>_ _. (MB_Busy, \<lparr>WriteReply.frame = 0, applied = 0\<rparr>)), en_unsupported = (\<lambda>_. False),
     en_picture = (\<lambda>_. picture_env_example)\<rparr>"

lemma env_example_sends: "sends (en_send env_example t)"
  unfolding sends_def
proof (intro allI impI)
  fix data :: bytes assume "length data \<le> LENGTH_BYTES + MAX_MESSAGE_BYTES"
  then show "SendAll (en_send env_example t) data 0 = (True, length data)"
    by (cases "length data \<le> 1") (auto simp: env_example_def bound_defs)
qed

theorem dispatch_answers_once_witness:
  "\<exists>fl pl. fl AND FLAG_RESPONSE \<noteq> 0 \<and>
     io_out (wk_io (snd (Dispatch config_example env_example \<lparr>m_header = \<lparr>h_type = TYPE_POLL, h_flags = 0, h_seq = 5\<rparr>, m_payload = []\<rparr>
       (SocketWorker ''/run'' 7 no_files 3)))) = EncodeMessage TYPE_POLL fl 5 pl"
proof -
  let ?m = "\<lparr>m_header = \<lparr>h_type = TYPE_POLL, h_flags = 0, h_seq = 5\<rparr>, m_payload = []\<rparr>" and ?w = "SocketWorker ''/run'' 7 no_files 3"
  have "h_type (m_header ?m) \<noteq> TYPE_BYE" by simp
  from dispatch_answers_once [OF env_example_sends this, of config_example ?w] obtain ty fl pl where
    "fl AND FLAG_RESPONSE \<noteq> 0" "ty = TYPE_POLL"
    "io_out (wk_io (snd (Dispatch config_example env_example ?m ?w))) = io_out (wk_io ?w) @ EncodeMessage ty fl 5 pl" by auto
  moreover have "io_out (wk_io ?w) = []" by (simp add: SocketWorker_def)
  ultimately show ?thesis by auto
qed

end
