(* ===== verification/Worker_Session.thy ===== *)
theory Worker_Session
  imports Worker_Dispatch
begin

text \<open>
  A session of the socket worker and its main loop (\<^verbatim>\<open>src/SocketWorker.cpp\<close>). The worker runs until it is stopped, at
  the call numbered \<open>en_stop\<close>, so every loop ends; connecting gives the bytes the daemon will send on the connection, or
  fails. What another thread posts (declarations, game batches, leaderboard requests) is given call by call, so a theorem
  here holds for every interleaving with those threads.
\<close>

section \<open>The token\<close>

definition TOKEN_CHARS :: nat where "TOKEN_CHARS = 64"

definition IsHex :: "char \<Rightarrow> bool" where
  "IsHex c \<longleftrightarrow> (of_char c :: nat) \<in> {48..57} \<union> {97..102} \<union> {65..70}"

definition is_space :: "char \<Rightarrow> bool" where
  "is_space c \<longleftrightarrow> (of_char c :: nat) \<in> {32, 9, 13, 10}"

definition Trim :: "string \<Rightarrow> string" where
  "Trim s = rev (dropWhile is_space (rev (dropWhile is_space s)))"

definition ReadToken :: "string option \<Rightarrow> string option" where
  "ReadToken content =
     (case content of
        None \<Rightarrow> None
      | Some buf \<Rightarrow>
          let token = Trim (take 255 buf)
          in if length token \<noteq> TOKEN_CHARS then None
             else if \<exists>c \<in> set token. \<not> IsHex c then None else Some token)"

section \<open>Exchange\<close>

definition running :: "'a worker_env_scheme \<Rightarrow> worker \<Rightarrow> bool" where
  "running e w \<longleftrightarrow> wk_tick w < en_stop e"

text \<open>What serving the daemon's requests leaves alone; the calls only ever advance.\<close>

definition serves :: "worker \<Rightarrow> worker \<Rightarrow> bool" where
  "serves w w' \<longleftrightarrow> wk_tick w \<le> wk_tick w' \<and> wk_games w' = wk_games w \<and> wk_declared w' = wk_declared w \<and>
     wk_haveDeclared w' = wk_haveDeclared w \<and> wk_current w' = wk_current w \<and> wk_peerMinor w' = wk_peerMinor w \<and>
     wk_peerCapabilities w' = wk_peerCapabilities w \<and> sp_asks (wk_scores w') = sp_asks (wk_scores w) \<and>
     wk_connected w' = wk_connected w \<and> (scores_reach (wk_scores w) \<longrightarrow> scores_reach (wk_scores w')) \<and>
     sp_taken (wk_scores w') = sp_taken (wk_scores w)"

lemma serves_refl [simp]: "serves w w"
  by (simp add: serves_def)

lemma serves_trans: "serves a b \<Longrightarrow> serves b c \<Longrightarrow> serves a c"
  unfolding serves_def by auto

lemma serves_same:
  assumes "wk_tick w \<le> wk_tick w'" "wk_games w' = wk_games w" "wk_declared w' = wk_declared w" "wk_haveDeclared w' = wk_haveDeclared w"
    "wk_current w' = wk_current w" "wk_peerMinor w' = wk_peerMinor w" "wk_peerCapabilities w' = wk_peerCapabilities w"
    "wk_scores w' = wk_scores w" "wk_connected w' = wk_connected w"
  shows "serves w w'"
  using assms by (simp add: serves_def)

lemma SendWireMessage_tick: "io_tick s \<le> io_tick (snd (SendWireMessage e ty fl sq pl sp s))"
  by (simp add: SendWireMessage_def Let_def split: prod.splits)

lemma SendError_tick: "io_tick s \<le> io_tick (snd (SendError e ty sq c why s))"
  by (simp add: SendError_def SendWireMessage_tick)

lemma ReadMessage_tick: "io_tick s \<le> io_tick (snd (ReadMessage e s))"
proof -
  obtain r1 rest1 where r1: "ReadExact (en_recv e (io_tick s)) LENGTH_BYTES [] (io_in s) = (r1, rest1)"
    by (cases "ReadExact (en_recv e (io_tick s)) LENGTH_BYTES [] (io_in s)")
  show ?thesis
  proof (cases r1)
    case None
    then show ?thesis by (simp add: ReadMessage_def r1)
  next
    case (Some lb)
    let ?s1 = "s\<lparr>io_in := rest1, io_tick := io_tick s + 1\<rparr>" and ?len = "unat (fst (snd (r_U32 0 (Reader lb))))"
    show ?thesis
    proof (cases "?len < HEADER_BYTES \<or> ?len > MAX_MESSAGE_BYTES")
      case True
      then show ?thesis using SendError_tick [of ?s1 e 0 0 ERR_MALFORMED "''message length out of bounds''"]
        by (simp add: ReadMessage_def r1 Some Let_def)
    next
      case False
      obtain r2 rest2 where r2: "ReadExact (en_recv e (io_tick ?s1)) ?len [] (io_in ?s1) = (r2, rest2)"
        by (cases "ReadExact (en_recv e (io_tick ?s1)) ?len [] (io_in ?s1)")
      show ?thesis
      proof (cases r2)
        case None
        then show ?thesis using False r2 by (simp add: ReadMessage_def r1 Some Let_def)
      next
        case (Some body)
        obtain d out where dec: "DecodeBody body message0 = (d, out)" by (cases "DecodeBody body message0")
        have "io_tick s \<le> io_tick (snd (SendError e 0 0 ERR_MALFORMED why (s\<lparr>io_in := rest2, io_tick := Suc (Suc (io_tick s)), io_dump := x\<rparr>)))" for why x
          using SendError_tick [of "s\<lparr>io_in := rest2, io_tick := Suc (Suc (io_tick s)), io_dump := x\<rparr>" e 0 0 ERR_MALFORMED why] by simp
        then show ?thesis using False r2 \<open>r1 = Some lb\<close> Some dec by (simp add: ReadMessage_def r1 Let_def)
      qed
    qed
  qed
qed

lemma serves_io: "serves w (snd (on_io f w))" if "\<And>s. io_tick s \<le> io_tick (snd (f s))"
  using that [of "wk_io w"] by (auto simp: on_io_def intro!: serves_same split: prod.splits)

lemma serves_answer:
  "serves w (snd (reply e msg pl w))" "serves w (snd (refuse e msg c why w))" "serves w (snd (refuse_closing e msg why w))"
  "serves w (snd (SendMemoryError e msg x w))" "serves w (next_tick w)" "serves w (call_target t w)"
  by (auto simp: reply_def refuse_def refuse_closing_def SendMemoryError_def next_tick_def call_target_def
      intro!: serves_io SendWireMessage_tick SendError_tick serves_same split: mb_result.splits)

lemma serves_then:
  "serves w w' \<Longrightarrow> serves w (snd (reply e msg pl w'))" "serves w w' \<Longrightarrow> serves w (snd (refuse e msg c why w'))"
  "serves w w' \<Longrightarrow> serves w (snd (refuse_closing e msg why w'))" "serves w w' \<Longrightarrow> serves w (snd (SendMemoryError e msg x w'))"
  "serves w w' \<Longrightarrow> serves w (next_tick w')" "serves w w' \<Longrightarrow> serves w (call_target t w')"
  by (erule serves_trans, rule serves_answer)+

lemma serves_update: "serves w w' \<Longrightarrow> serves w (w'\<lparr>wk_status := s\<rparr>)" "serves w w' \<Longrightarrow> serves w (w'\<lparr>wk_players := p\<rparr>)"
  by (simp_all add: serves_def)

lemma take_scores_keeps:
  "sp_asks (snd (take_scores now pl s)) = sp_asks s" "sp_taken (snd (take_scores now pl s)) = sp_taken s"
  using take_scores_cases [where now = now and pl = pl and s = s] by (cases; simp)+

lemma serves_scores: "serves w ((next_tick w)\<lparr>wk_scores := snd (take_scores now pl (wk_scores w))\<rparr>)"
  by (simp add: serves_def next_tick_def take_scores_keeps sr_scores)

lemma Dispatch_serves: "serves w (snd (Dispatch cf e msg w))"
proof -
  have "serves w (snd (AnswerFrame e msg w))"
    by (simp add: AnswerFrame_def Let_def serves_then split: prod.splits)
  moreover have "serves w (snd (AnswerPing cf e msg w))"
    unfolding AnswerPing_def Let_def by (rule serves_trans [OF serves_answer(5) serves_io]) (rule SendWireMessage_tick)
  moreover have "serves w (snd (AnswerSubscribe e msg w))" "serves w (snd (AnswerPoll e msg w))" "serves w (snd (AnswerReadDirect e msg w))"
    "serves w (snd (AnswerWrite e msg w))" "serves w (snd (AnswerNvRam e msg w))"
    by (simp_all add: AnswerSubscribe_def AnswerPoll_def AnswerReadDirect_def AnswerWrite_def AnswerNvRam_def Let_def serves_then
        split: prod.splits)
  moreover have "serves w (snd (AnswerOverlay e msg w))"
    by (simp add: AnswerOverlay_def Let_def serves_then split: prod.splits)
  moreover have "serves w (snd (AnswerStatus cf e msg w))" "serves w (snd (AnswerPlayers e msg w))" "serves w (snd (AnswerPlayerPicture e msg w))"
    by (simp_all add: AnswerStatus_def AnswerPlayers_def AnswerPlayerPicture_def Let_def serves_then serves_update split: prod.splits)
  moreover have "serves w (snd (AnswerTopScores e msg w))"
  proof -
    obtain d s where t: "take_scores (en_now e (wk_tick w)) (m_payload msg) (wk_scores w) = (d, s)"
      by (cases "take_scores (en_now e (wk_tick w)) (m_payload msg) (wk_scores w)")
    have "serves w ((next_tick w)\<lparr>wk_scores := s\<rparr>)" using serves_scores [of w "en_now e (wk_tick w)" "m_payload msg"] by (simp add: t)
    then show ?thesis by (simp add: AnswerTopScores_def t Let_def serves_then)
  qed
  ultimately show ?thesis by (simp add: Dispatch_def Let_def refuse_unserved_def serves_answer)
qed

lemma read_ticks: "on_io (ReadMessage e) w = (r, w') \<Longrightarrow> wk_tick w \<le> wk_tick w'"
  using serves_io [of "ReadMessage e" w, OF ReadMessage_tick] by (simp add: serves_def)

lemma dispatch_ticks: "Dispatch cf e msg w = (ok, w') \<Longrightarrow> wk_tick w \<le> wk_tick w'"
  using Dispatch_serves [of w cf e msg] by (simp add: serves_def)

text \<open>The loop of \<open>Exchange\<close>; the reply, if it came.\<close>

function exchange_loop :: "SocketWorkerConfig \<Rightarrow> 'a worker_env_scheme \<Rightarrow> u32 \<Rightarrow> worker \<Rightarrow> message option \<times> worker" where
  "exchange_loop cf e sq w =
     (if \<not> running e w then (None, w)
      else if en_expired e (wk_tick w) then (None, next_tick w)
      else let rc = en_wait e (wk_tick w); w = next_tick w in
        if rc < 0 then (None, w)
        else if rc = 0 then exchange_loop cf e sq w
        else case on_io (ReadMessage e) w of
               (None, w) \<Rightarrow> (None, w)
             | (Some msg, w) \<Rightarrow>
                 let w = w\<lparr>wk_lastActivity := en_now e (wk_tick w)\<rparr> in
                 if IsResponse (m_header msg)
                 then if h_seq (m_header msg) = sq then (Some msg, w) else exchange_loop cf e sq w
                 else case Dispatch cf e msg w of (ok, w) \<Rightarrow> if ok then exchange_loop cf e sq w else (None, w))"
  by pat_completeness auto
termination
  by (relation "measure (\<lambda>(cf, e, sq, w). en_stop e - wk_tick w)")
    (auto simp: running_def next_tick_def dest!: read_ticks [OF sym] dispatch_ticks [OF sym])

declare exchange_loop.simps [simp del]

definition Exchange :: "SocketWorkerConfig \<Rightarrow> 'a worker_env_scheme \<Rightarrow> u16 \<Rightarrow> bytes \<Rightarrow> SensitiveSpan list \<Rightarrow> worker \<Rightarrow> message option \<times> worker" where
  "Exchange cf e ty pl sensitive w =
     (let w = w\<lparr>wk_seq := wk_seq w + 1\<rparr>
      in case on_io (SendWireMessage e ty 0 (wk_seq w) pl sensitive) w of
           (False, w) \<Rightarrow> (None, w)
         | (True, w') \<Rightarrow> exchange_loop cf e (wk_seq w) w')"

lemma exchange_loop_serves: "serves w (snd (exchange_loop cf e sq w))"
proof (induction cf e sq w rule: exchange_loop.induct)
  case (1 cf e sq w)
  let ?w1 = "next_tick w"
  have w1: "serves w ?w1" by (rule serves_answer)
  show ?case
  proof (cases "running e w \<and> \<not> en_expired e (wk_tick w) \<and> \<not> en_wait e (wk_tick w) < 0")
    case False
    then show ?thesis using w1 by (subst exchange_loop.simps) (auto simp: Let_def)
  next
    case go: True
    show ?thesis
    proof (cases "en_wait e (wk_tick w) = 0")
      case True
      have "serves ?w1 (snd (exchange_loop cf e sq ?w1))" using "1.IH"(1) [OF _ _ refl refl] go True by auto
      then show ?thesis using go True serves_trans [OF w1] by (subst exchange_loop.simps) (simp add: Let_def)
    next
      case wait: False
      obtain r w2 where r: "on_io (ReadMessage e) ?w1 = (r, w2)" by (cases "on_io (ReadMessage e) ?w1")
      have w2: "serves w w2" using serves_trans [OF w1 serves_io [of "ReadMessage e", OF ReadMessage_tick]] by (simp add: r)
      show ?thesis
      proof (cases r)
        case None
        then show ?thesis using go wait r w2 by (subst exchange_loop.simps) (simp add: Let_def)
      next
        case (Some msg)
        let ?w3 = "w2\<lparr>wk_lastActivity := en_now e (wk_tick w2)\<rparr>"
        have w3: "serves w ?w3" using w2 by (simp add: serves_def)
        show ?thesis
        proof (cases "IsResponse (m_header msg)")
          case True
          have "serves ?w3 (snd (exchange_loop cf e sq ?w3))" if "h_seq (m_header msg) \<noteq> sq"
            using "1.IH"(2) [OF _ _ refl refl _ _ r [symmetric] Some refl True that] go wait by auto
          then show ?thesis using go wait r Some True w3 serves_trans [OF w3] by (subst exchange_loop.simps) (simp add: Let_def)
        next
          case False
          obtain ok w4 where d: "Dispatch cf e msg ?w3 = (ok, w4)" by (cases "Dispatch cf e msg ?w3")
          have w4: "serves w w4" using serves_trans [OF w3 Dispatch_serves [of ?w3 cf e msg]] by (simp add: d)
          have "serves w4 (snd (exchange_loop cf e sq w4))" if ok
            using "1.IH"(3) [OF _ _ refl refl _ _ r [symmetric] Some refl False d [symmetric] that] go wait by auto
          then show ?thesis using go wait r Some False d w4 serves_trans [OF w4] by (subst exchange_loop.simps) (simp add: Let_def)
        qed
      qed
    qed
  qed
qed

lemma Exchange_serves: "serves w (snd (Exchange cf e ty pl sp w))"
proof -
  let ?w = "w\<lparr>wk_seq := wk_seq w + 1\<rparr>" and ?send = "SendWireMessage e ty 0 (wk_seq w + 1) pl sp"
  obtain ok w1 where s: "on_io ?send ?w = (ok, w1)" by (cases "on_io ?send ?w")
  have "serves ?w w1" using serves_io [of ?send ?w, OF SendWireMessage_tick] by (simp add: s)
  then have w1: "serves w w1" by (simp add: serves_def)
  then show ?thesis using s serves_trans [OF w1 exchange_loop_serves] by (cases ok) (simp_all add: Exchange_def)
qed

section \<open>Games and declarations\<close>

definition TakeDeclare :: "'a worker_env_scheme \<Rightarrow> worker \<Rightarrow> worker" where
  "TakeDeclare e w =
     (case en_declare e (wk_tick w) of Some posted \<Rightarrow> (next_tick w)\<lparr>wk_current := posted\<rparr> | None \<Rightarrow> next_tick w)"

definition on_games :: "(games_part \<Rightarrow> games_part) \<Rightarrow> worker \<Rightarrow> worker" where
  "on_games f w = w\<lparr>wk_games := f (wk_games w)\<rparr>"

definition take_games :: "'a worker_env_scheme \<Rightarrow> worker \<Rightarrow> worker" where
  "take_games e w = on_games (TakeSourceGames (en_games e (wk_tick w))) (next_tick w)"

definition authored_declared :: "worker \<Rightarrow> bool" where
  "authored_declared w \<longleftrightarrow> tableKind (ds_declare (wk_declared w)) = TABLE_AUTHORED \<and> AuthoredAllowed w"

lemma Exchange_games: "Exchange cf e ty pl sp w = (r, w') \<Longrightarrow> wk_games w' = wk_games w"
  using Exchange_serves [of w cf e ty pl sp] by (simp add: serves_def)

lemma queue_shrinks:
  assumes "gm_games g \<noteq> []"
  shows "length (gm_games (PopGame g)) < length (gm_games g)" "length (gm_games (game_acknowledged k g)) < length (gm_games g)"
    "length (gm_games (game_refused g)) < length (gm_games g)"
proof -
  have r: "gm_games (RetainAcknowledged k p h) = gm_games h" for p h
    by (simp add: RetainAcknowledged_def Let_def DropOpenGame_def)
  show "length (gm_games (PopGame g)) < length (gm_games g)" "length (gm_games (game_acknowledged k g)) < length (gm_games g)"
    "length (gm_games (game_refused g)) < length (gm_games g)"
    using assms by (auto simp: PopGame_def game_acknowledged_def game_refused_def r Let_def DropOpenGame_def DiscardQueuedReplay_def)
qed

text \<open>
  A loop is a step that returns (\<open>Inl\<close>) or goes round again (\<open>Inr\<close>), and the recursion over it. In \<open>SendGames\<close>, \<open>late\<close>
  is the second look for a declaration that an authored batch follows.
\<close>

type_synonym loop_step = "(bool \<times> worker) + worker"

definition send_game :: "SocketWorkerConfig \<Rightarrow> 'a worker_env_scheme \<Rightarrow> worker \<Rightarrow> loop_step" where
  "send_game cf e w =
     (if gm_games (wk_games w) = [] \<or> \<not> wk_haveDeclared w then Inl (True, w)
      else let front = hd (gm_games (wk_games w)); ep = ds_epoch (wk_declared w); authored = authored_declared w in
        if epoch front > ep then Inl (True, w)
        else let late = (epoch front = ep \<and> \<not> authored); w = (if late then TakeDeclare e w else w) in
          if late \<and> wk_current w \<noteq> wk_declared w then Inl (True, w)
          else let pl = (if authored then Encode_GameBatch (batch front) else []) in
            if epoch front < ep \<or> pl = [] then Inr (on_games PopGame w)
            else case Exchange cf e TYPE_GAME pl [] w of
                   (None, w) \<Rightarrow> Inl (False, w)
                 | (Some m, w) \<Rightarrow>
                     if \<not> IsError (m_header m) then Inr (on_games (game_acknowledged (ds_identity (wk_declared w))) w)
                     else Inr (on_games game_refused w))"

lemma TakeDeclare_games [simp]: "wk_games (TakeDeclare e w) = wk_games w"
  by (simp add: TakeDeclare_def next_tick_def split: option.split)

lemma send_game_shrinks: "send_game cf e w = Inr w' \<Longrightarrow> length (gm_games (wk_games w')) < length (gm_games (wk_games w))"
  by (auto simp: send_game_def on_games_def Let_def queue_shrinks split: if_splits prod.splits option.splits dest: Exchange_games)

function send_games :: "SocketWorkerConfig \<Rightarrow> 'a worker_env_scheme \<Rightarrow> worker \<Rightarrow> bool \<times> worker" where
  "send_games cf e w = (case send_game cf e w of Inl r \<Rightarrow> r | Inr w \<Rightarrow> send_games cf e w)"
  by pat_completeness auto
termination
  by (relation "measure (\<lambda>(cf, e, w). length (gm_games (wk_games w)))") (auto intro: send_game_shrinks)

declare send_games.simps [simp del]

definition SendGames :: "SocketWorkerConfig \<Rightarrow> 'a worker_env_scheme \<Rightarrow> worker \<Rightarrow> bool \<times> worker" where
  "SendGames cf e w =
     (let w = take_games e w;
          w = (if wk_haveDeclared w then on_games (replay_games (ds_epoch (wk_declared w)) (ds_identity (wk_declared w))) w else w)
      in send_games cf e w)"

section \<open>Read-backs\<close>

text \<open>\<open>Close\<close> empties the channel and shuts it, in one step.\<close>

definition EndReadBacks :: "SocketWorkerConfig \<Rightarrow> 'a worker_env_scheme \<Rightarrow> bool \<Rightarrow> worker \<Rightarrow> worker" where
  "EndReadBacks cf e lost w =
     (if \<not> cf_readBack cf then w
      else let closed = (if lost then en_requests e (wk_tick w) else []);
               now = en_now e (wk_tick w);
               w = (next_tick w)\<lparr>wk_leaderboards := wk_leaderboards w \<and> \<not> lost\<rparr>
           in w\<lparr>wk_scores := end_scores now lost closed (wk_scores w), wk_players := end_players (wk_declared w) (wk_players w)\<rparr>)"

definition on_scores :: "(scores_part \<Rightarrow> scores_part) \<Rightarrow> worker \<Rightarrow> worker" where
  "on_scores f w = w\<lparr>wk_scores := f (wk_scores w)\<rparr>"

definition refused_code :: "message \<Rightarrow> u16" where
  "refused_code m = ErrorPayload.code (snd (Decode_ErrorPayload (m_payload m) \<lparr>ErrorPayload.code = 0, reason = []\<rparr>))"

lemma Exchange_asks: "Exchange cf e ty pl sp w = (r, w') \<Longrightarrow> sp_asks (wk_scores w') = sp_asks (wk_scores w)"
  using Exchange_serves [of w cf e ty pl sp] by (simp add: serves_def)

lemma asks_shrink: "sp_asks (answer_ask now x s) = tl (sp_asks s)" "sp_asks (register_ask now s) = tl (sp_asks s)"
  "sp_asks (refuse_ask now c a s) = sp_asks s"
  by (simp_all add: answer_ask_def register_ask_def refuse_ask_def Let_def)

definition send_ask :: "SocketWorkerConfig \<Rightarrow> 'a worker_env_scheme \<Rightarrow> worker \<Rightarrow> loop_step" where
  "send_ask cf e w =
     (if sp_asks (wk_scores w) = [] then Inl (True, w)
      else let a = hd (sp_asks (wk_scores w)); now = en_now e (wk_tick w) in
        case ask_decide (wk_haveDeclared w) (wk_declared w) (ReadBackAllowed cf CAP_LEADERBOARDS w) (TableIdentified w) a of
          AskWait \<Rightarrow> Inl (True, w)
        | AskAnswer result \<Rightarrow> Inr (on_scores (answer_ask now result) (next_tick w))
        | AskSend pl \<Rightarrow>
            (case Exchange cf e TYPE_TOP_SCORES_REQUEST pl [] (on_scores (register_ask now) (next_tick w)) of
               (None, w) \<Rightarrow> Inl (False, w)
             | (Some m, w) \<Rightarrow>
                 if \<not> IsError (m_header m) then Inr w
                 else Inr (on_scores (refuse_ask (en_now e (wk_tick w)) (refused_code m) a) (next_tick w))))"

lemma send_ask_shrinks: "send_ask cf e w = Inr w' \<Longrightarrow> length (sp_asks (wk_scores w')) < length (sp_asks (wk_scores w))"
  by (auto simp: send_ask_def on_scores_def next_tick_def asks_shrink Let_def split: if_splits ask_step.splits prod.splits option.splits
      dest: Exchange_asks)

function send_asks :: "SocketWorkerConfig \<Rightarrow> 'a worker_env_scheme \<Rightarrow> worker \<Rightarrow> bool \<times> worker" where
  "send_asks cf e w = (case send_ask cf e w of Inl r \<Rightarrow> r | Inr w \<Rightarrow> send_asks cf e w)"
  by pat_completeness auto
termination
  by (relation "measure (\<lambda>(cf, e, w). length (sp_asks (wk_scores w)))") (auto intro: send_ask_shrinks)

declare send_asks.simps [simp del]

definition SendTopScoresRequests :: "SocketWorkerConfig \<Rightarrow> 'a worker_env_scheme \<Rightarrow> worker \<Rightarrow> bool \<times> worker" where
  "SendTopScoresRequests cf e w =
     (if \<not> cf_readBack cf then (True, w)
      else send_asks cf e (on_scores (take_asks (en_requests e (wk_tick w))) (next_tick w)))"

section \<open>Declaring the table\<close>

definition declare_sent :: "DeclareSnapshot \<Rightarrow> worker \<Rightarrow> Declare" where
  "declare_sent now w =
     (let sent = ds_declare now
      in if tableKind sent = TABLE_AUTHORED \<and> \<not> AuthoredAllowed w
         then sent\<lparr>tableKind := TABLE_ROM, machineUuid := [], tableFullPath := [], vpxAppPath := [], prefsPath := []\<rparr>
         else sent)"

definition declare_accepted :: "SocketWorkerConfig \<Rightarrow> 'a worker_env_scheme \<Rightarrow> DeclareSnapshot \<Rightarrow> worker \<Rightarrow> worker" where
  "declare_accepted cf e now w =
     (let newIdentity = NewIdentity (ds_declare (wk_declared w)) (ds_declare now);
          sameEpoch = (ds_epoch now = ds_epoch (wk_declared w));
          newTable = (wk_haveDeclared w \<and> (\<not> sameEpoch \<or> newIdentity));
          w = w\<lparr>wk_declared := now, wk_haveDeclared := True\<rparr>;
          w = (if newTable then on_games new_table_games (EndReadBacks cf e False w) else w);
          w = w\<lparr>wk_status := declare_status cf now (wk_status w)\<rparr>
      in if newTable \<and> sameEpoch
         then on_scores (LoseQueuedRequests cf (en_now e (wk_tick w)) (wk_declared w) (en_requests e (wk_tick w))) (next_tick w)
         else w)"

definition send_declare :: "SocketWorkerConfig \<Rightarrow> 'a worker_env_scheme \<Rightarrow> worker \<Rightarrow> bool \<times> worker" where
  "send_declare cf e w =
     (let now = wk_current w;
          w = (if cf_readBack cf \<and> \<not> Identifies (ds_declare now) w then w\<lparr>wk_leaderboards := False\<rparr> else w);
          (pl, sensitive) = Encode_Declare (declare_sent now w) (wk_peerMinor w);
          w = (if cf_memory cf then call_target MemoryClear w else w)
      in case Exchange cf e TYPE_DECLARE pl sensitive w of
           (None, w) \<Rightarrow> (False, w)
         | (Some m, w) \<Rightarrow> if IsError (m_header m) then (False, w) else (True, declare_accepted cf e now w))"

definition MaybeDeclare :: "SocketWorkerConfig \<Rightarrow> 'a worker_env_scheme \<Rightarrow> worker \<Rightarrow> bool \<times> worker" where
  "MaybeDeclare cf e w =
     (let w = TakeDeclare e w;
          (ok, w) = (if wk_haveDeclared w \<and> ds_epoch (wk_current w) \<noteq> ds_epoch (wk_declared w) then SendGames cf e w else (True, w))
      in if \<not> ok then (False, w)
         else if wk_haveDeclared w \<and> wk_current w = wk_declared w then (True, w)
         else send_declare cf e w)"

section \<open>The session\<close>

definition hello_for :: "SocketWorkerConfig \<Rightarrow> string \<Rightarrow> worker \<Rightarrow> Hello" where
  "hello_for cf tok w =
     \<lparr>Hello.protoMajor = PROTO_MAJOR, protoMinor = PROTO_MINOR, pluginVersion = cf_pluginVersion cf,
      vpxRevision = Declare.vpxRevision (ds_declare (wk_current w)), pluginApiCommit = cf_pluginApiCommit cf, token = tok,
      instanceId = cf_instanceId cf, capabilities = OwnCapabilities cf, info = []\<rparr>"

definition on_status :: "(status_part \<Rightarrow> status_part) \<Rightarrow> worker \<Rightarrow> worker" where
  "on_status f w = w\<lparr>wk_status := f (wk_status w)\<rparr>"

definition no_session :: "SocketWorkerConfig \<Rightarrow> 'a worker_env_scheme \<Rightarrow> string \<Rightarrow> worker \<Rightarrow> worker" where
  "no_session cf e why w = on_status (NoSession cf why (en_now e (wk_tick w))) (next_tick w)"

definition HelloAck0 :: HelloAck where
  "HelloAck0 = \<lparr>HelloAck.protoMajor = 0, protoMinor = 0, daemonVersion = [], capabilities = 0, sessionId = 0\<rparr>"

text \<open>What an accepted \<open>Hello\<close> does to the worker.\<close>

definition session_opened :: "SocketWorkerConfig \<Rightarrow> 'a worker_env_scheme \<Rightarrow> HelloAck \<Rightarrow> worker \<Rightarrow> worker" where
  "session_opened cf e ack w =
     (let w = w\<lparr>wk_connected := True, wk_peerMinor := HelloAck.protoMinor ack, wk_peerCapabilities := HelloAck.capabilities ack\<rparr>;
          w = on_games (handshake_games (en_games e (wk_tick w))) (next_tick w);
          w = on_status (handshake_status cf (en_now e (wk_tick w))) (next_tick w)
      in if cf_memory cf then call_target MemoryClear w else w)"

definition Handshake :: "SocketWorkerConfig \<Rightarrow> 'a worker_env_scheme \<Rightarrow> worker \<Rightarrow> bool \<times> worker" where
  "Handshake cf e w =
     (let content = en_token e (wk_tick w); w = next_tick w in
      case ReadToken content of
        None \<Rightarrow> (False, no_session cf e [] w)
      | Some tok \<Rightarrow>
          let w = TakeDeclare e w in
          case Exchange cf e TYPE_HELLO (Encode_Hello (hello_for cf tok w)) [] w of
            (None, w) \<Rightarrow> (False, w)
          | (Some m, w) \<Rightarrow>
              if IsError (m_header m)
              then case Decode_ErrorPayload (m_payload m) \<lparr>ErrorPayload.code = 0, reason = []\<rparr> of (decoded, x) \<Rightarrow>
                     if \<not> decoded then (False, w)
                     else (False, no_session cf e (ErrorName (ErrorPayload.code x)
                            @ (if ErrorPayload.reason x = [] then [] else '': '' @ ErrorPayload.reason x)) w)
              else if h_type (m_header m) \<noteq> TYPE_HELLO_ACK \<and> h_type (m_header m) \<noteq> TYPE_HELLO then (False, w)
              else case Decode_HelloAck (m_payload m) HelloAck0 of (decoded, ack) \<Rightarrow>
                     if \<not> decoded \<or> HelloAck.protoMajor ack \<noteq> PROTO_MAJOR then (False, w)
                     else (True, session_opened cf e ack w))"

definition Connect :: "'a worker_env_scheme \<Rightarrow> worker \<Rightarrow> bool \<times> worker" where
  "Connect e w =
     (case en_connect e (wk_tick w) of
        None \<Rightarrow> (False, next_tick w)
      | Some stream \<Rightarrow>
          let w = next_tick w
          in (True, w\<lparr>wk_io := (wk_io w)\<lparr>io_in := stream\<rparr>, wk_seq := 0, wk_haveDeclared := False, wk_declared := DeclareSnapshot0,
                wk_players := (wk_players w)\<lparr>pl_snapshotDue := True\<rparr>\<rparr>))"

definition Disconnect :: "SocketWorkerConfig \<Rightarrow> 'a worker_env_scheme \<Rightarrow> worker \<Rightarrow> worker" where
  "Disconnect cf e w =
     (let w' = w\<lparr>wk_connected := False\<rparr>;
          w' = (if wk_connected w
                then no_session cf e [] (if cf_overlay cf then call_target OverlayClear w' else w') else w')
      in EndReadBacks cf e True w')"

definition SendIdlePing :: "SocketWorkerConfig \<Rightarrow> 'a worker_env_scheme \<Rightarrow> worker \<Rightarrow> bool \<times> worker" where
  "SendIdlePing cf e w = (case Exchange cf e TYPE_PING [] [] w of (r, w) \<Rightarrow> (r \<noteq> None, w))"

definition IDLE_PING_AFTER :: int where "IDLE_PING_AFTER = milliseconds 500"

section \<open>The loops end\<close>

text \<open>What every operation of the worker keeps: the calls only advance, and the leaderboard requests stay accounted for.\<close>

definition goes :: "worker \<Rightarrow> worker \<Rightarrow> bool" where
  "goes w w' \<longleftrightarrow> wk_tick w \<le> wk_tick w' \<and> (scores_reach (wk_scores w) \<longrightarrow> scores_reach (wk_scores w'))"

named_theorems goes_intros

lemma goes_refl [goes_intros]: "goes w w"
  by (simp add: goes_def)

lemma goes_trans: "goes a b \<Longrightarrow> goes b c \<Longrightarrow> goes a c"
  unfolding goes_def by auto

lemma goes_serves: "serves w w' \<Longrightarrow> goes w w'"
  by (simp add: goes_def serves_def)

lemma goes_Exchange: "Exchange cf e ty pl sp w = (r, w') \<Longrightarrow> goes w w'"
  using goes_serves [OF Exchange_serves [of w cf e ty pl sp]] by simp

lemma goes_next [goes_intros]: "goes w w' \<Longrightarrow> goes w (next_tick w')"
  by (simp add: goes_def next_tick_def)

lemma goes_update [goes_intros]:
  "goes w w' \<Longrightarrow> goes w (w'\<lparr>wk_status := a\<rparr>)" "goes w w' \<Longrightarrow> goes w (w'\<lparr>wk_players := b\<rparr>)" "goes w w' \<Longrightarrow> goes w (w'\<lparr>wk_games := c\<rparr>)"
  "goes w w' \<Longrightarrow> goes w (w'\<lparr>wk_current := d\<rparr>)" "goes w w' \<Longrightarrow> goes w (w'\<lparr>wk_declared := d\<rparr>)" "goes w w' \<Longrightarrow> goes w (w'\<lparr>wk_haveDeclared := x\<rparr>)"
  "goes w w' \<Longrightarrow> goes w (w'\<lparr>wk_leaderboards := x\<rparr>)" "goes w w' \<Longrightarrow> goes w (w'\<lparr>wk_connected := x\<rparr>)" "goes w w' \<Longrightarrow> goes w (w'\<lparr>wk_peerMinor := m\<rparr>)"
  "goes w w' \<Longrightarrow> goes w (w'\<lparr>wk_peerCapabilities := k\<rparr>)" "goes w w' \<Longrightarrow> goes w (w'\<lparr>wk_lastActivity := t\<rparr>)" "goes w w' \<Longrightarrow> goes w (w'\<lparr>wk_seq := s\<rparr>)"
  by (simp_all add: goes_def)

lemma goes_parts [goes_intros]:
  "goes w w' \<Longrightarrow> goes w (on_games f w')" "goes w w' \<Longrightarrow> goes w (on_status g w')" "goes w w' \<Longrightarrow> goes w (call_target t w')"
  by (simp_all add: goes_def on_games_def on_status_def call_target_def)

lemma goes_scores [goes_intros]:
  "goes w w' \<Longrightarrow> (\<And>s. scores_reach s \<Longrightarrow> scores_reach (f s)) \<Longrightarrow> goes w (on_scores f w')"
  by (simp add: goes_def on_scores_def)

lemma goes_asks: "goes w w' \<Longrightarrow> sp_asks (wk_scores w') \<noteq> [] \<Longrightarrow> (\<And>s. scores_reach s \<Longrightarrow> sp_asks s \<noteq> [] \<Longrightarrow> scores_reach (f s)) \<Longrightarrow>
    goes w (on_scores f w')"
  by (simp add: goes_def on_scores_def)

lemma next_tick_asks [simp]: "wk_scores (next_tick w) = wk_scores w" "wk_games (next_tick w) = wk_games w" "wk_tick (next_tick w) = Suc (wk_tick w)"
  by (simp_all add: next_tick_def)

lemma goes_TakeDeclare [goes_intros]: "goes w w' \<Longrightarrow> goes w (TakeDeclare e w')"
  by (simp add: TakeDeclare_def goes_intros split: option.split)

lemma TakeDeclare_tick [simp]: "wk_tick (TakeDeclare e w) = Suc (wk_tick w)"
  by (simp add: TakeDeclare_def split: option.split)

lemma goes_EndReadBacks [goes_intros]: "goes w w' \<Longrightarrow> goes w (EndReadBacks cf e lost w')"
  by (auto simp: EndReadBacks_def Let_def goes_def next_tick_def intro: sr_end)

lemma goes_on_io: "(\<And>s. io_tick s \<le> io_tick (snd (f s))) \<Longrightarrow> on_io f w = (r, w') \<Longrightarrow> goes w w'"
  using goes_serves [OF serves_io [of f w]] by simp

definition step_worker :: "loop_step \<Rightarrow> worker" where
  "step_worker r = (case r of Inl (_, w) \<Rightarrow> w | Inr w \<Rightarrow> w)"

lemma goes_send_game: "goes w (step_worker (send_game cf e w))"
  by (auto simp: send_game_def step_worker_def Let_def split: if_splits prod.splits option.splits dest: goes_Exchange
      intro!: goes_intros)

lemma goes_send_games: "goes w (snd (send_games cf e w))"
proof (induction cf e w rule: send_games.induct)
  case (1 cf e w)
  note s = goes_send_game [of w cf e]
  show ?case
  proof (cases "send_game cf e w")
    case (Inl r)
    then show ?thesis using s by (subst send_games.simps) (simp add: step_worker_def split: prod.splits)
  next
    case (Inr w')
    then show ?thesis using s goes_trans "1.IH" [OF Inr] by (subst send_games.simps) (auto simp: step_worker_def)
  qed
qed

lemma goes_send_ask: "goes w (step_worker (send_ask cf e w))"
proof (cases "sp_asks (wk_scores w) = []")
  case False
  have reg: "goes w (on_scores (register_ask now) (next_tick w))" "goes w (on_scores (answer_ask now x) (next_tick w))" for now x
    by (rule goes_asks [OF goes_next [OF goes_refl]]; use False in \<open>auto intro: sr_register sr_answer\<close>)+
  have "goes w w2" if "Exchange cf e ty pl sp (on_scores (register_ask now) (next_tick w)) = (r, w2)" for ty pl sp now r w2
    using goes_trans [OF reg(1) goes_Exchange [OF that]] .
  then show ?thesis using False reg
    by (auto simp: send_ask_def step_worker_def Let_def intro!: goes_intros sr_refuse split: if_splits prod.splits option.splits ask_step.splits)
qed (simp add: send_ask_def step_worker_def goes_refl)

lemma goes_send_asks: "goes w (snd (send_asks cf e w))"
proof (induction cf e w rule: send_asks.induct)
  case (1 cf e w)
  note s = goes_send_ask [of w cf e]
  show ?case
  proof (cases "send_ask cf e w")
    case (Inl r)
    then show ?thesis using s by (subst send_asks.simps) (simp add: step_worker_def split: prod.splits)
  next
    case (Inr w')
    then show ?thesis using s goes_trans "1.IH" [OF Inr] by (subst send_asks.simps) (auto simp: step_worker_def)
  qed
qed

lemma goes_SendGames: "goes w w' \<Longrightarrow> goes w (snd (SendGames cf e w'))"
  unfolding SendGames_def Let_def by (rule goes_trans [OF _ goes_send_games]) (simp add: take_games_def goes_intros)

lemma goes_SendTopScoresRequests: "goes w w' \<Longrightarrow> goes w (snd (SendTopScoresRequests cf e w'))"
  using goes_trans [OF goes_scores [OF goes_next [of w w']] goes_send_asks, of "take_asks (en_requests e (wk_tick w'))" cf e]
  by (simp add: SendTopScoresRequests_def sr_take)

lemma goes_declare_accepted: "goes w w' \<Longrightarrow> goes w (declare_accepted cf e now w')"
  by (simp add: declare_accepted_def Let_def goes_intros sr_lose)

lemma goes_send_declare: "goes w w' \<Longrightarrow> goes w (snd (send_declare cf e w'))"
proof -
  assume w': "goes w w'"
  let ?now = "wk_current w'"
  let ?w1 = "if cf_readBack cf \<and> \<not> Identifies (ds_declare ?now) w' then w'\<lparr>wk_leaderboards := False\<rparr> else w'"
  let ?w2 = "if cf_memory cf then call_target MemoryClear ?w1 else ?w1"
  obtain pl sp where enc: "Encode_Declare (declare_sent ?now ?w1) (wk_peerMinor ?w1) = (pl, sp)" by (metis surj_pair)
  obtain r w3 where x: "Exchange cf e TYPE_DECLARE pl sp ?w2 = (r, w3)" by (metis surj_pair)
  have "goes w ?w2" using w' by (simp add: goes_intros)
  then have w3: "goes w w3" using goes_trans goes_Exchange [OF x] by blast
  have "send_declare cf e w' = (case r of None \<Rightarrow> (False, w3)
      | Some m \<Rightarrow> if IsError (m_header m) then (False, w3) else (True, declare_accepted cf e ?now w3))"
    unfolding send_declare_def Let_def enc prod.case x ..
  then show ?thesis using w3 goes_declare_accepted [OF w3, of cf e ?now] by (simp split: option.split)
qed

lemma MaybeDeclare_ticks: "goes (next_tick w) (snd (MaybeDeclare cf e w))"
proof -
  have t: "goes (next_tick w) (TakeDeclare e w)" by (simp add: TakeDeclare_def goes_intros split: option.split)
  obtain ok w1 where s: "(if wk_haveDeclared (TakeDeclare e w) \<and> ds_epoch (wk_current (TakeDeclare e w)) \<noteq> ds_epoch (wk_declared (TakeDeclare e w))
      then SendGames cf e (TakeDeclare e w) else (True, TakeDeclare e w)) = (ok, w1)" by (metis surj_pair)
  then have "goes (next_tick w) w1" using t goes_SendGames [OF t, of cf e] by (auto split: if_splits)
  then show ?thesis by (simp add: MaybeDeclare_def Let_def s goes_send_declare)
qed

section \<open>Serving and reconnecting\<close>

definition serve_outgoing :: "SocketWorkerConfig \<Rightarrow> 'a worker_env_scheme \<Rightarrow> worker \<Rightarrow> bool \<times> worker" where
  "serve_outgoing cf e w =
     (case MaybeDeclare cf e w of
        (False, w) \<Rightarrow> (False, w)
      | (True, w) \<Rightarrow> (case SendGames cf e w of
            (False, w) \<Rightarrow> (False, w)
          | (True, w) \<Rightarrow> SendTopScoresRequests cf e w))"

text \<open>One round of \<open>Serve\<close>, which returns whether the session is still alive.\<close>

definition serve_step :: "SocketWorkerConfig \<Rightarrow> 'a worker_env_scheme \<Rightarrow> worker \<Rightarrow> loop_step" where
  "serve_step cf e w =
     (if \<not> running e w then Inl (True, w)
      else case serve_outgoing cf e
          (if cf_readBack cf then w\<lparr>wk_leaderboards := TableIdentified w \<and> ReadBackAllowed cf CAP_LEADERBOARDS w\<rparr> else w) of
        (False, w) \<Rightarrow> Inl (\<not> running e w, w)
      | (True, w) \<Rightarrow>
          let rc = en_wait e (wk_tick w); w = next_tick w in
          if rc < 0 then Inl (False, w)
          else if rc = 0
          then let idle = (en_now e (wk_tick w) - wk_lastActivity w > IDLE_PING_AFTER); w = next_tick w in
               if \<not> idle then Inr w
               else case SendIdlePing cf e w of (ok, w) \<Rightarrow> if ok then Inr w else Inl (\<not> running e w, w)
          else case on_io (ReadMessage e) w of
                 (None, w) \<Rightarrow> Inl (\<not> running e w, w)
               | (Some msg, w) \<Rightarrow>
                   let w = w\<lparr>wk_lastActivity := en_now e (wk_tick w)\<rparr> in
                   if IsResponse (m_header msg) then Inr w
                   else case Dispatch cf e msg w of (ok, w) \<Rightarrow> if ok then Inr w else Inl (False, w))"

lemma serve_outgoing_ticks: "goes (next_tick w) (snd (serve_outgoing cf e w))"
proof -
  obtain a w1 where d: "MaybeDeclare cf e w = (a, w1)" by (metis surj_pair)
  have w1: "goes (next_tick w) w1" using MaybeDeclare_ticks [of w cf e] by (simp add: d)
  obtain b w2 where g: "SendGames cf e w1 = (b, w2)" by (metis surj_pair)
  have w2: "goes (next_tick w) w2" using goes_SendGames [OF w1, of cf e] by (simp add: g)
  show ?thesis using w1 w2 goes_SendTopScoresRequests [OF w2, of cf e] by (simp add: serve_outgoing_def d g split: bool.split)
qed

lemma goes_SendIdlePing: "SendIdlePing cf e w = (ok, w') \<Longrightarrow> goes w w'"
  by (auto simp: SendIdlePing_def split: prod.splits dest: goes_Exchange)

lemma serve_step_ticks:
  assumes "running e w"
  shows "goes (next_tick w) (step_worker (serve_step cf e w))"
proof -
  let ?w = "if cf_readBack cf then w\<lparr>wk_leaderboards := TableIdentified w \<and> ReadBackAllowed cf CAP_LEADERBOARDS w\<rparr> else w"
  obtain ok w1 where o1: "serve_outgoing cf e ?w = (ok, w1)" by (metis surj_pair)
  have "goes (next_tick w) (next_tick ?w)" by (simp add: goes_def)
  then have w1: "goes (next_tick w) w1" using goes_trans serve_outgoing_ticks [of ?w cf e] o1 by (metis snd_conv)
  have then_goes: "goes (next_tick w) w3" if "goes w2 w3" "goes w1 w2" for w2 w3 using goes_trans [OF goes_trans [OF w1 that(2)] that(1)] .
  have read: "goes (next_tick w) w3" if "on_io (ReadMessage e) (next_tick w1) = (r, w3)" for r w3
    using then_goes [OF goes_on_io [OF ReadMessage_tick that]] by (simp add: goes_intros)
  have disp: "goes (next_tick w) w4" if "on_io (ReadMessage e) (next_tick w1) = (r, w3)"
    "Dispatch cf e msg (w3\<lparr>wk_lastActivity := t\<rparr>) = (b, w4)" for r w3 w4 b t msg
    using goes_trans [OF goes_update(11) [OF read [OF that(1)]] goes_serves [OF Dispatch_serves]] that(2) by (metis snd_conv)
  have ping: "goes (next_tick w) w3" if "SendIdlePing cf e (next_tick (next_tick w1)) = (r, w3)" for r w3
    using then_goes [OF goes_SendIdlePing [OF that]] by (simp add: goes_intros)
  show ?thesis using assms w1
    by (auto simp: serve_step_def o1 step_worker_def Let_def split: bool.split prod.split option.split
        intro: read disp ping intro!: goes_intros)
qed

lemma serve_step_shrinks: "serve_step cf e w = Inr w' \<Longrightarrow> en_stop e - wk_tick w' < en_stop e - wk_tick w"
  using serve_step_ticks [of e w cf] by (cases "running e w") (auto simp: step_worker_def goes_def running_def serve_step_def)

function serve_loop :: "SocketWorkerConfig \<Rightarrow> 'a worker_env_scheme \<Rightarrow> worker \<Rightarrow> bool \<times> worker" where
  "serve_loop cf e w = (case serve_step cf e w of Inl r \<Rightarrow> r | Inr w \<Rightarrow> serve_loop cf e w)"
  by pat_completeness auto
termination
  by (relation "measure (\<lambda>(cf, e, w). en_stop e - wk_tick w)") (auto intro: serve_step_shrinks)

declare serve_loop.simps [simp del]

definition Serve :: "SocketWorkerConfig \<Rightarrow> 'a worker_env_scheme \<Rightarrow> worker \<Rightarrow> worker" where
  "Serve cf e w =
     (let w = (next_tick w)\<lparr>wk_lastActivity := en_now e (wk_tick w)\<rparr>
      in case serve_loop cf e w of
           (False, w) \<Rightarrow> w
         | (True, w) \<Rightarrow>
             let w = w\<lparr>wk_seq := wk_seq w + 1\<rparr>
             in snd (on_io (SendWireMessage e TYPE_BYE 0 (wk_seq w) (Encode_Bye \<lparr>Bye.reason = ''plugin unloading''\<rparr>) []) w))"

lemma goes_serve_step: "goes w (step_worker (serve_step cf e w))"
proof (cases "running e w")
  case True
  then show ?thesis using goes_trans [OF goes_next [OF goes_refl] serve_step_ticks] by blast
qed (simp add: serve_step_def step_worker_def goes_refl)

lemma goes_serve_loop: "goes w (snd (serve_loop cf e w))"
proof (induction cf e w rule: serve_loop.induct)
  case (1 cf e w)
  note s = goes_serve_step [of w cf e]
  show ?case
  proof (cases "serve_step cf e w")
    case (Inl r)
    then show ?thesis using s by (subst serve_loop.simps) (simp add: step_worker_def split: prod.splits)
  next
    case (Inr w')
    then show ?thesis using s goes_trans "1.IH" [OF Inr] by (subst serve_loop.simps) (auto simp: step_worker_def)
  qed
qed

lemma goes_Serve: "goes w w' \<Longrightarrow> goes w (Serve cf e w')"
proof -
  assume w': "goes w w'"
  let ?w1 = "(next_tick w')\<lparr>wk_lastActivity := en_now e (wk_tick w')\<rparr>"
  obtain ok w2 where l: "serve_loop cf e ?w1 = (ok, w2)" by (metis surj_pair)
  have "goes w ?w1" using w' by (simp add: goes_intros)
  then have w2: "goes w w2" using goes_trans goes_serve_loop [of ?w1 cf e] l by (metis snd_conv)
  have "goes w (snd (on_io (SendWireMessage e ty fl sq pl sp) (w2\<lparr>wk_seq := n\<rparr>)))" for ty fl sq pl sp n
    by (rule goes_trans [OF goes_update(12) [OF w2]]) (rule goes_serves [OF serves_io], rule SendWireMessage_tick)
  then show ?thesis using w2 by (simp add: Serve_def l Let_def split: bool.split)
qed

lemma goes_Handshake: "goes w w' \<Longrightarrow> goes w (snd (Handshake cf e w'))"
proof -
  assume w': "goes w w'"
  then have t: "goes w (TakeDeclare e (next_tick w'))" by (simp add: goes_intros)
  have x: "goes w w3" if "Exchange cf e ty pl sp (TakeDeclare e (next_tick w')) = (r, w3)" for ty pl sp r w3
    using goes_trans [OF t(1) goes_Exchange [OF that]] .
  show ?thesis
    by (auto simp: Handshake_def Let_def no_session_def session_opened_def w' split: option.split prod.split dest: x intro!: goes_intros)
qed

lemma goes_Disconnect: "goes w w' \<Longrightarrow> goes w (Disconnect cf e w')"
  by (simp add: Disconnect_def Let_def no_session_def goes_intros)

lemma goes_Connect: "goes (next_tick w) (snd (Connect e w))"
  by (auto simp: Connect_def Let_def goes_def next_tick_def split: option.split)

text \<open>The main loop. \<open>Backoff\<close> only lets time pass.\<close>

definition worker_round :: "SocketWorkerConfig \<Rightarrow> 'a worker_env_scheme \<Rightarrow> worker \<Rightarrow> worker" where
  "worker_round cf e w =
     (case Connect e w of
        (False, w) \<Rightarrow> no_session cf e [] w
      | (True, w) \<Rightarrow> (case Handshake cf e w of (ok, w) \<Rightarrow> Disconnect cf e (if ok then Serve cf e w else w)))"

lemma worker_round_ticks: "goes (next_tick w) (worker_round cf e w)"
proof -
  obtain ok w1 where c: "Connect e w = (ok, w1)" by (metis surj_pair)
  have w1: "goes (next_tick w) w1" using goes_Connect [of w e] by (simp add: c)
  obtain b w2 where h: "Handshake cf e w1 = (b, w2)" by (metis surj_pair)
  have w2: "goes (next_tick w) w2" using goes_Handshake [OF w1, of cf e] by (simp add: h)
  show ?thesis using w1 w2 by (simp add: worker_round_def c h no_session_def goes_intros goes_Disconnect goes_Serve split: bool.split)
qed

function worker_loop :: "SocketWorkerConfig \<Rightarrow> 'a worker_env_scheme \<Rightarrow> worker \<Rightarrow> worker" where
  "worker_loop cf e w = (if running e w then worker_loop cf e (worker_round cf e w) else w)"
  by pat_completeness auto
termination
  using worker_round_ticks
  by (relation "measure (\<lambda>(cf, e, w). en_stop e - wk_tick w)") (auto simp: running_def goes_def Suc_le_eq intro: diff_less_mono2)

declare worker_loop.simps [simp del]

definition on_dump :: "(wire_dump \<Rightarrow> wire_dump) \<Rightarrow> worker \<Rightarrow> worker" where
  "on_dump f w = w\<lparr>wk_io := (wk_io w)\<lparr>io_dump := f (io_dump (wk_io w))\<rparr>\<rparr>"

definition Worker :: "SocketWorkerConfig \<Rightarrow> 'a worker_env_scheme \<Rightarrow> string option \<Rightarrow> (string \<Rightarrow> bool) \<Rightarrow> u64 \<Rightarrow> worker \<Rightarrow> worker" where
  "Worker cf e path openable now w =
     on_dump dump_Close (worker_loop cf e (on_dump (\<lambda>d. snd (dump_Open path openable now d)) w))"

section \<open>Properties\<close>

definition disconnected :: "SocketWorkerConfig \<Rightarrow> worker \<Rightarrow> bool" where
  "disconnected cf w \<longleftrightarrow> \<not> wk_connected w \<and> sp_asks (wk_scores w) = [] \<and> sp_pending (wk_scores w) = []"

lemma Disconnect_disconnects: "cf_readBack cf \<Longrightarrow> disconnected cf (Disconnect cf e w)"
  by (simp add: disconnected_def Disconnect_def EndReadBacks_def Let_def account_end next_tick_def no_session_def on_status_def call_target_def)

lemma worker_round_disconnects:
  assumes "cf_readBack cf" "disconnected cf w"
  shows "disconnected cf (worker_round cf e w)"
proof (cases "en_connect e (wk_tick w)")
  case None
  then show ?thesis using assms(2) by (simp add: worker_round_def Connect_def disconnected_def no_session_def on_status_def next_tick_def)
qed (simp add: worker_round_def Connect_def Let_def Disconnect_disconnects [OF assms(1)] split: prod.split)

lemma worker_loop_ends:
  "cf_readBack cf \<Longrightarrow> disconnected cf w \<Longrightarrow> scores_reach (wk_scores w) \<Longrightarrow>
   disconnected cf (worker_loop cf e w) \<and> scores_reach (wk_scores (worker_loop cf e w)) \<and> \<not> running e (worker_loop cf e w)"
proof (induction cf e w rule: worker_loop.induct)
  case (1 cf e w)
  then show ?case using worker_round_disconnects [of cf w e] worker_round_ticks [of w cf e]
    by (subst (1 2 3) worker_loop.simps) (auto simp: goes_def)
qed

text \<open>
  C1. The worker stops, and stops clean. Whatever the daemon sends, whenever the connection fails, and however the posts of
  the other threads fall between its calls, the worker started on a fresh state returns once it has been told to stop; then
  it has no session, its dump is closed, and every leaderboard request the script made has been answered exactly
  once.
\<close>

theorem worker_stops_clean:
  assumes "cf_readBack cf"
  shows "let w = Worker cf e path openable now (SocketWorker dir tag fs t) in wk_tick w \<ge> en_stop e \<and> \<not> wk_connected w \<and> m_file (io_dump (wk_io w)) = None \<and>
    (distinct (sp_taken (wk_scores w)) \<longrightarrow> mset (posted_ids (wk_scores w)) = mset (sp_taken (wk_scores w)))"
proof -
  define w where w: "w = Worker cf e path openable now (SocketWorker dir tag fs t)"
  let ?w0 = "on_dump (\<lambda>d. snd (dump_Open path openable now d)) (SocketWorker dir tag fs t)"
  have "disconnected cf ?w0" "scores_reach (wk_scores ?w0)"
    using sr_init by (simp_all add: disconnected_def on_dump_def SocketWorker_def scores_part0_def)
  from worker_loop_ends [OF assms(1) this, of e] have "disconnected cf w" "scores_reach (wk_scores w)" "\<not> running e w"
    by (simp_all add: w Worker_def on_dump_def disconnected_def running_def)
  moreover have "m_file (io_dump (wk_io w)) = None" by (simp add: w Worker_def on_dump_def dump_Close_def)
  ultimately show ?thesis using scores_reach_account [of "wk_scores w"] by (auto simp: Let_def w [symmetric] disconnected_def running_def account_def)
qed

definition asking_env :: worker_env where
  "asking_env = env_example\<lparr>en_stop := 1, en_connect := (\<lambda>_. Some []), en_token := (\<lambda>_. None), en_requests := (\<lambda>_. [ask_example 5])\<rparr>"

theorem worker_stops_clean_witness:
  "mset (posted_ids (wk_scores (Worker config_example asking_env None (\<lambda>_. True) 0 (SocketWorker [] 1 no_files 0)))) = {#5#}"
proof -
  let ?w = "Worker config_example asking_env None (\<lambda>_. True) 0 (SocketWorker [] 1 no_files 0)"
  have "sp_taken (wk_scores ?w) = [5]"
    by (simp add: Worker_def worker_loop.simps worker_round_def Connect_def Handshake_def ReadToken_def Disconnect_def EndReadBacks_def
        account_end on_dump_def asking_env_def config_example_def SocketWorker_def scores_part0_def ask_example_def Let_def running_def
        next_tick_def no_session_def on_status_def)
  with worker_stops_clean [of config_example asking_env None "\<lambda>_. True" 0 "[]" 1 no_files 0] show ?thesis
    by (simp add: config_example_def Let_def)
qed

end
