(* ===== verification/Dmd_Tap.thy ===== *)
theory Dmd_Tap
  imports Seq_Lock Memory_Bridge
begin

text \<open>
  \<^verbatim>\<open>src/DmdTap.h\<close> and \<^verbatim>\<open>src/DmdTap.cpp\<close>: the tap on the display the emulating controller publishes. The API thread
  selects a source, a worker polls it sixty times a second and publishes every new frame through the sequence lock of
  \<open>Seq_Lock\<close>. A display source is the host's: here it is the fields the tap looks at. What a poll reads from it is given: the
  frame it names, the pixels as they are copied, and the frame it names afterwards. A poll holds the source's mutex
  throughout, so it is one step.
\<close>

section \<open>Model\<close>

record TapFrame =
  tf_frameId :: u32
  tf_width :: u32
  tf_height :: u32
  tf_shades :: u32
  tf_generation :: u64
  tf_pixels :: bytes

definition TapFrame0 :: TapFrame where
  "TapFrame0 = \<lparr>tf_frameId = 0, tf_width = 0, tf_height = 0, tf_shades = 0, tf_generation = 0, tf_pixels = []\<rparr>"

datatype id_format = BITPLANE2 | BITPLANE4 | OtherFormat

record DisplaySrc =
  ds_id :: u64
  ds_endpointId :: u32
  ds_width :: u32
  ds_height :: u32
  ds_identifyFormat :: id_format
  ds_hasIdentify :: bool

definition NoSource :: DisplaySrc where
  "NoSource = \<lparr>ds_id = 0, ds_endpointId = 0, ds_width = 0, ds_height = 0, ds_identifyFormat = OtherFormat, ds_hasIdentify = False\<rparr>"

text \<open>The tap, and the local variables of its worker.\<close>

record dmd_tap =
  dt_controller :: u32
  dt_source :: DisplaySrc
  dt_hasSource :: bool
  dt_sourceGeneration :: u64
  dt_skipped :: u64
  dt_back :: TapFrame
  dt_lastGeneration :: u64
  dt_lastFrameId :: u32
  dt_haveLast :: bool
  dt_dump :: "string option"
  dt_dumped :: u64

definition DmdTap :: dmd_tap where
  "DmdTap = \<lparr>dt_controller = 0, dt_source = NoSource, dt_hasSource = False, dt_sourceGeneration = 0, dt_skipped = 0,
     dt_back = TapFrame0, dt_lastGeneration = 0, dt_lastFrameId = 0, dt_haveLast = False, dt_dump = None, dt_dumped = 0\<rparr>"

definition conforms :: "u32 \<Rightarrow> DisplaySrc \<Rightarrow> bool" where
  "conforms controller item \<longleftrightarrow> \<not> (controller = 0 \<or> ds_endpointId item \<noteq> controller \<or> \<not> ds_hasIdentify item) \<and>
     \<not> (ds_identifyFormat item \<noteq> BITPLANE2 \<and> ds_identifyFormat item \<noteq> BITPLANE4)"

definition select_source :: "u32 \<Rightarrow> DisplaySrc \<Rightarrow> DisplaySrc \<Rightarrow> DisplaySrc" where
  "select_source controller item selected =
     (if \<not> conforms controller item then selected
      else if ds_id selected = 0 \<or> ds_width item * ds_height item > ds_width selected * ds_height selected then item
      else selected)"

definition FilterSources :: "u32 \<Rightarrow> DisplaySrc list \<Rightarrow> DisplaySrc list" where
  "FilterSources controller items =
     (let selected = fold (select_source controller) items NoSource
      in if ds_id selected \<noteq> 0 then [selected] else [])"

text \<open>\<open>items\<close> is what the filter left of the host's list.\<close>

definition OnSourcesChanged :: "DisplaySrc list \<Rightarrow> dmd_tap \<Rightarrow> dmd_tap" where
  "OnSourcesChanged items t =
     (let selected = (case items of [] \<Rightarrow> NoSource | s # _ \<Rightarrow> s) in
      if ds_id selected = 0
      then t\<lparr>dt_source := NoSource, dt_hasSource := False, dt_sourceGeneration := dt_sourceGeneration t + 1\<rparr>
      else if dt_hasSource t \<and> dt_source t = selected then t
      else t\<lparr>dt_source := selected, dt_hasSource := True, dt_sourceGeneration := dt_sourceGeneration t + 1\<rparr>)"

definition SetController :: "u32 \<Rightarrow> DisplaySrc list \<Rightarrow> dmd_tap \<Rightarrow> dmd_tap" where
  "SetController controller items t = OnSourcesChanged (FilterSources controller items) (t\<lparr>dt_controller := controller\<rparr>)"

definition sources_changed :: "DisplaySrc list \<Rightarrow> dmd_tap \<Rightarrow> dmd_tap" where
  "sources_changed items t = OnSourcesChanged (FilterSources (dt_controller t) items) t"

record identify_read =
  ir_frameId :: u32
  ir_null :: bool
  ir_memory :: "nat \<Rightarrow> u8"
  ir_checkId :: u32

text \<open>One round of \<open>Worker\<close>: the frame it publishes, if any.\<close>

definition tap_poll :: "identify_read \<Rightarrow> dmd_tap \<Rightarrow> TapFrame option \<times> dmd_tap" where
  "tap_poll r t =
     (if \<not> dt_hasSource t then (None, t\<lparr>dt_haveLast := False\<rparr>)
      else let src = dt_source t;
               t = (if dt_sourceGeneration t \<noteq> dt_lastGeneration t
                    then t\<lparr>dt_lastGeneration := dt_sourceGeneration t, dt_haveLast := False\<rparr> else t)
           in if ir_null r \<or> dt_haveLast t \<and> ir_frameId r = dt_lastFrameId t then (None, t)
              else let n = unat (ds_width src) * unat (ds_height src);
                       t = t\<lparr>dt_back := (dt_back t)\<lparr>tf_pixels := map (ir_memory r) [0..<n]\<rparr>\<rparr>
                   in if ir_checkId r \<noteq> ir_frameId r then (None, t)
                      else let gap = ir_frameId r - dt_lastFrameId t;
                               t = (if dt_haveLast t \<and> gap > 1 then t\<lparr>dt_skipped := dt_skipped t + ucast (gap - 1)\<rparr> else t);
                               frame = (dt_back t)\<lparr>tf_frameId := ir_frameId r, tf_width := ds_width src, tf_height := ds_height src,
                                 tf_shades := if ds_identifyFormat src = BITPLANE4 then 16 else 4,
                                 tf_generation := dt_sourceGeneration t\<rparr>
                           in (Some frame, t\<lparr>dt_lastFrameId := ir_frameId r, dt_haveLast := True, dt_back := frame\<rparr>))"

text \<open>The dump: one text line per row, an empty line after each frame.\<close>

definition frame_text :: "TapFrame \<Rightarrow> string" where
  "frame_text f =
     concat (map (\<lambda>y. map (\<lambda>x. ''0123456789abcdef'' ! unat (tf_pixels f ! (y * unat (tf_width f) + x) AND 15)) [0..<unat (tf_width f)] @ [CHR 10])
       [0..<unat (tf_height f)]) @ [CHR 10]"

definition Dump :: "TapFrame \<Rightarrow> dmd_tap \<Rightarrow> dmd_tap" where
  "Dump f t = (case dt_dump t of None \<Rightarrow> t
     | Some text \<Rightarrow> t\<lparr>dt_dump := Some (text @ frame_text f), dt_dumped := dt_dumped t + 1\<rparr>)"

text \<open>The dump file of a path, and whether it opened.\<close>

definition SetDumpFile :: "string \<Rightarrow> bool \<Rightarrow> dmd_tap \<Rightarrow> dmd_tap" where
  "SetDumpFile path opened t =
     (let t = t\<lparr>dt_dump := None, dt_dumped := 0\<rparr>
      in if path = [] then t else if \<not> opened then t else t\<lparr>dt_dump := Some []\<rparr>)"

text \<open>The published record, a header in the host's layout and the pixels, and reading it back.\<close>

definition TAP_MAX_PIXELS :: nat where "TAP_MAX_PIXELS = 256 * 128"
definition TAP_HEADER_BYTES :: nat where "TAP_HEADER_BYTES = 24"

abbreviation TAP_RECORD_BYTES :: nat where
  "TAP_RECORD_BYTES \<equiv> TAP_HEADER_BYTES + TAP_MAX_PIXELS"

definition tap_Publish :: "TapFrame \<Rightarrow> bytes" where
  "tap_Publish f = le32 (tf_frameId f) @ le32 (tf_width f) @ le32 (tf_height f) @ le32 (tf_shades f) @ le64 (tf_generation f) @ tf_pixels f"

definition GetLatest :: "bytes option \<Rightarrow> TapFrame \<Rightarrow> bool \<times> TapFrame" where
  "GetLatest copied out =
     (case copied of
        None \<Rightarrow> (False, out)
      | Some m \<Rightarrow>
          if length m < TAP_HEADER_BYTES then (False, out)
          else (True, \<lparr>tf_frameId = load32 m 0, tf_width = load32 m 4, tf_height = load32 m 8, tf_shades = load32 m 12,
                       tf_generation = load64 m 16, tf_pixels = drop TAP_HEADER_BYTES m\<rparr>))"

section \<open>Publishing\<close>

lemma GetLatest_Publish: "GetLatest (Some (tap_Publish f)) out = (True, f)"
proof -
  have "load32 (tap_Publish f) 0 = tf_frameId f" by (rule load32_at [of _ "[]"]) (simp_all add: tap_Publish_def)
  moreover have "load32 (tap_Publish f) 4 = tf_width f"
    by (rule load32_at [of _ "le32 (tf_frameId f)"]) (simp_all add: tap_Publish_def)
  moreover have "load32 (tap_Publish f) 8 = tf_height f"
    by (rule load32_at [of _ "le32 (tf_frameId f) @ le32 (tf_width f)"]) (simp_all add: tap_Publish_def)
  moreover have "load32 (tap_Publish f) 12 = tf_shades f"
    by (rule load32_at [of _ "le32 (tf_frameId f) @ le32 (tf_width f) @ le32 (tf_height f)"]) (simp_all add: tap_Publish_def)
  moreover have "load64 (tap_Publish f) 16 = tf_generation f"
    by (rule load64_at [of _ "le32 (tf_frameId f) @ le32 (tf_width f) @ le32 (tf_height f) @ le32 (tf_shades f)"]) (simp_all add: tap_Publish_def)
  moreover have "drop TAP_HEADER_BYTES (tap_Publish f) = tf_pixels f" "length (tap_Publish f) = TAP_HEADER_BYTES + length (tf_pixels f)"
    by (simp_all add: tap_Publish_def TAP_HEADER_BYTES_def)
  ultimately show ?thesis by (simp add: GetLatest_def)
qed

section \<open>What is captured\<close>

text \<open>
  The tap over any sequence of source changes and polls. Beside it, the sources selected so far by generation and the frames
  published, oldest first.
\<close>

inductive tap_reach :: "dmd_tap \<Rightarrow> DisplaySrc list \<Rightarrow> TapFrame list \<Rightarrow> bool" where
  tap_init: "tap_reach DmdTap [NoSource] []"
| tap_change: "tap_reach t srcs fs \<Longrightarrow> t' = sources_changed items (t\<lparr>dt_controller := c\<rparr>) \<Longrightarrow>
    tap_reach t' (if dt_sourceGeneration t' = dt_sourceGeneration t then srcs else srcs @ [dt_source t']) fs"
| tap_polled: "tap_reach t srcs fs \<Longrightarrow> tap_poll r t = (None, t') \<Longrightarrow> tap_reach t' srcs fs"
| tap_captured: "tap_reach t srcs fs \<Longrightarrow> tap_poll r t = (Some f, t') \<Longrightarrow> tap_reach t' srcs (fs @ [f])"
| tap_dumped: "tap_reach t srcs fs \<Longrightarrow> tap_reach (Dump f t) srcs fs"

text \<open>A frame as its source describes it.\<close>

definition frame_of_source :: "DisplaySrc \<Rightarrow> TapFrame \<Rightarrow> bool" where
  "frame_of_source src f \<longleftrightarrow> tf_width f = ds_width src \<and> tf_height f = ds_height src \<and>
     ds_identifyFormat src \<in> {BITPLANE2, BITPLANE4} \<and> tf_shades f = (if ds_identifyFormat src = BITPLANE4 then 16 else 4) \<and>
     length (tf_pixels f) = unat (ds_width src) * unat (ds_height src)"

text \<open>The frame ids passed over between two captures.\<close>

fun frames_skipped :: "TapFrame list \<Rightarrow> u64" where
  "frames_skipped (f # g # fs) =
     (if tf_generation f = tf_generation g then ucast (tf_frameId g - tf_frameId f - 1) else 0) + frames_skipped (g # fs)"
| "frames_skipped _ = 0"

fun ids_move :: "TapFrame list \<Rightarrow> bool" where
  "ids_move (f # g # fs) \<longleftrightarrow> (tf_generation f = tf_generation g \<longrightarrow> tf_frameId f \<noteq> tf_frameId g) \<and> ids_move (g # fs)"
| "ids_move _ \<longleftrightarrow> True"

lemma frames_skipped_snoc: "fs \<noteq> [] \<Longrightarrow> frames_skipped (fs @ [g]) =
    frames_skipped fs + (if tf_generation (last fs) = tf_generation g then ucast (tf_frameId g - tf_frameId (last fs) - 1) else 0)"
  by (induction fs rule: frames_skipped.induct) (auto simp: ac_simps)

lemma ids_move_snoc: "fs \<noteq> [] \<Longrightarrow> ids_move (fs @ [g]) \<longleftrightarrow>
    ids_move fs \<and> (tf_generation (last fs) = tf_generation g \<longrightarrow> tf_frameId (last fs) \<noteq> tf_frameId g)"
  by (induction fs rule: ids_move.induct) auto

definition tap_inv :: "dmd_tap \<Rightarrow> DisplaySrc list \<Rightarrow> TapFrame list \<Rightarrow> bool" where
  "tap_inv t srcs fs \<longleftrightarrow> srcs \<noteq> [] \<and> unat (dt_sourceGeneration t) + 1 = length srcs \<and> last srcs = dt_source t \<and>
     (dt_hasSource t \<longrightarrow> ds_identifyFormat (dt_source t) \<in> {BITPLANE2, BITPLANE4}) \<and>
     (\<forall>f \<in> set fs. tf_generation f \<le> dt_sourceGeneration t \<and> frame_of_source (srcs ! unat (tf_generation f)) f) \<and>
     (dt_haveLast t \<longrightarrow> fs \<noteq> [] \<and> dt_lastFrameId t = tf_frameId (last fs) \<and> dt_lastGeneration t = tf_generation (last fs)) \<and>
     (fs \<noteq> [] \<and> tf_generation (last fs) = dt_sourceGeneration t \<longrightarrow> dt_haveLast t \<and> dt_hasSource t) \<and>
     dt_skipped t = frames_skipped fs \<and> ids_move fs"

lemma select_source_id: "ds_id (fold (select_source c) items s) \<noteq> 0 \<Longrightarrow> ds_id s = 0 \<or> ds_identifyFormat s \<in> {BITPLANE2, BITPLANE4} \<Longrightarrow>
    ds_identifyFormat (fold (select_source c) items s) \<in> {BITPLANE2, BITPLANE4}"
proof (induction items arbitrary: s)
  case (Cons item items)
  from Cons.IH [of "select_source c item s"] Cons.prems show ?case by (auto simp: select_source_def conforms_def split: if_splits)
qed auto

lemma FilterSources_format: "FilterSources c items = s # rest \<Longrightarrow> ds_id s \<noteq> 0 \<and> ds_identifyFormat s \<in> {BITPLANE2, BITPLANE4}"
  using select_source_id [of c items NoSource] by (auto simp: FilterSources_def Let_def NoSource_def split: if_splits)

lemma tap_inv_same: "dt_sourceGeneration t' = dt_sourceGeneration t \<Longrightarrow> dt_source t' = dt_source t \<Longrightarrow>
    dt_hasSource t' = dt_hasSource t \<Longrightarrow> dt_skipped t' = dt_skipped t \<Longrightarrow> dt_haveLast t' = dt_haveLast t \<Longrightarrow>
    dt_lastFrameId t' = dt_lastFrameId t \<Longrightarrow> dt_lastGeneration t' = dt_lastGeneration t \<Longrightarrow> tap_inv t' = tap_inv t"
  by (simp add: tap_inv_def fun_eq_iff)

lemma tap_inv_new_source:
  assumes inv: "tap_inv t srcs fs" and small: "length srcs < 2 ^ 64"
    and t': "dt_sourceGeneration t' = dt_sourceGeneration t + 1" "dt_hasSource t' \<longrightarrow> ds_identifyFormat (dt_source t') \<in> {BITPLANE2, BITPLANE4}"
      "dt_skipped t' = dt_skipped t" "dt_haveLast t' = dt_haveLast t" "dt_lastFrameId t' = dt_lastFrameId t" "dt_lastGeneration t' = dt_lastGeneration t"
  shows "tap_inv t' (srcs @ [dt_source t']) fs"
proof -
  let ?g = "dt_sourceGeneration t"
  have len: "unat ?g + 1 = length srcs" using inv by (simp add: tap_inv_def)
  with small have next_gen: "unat (?g + 1) = unat ?g + 1" using unat_plus_small [of ?g 1] by simp
  have old: "tf_generation f \<le> ?g + 1" "tf_generation f \<noteq> ?g + 1" "unat (tf_generation f) < length srcs" if "f \<in> set fs" for f
  proof -
    have "unat (tf_generation f) \<le> unat ?g" using inv that by (simp add: tap_inv_def word_le_nat_alt)
    then show "tf_generation f \<le> ?g + 1" "tf_generation f \<noteq> ?g + 1" "unat (tf_generation f) < length srcs"
      using len next_gen by (auto simp: word_le_nat_alt)
  qed
  then have "fs \<noteq> [] \<Longrightarrow> tf_generation (last fs) \<noteq> ?g + 1" by simp
  with inv t' len next_gen old show ?thesis by (auto simp: tap_inv_def nth_append)
qed

lemma sources_changed_inv:
  assumes "tap_inv t srcs fs" "length srcs < 2 ^ 64"
  shows "dt_sourceGeneration (sources_changed items (t\<lparr>dt_controller := c\<rparr>)) = dt_sourceGeneration t \<longrightarrow>
      tap_inv (sources_changed items (t\<lparr>dt_controller := c\<rparr>)) srcs fs"
    "dt_sourceGeneration (sources_changed items (t\<lparr>dt_controller := c\<rparr>)) \<noteq> dt_sourceGeneration t \<longrightarrow>
      tap_inv (sources_changed items (t\<lparr>dt_controller := c\<rparr>)) (srcs @ [dt_source (sources_changed items (t\<lparr>dt_controller := c\<rparr>))]) fs"
proof -
  let ?t = "sources_changed items (t\<lparr>dt_controller := c\<rparr>)"
  let ?sel = "case FilterSources c items of [] \<Rightarrow> NoSource | s # _ \<Rightarrow> s"
  have fmt: "ds_id ?sel \<noteq> 0 \<Longrightarrow> ds_identifyFormat ?sel \<in> {BITPLANE2, BITPLANE4}"
    using FilterSources_format [of c items] by (auto simp: NoSource_def split: list.splits)
  have same: "?t = t\<lparr>dt_controller := c\<rparr>" if "ds_id ?sel \<noteq> 0 \<and> dt_hasSource t \<and> dt_source t = ?sel"
    using that by (simp add: sources_changed_def OnSourcesChanged_def Let_def)
  have new: "dt_sourceGeneration ?t = dt_sourceGeneration t + 1 \<and> tap_inv ?t (srcs @ [dt_source ?t]) fs"
    if "\<not> (ds_id ?sel \<noteq> 0 \<and> dt_hasSource t \<and> dt_source t = ?sel)"
    using that fmt by (intro conjI tap_inv_new_source [OF assms]) (auto simp: sources_changed_def OnSourcesChanged_def Let_def)
  show "dt_sourceGeneration ?t = dt_sourceGeneration t \<longrightarrow> tap_inv ?t srcs fs"
    "dt_sourceGeneration ?t \<noteq> dt_sourceGeneration t \<longrightarrow> tap_inv ?t (srcs @ [dt_source ?t]) fs"
    using same new tap_inv_same [of "t\<lparr>dt_controller := c\<rparr>" t] assms(1)
    by (cases "ds_id ?sel \<noteq> 0 \<and> dt_hasSource t \<and> dt_source t = ?sel"; simp)+
qed

lemma tap_poll_inv:
  assumes inv: "tap_inv t srcs fs" and p: "tap_poll r t = (out, t')"
  shows "tap_inv t' srcs (case out of None \<Rightarrow> fs | Some f \<Rightarrow> fs @ [f])"
proof (cases "dt_hasSource t")
  case False
  then have "t' = t\<lparr>dt_haveLast := False\<rparr>" "out = None" using p by (simp_all add: tap_poll_def)
  then show ?thesis using inv False by (simp add: tap_inv_def)
next
  case src: True
  let ?s = "dt_source t" and ?g = "dt_sourceGeneration t"
  define t1 where "t1 = (if ?g \<noteq> dt_lastGeneration t then t\<lparr>dt_lastGeneration := ?g, dt_haveLast := False\<rparr> else t)"
  have t1: "dt_source t1 = ?s" "dt_sourceGeneration t1 = ?g" "dt_hasSource t1" "dt_lastFrameId t1 = dt_lastFrameId t" "dt_skipped t1 = dt_skipped t"
    using src by (simp_all add: t1_def)
  have l: "dt_haveLast t \<Longrightarrow> fs \<noteq> [] \<and> dt_lastGeneration t = tf_generation (last fs)"
    "fs \<noteq> [] \<Longrightarrow> tf_generation (last fs) = ?g \<Longrightarrow> dt_haveLast t"
    using inv unfolding tap_inv_def by blast+
  have last1: "dt_lastGeneration t1 = ?g" "dt_haveLast t1 \<longleftrightarrow> fs \<noteq> [] \<and> tf_generation (last fs) = ?g"
    by (simp add: t1_def) (cases "?g = dt_lastGeneration t"; simp add: t1_def; metis l)
  have inv1: "tap_inv t1 srcs fs"
  proof (cases "?g = dt_lastGeneration t")
    case True
    then show ?thesis using inv by (simp add: t1_def)
  next
    case False
    then have "\<not> (fs \<noteq> [] \<and> tf_generation (last fs) = ?g)" using l by metis
    then show ?thesis using inv False by (simp add: t1_def tap_inv_def)
  qed
  let ?px = "map (ir_memory r) [0..<unat (ds_width ?s) * unat (ds_height ?s)]"
  let ?t2 = "t1\<lparr>dt_back := (dt_back t1)\<lparr>tf_pixels := ?px\<rparr>\<rparr>"
  have inv2: "tap_inv ?t2 srcs fs" using inv1 tap_inv_same [of ?t2 t1] by simp
  define t3 where "t3 = (if dt_haveLast t1 \<and> ir_frameId r - dt_lastFrameId t1 > 1
    then ?t2\<lparr>dt_skipped := dt_skipped t1 + ucast (ir_frameId r - dt_lastFrameId t1 - 1)\<rparr> else ?t2)"
  define f where "f = (dt_back t3)\<lparr>tf_frameId := ir_frameId r, tf_width := ds_width ?s, tf_height := ds_height ?s,
    tf_shades := if ds_identifyFormat ?s = BITPLANE4 then 16 else 4, tf_generation := dt_sourceGeneration t3\<rparr>"
  define dup where "dup \<longleftrightarrow> ir_null r \<or> dt_haveLast t1 \<and> ir_frameId r = dt_lastFrameId t1"
  have p1: "(out, t') = (if dup then (None, t1)
      else if ir_checkId r \<noteq> ir_frameId r then (None, ?t2)
      else (Some f, t3\<lparr>dt_lastFrameId := ir_frameId r, dt_haveLast := True, dt_back := f\<rparr>))"
    unfolding p [symmetric] tap_poll_def Let_def t1_def [symmetric] f_def t3_def dup_def using src by simp
  show ?thesis
  proof (cases "dup \<or> ir_checkId r \<noteq> ir_frameId r")
    case True
    then have "(out, t') = (None, t1) \<or> (out, t') = (None, ?t2)"
      using p1 by (cases dup) simp_all
    then show ?thesis using inv1 inv2 by auto
  next
    case False
    let ?gap = "ir_frameId r - dt_lastFrameId t"
    let ?f = "\<lparr>tf_frameId = ir_frameId r, tf_width = ds_width ?s, tf_height = ds_height ?s,
      tf_shades = if ds_identifyFormat ?s = BITPLANE4 then 16 else 4, tf_generation = ?g, tf_pixels = ?px\<rparr>"
    have r': "out = Some f" "t' = t3\<lparr>dt_lastFrameId := ir_frameId r, dt_haveLast := True, dt_back := f\<rparr>"
      using p1 False by simp_all
    have e: "out = Some ?f" "dt_source t' = ?s" "dt_sourceGeneration t' = ?g" "dt_hasSource t'" "dt_lastFrameId t' = ir_frameId r" "dt_haveLast t'"
      "dt_lastGeneration t' = ?g" "dt_skipped t' = dt_skipped t + (if dt_haveLast t1 \<and> ?gap > 1 then ucast (?gap - 1) else 0)"
      using r' last1(1) t1 by (simp_all add: f_def t3_def)
    have ids: "tf_frameId (last fs) \<noteq> ir_frameId r" "dt_lastFrameId t = tf_frameId (last fs)" if "dt_haveLast t1"
      using False that inv1 t1(4) unfolding dup_def by (auto simp: tap_inv_def)
    have "\<not> ?gap > 1 \<Longrightarrow> ?gap = 1" if "dt_haveLast t1"
      using ids [OF that] by (metis eq_iff_diff_eq_0 linorder_neqE word_less_1)
    then have skip: "frames_skipped (fs @ [?f]) = dt_skipped t'"
      using inv1 last1(2) ids t1(5) by (cases "fs = []") (auto simp: e frames_skipped_snoc tap_inv_def)
    moreover have "ids_move (fs @ [?f])" using inv1 last1(2) ids by (cases "fs = []") (auto simp: ids_move_snoc tap_inv_def)
    moreover have "frame_of_source (srcs ! unat ?g) ?f"
    proof -
      have "srcs \<noteq> []" "unat ?g + 1 = length srcs" "last srcs = ?s" using inv unfolding tap_inv_def by blast+
      then have "srcs ! unat ?g = ?s" by (metis diff_add_inverse2 last_conv_nth)
      then show ?thesis using inv src by (simp add: frame_of_source_def tap_inv_def)
    qed
    ultimately show ?thesis using inv src by (auto simp: tap_inv_def e)
  qed
qed

lemma tap_reach_inv: "tap_reach t srcs fs \<Longrightarrow> length srcs < 2 ^ 64 \<Longrightarrow> tap_inv t srcs fs"
proof (induction rule: tap_reach.induct)
  case tap_init
  show ?case by (simp add: tap_inv_def DmdTap_def NoSource_def)
next
  case (tap_change t srcs fs t' items c)
  then have small: "length srcs < 2 ^ 64" by (simp split: if_splits)
  with tap_change sources_changed_inv [of t srcs fs items c] show ?case by simp
next
  case (tap_dumped t srcs fs f)
  then show ?case using tap_inv_same [of "Dump f t" t] by (simp add: Dump_def split: option.splits)
qed (auto dest: tap_poll_inv)

section \<open>Properties\<close>

text \<open>
  C29. What the tap captures is true of its source. Over every sequence of source changes, controller changes and polls, each
  captured frame has the width, the height and the shades of the source that its generation names and one pixel for each of its
  dots, and that source gave identify frames; two frames captured in turn from one source have different ids; and the
  count of skipped frames is exactly the ids passed over between them; for as long as the 64-bit generation has not
  wrapped.
\<close>

theorem captured_frames_true:
  assumes "tap_reach t srcs fs" "length srcs < 2 ^ 64"
  shows "(\<forall>f \<in> set fs. unat (tf_generation f) < length srcs \<and> frame_of_source (srcs ! unat (tf_generation f)) f) \<and>
    ids_move fs \<and> dt_skipped t = frames_skipped fs"
proof -
  have inv: "tap_inv t srcs fs" by (rule tap_reach_inv [OF assms])
  then have "unat (tf_generation f) < length srcs" if "f \<in> set fs" for f
    using that unfolding tap_inv_def by (metis Suc_eq_plus1 le_imp_less_Suc word_le_nat_alt)
  with inv show ?thesis unfolding tap_inv_def by blast
qed

text \<open>
  A reader gets a captured frame whole or none. With the captured frames that fit the lock written to it in
  order, under every interleaving of the worker's and the readers' memory accesses, a copy the lock reports as read is
  one captured frame, field for field and pixel for pixel; so it too is true of the source its generation names.
\<close>

theorem latest_frame_whole:
  assumes "tap_reach t srcs fs" "length srcs < 2 ^ 64" "lock_reach TAP_RECORD_BYTES s" "2 * (length (ls_written s) + 1) < 2 ^ 64"
    and "ls_written s = map tap_Publish shown" "set shown \<subseteq> set fs" "ls_readers s k = R_Done (Some (copied, sequence))"
  shows "\<exists>f \<in> set fs. GetLatest (Some copied) out = (True, f) \<and> frame_of_source (srcs ! unat (tf_generation f)) f"
proof -
  from seqlock_read [OF assms(3,4,7)] assms(5) obtain f where "f \<in> set shown" "copied = tap_Publish f"
    by (metis imageE set_map)
  with assms(6) GetLatest_Publish [of f out] tap_reach_inv [OF assms(1,2)] show ?thesis unfolding tap_inv_def by blast
qed

definition source_example :: DisplaySrc where
  "source_example = \<lparr>ds_id = 9, ds_endpointId = 4, ds_width = 2, ds_height = 1, ds_identifyFormat = BITPLANE4, ds_hasIdentify = True\<rparr>"

definition tap_frame_example :: "u32 \<Rightarrow> TapFrame" where
  "tap_frame_example i = \<lparr>tf_frameId = i, tf_width = 2, tf_height = 1, tf_shades = 16, tf_generation = 1, tf_pixels = [7, 7]\<rparr>"

definition read_example :: "u32 \<Rightarrow> identify_read" where
  "read_example i = \<lparr>ir_frameId = i, ir_null = False, ir_memory = (\<lambda>_. 7), ir_checkId = i\<rparr>"

lemma tap_example_reach: "\<exists>t. tap_reach t [NoSource, source_example] [tap_frame_example 5, tap_frame_example 8]"
proof -
  have g1: "tap_reach (sources_changed [source_example] (DmdTap\<lparr>dt_controller := 4\<rparr>)) [NoSource, source_example] []"
    using tap_change [OF tap_init refl, of "[source_example]" 4]
    by (simp add: sources_changed_def FilterSources_def select_source_def conforms_def OnSourcesChanged_def source_example_def DmdTap_def NoSource_def)
  have f: "fst (tap_poll (read_example 5) (sources_changed [source_example] (DmdTap\<lparr>dt_controller := 4\<rparr>))) = Some (tap_frame_example 5)"
    "fst (tap_poll (read_example 8) (snd (tap_poll (read_example 5) (sources_changed [source_example] (DmdTap\<lparr>dt_controller := 4\<rparr>))))) = Some (tap_frame_example 8)"
    by (simp_all add: sources_changed_def FilterSources_def select_source_def conforms_def OnSourcesChanged_def source_example_def DmdTap_def NoSource_def
        tap_poll_def read_example_def tap_frame_example_def TapFrame0_def upt_rec Let_def)
  from tap_captured [OF tap_captured [OF g1]] f show ?thesis by (metis append_Cons append_Nil prod.collapse)
qed

theorem captured_frames_true_witness:
  "\<exists>t. tap_reach t [NoSource, source_example] [tap_frame_example 5, tap_frame_example 8] \<and> dt_skipped t = 2"
proof -
  obtain t where t: "tap_reach t [NoSource, source_example] [tap_frame_example 5, tap_frame_example 8]" using tap_example_reach ..
  with captured_frames_true [OF t] show ?thesis by (auto simp: tap_frame_example_def)
qed

theorem latest_frame_whole_witness:
  "\<exists>s t copied q f. lock_reach TAP_RECORD_BYTES s \<and> ls_readers s 0 = R_Done (Some (copied, q)) \<and>
     tap_reach t [NoSource, source_example] [tap_frame_example 5, tap_frame_example 8] \<and>
     f \<in> {tap_frame_example 5, tap_frame_example 8} \<and> GetLatest (Some copied) TapFrame0 = (True, f)"
proof -
  obtain t where t: "tap_reach t [NoSource, source_example] [tap_frame_example 5, tap_frame_example 8]" using tap_example_reach ..
  have "length (tap_Publish (tap_frame_example 8)) \<le> TAP_RECORD_BYTES"
    by (simp add: tap_Publish_def tap_frame_example_def TAP_HEADER_BYTES_def TAP_MAX_PIXELS_def)
  from lock_session [OF this, of 0] obtain s q where s: "lock_reach TAP_RECORD_BYTES s" "ls_written s = [tap_Publish (tap_frame_example 8)]"
    "ls_readers s 0 = R_Done (Some (tap_Publish (tap_frame_example 8), q))" by blast
  from latest_frame_whole [OF t _ s(1), of "[tap_frame_example 8]" 0 _ q TapFrame0] s t show ?thesis by simp blast
qed

end
