(* ===== verification/Authored_Table.thy ===== *)
theory Authored_Table
  imports Prelude
begin

text \<open>
  \<^verbatim>\<open>src/AuthoredTable.h\<close> and \<^verbatim>\<open>src/AuthoredTable.cpp\<close>: what a table script declares, and the machine ids it may declare.
  \<open>NativePathToUtf8\<close> is the branch for hosts whose paths are UTF-8 already; the Windows code page conversion is not modelled.
\<close>

section \<open>Model\<close>

record AuthoredTable =
  at_machineId :: string
  at_tablePath :: string
  at_vpxPath :: string
  at_prefPath :: string

definition AuthoredTable0 :: AuthoredTable where
  "AuthoredTable0 = \<lparr>at_machineId = [], at_tablePath = [], at_vpxPath = [], at_prefPath = []\<rparr>"

abbreviation char_code :: "char \<Rightarrow> nat" where
  "char_code c \<equiv> of_char c"

definition lower_hex :: "char \<Rightarrow> char" where
  "lower_hex c = (if char_code CHR ''A'' \<le> char_code c \<and> char_code c \<le> char_code CHR ''F''
     then char_of (char_code c - char_code CHR ''A'' + char_code CHR ''a'') else c)"

definition hex_char :: "char \<Rightarrow> bool" where
  "hex_char c \<longleftrightarrow> (char_code CHR ''0'' \<le> char_code c \<and> char_code c \<le> char_code CHR ''9'') \<or>
     (char_code CHR ''a'' \<le> char_code c \<and> char_code c \<le> char_code CHR ''f'')"

text \<open>The loop of \<open>CanonicalMachineId\<close> from index \<open>i\<close>.\<close>

fun canonical_from :: "nat \<Rightarrow> string \<Rightarrow> string option" where
  "canonical_from i [] = Some []"
| "canonical_from i (c # cs) =
     (if i = 8 \<or> i = 13 \<or> i = 18 \<or> i = 23
      then if c \<noteq> CHR ''-'' then None else map_option ((#) c) (canonical_from (Suc i) cs)
      else if lower_hex c \<noteq> c then map_option ((#) (lower_hex c)) (canonical_from (Suc i) cs)
      else if \<not> hex_char c then None
      else map_option ((#) c) (canonical_from (Suc i) cs))"

definition CanonicalMachineId :: "string \<Rightarrow> string \<Rightarrow> bool \<times> string" where
  "CanonicalMachineId ident out =
     (if length ident \<noteq> 36 then (False, out)
      else case canonical_from 0 ident of None \<Rightarrow> (False, out) | Some lower \<Rightarrow> (True, lower))"

definition NativePathToUtf8 :: "string option \<Rightarrow> string" where
  "NativePathToUtf8 path = (case path of None \<Rightarrow> [] | Some p \<Rightarrow> p)"

section \<open>Canonical ids\<close>

text \<open>A lower-case uuid: 36 characters, a dash at four places and a lower-case hex digit everywhere else.\<close>

definition dash_at :: "nat \<Rightarrow> bool" where
  "dash_at i \<longleftrightarrow> i \<in> {8, 13, 18, 23}"

definition canonical_uuid :: "string \<Rightarrow> bool" where
  "canonical_uuid s \<longleftrightarrow> length s = 36 \<and> (\<forall>i < 36. if dash_at i then s ! i = CHR ''-'' else hex_char (s ! i))"

lemma lower_hex_changed: "lower_hex c \<noteq> c \<Longrightarrow> hex_char (lower_hex c)"
  by (auto simp: lower_hex_def hex_char_def of_char_of split: if_splits)

lemma lower_hex_hex [simp]: "hex_char c \<Longrightarrow> lower_hex c = c"
  by (auto simp: lower_hex_def hex_char_def)

lemma lower_hex_dash [simp]: "lower_hex CHR ''-'' = CHR ''-''"
  by (simp add: lower_hex_def)

lemma canonical_from_spec:
  "canonical_from i s = (if \<forall>k < length s. if dash_at (i + k) then s ! k = CHR ''-'' else hex_char (lower_hex (s ! k))
     then Some (map lower_hex s) else None)"
proof (induction i s rule: canonical_from.induct)
  case (2 i c cs)
  have all: "(\<forall>k < length (c # cs). P (i + k) ((c # cs) ! k)) \<longleftrightarrow> P i c \<and> (\<forall>k < length cs. P (Suc i + k) (cs ! k))" for P
    by (simp add: less_Suc_eq_0_disj all_conj_distrib imp_disjL) (auto simp: All_less_Suc2)
  show ?case
  proof (cases "dash_at i")
    case True
    then show ?thesis using 2(1) by (subst all) (auto simp: dash_at_def)
  next
    case False
    then show ?thesis using 2(2,3) lower_hex_changed [of c]
      by (subst all) (cases "lower_hex c = c"; auto simp: dash_at_def)
  qed
qed simp

text \<open>
  A machine id is accepted exactly when it is a uuid, in whatever case, and what is kept is its one lower-case form:
  accepted again it stays as it is, and two ids are kept as the same one exactly when they differ in case only. An id
  that is not accepted leaves the id kept so far alone.
\<close>

theorem machine_id_canonical:
  shows "CanonicalMachineId a out =
      (if canonical_uuid (map lower_hex a) then (True, map lower_hex a) else (False, out)) \<and>
    (canonical_uuid (map lower_hex a) \<longrightarrow> CanonicalMachineId (map lower_hex a) out' = (True, map lower_hex a))"
proof -
  have "canonical_uuid (map lower_hex s) \<longleftrightarrow>
      length s = 36 \<and> (\<forall>k < length s. if dash_at (0 + k) then s ! k = CHR ''-'' else hex_char (lower_hex (s ! k)))" for s
  proof -
    have "lower_hex c = CHR ''-'' \<longleftrightarrow> c = CHR ''-''" for c
      using lower_hex_changed [of c] by (cases "lower_hex c = c") (auto simp: hex_char_def)
    then show ?thesis by (simp add: canonical_uuid_def cong: conj_cong)
  qed
  then have spec: "CanonicalMachineId s x = (if canonical_uuid (map lower_hex s) then (True, map lower_hex s) else (False, x))" for s x
    by (auto simp: CanonicalMachineId_def canonical_from_spec)
  have "lower_hex (lower_hex c) = lower_hex c" for c using lower_hex_changed [of c] by (cases "lower_hex c = c") auto
  then have "map lower_hex (map lower_hex a) = map lower_hex a" by (simp only: map_map comp_def)
  then show ?thesis using spec [of a out] spec [of "map lower_hex a" out'] by metis
qed

theorem machine_id_canonical_witness:
  "CanonicalMachineId ''0A1B2C3D-0000-4000-8000-00000000000F'' [] = (True, ''0a1b2c3d-0000-4000-8000-00000000000f'')"
proof -
  let ?l = "''0a1b2c3d-0000-4000-8000-00000000000f''"
  have l: "map lower_hex ''0A1B2C3D-0000-4000-8000-00000000000F'' = ?l" by code_simp
  have "canonical_from 0 ?l = Some ?l" by (simp add: hex_char_def)
  then have "CanonicalMachineId ?l [] = (True, ?l)" by (simp add: CanonicalMachineId_def)
  moreover have "map lower_hex ?l = ?l" by code_simp
  ultimately have "canonical_uuid ?l" using machine_id_canonical [of ?l "[]" "[]"] by (metis Pair_inject)
  with machine_id_canonical [of "''0A1B2C3D-0000-4000-8000-00000000000F''" "[]" "[]"] show ?thesis unfolding l by simp
qed

end
