(* ===== verification/Session_Source.thy ===== *)
theory Session_Source
  imports Worker_Status Read_Back Dmd_Tap Authored_Table
begin

text \<open>
  \<^verbatim>\<open>src/VpxSessionSource.h\<close> and \<^verbatim>\<open>src/VpxSessionSource.cpp\<close>: what the API thread knows of the running game, and
  hands to the socket worker. Its parts are modelled elsewhere (the memory bridge, the tap, the game queue, the latches, the
  notifier, the read-backs); here they are held together: VPX's events, the script's calls, and the declaration they amount
  to. What VPX and the tap answer is given with each call. Log lines of the API thread, and the flags that limit them,
  are left out; the worker's log queue is modelled.
\<close>

section \<open>The tap as one thread sees it\<close>

text \<open>What one pass over the tap reads: whether a source is selected, the record copied, whether there is one, the generation.\<close>

record tap_reading =
  tr_hasSource :: bool
  tr_copied :: "bytes option"
  tr_hasFrame :: bool
  tr_generation :: u64

record TapView =
  tv_latest :: TapFrame
  tv_hasSource :: bool
  tv_generation :: u64

definition TapView0 :: TapView where
  "TapView0 = \<lparr>tv_latest = TapFrame0, tv_hasSource = False, tv_generation = 0\<rparr>"

definition Refresh :: "tap_reading \<Rightarrow> TapView \<Rightarrow> TapView" where
  "Refresh r v =
     (case GetLatest (tr_copied r) (tv_latest v) of (got, shown) \<Rightarrow>
        let haveFrame = (got \<or> (tr_hasFrame r \<and> tf_width shown \<noteq> 0));
            hasSource = (tr_hasSource r \<and> haveFrame \<and> tf_generation shown = tr_generation r)
        in \<lparr>tv_latest = shown, tv_hasSource = hasSource,
            tv_generation = if hasSource then tf_generation shown else tr_generation r\<rparr>)"

section \<open>State\<close>

definition LOG_QUEUE_LIMIT :: nat where "LOG_QUEUE_LIMIT = 256"
definition NOTICE_MS :: int where "NOTICE_MS = 5000"

abbreviation (input) LOG_LEVEL_DEBUG :: int where "LOG_LEVEL_DEBUG \<equiv> 0"
abbreviation (input) LOG_LEVEL_INFO :: int where "LOG_LEVEL_INFO \<equiv> 1"
abbreviation (input) LOG_LEVEL_WARN :: int where "LOG_LEVEL_WARN \<equiv> 2"
abbreviation (input) LOG_LEVEL_ERROR :: int where "LOG_LEVEL_ERROR \<equiv> 3"

record session_source =
  vs_renderedFrame :: u64
  vs_playerRunning :: bool
  vs_gameRunning :: bool
  vs_memory :: bridge
  vs_romId :: string
  vs_tablePath :: string
  vs_epoch :: u64
  vs_identity :: u64
  vs_apiTap :: TapView
  vs_posted :: DeclareSnapshot
  vs_havePosted :: bool
  vs_addressSpaceKnown :: bool
  vs_authored :: AuthoredTable
  vs_ops :: "GameOp list"
  vs_games :: game_queue
  vs_declares :: "DeclareSnapshot latch"
  vs_workerTap :: TapView
  vs_statusLatch :: "StatusRecord latch"
  vs_notifier :: StatusNotifier
  vs_noticeHandle :: u32
  vs_scriptStatus :: StatusRecord
  vs_statusPending :: "StatusRecord option"
  vs_channel :: ReadBackChannel
  vs_readBack :: ReadBackState
  vs_logQueue :: "(int \<times> string) list"
  vs_logDropped :: u64

text \<open>What a declaration is built from beside the state: the pinned build, the tap, and the overlay's generation.\<close>

record declare_env =
  de_pinnedVersion :: string
  de_pinnedRevision :: string
  de_tap :: tap_reading
  de_surfaceGeneration :: u64

section \<open>The declaration\<close>

definition AuthoredReady :: "session_source \<Rightarrow> bool" where
  "AuthoredReady s \<longleftrightarrow> at_machineId (vs_authored s) \<noteq> [] \<and> vs_romId s = [] \<and> at_tablePath (vs_authored s) \<noteq> [] \<and>
     at_vpxPath (vs_authored s) \<noteq> [] \<and> at_prefPath (vs_authored s) \<noteq> []"

definition declare_now :: "declare_env \<Rightarrow> session_source \<Rightarrow> Declare" where
  "declare_now e s =
     (let f = tv_latest (vs_apiTap s); has = tv_hasSource (vs_apiTap s);
          d = \<lparr>Declare.romId = vs_romId s, tablePath = vs_tablePath s, vpxVersion = de_pinnedVersion e, vpxRevision = de_pinnedRevision e,
               width = if has then ucast (tf_width f) else 0, height = if has then ucast (tf_height f) else 0,
               shades = if has then ucast (tf_shades f) else 0, sourceGeneration = ucast (tv_generation (vs_apiTap s)),
               identifyFormat = if \<not> has then [] else if tf_shades f = 16 then ''BITPLANE4'' else ''BITPLANE2'',
               tableKind = TABLE_ROM, machineUuid = [], tableFullPath = [], vpxAppPath = [], prefsPath = []\<rparr>
      in if AuthoredReady s
         then d\<lparr>tableKind := TABLE_AUTHORED, machineUuid := at_machineId (vs_authored s), tableFullPath := at_tablePath (vs_authored s),
                vpxAppPath := at_vpxPath (vs_authored s), prefsPath := at_prefPath (vs_authored s)\<rparr>
         else d)"

definition UpdateDeclare :: "declare_env \<Rightarrow> session_source \<Rightarrow> session_source" where
  "UpdateDeclare e s =
     (let s = s\<lparr>vs_apiTap := Refresh (de_tap e) (vs_apiTap s)\<rparr>;
          d = declare_now e s;
          s = (if vs_havePosted s \<and> vs_epoch s = ds_epoch (vs_posted s) \<and> NewIdentity (ds_declare (vs_posted s)) d
               then s\<lparr>vs_identity := vs_identity s + 1, vs_readBack := ClearScores (vs_readBack s)\<rparr> else s);
          now = \<lparr>ds_declare = d, ds_epoch = vs_epoch s, ds_surfaceGeneration = de_surfaceGeneration e, ds_identity = vs_identity s\<rparr>
      in if vs_havePosted s \<and> now = vs_posted s then s
         else s\<lparr>vs_posted := now, vs_havePosted := True, vs_declares := latch_Post now (vs_declares s)\<rparr>)"

definition bump_epoch :: "session_source \<Rightarrow> session_source" where
  "bump_epoch s = s\<lparr>vs_epoch := vs_epoch s + 1, vs_readBack := NewEpoch (vs_epoch s + 1) (vs_readBack s)\<rparr>"

definition VpxSessionSource :: "declare_env \<Rightarrow> time_point \<Rightarrow> session_source" where
  "VpxSessionSource e now = UpdateDeclare e
     \<lparr>vs_renderedFrame = 0, vs_playerRunning = False, vs_gameRunning = False, vs_memory = MemoryBridge, vs_romId = [], vs_tablePath = [],
      vs_epoch = 0, vs_identity = 0, vs_apiTap = TapView0, vs_posted = DeclareSnapshot0, vs_havePosted = False,
      vs_addressSpaceKnown = False, vs_authored = AuthoredTable0, vs_ops = [], vs_games = GameQueue MAX_QUEUED_GAME_OPS,
      vs_declares = Latch, vs_workerTap = TapView0, vs_statusLatch = Latch, vs_notifier = StatusNotifier_init now, vs_noticeHandle = 0,
      vs_scriptStatus = StatusRecord0\<lparr>sr_since := now\<rparr>, vs_statusPending = None, vs_channel = ReadBackChannel_init,
      vs_readBack = ReadBackState_init, vs_logQueue = [], vs_logDropped = 0\<rparr>"

section \<open>Games and frames\<close>

text \<open>The strings \<open>GetTableInfo\<close> and \<open>GetVpxInfo\<close> answer, when the host offers the calls.\<close>

record vpx_info =
  vi_tablePath :: "string option"
  vi_vpxPath :: "string option"
  vi_prefPath :: "string option"

definition OnGameStart :: "declare_env \<Rightarrow> vpx_info option \<Rightarrow> session_source \<Rightarrow> session_source" where
  "OnGameStart e host s =
     (let s = (case host of None \<Rightarrow> s\<lparr>vs_tablePath := []\<rparr>
               | Some i \<Rightarrow> s\<lparr>vs_tablePath := (case vi_tablePath i of None \<Rightarrow> [] | Some p \<Rightarrow> TableFileName p),
                    vs_authored := (vs_authored s)\<lparr>at_tablePath := NativePathToUtf8 (vi_tablePath i),
                      at_vpxPath := NativePathToUtf8 (vi_vpxPath i), at_prefPath := NativePathToUtf8 (vi_prefPath i)\<rparr>\<rparr>);
          s = bump_epoch s;
          s = s\<lparr>vs_gameRunning := vs_romId s \<noteq> []\<rparr>;
          s = s\<lparr>vs_memory := SetGameRunning (vs_gameRunning s) (vs_memory s)\<rparr>;
          s = s\<lparr>vs_noticeHandle := 0, vs_notifier := NewTable (vs_notifier s)\<rparr>
      in (UpdateDeclare e s)\<lparr>vs_playerRunning := True\<rparr>)"

definition OnGameEnd :: "declare_env \<Rightarrow> session_source \<Rightarrow> session_source" where
  "OnGameEnd e s =
     UpdateDeclare e (bump_epoch
       (s\<lparr>vs_playerRunning := False, vs_gameRunning := False, vs_memory := SetAddressSpace 0 (SetGameRunning False (vs_memory s)),
          vs_addressSpaceKnown := False, vs_tablePath := [], vs_authored := AuthoredTable0, vs_ops := [],
          vs_notifier := TableEnded (vs_notifier s)\<rparr>))"

definition QueryAddressSpace :: "u64 \<Rightarrow> session_source \<Rightarrow> session_source" where
  "QueryAddressSpace hardwareGen s =
     (if vs_addressSpaceKnown s \<or> \<not> vs_gameRunning s \<or> hardwareGen = 0 then s
      else s\<lparr>vs_addressSpaceKnown := True, vs_memory := SetAddressSpace (MainCpuAddressSpace hardwareGen) (vs_memory s)\<rparr>)"

definition source_TakeStatus :: "session_source \<Rightarrow> session_source" where
  "source_TakeStatus s =
     (case latch_Take (vs_statusLatch s) of (taken, l) \<Rightarrow>
        let s = s\<lparr>vs_statusLatch := l\<rparr> in
        case taken of None \<Rightarrow> s | Some r \<Rightarrow> s\<lparr>vs_scriptStatus := r, vs_statusPending := Some r\<rparr>)"

definition ScriptStatus :: "session_source \<Rightarrow> StatusRecord \<times> session_source" where
  "ScriptStatus s = (let s = source_TakeStatus s in (vs_scriptStatus s, s))"

definition ScriptReadBack :: "time_point \<Rightarrow> session_source \<Rightarrow> ReadBackState \<times> session_source" where
  "ScriptReadBack now s =
     (case Drain now (vs_channel s, vs_readBack s) of (c, r) \<Rightarrow> (r, s\<lparr>vs_channel := c, vs_readBack := r\<rparr>))"

definition ScriptRequestTopScores :: "TopScoresRequest \<Rightarrow> session_source \<Rightarrow> u32 \<times> session_source" where
  "ScriptRequestTopScores request s =
     (case Request (vs_epoch s) request (vs_identity s) (vs_channel s) of (i, c) \<Rightarrow>
        (i, s\<lparr>vs_channel := c, vs_readBack := NoteRequest i (vs_readBack s)\<rparr>))"

definition DeclaredMachineUuid :: "session_source \<Rightarrow> string" where
  "DeclaredMachineUuid s = (if vs_romId s = [] then at_machineId (vs_authored s) else [])"

text \<open>
  What a frame's call finds at the host: PinMAME's answers, the two settings, the time, and the notification call (\<open>None\<close>
  where the host has none).
\<close>

record frame_host =
  fh_hardwareGen :: u64
  fh_locked :: bool
  fh_reads :: "nat \<Rightarrow> ReadFn"
  fh_snap :: ReadFn
  fh_write :: WriteFn
  fh_show :: bool
  fh_notices :: int
  fh_now :: time_point
  fh_notify :: "(u32 \<Rightarrow> string \<Rightarrow> int \<Rightarrow> u32) option"

definition PostStatusNotice :: "frame_host \<Rightarrow> session_source \<Rightarrow> session_source" where
  "PostStatusNotice h s =
     (let s = source_TakeStatus s in
      case Frame (vs_statusPending s) (fh_show h) (fh_notices h) (AuthoredReady s) (fh_now h) (vs_notifier s) of (action, n) \<Rightarrow>
        let s = s\<lparr>vs_statusPending := None, vs_notifier := n\<rparr> in
        case (action, fh_notify h) of
          (NoNotice, _) \<Rightarrow> s
        | (_, None) \<Rightarrow> s
        | (Expire text, Some update) \<Rightarrow> s\<lparr>vs_noticeHandle := update (vs_noticeHandle s) text 0\<rparr>
        | (Post text, Some update) \<Rightarrow> s\<lparr>vs_noticeHandle := update (vs_noticeHandle s) text NOTICE_MS\<rparr>)"

definition OnPrepareFrame :: "declare_env \<Rightarrow> frame_host \<Rightarrow> session_source \<Rightarrow> session_source" where
  "OnPrepareFrame e h s =
     (let s = s\<lparr>vs_renderedFrame := vs_renderedFrame s + 1\<rparr>;
          fr = vs_renderedFrame s;
          s = QueryAddressSpace (fh_hardwareGen h) s;
          s = s\<lparr>vs_memory := Service (fh_locked h) (fh_reads h) (fh_snap h) (Some (fh_write h)) fr (vs_playerRunning s) (vs_gameRunning s)
                 (vs_memory s)\<rparr>
      in PostStatusNotice h (UpdateDeclare e s))"

definition SetRomId :: "declare_env \<Rightarrow> string \<Rightarrow> session_source \<Rightarrow> session_source" where
  "SetRomId e rom s =
     UpdateDeclare e (s\<lparr>vs_romId := rom, vs_addressSpaceKnown := False, vs_gameRunning := rom \<noteq> [],
       vs_memory := SetGameRunning (rom \<noteq> []) (SetAddressSpace 0 (vs_memory s))\<rparr>)"

section \<open>The script's calls\<close>

definition DeclareMachine :: "declare_env \<Rightarrow> string \<Rightarrow> session_source \<Rightarrow> session_source" where
  "DeclareMachine e machineId s =
     (case CanonicalMachineId machineId [] of (accepted, canonical) \<Rightarrow>
        if \<not> accepted then s
        else if canonical = at_machineId (vs_authored s) then s
        else let s = (if at_machineId (vs_authored s) = [] then s else (bump_epoch s)\<lparr>vs_ops := []\<rparr>)
             in UpdateDeclare e (s\<lparr>vs_authored := (vs_authored s)\<lparr>at_machineId := canonical\<rparr>\<rparr>))"

definition ScriptGameOp :: "GameOp \<Rightarrow> session_source \<Rightarrow> session_source" where
  "ScriptGameOp op s =
     (if \<not> AuthoredReady s then s
      else if length (vs_ops s) \<ge> MAX_QUEUED_GAME_OPS then s
      else s\<lparr>vs_ops := vs_ops s @ [op]\<rparr>)"

text \<open>The loop of \<open>ScriptCommit\<close>: where it cuts the ops into batches, and what it tells the notifier.\<close>

definition cut_op :: "u64 \<Rightarrow> GamePost list \<Rightarrow> GameOp \<Rightarrow> GamePost list" where
  "cut_op ep posts op =
     (let tail = gameOps (batch (last posts));
          posts = (if posts = [] \<or> length tail = MAX_GAME_OPS \<or> (opKind op = GAME_START \<and> tail \<noteq> []) \<or> opKind (last tail) = GAME_END
                   then posts @ [\<lparr>epoch = ep, batch = GameBatch0\<rparr>] else posts);
          p = last posts
      in butlast posts @ [p\<lparr>batch := (batch p)\<lparr>gameOps := gameOps (batch p) @ [op]\<rparr>\<rparr>])"

definition tell_notifier :: "u32 \<Rightarrow> StatusNotifier \<Rightarrow> GameOp \<Rightarrow> StatusNotifier" where
  "tell_notifier warned n op =
     (if opKind op = GAME_START then GameStarted warned n else if opKind op = GAME_END then GameEnded n else n)"

definition ScriptCommit :: "session_source \<Rightarrow> session_source" where
  "ScriptCommit s =
     (if vs_ops s = [] then s
      else let ops = vs_ops s; s = s\<lparr>vs_ops := []\<rparr> in
        if \<not> AuthoredReady s then s
        else let s = source_TakeStatus s;
                 s = s\<lparr>vs_notifier := foldl (tell_notifier (warnings (sr_history (vs_scriptStatus s)))) (vs_notifier s) ops\<rparr>
             in s\<lparr>vs_games := snd (Push (foldl (cut_op (vs_epoch s)) [] ops) (vs_games s))\<rparr>)"

section \<open>What the worker asks for\<close>

definition source_TakeDeclare :: "session_source \<Rightarrow> DeclareSnapshot option \<times> session_source" where
  "source_TakeDeclare s = (case latch_Take (vs_declares s) of (d, l) \<Rightarrow> (d, s\<lparr>vs_declares := l\<rparr>))"

definition source_TakeGames :: "GamePost list \<Rightarrow> session_source \<Rightarrow> GamePost list \<times> session_source" where
  "source_TakeGames out s = (case TakeAll out (vs_games s) of (taken, q) \<Rightarrow> (taken, s\<lparr>vs_games := q\<rparr>))"

definition GetFrame :: "tap_reading \<Rightarrow> session_source \<Rightarrow> FrameSnapshot \<times> session_source" where
  "GetFrame r s =
     (let v = Refresh r (vs_workerTap s); shown = tv_latest v;
          out = \<lparr>fs_hasSource = tv_hasSource v, fs_frameId = 0, fs_generation = ucast (tv_generation v), fs_width = 0, fs_height = 0,
                 fs_shades = 0, fs_pixels = []\<rparr>
      in (if \<not> tv_hasSource v then out
          else out\<lparr>fs_frameId := tf_frameId shown, fs_width := ucast (tf_width shown), fs_height := ucast (tf_height shown),
                   fs_shades := ucast (tf_shades shown), fs_pixels := tf_pixels shown\<rparr>,
          s\<lparr>vs_workerTap := v\<rparr>))"

definition GetSession :: "session_source \<Rightarrow> SessionSnapshot" where
  "GetSession s = \<lparr>ss_renderedFrame = vs_renderedFrame s, ss_playerRunning = vs_playerRunning s\<rparr>"

section \<open>The worker's log\<close>

definition PushLog :: "int \<Rightarrow> string \<Rightarrow> session_source \<Rightarrow> session_source" where
  "PushLog level message s =
     (let s = (if length (vs_logQueue s) \<ge> LOG_QUEUE_LIMIT
               then s\<lparr>vs_logQueue := tl (vs_logQueue s), vs_logDropped := vs_logDropped s + 1\<rparr> else s)
      in s\<lparr>vs_logQueue := vs_logQueue s @ [(level, message)]\<rparr>)"

definition log_line :: "int \<times> string \<Rightarrow> int \<times> string" where
  "log_line x = (if fst x \<in> {LOG_LEVEL_DEBUG, LOG_LEVEL_WARN, LOG_LEVEL_ERROR} then x else (LOG_LEVEL_INFO, snd x))"

text \<open>The lines written, with the level each is written at.\<close>

definition DrainLog :: "session_source \<Rightarrow> (int \<times> string) list \<times> session_source" where
  "DrainLog s =
     (if vs_logQueue s = [] \<and> vs_logDropped s = 0 then ([], s)
      else ((if vs_logDropped s \<noteq> 0
             then [(LOG_LEVEL_WARN, ''Socket: dropped '' @ digits (unat (vs_logDropped s)) @ '' log lines'')] else [])
            @ map log_line (vs_logQueue s), s\<lparr>vs_logQueue := [], vs_logDropped := 0\<rparr>))"

section \<open>A commit, cut into batches\<close>

definition cut_before :: "GamePost list \<Rightarrow> GameOp \<Rightarrow> bool" where
  "cut_before posts op \<longleftrightarrow> posts = [] \<or> length (post_ops (last posts)) = MAX_GAME_OPS \<or>
     (opKind op = GAME_START \<and> post_ops (last posts) \<noteq> []) \<or> opKind (last (post_ops (last posts))) = GAME_END"

lemma cut_op_eq:
  "cut_op ep posts op =
     (if cut_before posts op then posts @ [\<lparr>epoch = ep, batch = GameBatch0\<lparr>gameOps := [op]\<rparr>\<rparr>]
      else butlast posts @ [(last posts)\<lparr>batch := (batch (last posts))\<lparr>gameOps := post_ops (last posts) @ [op]\<rparr>\<rparr>])"
  unfolding cut_op_def Let_def cut_before_def [symmetric] by (simp add: GameBatch0_def)

text \<open>A batch with the ops of a commit: under the epoch, of an allowed length, with a start only first and an end only last.\<close>

definition cut_ok :: "u64 \<Rightarrow> GamePost \<Rightarrow> bool" where
  "cut_ok ep p \<longleftrightarrow> epoch p = ep \<and> post_ops p \<noteq> [] \<and> length (post_ops p) \<le> MAX_GAME_OPS \<and>
     (\<forall>op \<in> set (tl (post_ops p)). opKind op \<noteq> GAME_START) \<and> (\<forall>op \<in> set (butlast (post_ops p)). opKind op \<noteq> GAME_END)"

lemma cut_op_ok:
  assumes "\<forall>p \<in> set posts. cut_ok ep p"
  shows "(\<forall>p \<in> set (cut_op ep posts op). cut_ok ep p) \<and> concat (map post_ops (cut_op ep posts op)) = concat (map post_ops posts) @ [op]"
proof (cases "cut_before posts op")
  case True
  with assms show ?thesis by (simp add: cut_op_eq cut_ok_def MAX_GAME_OPS_def)
next
  case False
  then have ne: "posts \<noteq> []" by (auto simp: cut_before_def)
  define us p where "us = butlast posts" and "p = last posts"
  have posts: "posts = us @ [p]" using ne by (simp add: us_def p_def)
  have p: "cut_ok ep p" and us: "\<forall>q \<in> set us. cut_ok ep q" using assms by (simp_all add: posts)
  have c: "length (post_ops p) \<noteq> MAX_GAME_OPS" "opKind op = GAME_START \<Longrightarrow> post_ops p = []" "opKind (last (post_ops p)) \<noteq> GAME_END"
    using False by (auto simp: cut_before_def posts)
  have e: "\<forall>x \<in> set (post_ops p). opKind x \<noteq> GAME_END"
    using p c(3) append_butlast_last_id [of "post_ops p"] unfolding cut_ok_def
    by (metis Un_iff empty_iff insert_iff list.set(1,2) set_append)
  have "cut_ok ep (p\<lparr>batch := (batch p)\<lparr>gameOps := post_ops p @ [op]\<rparr>\<rparr>)"
    using p c(1,2) e by (auto simp: cut_ok_def)
  with us False show ?thesis by (simp add: cut_op_eq posts)
qed

lemma cut_ops_ok:
  "(\<forall>p \<in> set (foldl (cut_op ep) [] opl). cut_ok ep p) \<and> concat (map post_ops (foldl (cut_op ep) [] opl)) = opl"
proof (induction opl rule: rev_induct)
  case (snoc op opl)
  with cut_op_ok [of "foldl (cut_op ep) [] opl" ep op] show ?case by simp
qed simp

lemma cut_ok_valid:
  assumes "cut_ok ep p" "\<forall>op \<in> set (post_ops p). KnownGameOp (opKind op)"
  shows "ValidGameBatch (batch p)"
proof -
  have start: "opKind (post_ops p ! i) \<noteq> GAME_START" if "i < length (post_ops p)" "i \<noteq> 0" for i
    using assms(1) that nth_mem [of "i - 1" "tl (post_ops p)"] by (auto simp: cut_ok_def nth_tl)
  have "opKind (post_ops p ! i) \<noteq> GAME_END" if "i < length (post_ops p)" "i \<noteq> length (post_ops p) - 1" for i
    using assms(1) that nth_mem [of i "butlast (post_ops p)"] by (auto simp: cut_ok_def nth_butlast)
  with start assms show ?thesis by (auto simp: ValidGameBatch_def valid_ops_from_iff cut_ok_def)
qed

end
