(* ===== verification/Source_History.thy ===== *)
theory Source_History
  imports Session_Source
begin

text \<open>
  What the session source tells the worker, over any sequence of VPX's events, script calls and calls of the worker: beside the
  state run two histories, the declarations posted and the batches committed, each with the machine the script was
  playing. A daemon credits a batch to the machine declared under the batch's epoch, so it is these two
  that have to agree.
\<close>

section \<open>The history\<close>

datatype source_call =
    C_SetRomId declare_env string
  | C_GameStart declare_env "vpx_info option"
  | C_GameEnd declare_env
  | C_PrepareFrame declare_env frame_host
  | C_UpdateDeclare declare_env
  | C_DeclareMachine declare_env string
  | C_GameOp GameOp
  | C_Commit
  | C_ScriptStatus
  | C_ScriptReadBack time_point
  | C_RequestTopScores TopScoresRequest
  | C_TakeDeclare
  | C_TakeGames
  | C_GetFrame tap_reading
  | C_PushLog int string
  | C_DrainLog
  | C_PostStatus StatusRecord
  | C_Channel ReadBackChannel

text \<open>The last two are the worker's: a status posted, and whatever it does to the read-back channel.\<close>

fun source_step :: "source_call \<Rightarrow> session_source \<Rightarrow> session_source" where
  "source_step (C_SetRomId e rom) s = SetRomId e rom s"
| "source_step (C_GameStart e host) s = OnGameStart e host s"
| "source_step (C_GameEnd e) s = OnGameEnd e s"
| "source_step (C_PrepareFrame e h) s = OnPrepareFrame e h s"
| "source_step (C_UpdateDeclare e) s = UpdateDeclare e s"
| "source_step (C_DeclareMachine e m) s = DeclareMachine e m s"
| "source_step (C_GameOp op) s = ScriptGameOp op s"
| "source_step C_Commit s = ScriptCommit s"
| "source_step C_ScriptStatus s = snd (ScriptStatus s)"
| "source_step (C_ScriptReadBack now) s = snd (ScriptReadBack now s)"
| "source_step (C_RequestTopScores r) s = snd (ScriptRequestTopScores r s)"
| "source_step C_TakeDeclare s = snd (source_TakeDeclare s)"
| "source_step C_TakeGames s = snd (source_TakeGames [] s)"
| "source_step (C_GetFrame r) s = snd (GetFrame r s)"
| "source_step (C_PushLog l m) s = PushLog l m s"
| "source_step C_DrainLog s = snd (DrainLog s)"
| "source_step (C_PostStatus r) s = s\<lparr>vs_statusLatch := latch_Post r (vs_statusLatch s)\<rparr>"
| "source_step (C_Channel c) s = s\<lparr>vs_channel := c\<rparr>"

definition declared_by :: "session_source \<Rightarrow> session_source \<Rightarrow> DeclareSnapshot list" where
  "declared_by s s' = (if vs_posted s' = vs_posted s then [] else [vs_posted s'])"

fun committed_by :: "source_call \<Rightarrow> session_source \<Rightarrow> (GamePost \<times> string) list" where
  "committed_by C_Commit s = (if vs_ops s = [] \<or> \<not> AuthoredReady s then []
     else map (\<lambda>p. (p, at_machineId (vs_authored s))) (foldl (cut_op (vs_epoch s)) [] (vs_ops s)))"
| "committed_by _ s = []"

inductive source_reach :: "nat \<Rightarrow> session_source \<Rightarrow> DeclareSnapshot list \<Rightarrow> (GamePost \<times> string) list \<Rightarrow> bool" where
  source_init: "source_reach 0 (VpxSessionSource e now) [vs_posted (VpxSessionSource e now)] []"
| source_call: "source_reach n s ds cs \<Longrightarrow> s' = source_step c s \<Longrightarrow>
    source_reach (Suc n) s' (ds @ declared_by s s') (cs @ committed_by c s)"

section \<open>The invariant\<close>

text \<open>What names a table in a declaration, and what the state would declare.\<close>

definition table_of :: "Declare \<Rightarrow> string \<times> u8 \<times> string" where
  "table_of d = (Declare.romId d, tableKind d, machineUuid d)"

definition named :: "session_source \<Rightarrow> string \<times> u8 \<times> string" where
  "named s = (vs_romId s, if AuthoredReady s then TABLE_AUTHORED else TABLE_ROM, if AuthoredReady s then at_machineId (vs_authored s) else [])"

lemma NewIdentity_table: "NewIdentity a b \<longleftrightarrow> table_of a \<noteq> table_of b"
  by (auto simp: NewIdentity_def table_of_def)

lemma table_of_now [simp]: "table_of (declare_now e s) = named s"
  by (simp add: declare_now_def table_of_def named_def Let_def)

text \<open>The part of the state the invariant is about.\<close>

definition core :: "session_source \<Rightarrow> _" where
  "core s = (vs_epoch s, vs_identity s, vs_romId s, vs_authored s, vs_posted s, vs_havePosted s)"

lemma AuthoredReady_core: "core s' = core s \<Longrightarrow> AuthoredReady s' = AuthoredReady s"
  by (simp add: core_def AuthoredReady_def)

definition authored_as :: "string \<Rightarrow> DeclareSnapshot \<Rightarrow> bool" where
  "authored_as m d \<longleftrightarrow> tableKind (ds_declare d) = TABLE_AUTHORED \<and> machineUuid (ds_declare d) = m"

definition source_inv :: "nat \<Rightarrow> session_source \<Rightarrow> DeclareSnapshot list \<Rightarrow> (GamePost \<times> string) list \<Rightarrow> bool" where
  "source_inv n s ds cs \<longleftrightarrow> vs_havePosted s \<and> vs_posted s \<in> set ds \<and>
     (ds_epoch (vs_posted s) = vs_epoch s \<and> ds_identity (vs_posted s) = vs_identity s \<and> table_of (ds_declare (vs_posted s)) = named s) \<and>
     unat (vs_epoch s) \<le> n \<and> unat (vs_identity s) \<le> n \<and>
     (\<forall>d \<in> set ds. ds_epoch d \<le> vs_epoch s \<and> ds_identity d \<le> vs_identity s) \<and>
     (\<forall>d \<in> set ds. \<forall>d' \<in> set ds. ds_epoch d = ds_epoch d' \<and> ds_identity d = ds_identity d' \<longrightarrow> table_of (ds_declare d) = table_of (ds_declare d')) \<and>
     (\<forall>d \<in> set ds. ds_epoch d = vs_epoch s \<and> tableKind (ds_declare d) = TABLE_AUTHORED \<longrightarrow>
        machineUuid (ds_declare d) = at_machineId (vs_authored s) \<and> at_machineId (vs_authored s) \<noteq> []) \<and>
     (\<forall>(p, m) \<in> set cs. epoch p \<le> vs_epoch s \<and> (epoch p = vs_epoch s \<longrightarrow> m = at_machineId (vs_authored s) \<and> m \<noteq> [])) \<and>
     (\<forall>(p, m) \<in> set cs. \<forall>d \<in> set ds. ds_epoch d = epoch p \<and> tableKind (ds_declare d) = TABLE_AUTHORED \<longrightarrow> machineUuid (ds_declare d) = m) \<and>
     (\<forall>(p, m) \<in> set cs. \<exists>d \<in> set ds. ds_epoch d = epoch p \<and> authored_as m d)"

lemma source_invD:
  assumes "source_inv n s ds cs"
  shows "vs_havePosted s" "vs_posted s \<in> set ds" "ds_epoch (vs_posted s) = vs_epoch s" "ds_identity (vs_posted s) = vs_identity s"
    "table_of (ds_declare (vs_posted s)) = named s" "unat (vs_epoch s) \<le> n" "unat (vs_identity s) \<le> n"
proof -
  note inv = assms [unfolded source_inv_def]
  show "vs_havePosted s" using inv by (elim conjE)
  show "vs_posted s \<in> set ds" using inv by (elim conjE)
  show "ds_epoch (vs_posted s) = vs_epoch s" using inv by (elim conjE)
  show "ds_identity (vs_posted s) = vs_identity s" using inv by (elim conjE)
  show "table_of (ds_declare (vs_posted s)) = named s" using inv by (elim conjE)
  show "unat (vs_epoch s) \<le> n" using inv by (elim conjE)
  show "unat (vs_identity s) \<le> n" using inv by (elim conjE)
qed

lemma source_inv_posts:
  assumes "source_inv n s ds cs" "d \<in> set ds"
  shows "ds_epoch d \<le> vs_epoch s" "ds_identity d \<le> vs_identity s"
    "d' \<in> set ds \<Longrightarrow> ds_epoch d = ds_epoch d' \<Longrightarrow> ds_identity d = ds_identity d' \<Longrightarrow> table_of (ds_declare d) = table_of (ds_declare d')"
    "ds_epoch d = vs_epoch s \<Longrightarrow> tableKind (ds_declare d) = TABLE_AUTHORED \<Longrightarrow>
      machineUuid (ds_declare d) = at_machineId (vs_authored s) \<and> at_machineId (vs_authored s) \<noteq> []"
proof -
  note inv = assms(1) [unfolded source_inv_def]
  show "ds_epoch d \<le> vs_epoch s" "ds_identity d \<le> vs_identity s"
    using bspec [OF inv [THEN conjunct2, THEN conjunct2, THEN conjunct2, THEN conjunct2, THEN conjunct2, THEN conjunct1] assms(2)] by simp_all
  show "table_of (ds_declare d) = table_of (ds_declare d')" if "d' \<in> set ds" "ds_epoch d = ds_epoch d'" "ds_identity d = ds_identity d'"
    using bspec [OF bspec [OF inv [THEN conjunct2, THEN conjunct2, THEN conjunct2, THEN conjunct2, THEN conjunct2, THEN conjunct2, THEN conjunct1]
      assms(2)] that(1)] that(2,3) by simp
  show "machineUuid (ds_declare d) = at_machineId (vs_authored s) \<and> at_machineId (vs_authored s) \<noteq> []"
    if "ds_epoch d = vs_epoch s" "tableKind (ds_declare d) = TABLE_AUTHORED"
    using bspec [OF inv [THEN conjunct2, THEN conjunct2, THEN conjunct2, THEN conjunct2, THEN conjunct2, THEN conjunct2, THEN conjunct2, THEN conjunct1]
      assms(2)] that by simp
qed

lemma source_inv_commits:
  assumes "source_inv n s ds cs" "(p, m) \<in> set cs"
  shows "epoch p \<le> vs_epoch s" "epoch p = vs_epoch s \<Longrightarrow> m = at_machineId (vs_authored s) \<and> m \<noteq> []"
    "d \<in> set ds \<Longrightarrow> ds_epoch d = epoch p \<Longrightarrow> tableKind (ds_declare d) = TABLE_AUTHORED \<Longrightarrow> machineUuid (ds_declare d) = m"
    "\<exists>d \<in> set ds. ds_epoch d = epoch p \<and> authored_as m d"
proof -
  note inv = assms(1) [unfolded source_inv_def]
  note rest = inv [THEN conjunct2, THEN conjunct2, THEN conjunct2, THEN conjunct2, THEN conjunct2, THEN conjunct2, THEN conjunct2, THEN conjunct2]
  show "epoch p \<le> vs_epoch s" using bspec [OF rest [THEN conjunct1] assms(2)] by simp
  show "m = at_machineId (vs_authored s) \<and> m \<noteq> []" if "epoch p = vs_epoch s" using bspec [OF rest [THEN conjunct1] assms(2)] that by auto
  show "machineUuid (ds_declare d) = m" if "d \<in> set ds" "ds_epoch d = epoch p" "tableKind (ds_declare d) = TABLE_AUTHORED"
    using bspec [OF rest [THEN conjunct2, THEN conjunct1] assms(2)] that by simp
  show "\<exists>d \<in> set ds. ds_epoch d = epoch p \<and> authored_as m d"
    using bspec [OF rest [THEN conjunct2, THEN conjunct2] assms(2)] by simp
qed

lemma source_inv_core:
  assumes "core s' = core s" "source_inv n s ds cs"
  shows "source_inv n s' ds cs"
proof -
  have c: "vs_epoch s' = vs_epoch s" "vs_identity s' = vs_identity s" "vs_authored s' = vs_authored s" "vs_posted s' = vs_posted s"
    "vs_havePosted s' = vs_havePosted s" "named s' = named s"
    using assms(1) AuthoredReady_core [OF assms(1)] by (simp_all add: core_def named_def)
  show ?thesis using assms(2) unfolding source_inv_def c .
qed

lemma source_inv_Suc: "source_inv n s ds cs \<Longrightarrow> source_inv (Suc n) s ds cs"
  unfolding source_inv_def by (elim conjE) (intro conjI; (assumption | rule le_SucI))

definition next_identity :: "session_source \<Rightarrow> u64" where
  "next_identity s = vs_identity s +
     (if vs_havePosted s \<and> vs_epoch s = ds_epoch (vs_posted s) \<and> table_of (ds_declare (vs_posted s)) \<noteq> named s then 1 else 0)"

lemma UpdateDeclare_eq:
  "\<exists>v rb l. UpdateDeclare e s = s\<lparr>vs_apiTap := v, vs_identity := next_identity s, vs_readBack := rb,
      vs_posted := \<lparr>ds_declare = declare_now e (s\<lparr>vs_apiTap := v\<rparr>), ds_epoch = vs_epoch s, ds_surfaceGeneration = de_surfaceGeneration e,
        ds_identity = next_identity s\<rparr>, vs_havePosted := True, vs_declares := l\<rparr>"
proof -
  let ?v = "Refresh (de_tap e) (vs_apiTap s)"
  let ?s = "s\<lparr>vs_apiTap := ?v\<rparr>"
  have n: "named ?s = named s" by (simp add: named_def AuthoredReady_def)
  define change where "change \<longleftrightarrow> vs_havePosted s \<and> vs_epoch s = ds_epoch (vs_posted s) \<and> table_of (ds_declare (vs_posted s)) \<noteq> named s"
  define rb where "rb = (if change then ClearScores (vs_readBack s) else vs_readBack s)"
  define now where "now = \<lparr>ds_declare = declare_now e ?s, ds_epoch = vs_epoch s, ds_surfaceGeneration = de_surfaceGeneration e, ds_identity = next_identity s\<rparr>"
  let ?t = "?s\<lparr>vs_identity := next_identity s, vs_readBack := rb\<rparr>"
  have "UpdateDeclare e s = (if vs_havePosted s \<and> now = vs_posted s then ?t
      else ?t\<lparr>vs_posted := now, vs_havePosted := True, vs_declares := latch_Post now (vs_declares s)\<rparr>)"
  proof (cases change)
    case True
    then have c: "vs_havePosted s" "ds_epoch (vs_posted s) = vs_epoch s" "table_of (ds_declare (vs_posted s)) \<noteq> named s"
      "next_identity s = vs_identity s + 1" by (simp_all add: change_def next_identity_def)
    show ?thesis unfolding UpdateDeclare_def Let_def now_def rb_def c(4) using True by (simp add: NewIdentity_table n c(1-3) cong: if_cong)
  next
    case False
    then have c: "\<not> (vs_havePosted s \<and> vs_epoch s = ds_epoch (vs_posted s) \<and> table_of (ds_declare (vs_posted s)) \<noteq> named s)"
      using change_def by simp
    have id: "next_identity s = vs_identity s" unfolding next_identity_def if_not_P [OF c] by simp
    have q: "\<not> (vs_havePosted ?s \<and> vs_epoch ?s = ds_epoch (vs_posted ?s) \<and> NewIdentity (ds_declare (vs_posted ?s)) (declare_now e ?s))"
      using c by (simp add: NewIdentity_table n)
    show ?thesis unfolding UpdateDeclare_def Let_def now_def rb_def id if_not_P [OF q] using False by simp
  qed
  moreover have "?t = ?t\<lparr>vs_posted := now, vs_havePosted := True, vs_declares := vs_declares s\<rparr>" if "vs_havePosted s \<and> now = vs_posted s"
    using that by (intro session_source.equality) simp_all
  ultimately have "\<exists>l. UpdateDeclare e s = ?t\<lparr>vs_posted := now, vs_havePosted := True, vs_declares := l\<rparr>" by metis
  then show ?thesis unfolding now_def by auto
qed

lemma UpdateDeclare_fields:
  "vs_epoch (UpdateDeclare e s) = vs_epoch s" "vs_romId (UpdateDeclare e s) = vs_romId s" "vs_authored (UpdateDeclare e s) = vs_authored s"
  "vs_havePosted (UpdateDeclare e s)" "ds_epoch (vs_posted (UpdateDeclare e s)) = vs_epoch s"
  "ds_identity (vs_posted (UpdateDeclare e s)) = next_identity s" "table_of (ds_declare (vs_posted (UpdateDeclare e s))) = named s"
  "vs_identity (UpdateDeclare e s) = next_identity s" "named (UpdateDeclare e s) = named s"
proof -
  obtain v rb l where u: "UpdateDeclare e s = s\<lparr>vs_apiTap := v, vs_identity := next_identity s, vs_readBack := rb,
      vs_posted := \<lparr>ds_declare = declare_now e (s\<lparr>vs_apiTap := v\<rparr>), ds_epoch = vs_epoch s, ds_surfaceGeneration = de_surfaceGeneration e,
        ds_identity = next_identity s\<rparr>, vs_havePosted := True, vs_declares := l\<rparr>" using UpdateDeclare_eq by blast
  have n: "named (s\<lparr>vs_apiTap := v\<rparr>) = named s" by (simp add: named_def AuthoredReady_def)
  show "vs_epoch (UpdateDeclare e s) = vs_epoch s" "vs_romId (UpdateDeclare e s) = vs_romId s" "vs_authored (UpdateDeclare e s) = vs_authored s"
    "vs_havePosted (UpdateDeclare e s)" "ds_epoch (vs_posted (UpdateDeclare e s)) = vs_epoch s"
    "ds_identity (vs_posted (UpdateDeclare e s)) = next_identity s" "table_of (ds_declare (vs_posted (UpdateDeclare e s))) = named s"
    "vs_identity (UpdateDeclare e s) = next_identity s" "named (UpdateDeclare e s) = named s"
    unfolding u by (simp_all add: n) (simp_all add: named_def AuthoredReady_def)
qed

text \<open>The step of every call that declares: \<open>s1\<close> is the state when \<open>UpdateDeclare\<close> is called.\<close>

lemma source_inv_declare:
  assumes inv: "source_inv n s ds cs" and small: "Suc n < 2 ^ 64"
    and s1: "vs_epoch s1 = vs_epoch s \<or> vs_epoch s1 = vs_epoch s + 1" "vs_identity s1 = vs_identity s" "vs_posted s1 = vs_posted s" "vs_havePosted s1"
    and machine: "vs_epoch s1 = vs_epoch s \<Longrightarrow> at_machineId (vs_authored s1) = at_machineId (vs_authored s) \<or> at_machineId (vs_authored s) = []"
  shows "source_inv (Suc n) (UpdateDeclare e s1) (ds @ declared_by s (UpdateDeclare e s1)) cs"
proof -
  let ?u = "UpdateDeclare e s1"
  note u = UpdateDeclare_fields [of e s1]
  note i = source_invD(2-7) [OF inv] and same = source_inv_posts(3) [OF inv] and aut = source_inv_posts(4) [OF inv]
  note com = source_inv_commits(1,2) [OF inv] and agree = source_inv_commits(3) [OF inv] and shown = source_inv_commits(4) [OF inv]
  have old: "ds_epoch d \<le> vs_epoch s \<and> ds_identity d \<le> vs_identity s" if "d \<in> set ds" for d
    using source_inv_posts(1,2) [OF inv that] by simp
  have up: "x \<le> w + 1 \<and> x \<noteq> w + 1" if "x \<le> w" "unat w \<le> n" for x w :: u64
  proof -
    have "unat (w + 1) = unat w + 1" using unat_plus_small [of w 1] small that(2) by simp
    with that(1) show ?thesis by (auto simp: word_le_nat_alt)
  qed
  have ep: "x \<le> vs_epoch s1" if "x \<le> vs_epoch s" for x using s1(1) up [OF that i(5)] that by auto
  have ident: "x \<le> next_identity s1" if "x \<le> vs_identity s" for x
    using up [OF that i(6)] that s1(2) by (simp add: next_identity_def)
  have bound: "unat (vs_epoch s1) \<le> Suc n" "unat (next_identity s1) \<le> Suc n"
    using s1(1,2) i(5,6) small unat_plus_small [of "vs_epoch s" 1] unat_plus_small [of "vs_identity s" 1] by (auto simp: next_identity_def)
  let ?p = "vs_posted ?u"
  have p: "ds_epoch ?p = vs_epoch s1" "ds_identity ?p = next_identity s1" "table_of (ds_declare ?p) = named s1" by (simp_all add: u)
  have set: "set (ds @ declared_by s ?u) = insert ?p (set ds)" using i(1) by (auto simp: declared_by_def)
  have fresh: "table_of (ds_declare d) = named s1"
    if "d \<in> set ds" "ds_epoch d = vs_epoch s1" "ds_identity d = next_identity s1" for d
  proof (cases "vs_epoch s1 = vs_epoch s")
    case True
    show ?thesis
    proof (cases "named s = named s1")
      case eq: True
      then have "next_identity s1 = vs_identity s" using s1 i(4) by (simp add: next_identity_def)
      with same [OF that(1) i(1)] that True i eq show ?thesis by simp
    next
      case False
      then have "next_identity s1 = vs_identity s + 1" using s1 i(2,4) True by (simp add: next_identity_def)
      with up [OF conjunct2 [OF old [OF that(1)]] i(6)] that(3) show ?thesis by simp
    qed
  next
    case False
    then have "vs_epoch s1 = vs_epoch s + 1" using s1(1) by simp
    with up [OF conjunct1 [OF old [OF that(1)]] i(5)] that(2) show ?thesis by simp
  qed
  have named_uuid: "snd (snd (named s1)) = at_machineId (vs_authored s1) \<and> at_machineId (vs_authored s1) \<noteq> []"
    if "fst (snd (named s1)) = TABLE_AUTHORED" using that by (auto simp: named_def AuthoredReady_def split: if_splits)
  have puuid: "machineUuid (ds_declare ?p) = at_machineId (vs_authored s1) \<and> at_machineId (vs_authored s1) \<noteq> []"
    if "tableKind (ds_declare ?p) = TABLE_AUTHORED" using named_uuid p(3) [symmetric] that by (simp add: table_of_def)
  have daut: "machineUuid (ds_declare d) = at_machineId (vs_authored s1) \<and> at_machineId (vs_authored s1) \<noteq> []"
    if "d \<in> set ds" "ds_epoch d = vs_epoch s1" "tableKind (ds_declare d) = TABLE_AUTHORED" for d
  proof (cases "vs_epoch s1 = vs_epoch s")
    case True
    with aut [OF that(1)] that(2,3) machine [OF True] show ?thesis by simp
  next
    case False
    then show ?thesis using s1(1) up [OF conjunct1 [OF old [OF that(1)]] i(5)] that(2) by simp
  qed
  have com1: "epoch q \<le> vs_epoch s1 \<and> (epoch q = vs_epoch s1 \<longrightarrow> m = at_machineId (vs_authored s1) \<and> m \<noteq> [])" if "(q, m) \<in> set cs" for q m
  proof (cases "vs_epoch s1 = vs_epoch s")
    case True
    with com [OF that] machine [OF True] show ?thesis by auto
  next
    case False
    then show ?thesis using s1(1) up [OF com(1) [OF that] i(5)] by auto
  qed
  show ?thesis
    unfolding source_inv_def set u
  proof (intro conjI)
    show "\<forall>d \<in> insert ?p (set ds). ds_epoch d \<le> vs_epoch s1 \<and> ds_identity d \<le> next_identity s1"
      using old ep ident p by auto
    show "\<forall>d \<in> insert ?p (set ds). \<forall>d' \<in> insert ?p (set ds). ds_epoch d = ds_epoch d' \<and> ds_identity d = ds_identity d' \<longrightarrow>
        table_of (ds_declare d) = table_of (ds_declare d')"
      using same fresh p by (metis insert_iff)
    show "\<forall>d \<in> insert ?p (set ds). ds_epoch d = vs_epoch s1 \<and> tableKind (ds_declare d) = TABLE_AUTHORED \<longrightarrow>
        machineUuid (ds_declare d) = at_machineId (vs_authored s1) \<and> at_machineId (vs_authored s1) \<noteq> []"
      using daut puuid by blast
    show "\<forall>(q, m) \<in> set cs. epoch q \<le> vs_epoch s1 \<and> (epoch q = vs_epoch s1 \<longrightarrow> m = at_machineId (vs_authored s1) \<and> m \<noteq> [])"
      using com1 by blast
    show "\<forall>(q, m) \<in> set cs. \<forall>d \<in> insert ?p (set ds). ds_epoch d = epoch q \<and> tableKind (ds_declare d) = TABLE_AUTHORED \<longrightarrow> machineUuid (ds_declare d) = m"
      using agree com1 puuid p(1) by fastforce
    show "\<forall>(q, m) \<in> set cs. \<exists>d \<in> insert ?p (set ds). ds_epoch d = epoch q \<and> authored_as m d"
      using shown by blast
  qed (use bound in \<open>simp_all add: p u\<close>)
qed

lemma core_steps:
  "core (source_TakeStatus s) = core s" "core (PostStatusNotice h s) = core s" "core (ScriptGameOp op s) = core s" "core (ScriptCommit s) = core s"
  "core (s\<lparr>vs_playerRunning := b\<rparr>) = core s"
proof -
  show t: "core (source_TakeStatus s) = core s" for s
    by (simp add: source_TakeStatus_def core_def Let_def split: prod.split option.split)
  have same: "core (s\<lparr>vs_noticeHandle := x\<rparr>) = core s" "core (s\<lparr>vs_statusPending := y\<rparr>) = core s" "core (s\<lparr>vs_statusPending := y, vs_notifier := z\<rparr>) = core s"
    "core (s\<lparr>vs_games := g\<rparr>) = core s" "core (s\<lparr>vs_ops := os\<rparr>) = core s" "core (s\<lparr>vs_notifier := z\<rparr>) = core s" for s x y z g os
    by (simp_all add: core_def)
  show "core (PostStatusNotice h s) = core s"
    by (simp only: PostStatusNotice_def Let_def split: prod.split NoticeAction.split option.split) (simp add: same t)
  show "core (ScriptGameOp op s) = core s" "core (ScriptCommit s) = core s"
    by (simp_all add: ScriptGameOp_def ScriptCommit_def Let_def same t)
  show "core (s\<lparr>vs_playerRunning := b\<rparr>) = core s" by (simp add: core_def)
qed

lemma core_posted: "core s' = core s \<Longrightarrow> vs_posted s' = vs_posted s"
  by (simp add: core_def)

lemma source_inv_call_core:
  assumes "source_inv n s ds cs" "core s' = core s"
  shows "source_inv (Suc n) s' (ds @ declared_by s s') (cs @ [])"
  using source_inv_Suc [OF source_inv_core [OF assms(2,1)]] by (simp add: declared_by_def core_posted [OF assms(2)])

lemma source_inv_declare_core:
  assumes "source_inv n s ds cs" "Suc n < 2 ^ 64"
    and "vs_epoch s1 = vs_epoch s \<or> vs_epoch s1 = vs_epoch s + 1" "vs_identity s1 = vs_identity s" "vs_posted s1 = vs_posted s" "vs_havePosted s1 = vs_havePosted s"
    and "vs_epoch s1 = vs_epoch s \<Longrightarrow> at_machineId (vs_authored s1) = at_machineId (vs_authored s) \<or> at_machineId (vs_authored s) = []"
    and "core s' = core (UpdateDeclare e s1)"
  shows "source_inv (Suc n) s' (ds @ declared_by s s') (cs @ [])"
proof -
  have "vs_havePosted s1" using assms(6) source_invD(1) [OF assms(1)] by simp
  from source_inv_core [OF assms(8) source_inv_declare [OF assms(1-5) this assms(7)]]
  have "source_inv (Suc n) s' (ds @ declared_by s (UpdateDeclare e s1)) cs" .
  moreover have "declared_by s s' = declared_by s (UpdateDeclare e s1)" by (simp add: declared_by_def core_posted [OF assms(8)])
  ultimately show ?thesis by (simp only: append_Nil2)
qed

lemma source_inv_commit:
  assumes "source_inv n s ds cs" "AuthoredReady s" "core s' = core s"
    and new: "\<And>p m. (p, m) \<in> set new \<Longrightarrow> epoch p = vs_epoch s \<and> m = at_machineId (vs_authored s)"
  shows "source_inv (Suc n) s' (ds @ declared_by s s') (cs @ new)"
proof -
  note inv = source_inv_call_core [OF assms(1,3)]
  have d: "declared_by s s' = []" by (simp add: declared_by_def core_posted [OF assms(3)])
  have c: "vs_epoch s' = vs_epoch s" "vs_authored s' = vs_authored s" using assms(3) by (simp_all add: core_def)
  have m: "at_machineId (vs_authored s) \<noteq> []" using assms(2) by (simp add: AuthoredReady_def)
  have agree: "machineUuid (ds_declare x) = m"
    if "(p, m) \<in> set new" "x \<in> set ds" "ds_epoch x = epoch p" "tableKind (ds_declare x) = TABLE_AUTHORED" for p m x
    using source_inv_posts(4) [OF assms(1) that(2)] new [OF that(1)] that(3,4) by simp
  have shown: "\<exists>x \<in> set ds. ds_epoch x = epoch p \<and> authored_as m x" if "(p, m) \<in> set new" for p m
  proof (intro bexI conjI)
    show "vs_posted s \<in> set ds" by (rule source_invD(2) [OF assms(1)])
    show "ds_epoch (vs_posted s) = epoch p" using source_invD(3) [OF assms(1)] new [OF that] by simp
    show "authored_as m (vs_posted s)"
      using source_invD(5) [OF assms(1)] new [OF that] assms(2) by (simp add: authored_as_def table_of_def named_def)
  qed
  show ?thesis
    using inv unfolding source_inv_def d append_Nil2 set_append ball_Un c
  proof (elim conjE, intro conjI)
    show "\<forall>(p, m) \<in> set new. epoch p \<le> vs_epoch s \<and> (epoch p = vs_epoch s \<longrightarrow> m = at_machineId (vs_authored s) \<and> m \<noteq> [])"
      using new m by fastforce
    show "\<forall>(p, m) \<in> set new. \<forall>d \<in> set ds. ds_epoch d = epoch p \<and> tableKind (ds_declare d) = TABLE_AUTHORED \<longrightarrow> machineUuid (ds_declare d) = m"
      using agree by blast
    show "\<forall>(p, m) \<in> set new. \<exists>d \<in> set ds. ds_epoch d = epoch p \<and> authored_as m d"
      using shown by blast
  qed assumption+
qed

lemma source_inv_step:
  assumes inv: "source_inv n s ds cs" and small: "Suc n < 2 ^ 64"
  shows "source_inv (Suc n) (source_step c s) (ds @ declared_by s (source_step c s)) (cs @ committed_by c s)"
proof (cases c)
  case (C_SetRomId e rom)
  show ?thesis unfolding C_SetRomId source_step.simps committed_by.simps SetRomId_def
    by (rule source_inv_declare_core [OF inv small]) (auto simp: core_def)
next
  case (C_GameStart e host)
  show ?thesis unfolding C_GameStart source_step.simps committed_by.simps OnGameStart_def Let_def
    by (rule source_inv_declare_core [OF inv small, rotated -1, OF core_steps(5)])
      (auto simp: bump_epoch_def unat_arith_simps split: option.split)
next
  case (C_GameEnd e)
  show ?thesis unfolding C_GameEnd source_step.simps committed_by.simps OnGameEnd_def
    by (rule source_inv_declare_core [OF inv small, rotated -1, OF refl]) (auto simp: bump_epoch_def)
next
  case (C_PrepareFrame e h)
  show ?thesis unfolding C_PrepareFrame source_step.simps committed_by.simps OnPrepareFrame_def Let_def
    by (rule source_inv_declare_core [OF inv small, rotated -1, OF core_steps(2)]) (auto simp: QueryAddressSpace_def)
next
  case (C_UpdateDeclare e)
  show ?thesis unfolding C_UpdateDeclare source_step.simps committed_by.simps
    by (rule source_inv_declare_core [OF inv small, rotated -1, OF refl]) auto
next
  case (C_DeclareMachine e m)
  obtain ok canonical where m: "CanonicalMachineId m [] = (ok, canonical)" by fastforce
  show ?thesis
  proof (cases "ok \<and> canonical \<noteq> at_machineId (vs_authored s)")
    case False
    then have "core (DeclareMachine e m s) = core s" by (auto simp: DeclareMachine_def m)
    then show ?thesis unfolding C_DeclareMachine source_step.simps committed_by.simps by (rule source_inv_call_core [OF inv])
  next
    case True
    then have d: "DeclareMachine e m s = UpdateDeclare e
        ((if at_machineId (vs_authored s) = [] then s else (bump_epoch s)\<lparr>vs_ops := []\<rparr>)\<lparr>vs_authored := (vs_authored s)\<lparr>at_machineId := canonical\<rparr>\<rparr>)"
      by (simp add: DeclareMachine_def m bump_epoch_def)
    show ?thesis unfolding C_DeclareMachine source_step.simps committed_by.simps d
      by (rule source_inv_declare_core [OF inv small, rotated -1, OF refl]) (auto simp: bump_epoch_def)
  qed
next
  case (C_GameOp op)
  show ?thesis unfolding C_GameOp source_step.simps committed_by.simps by (rule source_inv_call_core [OF inv core_steps(3)])
next
  case C_Commit
  show ?thesis
  proof (cases "vs_ops s = [] \<or> \<not> AuthoredReady s")
    case True
    then show ?thesis unfolding C_Commit source_step.simps committed_by.simps if_P [OF True] by (intro source_inv_call_core [OF inv core_steps(4)])
  next
    case False
    show ?thesis unfolding C_Commit source_step.simps committed_by.simps if_not_P [OF False]
      by (rule source_inv_commit [OF inv _ core_steps(4)]) (use False cut_ops_ok [of "vs_epoch s" "vs_ops s"] in \<open>auto simp: cut_ok_def\<close>)
  qed
next
  case C_ScriptStatus
  show ?thesis unfolding C_ScriptStatus source_step.simps committed_by.simps ScriptStatus_def Let_def snd_conv
    by (rule source_inv_call_core [OF inv core_steps(1)])
qed (simp only: source_step.simps committed_by.simps; rule source_inv_call_core [OF inv];
    simp add: core_def ScriptReadBack_def ScriptRequestTopScores_def source_TakeDeclare_def source_TakeGames_def GetFrame_def
      PushLog_def DrainLog_def Let_def split: prod.split)+

lemma source_inv_init: "source_inv 0 (VpxSessionSource e now) [vs_posted (VpxSessionSource e now)] []"
proof -
  obtain s1 where v: "VpxSessionSource e now = UpdateDeclare e s1"
    and s1: "vs_epoch s1 = 0" "vs_identity s1 = 0" "\<not> vs_havePosted s1" "vs_authored s1 = AuthoredTable0"
    unfolding VpxSessionSource_def by (simp; metis)
  note u = UpdateDeclare_fields [of e s1]
  have ready: "\<not> AuthoredReady s1" using s1(4) by (simp add: AuthoredReady_def AuthoredTable0_def)
  have kind: "tableKind (ds_declare (vs_posted (UpdateDeclare e s1))) = TABLE_ROM"
    using u(7) ready by (simp add: table_of_def named_def)
  have id: "next_identity s1 = 0" using s1 by (simp add: next_identity_def)
  show ?thesis unfolding source_inv_def v u id s1 using kind by (simp add: u s1 id)
qed

lemma source_reach_inv: "source_reach n s ds cs \<Longrightarrow> n < 2 ^ 64 \<Longrightarrow> source_inv n s ds cs"
proof (induction rule: source_reach.induct)
  case (source_init e now)
  show ?case by (rule source_inv_init)
next
  case (source_call n s ds cs s' c)
  then have "source_inv n s ds cs" by simp
  from source_inv_step [OF this source_call.prems, of c] show ?case unfolding source_call.hyps(2) .
qed

section \<open>A run with two machines\<close>

lemma UpdateDeclare_ops [simp]: "vs_ops (UpdateDeclare e s) = vs_ops s"
  using UpdateDeclare_eq [of e s] by auto

definition run_env :: declare_env where
  "run_env = \<lparr>de_pinnedVersion = ''10.8'', de_pinnedRevision = [],
     de_tap = \<lparr>tr_hasSource = False, tr_copied = None, tr_hasFrame = False, tr_generation = 0\<rparr>, de_surfaceGeneration = 0\<rparr>"

definition run_host :: vpx_info where
  "run_host = \<lparr>vi_tablePath = Some ''/t/a.vpx'', vi_vpxPath = Some ''/v'', vi_prefPath = Some ''/p''\<rparr>"

abbreviation machine_a :: string where "machine_a \<equiv> ''0a1b2c3d-0000-4000-8000-00000000000f''"
abbreviation machine_b :: string where "machine_b \<equiv> ''ffffffff-0000-4000-8000-00000000000f''"

lemma machine_ids: "CanonicalMachineId machine_a [] = (True, machine_a)" "CanonicalMachineId machine_b [] = (True, machine_b)"
proof -
  have "canonical_from 0 machine_a = Some machine_a" "canonical_from 0 machine_b = Some machine_b" by (simp_all add: hex_char_def)
  then show "CanonicalMachineId machine_a [] = (True, machine_a)" "CanonicalMachineId machine_b [] = (True, machine_b)"
    by (simp_all add: CanonicalMachineId_def)
qed

text \<open>A machine declared on a loaded table without a ROM, a game started and committed.\<close>

definition playable :: "session_source \<Rightarrow> bool" where
  "playable s \<longleftrightarrow> vs_romId s = [] \<and> at_tablePath (vs_authored s) \<noteq> [] \<and> at_vpxPath (vs_authored s) \<noteq> [] \<and> at_prefPath (vs_authored s) \<noteq> [] \<and> vs_ops s = []"

lemma run_machine:
  assumes reach: "source_reach n s ds cs" and play: "playable s" and m: "CanonicalMachineId m [] = (True, m)" "m \<noteq> at_machineId (vs_authored s)" "m \<noteq> []"
  shows "\<exists>s' ds' p. source_reach (n + 3) s' ds' (cs @ [(p, m)]) \<and> playable s' \<and> at_machineId (vs_authored s') = m \<and> vs_epoch s' = epoch p \<and>
    epoch p = vs_epoch s + (if at_machineId (vs_authored s) = [] then 0 else 1)"
proof -
  define s1 where "s1 = DeclareMachine run_env m s"
  define s2 where "s2 = ScriptGameOp (GameOp0\<lparr>opKind := GAME_START, opValue := 1\<rparr>) s1"
  define s3 where "s3 = ScriptCommit s2"
  let ?pre = "(if at_machineId (vs_authored s) = [] then s else (bump_epoch s)\<lparr>vs_ops := []\<rparr>)\<lparr>vs_authored := (vs_authored s)\<lparr>at_machineId := m\<rparr>\<rparr>"
  have "s1 = UpdateDeclare run_env ?pre" using m by (simp add: s1_def DeclareMachine_def bump_epoch_def)
  then have f1: "vs_epoch s1 = vs_epoch s + (if at_machineId (vs_authored s) = [] then 0 else 1)" "vs_romId s1 = []"
    "vs_authored s1 = (vs_authored s)\<lparr>at_machineId := m\<rparr>" "vs_ops s1 = []"
    using play by (simp_all add: UpdateDeclare_fields playable_def bump_epoch_def)
  have ready: "AuthoredReady s1" using play m(3) by (simp add: AuthoredReady_def f1 playable_def)
  have s2: "s2 = s1\<lparr>vs_ops := [GameOp0\<lparr>opKind := GAME_START, opValue := 1\<rparr>]\<rparr>"
    using ready by (simp add: s2_def ScriptGameOp_def f1 MAX_QUEUED_GAME_OPS_def)
  have ready2: "AuthoredReady s2" using ready by (simp add: s2 AuthoredReady_def)
  let ?p = "\<lparr>epoch = vs_epoch s1, batch = GameBatch0\<lparr>gameOps := [GameOp0\<lparr>opKind := GAME_START, opValue := 1\<rparr>]\<rparr>\<rparr>"
  have com: "committed_by C_Commit s2 = [(?p, m)]" using ready2 by (simp add: s2 f1 cut_op_eq cut_before_def)
  have c3: "core s3 = core s2" by (simp only: s3_def core_steps(4))
  then have f3: "vs_epoch s3 = vs_epoch s1" "vs_romId s3 = []" "vs_authored s3 = (vs_authored s)\<lparr>at_machineId := m\<rparr>"
    by (simp_all add: core_def s2 f1)
  have "vs_ops (source_TakeStatus x) = vs_ops x" for x by (simp add: source_TakeStatus_def Let_def split: prod.split option.split)
  then have o3: "vs_ops s3 = []" by (simp add: s3_def ScriptCommit_def Let_def)
  from source_call [OF reach, of s1 "C_DeclareMachine run_env m"] obtain d1 where "source_reach (Suc n) s1 d1 cs" by (auto simp: s1_def)
  from source_call [OF this, of s2 "C_GameOp _"] obtain d2 where "source_reach (Suc (Suc n)) s2 d2 cs" by (auto simp: s2_def)
  from source_call [OF this, of s3 C_Commit] obtain d3 where r: "source_reach (Suc (Suc (Suc n))) s3 d3 (cs @ [(?p, m)])"
    unfolding com by (auto simp: s3_def)
  have "playable s3" using play by (simp add: playable_def f3 o3)
  with r f1 f3 show ?thesis by (intro exI [of _ s3] exI [of _ d3] exI [of _ ?p]) (simp add: numeral_3_eq_3)
qed

lemma run_two:
  "\<exists>n s ds cs p q. source_reach n s ds cs \<and> n < 2 ^ 64 \<and> (p, machine_a) \<in> set cs \<and> (q, machine_b) \<in> set cs \<and> epoch q = epoch p + 1"
proof -
  define s0 where "s0 = VpxSessionSource run_env 0"
  define s1 where "s1 = OnGameStart run_env (Some run_host) s0"
  have f0: "vs_romId s0 = []" "vs_authored s0 = AuthoredTable0" "vs_ops s0 = []"
    by (simp_all add: s0_def VpxSessionSource_def UpdateDeclare_fields)
  have f1: "playable s1" "at_machineId (vs_authored s1) = []"
    by (simp_all add: s1_def OnGameStart_def Let_def UpdateDeclare_fields playable_def bump_epoch_def run_host_def NativePathToUtf8_def f0 AuthoredTable0_def)
  from source_init [of run_env 0] have "source_reach 0 s0 [vs_posted s0] []" by (simp only: s0_def)
  from source_call [OF this, of s1 "C_GameStart run_env (Some run_host)"] obtain d1 where r1: "source_reach 1 s1 d1 []" by (auto simp: s1_def)
  obtain s2 d2 p where r2: "source_reach 4 s2 d2 [(p, machine_a)]" "playable s2" "at_machineId (vs_authored s2) = machine_a" "vs_epoch s2 = epoch p"
    using run_machine [OF r1 f1(1) machine_ids(1)] by (auto simp: f1)
  obtain s3 d3 q where r3: "source_reach 7 s3 d3 [(p, machine_a), (q, machine_b)]" "epoch q = epoch p + 1"
    using run_machine [OF r2(1,2) machine_ids(2)] by (auto simp: r2)
  then show ?thesis by (intro exI [of _ 7] exI [of _ s3] exI [of _ d3] exI [of _ "[(p, machine_a), (q, machine_b)]"] exI [of _ p] exI [of _ q]) simp
qed

section \<open>Properties\<close>



text \<open>
  C26. The epoch and the identity of a declaration name the table: two declarations posted with the same pair are of the same ROM or
  the same authored machine, so an answer tagged with the pair, such as a high score list, is never shown for another table.
\<close>

theorem identity_names_table:
  assumes "source_reach n s ds cs" "n < 2 ^ 64" "d \<in> set ds" "d' \<in> set ds" "ds_epoch d = ds_epoch d'" "ds_identity d = ds_identity d'"
  shows "\<not> NewIdentity (ds_declare d) (ds_declare d') \<and> ds_epoch d \<le> vs_epoch s"
proof -
  note inv = source_reach_inv [OF assms(1,2)]
  from source_inv_posts(3) [OF inv assms(3,4,5,6)] source_inv_posts(1) [OF inv assms(3)] show ?thesis by (simp add: NewIdentity_table)
qed

theorem identity_names_table_witness:
  "\<exists>(d :: DeclareSnapshot) d'. d \<noteq> d' \<and> ds_epoch d = ds_epoch d' \<and> ds_identity d = ds_identity d' \<and> \<not> NewIdentity (ds_declare d) (ds_declare d')"
proof -
  define s0 where "s0 = VpxSessionSource run_env 0"
  define s1 where "s1 = UpdateDeclare (run_env\<lparr>de_surfaceGeneration := 1\<rparr>) s0"
  have gen: "ds_surfaceGeneration (vs_posted (UpdateDeclare e s)) = de_surfaceGeneration e" for e s
    using UpdateDeclare_eq [of e s] by auto
  have g: "ds_surfaceGeneration (vs_posted s0) = 0" "ds_surfaceGeneration (vs_posted s1) = 1"
    by (simp_all add: s0_def s1_def VpxSessionSource_def gen) (simp add: run_env_def)
  then have ne: "vs_posted s1 \<noteq> vs_posted s0" by auto
  from source_init [of run_env 0] have r0: "source_reach 0 s0 [vs_posted s0] []" by (simp only: s0_def)
  from source_call [OF r0, of s1 "C_UpdateDeclare (run_env\<lparr>de_surfaceGeneration := 1\<rparr>)"]
  have r1: "source_reach 1 s1 [vs_posted s0, vs_posted s1] []" using ne by (simp add: s1_def declared_by_def)
  note inv = source_reach_inv [OF r0]
  have s0: "vs_havePosted s0" "ds_epoch (vs_posted s0) = vs_epoch s0" "ds_identity (vs_posted s0) = vs_identity s0" "table_of (ds_declare (vs_posted s0)) = named s0"
    using source_invD [OF inv] by simp_all
  have eq: "ds_epoch (vs_posted s0) = ds_epoch (vs_posted s1)" "ds_identity (vs_posted s0) = ds_identity (vs_posted s1)"
    using s0 by (simp_all add: s1_def UpdateDeclare_fields next_identity_def)
  from identity_names_table [OF r1, of "vs_posted s0" "vs_posted s1"] eq ne show ?thesis
    by (intro exI [of _ "vs_posted s0"] exI [of _ "vs_posted s1"]) auto
qed

end
