(* ===== verification/Script_Binding.thy ===== *)
theory Script_Binding
  imports Source_History "HOL-Library.Log_Nat"
begin

text \<open>
  \<^verbatim>\<open>src/ScriptBinding.cpp\<close>: the \<open>Scorbit.Table\<close> object of a table's script, every member of \<open>ScorbitTable\<close>. The session is
  \<open>None\<close> once the plugin has unloaded; a member answers its result and the session it leaves. Numbers arrive as
  doubles and strings as pointers that may be null (\<open>None\<close>). A call whose arguments do not fit is ignored; the log line that says
  so, and the tables that describe the members to the host, are not modelled.
\<close>

section \<open>Checks on arguments\<close>

definition MAX_MODE_BYTES :: nat where "MAX_MODE_BYTES = 128"
definition MAX_EXACT_SCORE :: int where "MAX_EXACT_SCORE = 9007199254740992"
definition API_LEVEL :: int where "API_LEVEL = 2"

text \<open>\<open>nullptr\<close> reads as the empty string.\<close>

definition text_of :: "string option \<Rightarrow> string" where
  "text_of p = (case p of None \<Rightarrow> [] | Some s \<Rightarrow> s)"

text \<open>What the cast to an integer makes of a whole number.\<close>

fun whole_value :: "double \<Rightarrow> int" where
  "whole_value NotFinite = 0"
| "whole_value (Finite m k) = m div 2 ^ k"

fun InRange :: "double \<Rightarrow> int \<Rightarrow> int \<Rightarrow> bool" where
  "InRange NotFinite lo hi = False"
| "InRange (Finite m k) lo hi \<longleftrightarrow> 2 ^ k dvd m \<and> m \<ge> lo * 2 ^ k \<and> m \<le> hi * 2 ^ k"

definition SmallValue :: "double \<Rightarrow> u8 option" where
  "SmallValue v = (if \<not> InRange v 0 255 then None else Some (of_int (whole_value v)))"

fun exact_score :: "double \<Rightarrow> bool" where
  "exact_score NotFinite = False"
| "exact_score (Finite m k) \<longleftrightarrow> \<not> (\<bar>m\<bar> > MAX_EXACT_SCORE * 2 ^ k \<or> \<not> 2 ^ k dvd m)"

definition Of :: "u8 \<Rightarrow> GameOp" where
  "Of kind = GameOp0\<lparr>opKind := kind\<rparr>"

section \<open>Game calls\<close>

type_synonym session_ptr = "session_source option"

definition Op :: "GameOp \<Rightarrow> session_ptr \<Rightarrow> session_ptr" where
  "Op op p = (case p of None \<Rightarrow> None | Some s \<Rightarrow> Some (ScriptGameOp op s))"

definition Small :: "u8 \<Rightarrow> double \<Rightarrow> session_ptr \<Rightarrow> session_ptr" where
  "Small kind v p =
     (case p of None \<Rightarrow> None
      | Some s \<Rightarrow> (case SmallValue v of None \<Rightarrow> Some s | Some x \<Rightarrow> Op ((Of kind)\<lparr>opValue := x\<rparr>) (Some s)))"

definition Mode :: "u8 \<Rightarrow> string option \<Rightarrow> u32 \<Rightarrow> session_ptr \<Rightarrow> session_ptr" where
  "Mode kind mode secs p =
     (case p of None \<Rightarrow> None
      | Some s \<Rightarrow>
          let op = (Of kind)\<lparr>opSeconds := secs, opMode := text_of mode\<rparr> in
          if length (opMode op) > MAX_MODE_BYTES then Some s else Op op (Some s))"

definition script_Declare :: "declare_env \<Rightarrow> string option \<Rightarrow> session_ptr \<Rightarrow> session_ptr" where
  "script_Declare e machineId p = (case p of None \<Rightarrow> None | Some s \<Rightarrow> Some (DeclareMachine e (text_of machineId) s))"

definition Commit :: "session_ptr \<Rightarrow> session_ptr" where
  "Commit p = (case p of None \<Rightarrow> None | Some s \<Rightarrow> Some (ScriptCommit s))"

definition SetGameStarted :: "double \<Rightarrow> session_ptr \<Rightarrow> session_ptr" where
  "SetGameStarted origin p = Small GAME_START origin p"

definition SetGameFinished :: "session_ptr \<Rightarrow> session_ptr" where
  "SetGameFinished p = Commit (Op (Of GAME_END) p)"

definition SetCurrentBall :: "double \<Rightarrow> session_ptr \<Rightarrow> session_ptr" where
  "SetCurrentBall ball p = Small GAME_BALL ball p"

definition SetActivePlayer :: "double \<Rightarrow> session_ptr \<Rightarrow> session_ptr" where
  "SetActivePlayer plr p = Small GAME_ACTIVE_PLAYER plr p"

definition SetScore :: "double \<Rightarrow> double \<Rightarrow> double \<Rightarrow> session_ptr \<Rightarrow> session_ptr" where
  "SetScore plr score feature p =
     (case p of None \<Rightarrow> None
      | Some s \<Rightarrow>
          if \<not> exact_score score then Some s
          else (case SmallValue plr of None \<Rightarrow> Some s
                | Some x \<Rightarrow>
                    if \<not> InRange feature (- 2147483648) 2147483647 then Some s
                    else Op ((Of GAME_SCORE)\<lparr>opValue := x, opScore := of_int (whole_value score), opFeature := of_int (whole_value feature)\<rparr>)
                           (Some s)))"

definition AddMode :: "string option \<Rightarrow> session_ptr \<Rightarrow> session_ptr" where
  "AddMode mode p = Mode GAME_ADD_MODE mode 0 p"

definition AddModeExpiring :: "double \<Rightarrow> string option \<Rightarrow> session_ptr \<Rightarrow> session_ptr" where
  "AddModeExpiring secs mode p =
     (if p = None \<or> \<not> InRange secs 0 4294967295 then p else Mode GAME_ADD_MODE_EXPIRING mode (of_int (whole_value secs)) p)"

definition SetModeCompleted :: "string option \<Rightarrow> session_ptr \<Rightarrow> session_ptr" where
  "SetModeCompleted mode p = Mode GAME_MODE_COMPLETED mode 0 p"

definition RemoveMode :: "string option \<Rightarrow> session_ptr \<Rightarrow> session_ptr" where
  "RemoveMode mode p = Mode GAME_REMOVE_MODE mode 0 p"

definition ClearModes :: "session_ptr \<Rightarrow> session_ptr" where
  "ClearModes p = Op (Of GAME_CLEAR_MODES) p"

section \<open>Read-backs\<close>

definition GetApiLevel :: int where "GetApiLevel = API_LEVEL"

definition script_Status :: "session_ptr \<Rightarrow> StatusRecord option \<times> session_ptr" where
  "script_Status p =
     (case p of None \<Rightarrow> (None, None)
      | Some s \<Rightarrow> (case ScriptStatus s of (r, s) \<Rightarrow> (if inSession r \<and> haveStatus r then Some r else None, Some s)))"

definition GetSystemState :: "session_ptr \<Rightarrow> int \<times> session_ptr" where
  "GetSystemState p = (case script_Status p of (r, p) \<Rightarrow> (case r of Some r \<Rightarrow> uint (systemState (sr_status r)) | None \<Rightarrow> - 1, p))"

definition GetSessionState :: "session_ptr \<Rightarrow> int \<times> session_ptr" where
  "GetSessionState p = (case script_Status p of (r, p) \<Rightarrow> (case r of Some r \<Rightarrow> uint (sessionState (sr_status r)) | None \<Rightarrow> - 1, p))"

definition GetAuthStatus :: "session_ptr \<Rightarrow> int \<times> session_ptr" where
  "GetAuthStatus p =
     (case script_Status p of (r, p) \<Rightarrow>
        (case r of Some r \<Rightarrow> if hasAuthStatus (sr_status r) then uint (authStatus (sr_status r)) else - 1 | None \<Rightarrow> - 1, p))"

definition GetStatusText :: "session_ptr \<Rightarrow> string \<times> session_ptr" where
  "GetStatusText p = (case script_Status p of (r, p) \<Rightarrow> (case r of Some r \<Rightarrow> supportText (sr_status r) | None \<Rightarrow> [], p))"

definition GetMachineUuid :: "session_ptr \<Rightarrow> string" where
  "GetMachineUuid p = (case p of None \<Rightarrow> [] | Some s \<Rightarrow> DeclaredMachineUuid s)"

definition RequestTopScores :: "double \<Rightarrow> double \<Rightarrow> double \<Rightarrow> double \<Rightarrow> string option \<Rightarrow> session_ptr \<Rightarrow> int \<times> session_ptr" where
  "RequestTopScores sco per filt most snc p =
     (case p of None \<Rightarrow> (0, None)
      | Some s \<Rightarrow>
          (case (ScriptIndex sco 0 2, ScriptIndex per 0 5, ScriptIndex filt 0 2, ScriptIndex most 1 (uint MAX_TOP_SCORES)) of
             (Some v0, Some v1, Some v2, Some v3) \<Rightarrow>
               if length (text_of snc) > MAX_SINCE_BYTES then (0, Some s)
               else (case ScriptRequestTopScores \<lparr>TopScoresRequest.requestId = 0, scope = ucast v0, period = ucast v1, vpinFilter = ucast v2, limit = ucast v3,
                            since = text_of snc\<rparr> s of (i, s) \<Rightarrow> (sint i, Some s))
           | _ \<Rightarrow> (0, Some s)))"

text \<open>Each member tests the pointer \<open>ReadBack()\<close> before it asks again for the state it reads, so the channel is drained twice.\<close>

definition script_ReadBack :: "time_point \<Rightarrow> session_ptr \<Rightarrow> ReadBackState option \<times> session_ptr" where
  "script_ReadBack now p =
     (case p of None \<Rightarrow> (None, None)
      | Some s \<Rightarrow> (case ScriptReadBack now s of (_, s) \<Rightarrow> case ScriptReadBack now s of (r, s) \<Rightarrow> (Some r, Some s)))"

definition TopScoresResult :: "time_point \<Rightarrow> double \<Rightarrow> session_ptr \<Rightarrow> int \<times> session_ptr" where
  "TopScoresResult now i p = (case script_ReadBack now p of (r, p) \<Rightarrow> (case r of Some r \<Rightarrow> Result i r | None \<Rightarrow> SCORES_NONE, p))"

definition TopScoresAge :: "time_point \<Rightarrow> double \<Rightarrow> session_ptr \<Rightarrow> int \<times> session_ptr" where
  "TopScoresAge now i p = (case script_ReadBack now p of (r, p) \<Rightarrow> (case r of Some r \<Rightarrow> Age i now r | None \<Rightarrow> 0, p))"

definition TopScoresCount :: "time_point \<Rightarrow> double \<Rightarrow> session_ptr \<Rightarrow> int \<times> session_ptr" where
  "TopScoresCount now i p = (case script_ReadBack now p of (r, p) \<Rightarrow> (case r of Some r \<Rightarrow> Count i r | None \<Rightarrow> 0, p))"

definition script_Score :: "time_point \<Rightarrow> double \<Rightarrow> double \<Rightarrow> session_ptr \<Rightarrow> TopScoreEntry option \<times> session_ptr" where
  "script_Score now i n p = (case script_ReadBack now p of (r, p) \<Rightarrow> (case r of Some r \<Rightarrow> Score i n r | None \<Rightarrow> None, p))"

definition script_Player :: "time_point \<Rightarrow> double \<Rightarrow> session_ptr \<Rightarrow> PlayerView option \<times> session_ptr" where
  "script_Player now slot p = (case script_ReadBack now p of (r, p) \<Rightarrow> (case r of Some r \<Rightarrow> rb_Slot slot r | None \<Rightarrow> None, p))"

text \<open>The conversion of a 64-bit integer to a double: to the nearest with 53 significant bits, ties to even.\<close>

definition double_of_int :: "int \<Rightarrow> double" where
  "double_of_int v =
     (let a = nat \<bar>v\<bar>; k = floorlog 2 a - 53; q = a div 2 ^ k; r = a mod 2 ^ k;
          q = (if k > 0 \<and> (r > 2 ^ (k - 1) \<or> (r = 2 ^ (k - 1) \<and> odd q)) then q + 1 else q)
      in Finite (sgn v * int (q * 2 ^ k)) 0)"

definition TopScoresRank :: "time_point \<Rightarrow> double \<Rightarrow> double \<Rightarrow> session_ptr \<Rightarrow> int \<times> session_ptr" where
  "TopScoresRank now i n p = (case script_Score now i n p of (e, p) \<Rightarrow> (case e of Some e \<Rightarrow> uint (rank e) | None \<Rightarrow> 0, p))"

definition TopScoresScore :: "time_point \<Rightarrow> double \<Rightarrow> double \<Rightarrow> session_ptr \<Rightarrow> double \<times> session_ptr" where
  "TopScoresScore now i n p =
     (case script_Score now i n p of (e, p) \<Rightarrow> (case e of Some e \<Rightarrow> double_of_int (sint (highScore e)) | None \<Rightarrow> Finite 0 0, p))"

definition TopScoresName :: "time_point \<Rightarrow> double \<Rightarrow> double \<Rightarrow> session_ptr \<Rightarrow> string \<times> session_ptr" where
  "TopScoresName now i n p = (case script_Score now i n p of (e, p) \<Rightarrow> (case e of Some e \<Rightarrow> TopScoreEntry.displayName e | None \<Rightarrow> [], p))"

definition TopScoresInitials :: "time_point \<Rightarrow> double \<Rightarrow> double \<Rightarrow> session_ptr \<Rightarrow> string \<times> session_ptr" where
  "TopScoresInitials now i n p = (case script_Score now i n p of (e, p) \<Rightarrow> (case e of Some e \<Rightarrow> TopScoreEntry.initials e | None \<Rightarrow> [], p))"

definition TopScoresFlags :: "time_point \<Rightarrow> double \<Rightarrow> double \<Rightarrow> session_ptr \<Rightarrow> int \<times> session_ptr" where
  "TopScoresFlags now i n p = (case script_Score now i n p of (e, p) \<Rightarrow> (case e of Some e \<Rightarrow> uint (scoreFlags e) | None \<Rightarrow> 0, p))"

definition TopScoresCreated :: "time_point \<Rightarrow> double \<Rightarrow> double \<Rightarrow> session_ptr \<Rightarrow> string \<times> session_ptr" where
  "TopScoresCreated now i n p = (case script_Score now i n p of (e, p) \<Rightarrow> (case e of Some e \<Rightarrow> TopScoreEntry.created e | None \<Rightarrow> [], p))"

text \<open>The release edits the state in place.\<close>

definition ReleaseTopScores :: "time_point \<Rightarrow> double \<Rightarrow> session_ptr \<Rightarrow> session_ptr" where
  "ReleaseTopScores now i p =
     (case script_ReadBack now p of (_, None) \<Rightarrow> None | (_, Some s) \<Rightarrow> Some (s\<lparr>vs_readBack := rb_Release i (vs_readBack s)\<rparr>))"

definition script_PlayerClaimed :: "time_point \<Rightarrow> double \<Rightarrow> session_ptr \<Rightarrow> bool \<times> session_ptr" where
  "script_PlayerClaimed now slot p = (case script_Player now slot p of (v, p) \<Rightarrow> (case v of Some v \<Rightarrow> Claimed v | None \<Rightarrow> False, p))"

definition script_PlayerId :: "time_point \<Rightarrow> double \<Rightarrow> session_ptr \<Rightarrow> string \<times> session_ptr" where
  "script_PlayerId now slot p = (case script_Player now slot p of (v, p) \<Rightarrow> (case v of Some v \<Rightarrow> pv_playerId v | None \<Rightarrow> [], p))"

definition script_PlayerName :: "time_point \<Rightarrow> double \<Rightarrow> session_ptr \<Rightarrow> string \<times> session_ptr" where
  "script_PlayerName now slot p = (case script_Player now slot p of (v, p) \<Rightarrow> (case v of Some v \<Rightarrow> DisplayName v | None \<Rightarrow> [], p))"

definition script_PlayerInitials :: "time_point \<Rightarrow> double \<Rightarrow> session_ptr \<Rightarrow> string \<times> session_ptr" where
  "script_PlayerInitials now slot p = (case script_Player now slot p of (v, p) \<Rightarrow> (case v of Some v \<Rightarrow> pv_initials v | None \<Rightarrow> [], p))"

definition script_PlayerClaimLink :: "time_point \<Rightarrow> double \<Rightarrow> session_ptr \<Rightarrow> string \<times> session_ptr" where
  "script_PlayerClaimLink now slot p = (case script_Player now slot p of (v, p) \<Rightarrow> (case v of Some v \<Rightarrow> pv_claimDeeplink v | None \<Rightarrow> [], p))"

definition script_PlayerPicture :: "time_point \<Rightarrow> double \<Rightarrow> session_ptr \<Rightarrow> string \<times> session_ptr" where
  "script_PlayerPicture now slot p = (case script_Player now slot p of (v, p) \<Rightarrow> (case v of Some v \<Rightarrow> pv_picture v | None \<Rightarrow> [], p))"

section \<open>Registration\<close>

text \<open>The calls on the host, in order; whether it offers the scriptable API (\<open>offered\<close>) is its answer to the broadcast.\<close>

datatype host_call =
    GetMsgID | BroadcastMsg | RegisterScriptClass | SubmitTypeLibrary | OverrideSet | OverrideCleared | UnregisterScriptClass | ReleaseMsgID

record script_binding =
  sb_msgApi :: bool
  sb_scriptApi :: bool
  sb_session :: session_ptr

definition RegisterScriptBinding :: "bool \<Rightarrow> session_source \<Rightarrow> bool \<times> script_binding \<times> host_call list" where
  "RegisterScriptBinding offered session =
     (let b = \<lparr>sb_msgApi = True, sb_scriptApi = offered, sb_session = Some session\<rparr> in
      if \<not> sb_scriptApi b then (False, b, [GetMsgID, BroadcastMsg])
      else (True, b, [GetMsgID, BroadcastMsg, RegisterScriptClass, SubmitTypeLibrary, OverrideSet]))"

definition UnregisterScriptBinding :: "bool \<Rightarrow> script_binding \<Rightarrow> script_binding \<times> host_call list" where
  "UnregisterScriptBinding atQuit b =
     (let b = b\<lparr>sb_session := None\<rparr> in
      if atQuit then (b, [])
      else let (b, calls) = (if sb_scriptApi b then (b\<lparr>sb_scriptApi := False\<rparr>, [OverrideCleared, UnregisterScriptClass]) else (b, []))
           in if sb_msgApi b then (b\<lparr>sb_msgApi := False\<rparr>, calls @ [ReleaseMsgID]) else (b, calls))"

text \<open>Unloading undoes what loading registered, in either case, and leaves the objects that remain without a session.\<close>

lemma unregister_undoes:
  assumes "RegisterScriptBinding offered session = (ok, b, calls)" "UnregisterScriptBinding atQuit b = (b', calls')"
  shows "sb_session b' = None \<and> (\<not> atQuit \<longrightarrow> \<not> sb_msgApi b' \<and> \<not> sb_scriptApi b' \<and>
    count_list calls' UnregisterScriptClass = count_list calls RegisterScriptClass \<and> count_list calls' OverrideCleared = count_list calls OverrideSet \<and>
    count_list calls' ReleaseMsgID = count_list calls GetMsgID)"
  using assms by (auto simp: RegisterScriptBinding_def UnregisterScriptBinding_def Let_def split: if_splits)

section \<open>A script's history\<close>

datatype script_call =
    S_Declare declare_env "string option"
  | S_SetGameStarted double
  | S_SetGameFinished
  | S_SetCurrentBall double
  | S_SetActivePlayer double
  | S_SetScore double double double
  | S_AddMode "string option"
  | S_AddModeExpiring double "string option"
  | S_SetModeCompleted "string option"
  | S_RemoveMode "string option"
  | S_ClearModes
  | S_Commit
  | S_Status
  | S_RequestTopScores double double double double "string option"
  | S_ReadBack time_point
  | S_ReleaseTopScores time_point double

fun script_step :: "script_call \<Rightarrow> session_ptr \<Rightarrow> session_ptr" where
  "script_step (S_Declare e m) p = script_Declare e m p"
| "script_step (S_SetGameStarted v) p = SetGameStarted v p"
| "script_step S_SetGameFinished p = SetGameFinished p"
| "script_step (S_SetCurrentBall v) p = SetCurrentBall v p"
| "script_step (S_SetActivePlayer v) p = SetActivePlayer v p"
| "script_step (S_SetScore v w f) p = SetScore v w f p"
| "script_step (S_AddMode m) p = AddMode m p"
| "script_step (S_AddModeExpiring v m) p = AddModeExpiring v m p"
| "script_step (S_SetModeCompleted m) p = SetModeCompleted m p"
| "script_step (S_RemoveMode m) p = RemoveMode m p"
| "script_step S_ClearModes p = ClearModes p"
| "script_step S_Commit p = Commit p"
| "script_step S_Status p = snd (script_Status p)"
| "script_step (S_RequestTopScores a b c d t) p = snd (RequestTopScores a b c d t p)"
| "script_step (S_ReadBack now) p = snd (script_ReadBack now p)"
| "script_step (S_ReleaseTopScores now i) p = ReleaseTopScores now i p"

text \<open>The batches a call commits, and the reachable sessions: the script's game calls come from the members only.\<close>

fun script_commits :: "script_call \<Rightarrow> session_source \<Rightarrow> GamePost list" where
  "script_commits S_Commit s = map fst (committed_by C_Commit s)"
| "script_commits S_SetGameFinished s = map fst (committed_by C_Commit (ScriptGameOp (Of GAME_END) s))"
| "script_commits _ s = []"

inductive script_reach :: "session_source \<Rightarrow> GamePost list \<Rightarrow> bool" where
  sr_init: "script_reach (VpxSessionSource e now) []"
| sr_event: "script_reach s ps \<Longrightarrow> c \<noteq> C_Commit \<Longrightarrow> \<forall>op. c \<noteq> C_GameOp op \<Longrightarrow> script_reach (source_step c s) ps"
| sr_script: "script_reach s ps \<Longrightarrow> script_step c (Some s) = Some s' \<Longrightarrow> script_reach s' (ps @ script_commits c s)"

text \<open>An op as a member builds it: of a known kind, a mode the wire carries, and nothing the wire would drop.\<close>

definition script_op :: "GameOp \<Rightarrow> bool" where
  "script_op op \<longleftrightarrow> KnownGameOp (opKind op) \<and> length (opMode op) \<le> MAX_MODE_BYTES \<and> wire_op op = op"

definition ops_ok :: "session_source \<Rightarrow> bool" where
  "ops_ok s \<longleftrightarrow> (\<forall>op \<in> set (vs_ops s). script_op op)"

lemma script_op_bytes: "script_op op \<Longrightarrow> op_fits op \<and> length (op_bytes op) \<le> 135"
  by (auto simp: script_op_def op_fits_def op_bytes_def MAX_MODE_BYTES_def)

lemma ops_ok_GameOp: "ops_ok s \<Longrightarrow> script_op op \<Longrightarrow> ops_ok (ScriptGameOp op s)"
  by (simp add: ops_ok_def ScriptGameOp_def)

lemma ScriptCommit_ops: "vs_ops (ScriptCommit s) = []"
proof -
  have "vs_ops (source_TakeStatus x) = vs_ops x" for x by (simp add: source_TakeStatus_def Let_def split: prod.split option.split)
  then show ?thesis by (simp add: ScriptCommit_def Let_def)
qed

lemma script_ops: "script_op (Of GAME_END)" "script_op (Of GAME_CLEAR_MODES)"
  "k \<in> {GAME_START, GAME_BALL, GAME_ACTIVE_PLAYER} \<Longrightarrow> script_op ((Of k)\<lparr>opValue := x\<rparr>)"
  "script_op ((Of GAME_SCORE)\<lparr>opValue := x, opScore := y, opFeature := z\<rparr>)"
  "k \<in> {GAME_ADD_MODE, GAME_MODE_COMPLETED, GAME_REMOVE_MODE} \<Longrightarrow> length m \<le> MAX_MODE_BYTES \<Longrightarrow> script_op ((Of k)\<lparr>opSeconds := 0, opMode := m\<rparr>)"
  "length m \<le> MAX_MODE_BYTES \<Longrightarrow> script_op ((Of GAME_ADD_MODE_EXPIRING)\<lparr>opSeconds := z, opMode := m\<rparr>)"
  by (auto simp: script_op_def Of_def wire_op_def GameOp0_def KnownGameOp_def MAX_MODE_BYTES_def)

lemma ops_ok_Small:
  assumes "ops_ok s" "k \<in> {GAME_START, GAME_BALL, GAME_ACTIVE_PLAYER}" "Small k v (Some s) = Some s'"
  shows "ops_ok s'"
  using assms(1,3) ops_ok_GameOp [OF assms(1) script_ops(3) [OF assms(2)]] by (auto simp: Small_def Op_def split: option.splits)

lemma ops_ok_Mode:
  assumes "ops_ok s" "\<And>m. length m \<le> MAX_MODE_BYTES \<Longrightarrow> script_op ((Of k)\<lparr>opSeconds := z, opMode := m\<rparr>)" "Mode k m z (Some s) = Some s'"
  shows "ops_ok s'"
  using assms(1,3) ops_ok_GameOp [OF assms(1) assms(2)] by (auto simp: Mode_def Op_def Let_def not_less split: if_splits)

lemma ops_ok_Mode0:
  "ops_ok s \<Longrightarrow> k \<in> {GAME_ADD_MODE, GAME_MODE_COMPLETED, GAME_REMOVE_MODE} \<Longrightarrow> Mode k m 0 (Some s) = Some s' \<Longrightarrow> ops_ok s'"
  using ops_ok_Mode script_ops(5) by metis

lemma ops_ok_Declare: "ops_ok s \<Longrightarrow> ops_ok (DeclareMachine e m s)"
  by (auto simp: ops_ok_def DeclareMachine_def bump_epoch_def split: prod.split)

lemma script_ReadBack_eq:
  "script_ReadBack now (Some s) = (Some (fst (ScriptReadBack now (snd (ScriptReadBack now s)))), Some (snd (ScriptReadBack now (snd (ScriptReadBack now s)))))"
  by (simp add: script_ReadBack_def split: prod.split)

lemma ops_ok_ReadBack: "ops_ok (snd (ScriptReadBack now s)) = ops_ok s"
  by (simp add: ScriptReadBack_def ops_ok_def split: prod.split)

lemma ops_ok_script:
  assumes "ops_ok s" "script_step c (Some s) = Some s'"
  shows "ops_ok s'"
proof (cases c)
  case (S_Declare e m)
  with assms ops_ok_Declare show ?thesis by (auto simp: script_Declare_def)
next
  case S_SetGameFinished
  with assms show ?thesis by (auto simp: SetGameFinished_def Commit_def Op_def ops_ok_def ScriptCommit_ops)
next
  case (S_SetScore a b f)
  with assms ops_ok_GameOp [OF assms(1) script_ops(4)] show ?thesis by (auto simp: SetScore_def Op_def split: if_splits option.splits)
next
  case (S_AddModeExpiring v m)
  with assms ops_ok_Mode [OF assms(1) script_ops(6)] show ?thesis by (auto simp: AddModeExpiring_def split: if_splits)
next
  case S_ClearModes
  with assms ops_ok_GameOp [OF assms(1) script_ops(2)] show ?thesis by (auto simp: ClearModes_def Op_def)
next
  case S_Commit
  with assms show ?thesis by (auto simp: Commit_def ops_ok_def ScriptCommit_ops)
next
  case S_Status
  have "ops_ok (source_TakeStatus s)" using assms(1) by (simp add: ops_ok_def source_TakeStatus_def Let_def split: prod.split option.split)
  with S_Status assms show ?thesis by (auto simp: script_Status_def ScriptStatus_def Let_def)
next
  case (S_RequestTopScores a b d e t)
  with assms show ?thesis
    by (auto simp: RequestTopScores_def ScriptRequestTopScores_def ops_ok_def split: option.splits if_splits prod.splits)
next
  case (S_ReadBack now)
  with assms show ?thesis by (simp add: script_ReadBack_eq) (metis ops_ok_ReadBack)
next
  case (S_ReleaseTopScores now i)
  let ?t = "snd (ScriptReadBack now (snd (ScriptReadBack now s)))"
  have "s' = ?t\<lparr>vs_readBack := rb_Release i (vs_readBack ?t)\<rparr>"
    using S_ReleaseTopScores assms(2) by (simp add: ReleaseTopScores_def script_ReadBack_eq)
  moreover have "ops_ok ?t" using assms(1) by (simp only: ops_ok_ReadBack)
  ultimately show ?thesis by (simp only: ops_ok_def) simp
next
  case (S_AddMode m)
  with assms show ?thesis using ops_ok_Mode0 [OF assms(1), of GAME_ADD_MODE m s'] by (simp add: AddMode_def)
next
  case (S_SetModeCompleted m)
  with assms show ?thesis using ops_ok_Mode0 [OF assms(1), of GAME_MODE_COMPLETED m s'] by (simp add: SetModeCompleted_def)
next
  case (S_RemoveMode m)
  with assms show ?thesis using ops_ok_Mode0 [OF assms(1), of GAME_REMOVE_MODE m s'] by (simp add: RemoveMode_def)
qed (use assms ops_ok_Small [OF assms(1)] in \<open>auto simp: SetGameStarted_def SetCurrentBall_def SetActivePlayer_def\<close>)

lemma ops_ok_event:
  assumes "ops_ok s" "c \<noteq> C_Commit" "\<forall>op. c \<noteq> C_GameOp op"
  shows "ops_ok (source_step c s)"
proof -
  have t: "vs_ops (source_TakeStatus x) = vs_ops x" for x by (simp add: source_TakeStatus_def Let_def split: prod.split option.split)
  have n: "vs_ops (PostStatusNotice h x) = vs_ops x" for h x
    by (simp only: PostStatusNotice_def Let_def split: prod.split NoticeAction.split option.split) (simp add: t)
  have o: "ops_ok y" if "vs_ops y = vs_ops x \<or> vs_ops y = []" "ops_ok x" for x y using that by (auto simp: ops_ok_def)
  show ?thesis
  proof (cases c)
    case (C_GameStart e host)
    show ?thesis unfolding C_GameStart source_step.simps
      by (rule o [OF _ assms(1)]) (simp add: OnGameStart_def Let_def bump_epoch_def split: option.split)
  next
    case (C_PrepareFrame e h)
    show ?thesis unfolding C_PrepareFrame source_step.simps
      by (rule o [OF _ assms(1)]) (simp add: OnPrepareFrame_def Let_def n QueryAddressSpace_def)
  next
    case (C_DeclareMachine e m)
    with assms(1) ops_ok_Declare show ?thesis by simp
  next
    case (C_ScriptReadBack now)
    with assms(1) ops_ok_ReadBack show ?thesis by simp
  next
    case (C_ScriptStatus)
    show ?thesis unfolding C_ScriptStatus source_step.simps by (rule o [OF _ assms(1)]) (simp add: ScriptStatus_def Let_def t)
  qed (use assms(2,3) in \<open>simp_all only: source_step.simps not_True_eq_False simp_thms source_call.inject\<close>,
      (rule o [OF _ assms(1)], simp add: SetRomId_def OnGameEnd_def bump_epoch_def ScriptRequestTopScores_def source_TakeDeclare_def
        source_TakeGames_def GetFrame_def PushLog_def DrainLog_def Let_def split: prod.split)+)
qed

lemma script_cut_decodes:
  assumes "ops_ok s" "p \<in> set (foldl (cut_op ep) [] (vs_ops s))"
  shows "ValidGameBatch (batch p) \<and> Encode_GameBatch (batch p) \<noteq> [] \<and> wire_batch (batch p) = batch p"
proof -
  have cut: "cut_ok ep p" and cat: "concat (map post_ops (foldl (cut_op ep) [] (vs_ops s))) = vs_ops s"
    using cut_ops_ok [of ep "vs_ops s"] assms(2) by blast+
  have mem: "\<forall>op \<in> set (post_ops p). script_op op"
  proof
    fix op assume "op \<in> set (post_ops p)"
    then have "op \<in> set (concat (map post_ops (foldl (cut_op ep) [] (vs_ops s))))" using assms(2) by auto
    with assms(1) show "script_op op" by (simp add: cat ops_ok_def)
  qed
  then have valid: "ValidGameBatch (batch p)" using cut_ok_valid [OF cut] by (simp add: script_op_def)
  have "sum_list (map (length \<circ> op_bytes) opl) \<le> 135 * length opl" if "\<forall>op \<in> set opl. script_op op" for opl
    using that by (induction opl) (auto dest: script_op_bytes)
  from this [OF mem] have "length (batch_bytes (batch p)) \<le> 6 + 135 * length (post_ops p)"
    by (simp add: batch_bytes_def length_concat)
  also have "\<dots> \<le> MAX_PAYLOAD_BYTES" using cut by (simp add: cut_ok_def MAX_GAME_OPS_def bound_defs)
  finally have "length (batch_bytes (batch p)) \<le> MAX_PAYLOAD_BYTES" .
  moreover have "batch_bytes (batch p) \<noteq> []" by (simp add: batch_bytes_def le32_def)
  moreover have "map wire_op (post_ops p) = post_ops p" using mem by (simp add: script_op_def map_idI)
  ultimately show ?thesis using valid mem script_op_bytes by (simp add: Encode_GameBatch_bytes wire_batch_def)
qed

lemma script_reach_inv:
  "script_reach s ps \<Longrightarrow> ops_ok s \<and> (\<forall>p \<in> set ps. ValidGameBatch (batch p) \<and> Encode_GameBatch (batch p) \<noteq> [] \<and> wire_batch (batch p) = batch p)"
proof (induction rule: script_reach.induct)
  case (sr_init e now)
  show ?case by (simp add: ops_ok_def VpxSessionSource_def)
next
  case (sr_event s ps c)
  with ops_ok_event show ?case by blast
next
  case (sr_script s ps c s')
  have com: "ValidGameBatch (batch p) \<and> Encode_GameBatch (batch p) \<noteq> [] \<and> wire_batch (batch p) = batch p"
    if "p \<in> fst ` set (committed_by C_Commit t)" "ops_ok t" for p t
    using that(1) script_cut_decodes [OF that(2), of p "vs_epoch t"] by (simp add: image_comp comp_def split: if_splits)
  have "ops_ok s" using sr_script.IH by simp
  moreover have "ops_ok (ScriptGameOp (Of GAME_END) s)" by (rule ops_ok_GameOp [OF calculation script_ops(1)])
  ultimately have "\<forall>p \<in> set (script_commits c s). ValidGameBatch (batch p) \<and> Encode_GameBatch (batch p) \<noteq> [] \<and> wire_batch (batch p) = batch p"
    using com by (cases c) (simp_all only: script_commits.simps set_map list.set ball_empty, blast+)
  moreover have "ops_ok s'" using ops_ok_script [OF _ sr_script.hyps(2)] sr_script.IH by simp
  ultimately show ?case using sr_script.IH by auto
qed

section \<open>Whole numbers\<close>

text \<open>The double \<open>d\<close> is the integer \<open>n\<close>.\<close>

fun denotes :: "double \<Rightarrow> int \<Rightarrow> bool" where
  "denotes NotFinite n = False"
| "denotes (Finite m k) n \<longleftrightarrow> m = n * 2 ^ k"

lemma denotes_unique: "denotes d n \<Longrightarrow> denotes d n' \<Longrightarrow> n = n'"
  by (cases d) auto

lemma denotes_whole_value: "denotes d n \<Longrightarrow> whole_value d = n"
  by (cases d) auto

lemma InRange_denotes: "InRange d lo hi \<longleftrightarrow> (\<exists>n. denotes d n \<and> lo \<le> n \<and> n \<le> hi)"
  by (cases d) (auto simp: dvd_def mult.commute)

lemma exact_score_denotes: "exact_score d \<longleftrightarrow> (\<exists>n. denotes d n \<and> \<bar>n\<bar> \<le> MAX_EXACT_SCORE)"
proof (cases d)
  case (Finite m k)
  have "\<bar>n * 2 ^ k\<bar> \<le> MAX_EXACT_SCORE * 2 ^ k \<longleftrightarrow> \<bar>n\<bar> \<le> MAX_EXACT_SCORE" for n :: int by (simp add: abs_mult)
  then show ?thesis by (auto simp: Finite dvd_def mult.commute not_less)
qed simp

lemma SmallValue_denotes: "SmallValue d = (if \<exists>n. denotes d n \<and> 0 \<le> n \<and> n \<le> 255 then Some (of_int (whole_value d)) else None)"
  by (simp add: SmallValue_def InRange_denotes)

lemma ScriptIndex_denotes: "ScriptIndex d lo hi = Some i \<longleftrightarrow> (\<exists>n. denotes d n \<and> lo \<le> n \<and> n \<le> hi \<and> i = of_int n)"
proof (cases d)
  case (Finite m k)
  then show ?thesis by (auto simp: dvd_def mult.commute)
qed simp

section \<open>Properties\<close>

text \<open>
  C3. Whatever a script calls, and however its calls interleave with the table's events, each batch it commits fits in a message
  and arrives unchanged: the daemon decodes exactly the ops the members built, each batch a valid one of at most 256 ops.
\<close>

theorem script_batches_arrive:
  assumes "script_reach s ps" "p \<in> set ps"
  shows "Decode_GameBatch (Encode_GameBatch (batch p)) out = (True, batch p) \<and> ValidGameBatch (batch p)"
proof -
  have "ValidGameBatch (batch p)" "Encode_GameBatch (batch p) \<noteq> []" "wire_batch (batch p) = batch p"
    using script_reach_inv [OF assms(1)] assms(2) by blast+
  with game_batch.dec_enc [of "batch p" "[]" out] show ?thesis by simp
qed

theorem script_batches_arrive_witness:
  "Decode_GameBatch (Encode_GameBatch (GameBatch0\<lparr>gameOps := [Of GAME_END]\<rparr>)) GameBatch0 = (True, GameBatch0\<lparr>gameOps := [Of GAME_END]\<rparr>)"
proof -
  define s0 where "s0 = OnGameStart run_env (Some run_host) (VpxSessionSource run_env 0)"
  define s1 where "s1 = DeclareMachine run_env machine_a s0"
  let ?b = "GameBatch0\<lparr>gameOps := [Of GAME_END]\<rparr>"
  have f0: "vs_romId s0 = []" "vs_ops s0 = []" "at_machineId (vs_authored s0) = []" "at_tablePath (vs_authored s0) \<noteq> []" "at_vpxPath (vs_authored s0) \<noteq> []"
    "at_prefPath (vs_authored s0) \<noteq> []"
    by (simp_all add: s0_def OnGameStart_def VpxSessionSource_def Let_def UpdateDeclare_fields bump_epoch_def run_host_def NativePathToUtf8_def
      AuthoredTable0_def)
  have s1: "s1 = UpdateDeclare run_env (s0\<lparr>vs_authored := (vs_authored s0)\<lparr>at_machineId := machine_a\<rparr>\<rparr>)"
    using machine_ids(1) f0(3) by (simp add: s1_def DeclareMachine_def)
  have f1: "vs_romId s1 = []" "vs_ops s1 = []" "vs_authored s1 = (vs_authored s0)\<lparr>at_machineId := machine_a\<rparr>"
    using f0(1,2) by (simp_all add: s1 UpdateDeclare_fields)
  have ready: "AuthoredReady s1" using f0 by (simp add: AuthoredReady_def f1)
  have s2: "ScriptGameOp (Of GAME_END) s1 = s1\<lparr>vs_ops := [Of GAME_END]\<rparr>" using ready by (simp add: ScriptGameOp_def f1 MAX_QUEUED_GAME_OPS_def)
  have ready2: "AuthoredReady (s1\<lparr>vs_ops := [Of GAME_END]\<rparr>)" using ready by (simp add: AuthoredReady_def)
  have com: "script_commits S_SetGameFinished s1 = [\<lparr>epoch = vs_epoch s1, batch = ?b\<rparr>]"
    using ready2 by (simp add: s2 cut_op_eq cut_before_def)
  have "script_reach s0 []" unfolding s0_def
    by (rule script_reach.sr_event [of _ _ "C_GameStart run_env (Some run_host)", simplified, OF sr_init])
  from sr_script [OF this, of "S_Declare run_env (Some machine_a)" s1] have "script_reach s1 []"
    by (simp add: script_Declare_def text_of_def s1_def)
  from sr_script [OF this, of S_SetGameFinished "ScriptCommit (ScriptGameOp (Of GAME_END) s1)"]
  have "script_reach (ScriptCommit (ScriptGameOp (Of GAME_END) s1)) [\<lparr>epoch = vs_epoch s1, batch = ?b\<rparr>]"
    unfolding com by (simp add: SetGameFinished_def Commit_def Op_def)
  from script_batches_arrive [OF this, of "\<lparr>epoch = vs_epoch s1, batch = ?b\<rparr>" GameBatch0] show ?thesis by simp
qed

text \<open>
  A commit loses nothing and reorders nothing: the batches it pushes to the queue are the buffered ops cut in order, each under the
  epoch of the commit, of 1 to 256 ops, with a game's start only first and its end only last; and the buffer is empty after it.
\<close>

theorem commit_cuts_in_order:
  assumes "AuthoredReady s" "vs_ops s \<noteq> []"
  shows "\<exists>posts. vs_games (ScriptCommit s) = snd (Push posts (vs_games s)) \<and> vs_ops (ScriptCommit s) = [] \<and>
    concat (map post_ops posts) = vs_ops s \<and>
    (\<forall>p \<in> set posts. epoch p = vs_epoch s \<and> post_ops p \<noteq> [] \<and> length (post_ops p) \<le> MAX_GAME_OPS \<and>
       (\<forall>op \<in> set (tl (post_ops p)). opKind op \<noteq> GAME_START) \<and> (\<forall>op \<in> set (butlast (post_ops p)). opKind op \<noteq> GAME_END))"
proof (intro exI conjI)
  let ?posts = "foldl (cut_op (vs_epoch s)) [] (vs_ops s)"
  have ready: "AuthoredReady (s\<lparr>vs_ops := []\<rparr>)" using assms(1) by (simp add: AuthoredReady_def)
  have t: "vs_games (source_TakeStatus x) = vs_games x" "vs_epoch (source_TakeStatus x) = vs_epoch x" for x
    by (simp_all add: source_TakeStatus_def Let_def split: prod.split option.split)
  show "vs_games (ScriptCommit s) = snd (Push ?posts (vs_games s))"
    unfolding ScriptCommit_def if_not_P [OF assms(2)] using ready by (simp add: Let_def t)
  show "vs_ops (ScriptCommit s) = []" by (rule ScriptCommit_ops)
  show "concat (map post_ops ?posts) = vs_ops s"
    and "\<forall>p \<in> set ?posts. epoch p = vs_epoch s \<and> post_ops p \<noteq> [] \<and> length (post_ops p) \<le> MAX_GAME_OPS \<and>
       (\<forall>op \<in> set (tl (post_ops p)). opKind op \<noteq> GAME_START) \<and> (\<forall>op \<in> set (butlast (post_ops p)). opKind op \<noteq> GAME_END)"
    using cut_ops_ok [of "vs_epoch s" "vs_ops s"] by (simp_all add: cut_ok_def)
qed

theorem commit_cuts_in_order_witness:
  "\<exists>s posts. AuthoredReady s \<and> vs_ops s = [Of GAME_END, Of GAME_START] \<and> concat (map post_ops posts) = [Of GAME_END, Of GAME_START] \<and>
     length posts > 1"
proof -
  define s where "s = (VpxSessionSource run_env 0)\<lparr>vs_ops := [Of GAME_END, Of GAME_START],
    vs_authored := \<lparr>at_machineId = machine_a, at_tablePath = ''/t'', at_vpxPath = ''/v'', at_prefPath = ''/p''\<rparr>\<rparr>"
  have s: "AuthoredReady s" "vs_ops s = [Of GAME_END, Of GAME_START]"
    by (simp_all add: s_def AuthoredReady_def VpxSessionSource_def UpdateDeclare_fields)
  obtain posts where posts: "concat (map post_ops posts) = vs_ops s" "\<forall>p \<in> set posts. \<forall>op \<in> set (tl (post_ops p)). opKind op \<noteq> GAME_START"
    using commit_cuts_in_order [OF s(1)] s(2) by auto
  have "length posts > 1"
  proof (rule ccontr)
    assume "\<not> length posts > 1"
    with posts(1) s(2) obtain p where "posts = [p]" by (cases posts) auto
    with posts s(2) show False by (auto simp: Of_def)
  qed
  with s posts(1) show ?thesis by metis
qed

text \<open>
  C27. A score reaches the daemon as the number the script wrote, or not at all: when the player is a whole number up to 255, the score one
  within \<open>2\<^sup>5\<^sup>3\<close> and the feature a 32-bit one, exactly one op is added, whose words read as those numbers, signs included;
  otherwise, for a fraction, an infinity or a number out of range, nothing changes.
\<close>

theorem set_score_exact:
  assumes "AuthoredReady s" "length (vs_ops s) < MAX_QUEUED_GAME_OPS"
  shows "(if \<exists>x n f. denotes plr x \<and> 0 \<le> x \<and> x \<le> 255 \<and> denotes score n \<and> \<bar>n\<bar> \<le> 2 ^ 53 \<and> denotes feature f \<and> - (2 ^ 31) \<le> f \<and> f < 2 ^ 31
    then \<exists>op. SetScore plr score feature (Some s) = Some (s\<lparr>vs_ops := vs_ops s @ [op]\<rparr>) \<and> opKind op = GAME_SCORE \<and>
      denotes plr (uint (opValue op)) \<and> denotes score (sint (opScore op)) \<and> denotes feature (sint (opFeature op))
    else SetScore plr score feature (Some s) = Some s)"
proof (cases "\<exists>x n f. denotes plr x \<and> 0 \<le> x \<and> x \<le> 255 \<and> denotes score n \<and> \<bar>n\<bar> \<le> 2 ^ 53 \<and> denotes feature f \<and> - (2 ^ 31) \<le> f \<and> f < 2 ^ 31")
  case True
  then obtain x n f where d: "denotes plr x" "denotes score n" "denotes feature f"
    and b: "0 \<le> x" "x \<le> 255" "\<bar>n\<bar> \<le> 2 ^ 53" "- (2 ^ 31) \<le> f" "f < 2 ^ 31" by blast
  note w = d [THEN denotes_whole_value]
  let ?op = "(Of GAME_SCORE)\<lparr>opValue := of_int x, opScore := of_int n, opFeature := of_int f\<rparr>"
  have ok: "exact_score score" "InRange feature (- 2147483648) 2147483647" "SmallValue plr = Some (of_int x)"
    using d b by (auto simp: exact_score_denotes InRange_denotes SmallValue_denotes MAX_EXACT_SCORE_def w(1))
  have "SetScore plr score feature (Some s) = Some (s\<lparr>vs_ops := vs_ops s @ [?op]\<rparr>)"
    using assms by (simp add: SetScore_def ok Op_def ScriptGameOp_def w)
  moreover have "uint (of_int x :: u8) = x" using b by (simp add: uint_word_of_int)
  moreover have "sint (of_int n :: u64) = n" "sint (of_int f :: u32) = f"
    using b signed_take_bit_int_eq_self [of 63 n] signed_take_bit_int_eq_self [of 31 f] by (simp_all add: signed_of_int)
  ultimately show ?thesis unfolding if_P [OF True] using d by (intro exI [of _ ?op]) (simp add: Of_def)
next
  case False
  have "SetScore plr score feature (Some s) = Some s"
  proof (cases "exact_score score \<and> SmallValue plr \<noteq> None")
    case ok: True
    then have "\<not> InRange feature (- 2147483648) 2147483647" using False
      by (fastforce simp: exact_score_denotes InRange_denotes SmallValue_denotes MAX_EXACT_SCORE_def split: if_splits)
    with ok show ?thesis by (auto simp: SetScore_def)
  qed (auto simp: SetScore_def)
  then show ?thesis unfolding if_not_P [OF False] .
qed

theorem set_score_exact_witness:
  "\<exists>s op. SetScore (Finite 2 1) (Finite (- 500) 0) (Finite 0 0) (Some s) = Some (s\<lparr>vs_ops := vs_ops s @ [op]\<rparr>) \<and> opValue op = 1 \<and> sint (opScore op) = - 500 \<and>
     SetScore (Finite 1 0) (Finite 129 1) (Finite 0 0) (Some s) = Some s"
proof -
  define s where "s = (VpxSessionSource run_env 0)\<lparr>vs_ops := [],
    vs_authored := \<lparr>at_machineId = machine_a, at_tablePath = ''/t'', at_vpxPath = ''/v'', at_prefPath = ''/p''\<rparr>\<rparr>"
  have s: "AuthoredReady s" "length (vs_ops s) < MAX_QUEUED_GAME_OPS"
    by (simp_all add: s_def AuthoredReady_def VpxSessionSource_def UpdateDeclare_fields MAX_QUEUED_GAME_OPS_def)
  have y: "\<exists>x n f. denotes (Finite 2 1) x \<and> 0 \<le> x \<and> x \<le> 255 \<and> denotes (Finite (- 500) 0) n \<and> \<bar>n\<bar> \<le> 2 ^ 53 \<and> denotes (Finite 0 0) f \<and> - (2 ^ 31) \<le> f \<and> f < 2 ^ 31"
    by (intro exI [of _ 1] exI [of _ "- 500"] exI [of _ 0]) simp
  have n: "\<not> (\<exists>x n f. denotes (Finite 1 0) x \<and> 0 \<le> x \<and> x \<le> 255 \<and> denotes (Finite 129 1) n \<and> \<bar>n\<bar> \<le> 2 ^ 53 \<and> denotes (Finite 0 0) f \<and> - (2 ^ 31) \<le> f \<and> f < 2 ^ 31)"
  proof -
    have "(129 :: int) \<noteq> n * 2" for n by presburger
    then show ?thesis by simp
  qed
  from set_score_exact [OF s, of "Finite 2 1" "Finite (- 500) 0" "Finite 0 0", unfolded if_P [OF y]]
  obtain op where op: "SetScore (Finite 2 1) (Finite (- 500) 0) (Finite 0 0) (Some s) = Some (s\<lparr>vs_ops := vs_ops s @ [op]\<rparr>)"
    "uint (opValue op) = 1" "sint (opScore op) = - 500" by auto
  from op(2) have "opValue op = 1" by (simp add: word_uint_eq_iff)
  with op set_score_exact [OF s, of "Finite 1 0" "Finite 129 1" "Finite 0 0", unfolded if_not_P [OF n]] show ?thesis by blast
qed

text \<open>
  C28. A script's request for top scores is admitted only as a request the daemon accepts: the answer is \<open>0\<close> and nothing is queued, or
  it is the positive id of exactly one new request, tagged with the epoch and identity of the table, whose arguments are
  the script's numbers, each in the range the protocol allows.
\<close>

theorem top_scores_request_valid:
  assumes "RequestTopScores a b c d t (Some s) = (i, Some s')" "1 \<le> ch_nextId (vs_channel s)" "ch_nextId (vs_channel s) \<le> 0x7FFFFFFF"
  shows "if i = 0 then ch_requests (vs_channel s') = ch_requests (vs_channel s)
    else \<exists>r. ch_requests (vs_channel s') = ch_requests (vs_channel s) @ [\<lparr>ask_epoch = vs_epoch s, ask_identity = vs_identity s, ask_request = r\<rparr>] \<and>
      ValidRequest r \<and> i = uint (TopScoresRequest.requestId r) \<and> i > 0 \<and> denotes a (uint (scope r)) \<and> denotes b (uint (period r)) \<and>
      denotes c (uint (vpinFilter r)) \<and> denotes d (uint (limit r)) \<and> since r = text_of t"
proof -
  let ?c = "vs_channel s" and ?i = "ch_nextId (vs_channel s)"
  have sint: "sint ?i = uint ?i"
  proof -
    have "uint ?i < 2 ^ 31" using assms(3) by (simp add: word_le_def)
    moreover have "- (2 ^ 31) \<le> uint ?i" by (rule order_trans [OF _ uint_ge_0]) simp
    ultimately show ?thesis using signed_take_bit_int_eq_self [of 31 "uint ?i"] by (simp only: sint_uint) simp
  qed
  have pos: "uint ?i > 0" using assms(2) by (simp add: word_le_def)
  show ?thesis
  proof (cases "i = 0")
    case True
    have "sint ?i \<noteq> 0" using sint pos by simp
    with assms(1) have "ch_requests (vs_channel s') = ch_requests ?c" unfolding True
      by (auto simp: RequestTopScores_def ScriptRequestTopScores_def Request_def Let_def split: option.splits if_splits)
    with True show ?thesis by simp
  next
    case False
    then obtain v0 v1 v2 v3 where v: "ScriptIndex a 0 2 = Some v0" "ScriptIndex b 0 5 = Some v1" "ScriptIndex c 0 2 = Some v2"
      "ScriptIndex d 1 (uint MAX_TOP_SCORES) = Some v3" and len: "length (text_of t) \<le> MAX_SINCE_BYTES"
      using assms(1) by (auto simp: RequestTopScores_def split: option.splits if_splits)
    let ?r = "\<lparr>TopScoresRequest.requestId = 0, scope = ucast v0, period = ucast v1, vpinFilter = ucast v2, limit = ucast v3, since = text_of t\<rparr>"
    have admitted: "\<not> (\<not> ch_leaderboards ?c \<or> length (ch_requests ?c) \<ge> MAX_QUEUED)"
    proof
      assume "\<not> ch_leaderboards ?c \<or> length (ch_requests ?c) \<ge> MAX_QUEUED"
      with assms(1) len have "i = 0" by (simp add: RequestTopScores_def v ScriptRequestTopScores_def Request_def)
      with False show False ..
    qed
    define r where "r = ?r\<lparr>TopScoresRequest.requestId := ?i\<rparr>"
    have new: "i = sint ?i" "ch_requests (vs_channel s') = ch_requests ?c @ [\<lparr>ask_epoch = vs_epoch s, ask_identity = vs_identity s, ask_request = r\<rparr>]"
      using assms(1) len admitted by (auto simp: RequestTopScores_def v ScriptRequestTopScores_def Request_def Let_def r_def)
    obtain n0 n1 n2 n3 where n: "denotes a n0" "denotes b n1" "denotes c n2" "denotes d n3"
      and b: "0 \<le> n0" "n0 \<le> 2" "0 \<le> n1" "n1 \<le> 5" "0 \<le> n2" "n2 \<le> 2" "1 \<le> n3" "n3 \<le> 20"
      and w: "v0 = of_int n0" "v1 = of_int n1" "v2 = of_int n2" "v3 = of_int n3"
      using v unfolding ScriptIndex_denotes by (auto simp: MAX_TOP_SCORES_def)
    have u: "uint (ucast (of_int k :: u32) :: u8) = k" if "0 \<le> k" "k \<le> 20" for k
      using that by (simp add: unsigned_ucast_eq uint_word_of_int take_bit_int_eq_self)
    have fields: "uint (scope r) = n0" "uint (period r) = n1" "uint (vpinFilter r) = n2" "uint (limit r) = n3" "since r = text_of t"
      "TopScoresRequest.requestId r = ?i"
      using u b by (simp_all add: r_def w)
    have "ValidRequest r" using b len by (simp add: ValidRequest_def word_le_def fields MAX_TOP_SCORES_def)
    with False new sint pos n fields show ?thesis by auto
  qed
qed

theorem top_scores_request_valid_witness:
  "\<exists>s s' r. RequestTopScores (Finite 0 0) (Finite 10 1) (Finite 2 0) (Finite 20 0) None (Some s) = (1, Some s') \<and>
     ch_requests (vs_channel s') = [r] \<and> ValidRequest (ask_request r) \<and> uint (limit (ask_request r)) = 20"
proof -
  define s where "s = (VpxSessionSource run_env 0)\<lparr>vs_channel := SetLeaderboards True ReadBackChannel_init\<rparr>"
  obtain i s' where q: "RequestTopScores (Finite 0 0) (Finite 10 1) (Finite 2 0) (Finite 20 0) None (Some s) = (i, Some s')"
    by (cases "RequestTopScores (Finite 0 0) (Finite 10 1) (Finite 2 0) (Finite 20 0) None (Some s)")
      (auto simp: RequestTopScores_def MAX_TOP_SCORES_def text_of_def split: option.splits if_splits prod.splits)
  have i: "i = 1" using q
    by (simp add: RequestTopScores_def MAX_TOP_SCORES_def text_of_def MAX_SINCE_BYTES_def ScriptRequestTopScores_def Request_def s_def
      SetLeaderboards_def ReadBackChannel_init_def MAX_QUEUED_def Let_def)
  have c: "ch_nextId (vs_channel s) = 1" "ch_requests (vs_channel s) = []"
    by (simp_all add: s_def SetLeaderboards_def ReadBackChannel_init_def)
  from top_scores_request_valid [OF q] i c
  obtain r where "ch_requests (vs_channel s') = [r]" "ValidRequest (ask_request r)" "denotes (Finite 20 0) (uint (limit (ask_request r)))" by auto
  with q i show ?thesis by (intro exI [of _ s] exI [of _ s'] exI [of _ r]) simp
qed

end
