(* ===== verification/Sha256.thy ===== *)
theory Sha256
  imports Prelude
begin

text \<open>
  The digest of \<^verbatim>\<open>src/DmdOverlay.cpp\<close> (\<open>Sha256\<close> and \<open>Sha256Hex\<close>): the block function, the streaming buffer, and the padding written
  through it byte by byte. The reference it is proved against pads the whole message first and then takes it block by block.
  The buffer is modelled as the bytes it holds (\<open>bufLen\<close> of them); what lies past them is never read.
\<close>

section \<open>The block function\<close>

type_synonym sha_vars = "u32 \<times> u32 \<times> u32 \<times> u32 \<times> u32 \<times> u32 \<times> u32 \<times> u32"

record Sha256 =
  sha_h :: sha_vars
  sha_buf :: bytes
  sha_total :: u64

definition Sha256_init :: Sha256 where
  "Sha256_init = \<lparr>sha_h = (0x6A09E667, 0xBB67AE85, 0x3C6EF372, 0xA54FF53A, 0x510E527F, 0x9B05688C, 0x1F83D9AB, 0x5BE0CD19),
     sha_buf = [], sha_total = 0\<rparr>"

definition rotr :: "u32 \<Rightarrow> nat \<Rightarrow> u32" where
  "rotr x n = drop_bit n x OR push_bit (32 - n) x"

text \<open>The table of constants, by rows of eight.\<close>

definition k_row :: "nat \<Rightarrow> u32 list" where
  "k_row r = (
     if r = 0 then [0x428A2F98, 0x71374491, 0xB5C0FBCF, 0xE9B5DBA5, 0x3956C25B, 0x59F111F1, 0x923F82A4, 0xAB1C5ED5]
     else if r = 1 then [0xD807AA98, 0x12835B01, 0x243185BE, 0x550C7DC3, 0x72BE5D74, 0x80DEB1FE, 0x9BDC06A7, 0xC19BF174]
     else if r = 2 then [0xE49B69C1, 0xEFBE4786, 0x0FC19DC6, 0x240CA1CC, 0x2DE92C6F, 0x4A7484AA, 0x5CB0A9DC, 0x76F988DA]
     else if r = 3 then [0x983E5152, 0xA831C66D, 0xB00327C8, 0xBF597FC7, 0xC6E00BF3, 0xD5A79147, 0x06CA6351, 0x14292967]
     else if r = 4 then [0x27B70A85, 0x2E1B2138, 0x4D2C6DFC, 0x53380D13, 0x650A7354, 0x766A0ABB, 0x81C2C92E, 0x92722C85]
     else if r = 5 then [0xA2BFE8A1, 0xA81A664B, 0xC24B8B70, 0xC76C51A3, 0xD192E819, 0xD6990624, 0xF40E3585, 0x106AA070]
     else if r = 6 then [0x19A4C116, 0x1E376C08, 0x2748774C, 0x34B0BCB5, 0x391C0CB3, 0x4ED8AA4A, 0x5B9CCA4F, 0x682E6FF3]
     else [0x748F82EE, 0x78A5636F, 0x84C87814, 0x8CC70208, 0x90BEFFFA, 0xA4506CEB, 0xBEF9A3F7, 0xC67178F2])"

definition sha_k :: "u32 list" where
  "sha_k = concat (map k_row [0..<8])"

definition be_word :: "bytes \<Rightarrow> nat \<Rightarrow> u32" where
  "be_word p i = push_bit 24 (ucast (p ! (i * 4))) OR push_bit 16 (ucast (p ! (i * 4 + 1))) OR push_bit 8 (ucast (p ! (i * 4 + 2))) OR
     ucast (p ! (i * 4 + 3))"

definition next_w :: "u32 list \<Rightarrow> u32" where
  "next_w w =
     (let i = length w;
          s0 = rotr (w ! (i - 15)) 7 XOR rotr (w ! (i - 15)) 18 XOR drop_bit 3 (w ! (i - 15));
          s1 = rotr (w ! (i - 2)) 17 XOR rotr (w ! (i - 2)) 19 XOR drop_bit 10 (w ! (i - 2))
      in w ! (i - 16) + s0 + w ! (i - 7) + s1)"

definition message_words :: "bytes \<Rightarrow> u32 list" where
  "message_words p = ((\<lambda>w. w @ [next_w w]) ^^ 48) (map (be_word p) [0..<16])"

fun sha_round :: "sha_vars \<Rightarrow> u32 \<times> u32 \<Rightarrow> sha_vars" where
  "sha_round (a, b, c, d, e, f, g, hh) (k, w) =
     (let S1 = rotr e 6 XOR rotr e 11 XOR rotr e 25;
          ch = (e AND f) XOR (NOT e AND g);
          t1 = hh + S1 + ch + k + w;
          S0 = rotr a 2 XOR rotr a 13 XOR rotr a 22;
          maj = (a AND b) XOR (a AND c) XOR (b AND c);
          t2 = S0 + maj
      in (t1 + t2, a, b, c, d + t1, e, f, g))"

fun add_vars :: "sha_vars \<Rightarrow> sha_vars \<Rightarrow> sha_vars" where
  "add_vars (a, b, c, d, e, f, g, hh) (a', b', c', d', e', f', g', hh') =
     (a + a', b + b', c + c', d + d', e + e', f + f', g + g', hh + hh')"

definition sha_block :: "sha_vars \<Rightarrow> bytes \<Rightarrow> sha_vars" where
  "sha_block h p = add_vars h (foldl sha_round h (zip sha_k (message_words p)))"

section \<open>The stream\<close>

text \<open>How far a buffer is from 56 bytes.\<close>

lemma zeros_left: "n < 64 \<Longrightarrow> (120 - n) mod 64 = (if n \<le> 56 then 56 - n else 120 - (n :: nat))"
proof (cases "n \<le> 56")
  case True
  then have "120 - n = (56 - n) + 64" by simp
  then have "(120 - n) mod 64 = (56 - n) mod 64" by (simp only: mod_add_self2)
  with True show ?thesis by simp
qed simp

lemma zeros_left_Suc:
  assumes "n < 64" "n \<noteq> 56"
  shows "(120 - n) mod 64 = Suc ((120 - Suc n mod 64) mod (64 :: nat))"
proof (cases "n = 63")
  case False
  with assms have "Suc n < 64" by simp
  with zeros_left [OF this] zeros_left [OF assms(1)] assms(2) show ?thesis by (auto split: if_splits)
qed simp

lemma zeros_after_one: "(120 - Suc n mod 64) mod 64 = (119 - n mod 64) mod (64 :: nat)"
  by (simp add: mod_Suc)

lemma padded_whole: "(n + (1 + ((119 - n mod 64) mod 64 + 8))) mod 64 = (0 :: nat)"
proof -
  let ?r = "n mod 64"
  have "?r + (1 + ((120 - Suc ?r) mod 64 + 8)) \<in> {64, 128}"
  proof (cases "?r = 63")
    case False
    have "?r < 64" by simp
    with False have "Suc ?r < 64" by linarith
    from zeros_left [OF this] this show ?thesis by (auto split: if_splits)
  qed simp
  then have "(?r + (1 + ((120 - Suc ?r) mod 64 + 8))) mod 64 = 0" by (elim insertE emptyE) (simp_all only:, simp_all)
  then have "(?r + (1 + ((119 - ?r) mod 64 + 8))) mod 64 = 0" by simp
  then show ?thesis by (simp add: mod_add_left_eq)
qed

function sha_consume :: "bytes \<Rightarrow> Sha256 \<Rightarrow> Sha256" where
  "sha_consume p s =
     (if p = [] \<or> length (sha_buf s) \<ge> 64 then s
      else let n = min (length p) (64 - length (sha_buf s));
               buf = sha_buf s @ take n p;
               s = (if length buf = 64 then s\<lparr>sha_h := sha_block (sha_h s) buf, sha_buf := []\<rparr> else s\<lparr>sha_buf := buf\<rparr>)
           in sha_consume (drop n p) s)"
  by pat_completeness auto
termination by (relation "measure (\<lambda>(p, s). length p)") auto

declare sha_consume.simps [simp del]

text \<open>The buffer holds fewer than 64 bytes between calls, so the loop's second guard never stops it.\<close>

definition sha_update :: "bytes \<Rightarrow> Sha256 \<Rightarrow> Sha256" where
  "sha_update p s = sha_consume p (s\<lparr>sha_total := sha_total s + of_nat (length p)\<rparr>)"

function sha_zeros :: "Sha256 \<Rightarrow> Sha256" where
  "sha_zeros s = (if length (sha_buf s) = 56 \<or> length (sha_buf s) \<ge> 64 then s else sha_zeros (sha_update [0] s))"
  by pat_completeness auto
termination
proof (relation "measure (\<lambda>s. (120 - length (sha_buf s)) mod 64)", goal_cases)
  case (2 s)
  then have l: "length (sha_buf s) < 64" "length (sha_buf s) \<noteq> 56" by simp_all
  have "length (sha_buf (sha_update [0] s)) = (if length (sha_buf s) = 63 then 0 else Suc (length (sha_buf s)))"
    using l by (simp add: sha_update_def sha_consume.simps)
  then have "length (sha_buf (sha_update [0] s)) = Suc (length (sha_buf s)) mod 64" using l by auto
  with zeros_left_Suc [OF l] show ?case by simp
qed simp

declare sha_zeros.simps [simp del]

definition be_bytes :: "u64 \<Rightarrow> bytes" where
  "be_bytes bits = map (\<lambda>i. ucast (drop_bit (56 - 8 * i) bits)) [0..<8]"

definition hex_of_vars :: "sha_vars \<Rightarrow> string" where
  "hex_of_vars h =
     (case h of (a, b, c, d, e, f, g, hh) \<Rightarrow>
        concat (map (\<lambda>v. map (\<lambda>i. ''0123456789abcdef'' ! unat (drop_bit (28 - 4 * i) v AND 0xF)) [0..<8]) [a, b, c, d, e, f, g, hh]))"

definition sha_hex :: "Sha256 \<Rightarrow> string" where
  "sha_hex s =
     (let bits = sha_total s * 8;
          s = sha_zeros (sha_update [0x80] s)
      in hex_of_vars (sha_h (sha_update (be_bytes bits) s)))"

definition Sha256Hex :: "bytes \<Rightarrow> string" where
  "Sha256Hex p = sha_hex (sha_update p Sha256_init)"

section \<open>The reference\<close>

text \<open>The whole blocks of a message, one after the other, and what is left over.\<close>

function absorb :: "sha_vars \<Rightarrow> bytes \<Rightarrow> sha_vars \<times> bytes" where
  "absorb h p = (if length p < 64 then (h, p) else absorb (sha_block h (take 64 p)) (drop 64 p))"
  by pat_completeness auto
termination by (relation "measure (\<lambda>(h, p). length p)") auto

declare absorb.simps [simp del]

text \<open>The padded message: a one bit, zeros up to the last eight bytes of a block, and the length in bits.\<close>

definition sha_padded :: "bytes \<Rightarrow> bytes" where
  "sha_padded p = p @ [0x80] @ replicate ((119 - length p mod 64) mod 64) 0 @ be_bytes (of_nat (8 * length p))"

lemma absorb_append: "absorb h (p @ q) = (case absorb h p of (h', r) \<Rightarrow> absorb h' (r @ q))"
proof (induction h p rule: absorb.induct)
  case (1 h p)
  show ?case
  proof (cases "length p < 64")
    case True
    then show ?thesis by (simp add: absorb.simps [of h p])
  next
    case False
    then have "absorb h (p @ q) = absorb (sha_block h (take 64 p)) (drop 64 p @ q)" by (subst absorb.simps) simp
    with False 1 show ?thesis by (simp add: absorb.simps [of h p])
  qed
qed

lemma length_absorb: "length (snd (absorb h p)) = length p mod 64"
proof (induction h p rule: absorb.induct)
  case (1 h p)
  show ?case
  proof (cases "length p < 64")
    case False
    with 1 show ?thesis by (subst absorb.simps) (simp add: le_mod_geq not_less)
  qed (simp add: absorb.simps [of h p])
qed

lemma consume_absorb:
  "length (sha_buf s) < 64 \<Longrightarrow> sha_consume p s = (case absorb (sha_h s) (sha_buf s @ p) of (h, r) \<Rightarrow> s\<lparr>sha_h := h, sha_buf := r\<rparr>)"
proof (induction p s rule: sha_consume.induct)
  case (1 p s)
  show ?case
  proof (cases "p = []")
    case True
    with 1(2) show ?thesis by (simp add: sha_consume.simps absorb.simps)
  next
    case ne: False
    with 1(2) have go: "\<not> (p = [] \<or> length (sha_buf s) \<ge> 64)" by simp
    let ?n = "min (length p) (64 - length (sha_buf s))"
    let ?buf = "sha_buf s @ take ?n p"
    let ?s = "if length ?buf = 64 then s\<lparr>sha_h := sha_block (sha_h s) ?buf, sha_buf := []\<rparr> else s\<lparr>sha_buf := ?buf\<rparr>"
    have step: "sha_consume p s = sha_consume (drop ?n p) ?s"
      unfolding sha_consume.simps [of p s] if_not_P [OF go] by (simp only: Let_def)
    have "length (sha_buf ?s) < 64" using 1(2) by auto
    from 1(1) [OF go refl refl refl this]
    have ih: "sha_consume (drop ?n p) ?s = (case absorb (sha_h ?s) (sha_buf ?s @ drop ?n p) of (h, r) \<Rightarrow> ?s\<lparr>sha_h := h, sha_buf := r\<rparr>)" .
    show ?thesis
    proof (cases "length (sha_buf s) + length p < 64")
      case True
      then have n: "?n = length p" by simp
      show ?thesis unfolding step ih unfolding n using True by (simp add: absorb.simps)
    next
      case False
      then have n: "?n = 64 - length (sha_buf s)" and full: "length ?buf = 64" using 1(2) by simp_all
      have whole: "?buf = take 64 (sha_buf s @ p)" "drop ?n p = drop 64 (sha_buf s @ p)" using 1(2) by (simp_all add: n)
      have "absorb (sha_h s) (sha_buf s @ p) = absorb (sha_block (sha_h s) ?buf) (drop ?n p)"
        using False unfolding whole by (subst absorb.simps) simp
      then show ?thesis unfolding step ih using full by (simp split: prod.split)
    qed
  qed
qed

lemma update_absorb:
  "length (sha_buf s) < 64 \<Longrightarrow> sha_update p s =
    (case absorb (sha_h s) (sha_buf s @ p) of (h, r) \<Rightarrow> s\<lparr>sha_h := h, sha_buf := r, sha_total := sha_total s + of_nat (length p)\<rparr>)"
  by (simp add: sha_update_def consume_absorb split: prod.split)

lemma update_buf: "length (sha_buf s) < 64 \<Longrightarrow> length (sha_buf (sha_update p s)) = (length (sha_buf s) + length p) mod 64"
  using length_absorb [of "sha_h s" "sha_buf s @ p"] by (cases "absorb (sha_h s) (sha_buf s @ p)") (simp add: update_absorb)

lemma update_update:
  assumes "length (sha_buf s) < 64"
  shows "sha_update q (sha_update p s) = sha_update (p @ q) s"
proof -
  have "length (sha_buf (sha_update p s)) < 64" using update_buf [OF assms] by simp
  then show ?thesis using assms absorb_append [of "sha_h s" "sha_buf s @ p" q]
    by (simp add: update_absorb split: prod.split_asm prod.split)
qed

lemma zeros_update:
  "length (sha_buf s) < 64 \<Longrightarrow> sha_zeros s = sha_update (replicate ((120 - length (sha_buf s)) mod 64) 0) s"
proof (induction s rule: sha_zeros.induct)
  case (1 s)
  let ?l = "length (sha_buf s)"
  show ?case
  proof (cases "?l = 56")
    case True
    then show ?thesis by (simp add: sha_zeros.simps sha_update_def sha_consume.simps)
  next
    case False
    with 1(2) have go: "\<not> (?l = 56 \<or> ?l \<ge> 64)" by simp
    have l: "length (sha_buf (sha_update [0] s)) = Suc ?l mod 64" using update_buf [OF 1(2), of "[0]"] by simp
    note z = zeros_left_Suc [OF 1(2) False]
    have "sha_zeros s = sha_zeros (sha_update [0] s)" unfolding sha_zeros.simps [of s] if_not_P [OF go] ..
    also have "\<dots> = sha_update (replicate ((120 - Suc ?l mod 64) mod 64) 0) (sha_update [0] s)" using 1(1) [OF go] unfolding l by simp
    finally show ?thesis unfolding update_update [OF 1(2)] z by simp
  qed
qed

section \<open>Properties\<close>

text \<open>
  C33. The digest is the reference's, and however the bytes are handed over: for every message, however long, the streamed buffer with its
  padding written through it absorbs exactly the blocks of the padded message, a whole number of them; and handing a message over in two parts
  is handing it over at once.
\<close>

theorem sha256_streams:
  "Sha256Hex p = hex_of_vars (fst (absorb (sha_h Sha256_init) (sha_padded p))) \<and>
    length (sha_padded p) mod 64 = 0 \<and>
    sha_hex (sha_update b (sha_update a Sha256_init)) = Sha256Hex (a @ b)"
proof (intro conjI)
  have i: "length (sha_buf Sha256_init) < 64" "sha_buf Sha256_init = []" "sha_total Sha256_init = 0" by (simp_all add: Sha256_init_def)
  let ?s = "sha_update [0x80] (sha_update p Sha256_init)"
  have s: "?s = sha_update (p @ [0x80]) Sha256_init" by (rule update_update [OF i(1)])
  have total: "sha_total (sha_update p Sha256_init) = of_nat (length p)"
    using i by (simp add: update_absorb split: prod.split)
  have l: "length (sha_buf ?s) = Suc (length p) mod 64" unfolding s update_buf [OF i(1)] by (simp add: i(2))
  have z: "(120 - length (sha_buf ?s)) mod 64 = (119 - length p mod 64) mod 64" unfolding l by (rule zeros_after_one)
  have "sha_zeros ?s = sha_update (replicate ((119 - length p mod 64) mod 64) 0) ?s"
    using zeros_update [of ?s] unfolding z by (simp add: l)
  also have "\<dots> = sha_update (p @ [0x80] @ replicate ((119 - length p mod 64) mod 64) 0) Sha256_init"
    unfolding s update_update [OF i(1)] by simp
  finally have "sha_update (be_bytes (of_nat (length p) * 8)) (sha_zeros ?s) = sha_update (sha_padded p) Sha256_init"
    using update_update [OF i(1)] by (simp add: sha_padded_def mult.commute)
  then have "Sha256Hex p = hex_of_vars (sha_h (sha_update (sha_padded p) Sha256_init))"
    by (simp add: Sha256Hex_def sha_hex_def Let_def total)
  then show "Sha256Hex p = hex_of_vars (fst (absorb (sha_h Sha256_init) (sha_padded p)))"
    using i by (simp add: update_absorb split: prod.split)
  from padded_whole [of "length p"] show "length (sha_padded p) mod 64 = 0" by (simp add: sha_padded_def be_bytes_def)
  show "sha_hex (sha_update b (sha_update a Sha256_init)) = Sha256Hex (a @ b)"
    by (simp only: Sha256Hex_def update_update [OF i(1)])
qed

end
