(* ===== verification/Dmd_Overlay.thy ===== *)
theory Dmd_Overlay
  imports Overlay Override_Chain
begin

text \<open>
  \<^verbatim>\<open>src/DmdOverlay.h\<close> and \<^verbatim>\<open>src/DmdOverlay.cpp\<close>: the overlay delivered as overrides of the host's display sources. The API thread keeps the
  list of overrides in step with the display list (\<open>Apply\<close>), render threads read one override each, under its mutex
  (\<open>GetRenderFrame\<close>); each function here is one critical section. A display source is the host's; callbacks and addresses are
  numbers, \<open>0\<close> the null one, and the host compares sources field by field. What a broadcast brings back, the display lists other plugins
  make the host report inside it, is an argument. Shading is floating point in the code: its rounded results are arguments. Log lines
  are not modelled; the digest one of them shows is in \<open>Sha256\<close>.
\<close>

section \<open>Display sources\<close>

datatype frame_format = LUM32F | SRGB888 | SRGB565 | FormatOther

datatype identify_format = IdNone | IdBitplane2 | IdBitplane4

record CtlResId =
  ri_endpointId :: u32
  ri_resId :: u32

definition CtlResId0 :: CtlResId where "CtlResId0 = \<lparr>ri_endpointId = 0, ri_resId = 0\<rparr>"

text \<open>The two halves as the one number the code compares.\<close>

definition res_word :: "CtlResId \<Rightarrow> u64" where
  "res_word i = word_cat (ri_resId i) (ri_endpointId i)"

record DisplaySrcId =
  di_id :: CtlResId
  di_overrideId :: CtlResId
  di_callContext :: nat
  di_width :: u32
  di_height :: u32
  di_hardware :: u32
  di_frameFormat :: frame_format
  di_getRenderFrame :: nat
  di_identifyFormat :: identify_format
  di_getIdentifyFrame :: nat

fun BytesPerPixel :: "frame_format \<Rightarrow> nat" where
  "BytesPerPixel LUM32F = 4"
| "BytesPerPixel SRGB888 = 3"
| "BytesPerPixel SRGB565 = 2"
| "BytesPerPixel FormatOther = 0"

section \<open>State\<close>

record Target =
  tg_source :: DisplaySrcId
  tg_identify :: bool
  tg_baseWidth :: u32
  tg_baseHeight :: u32
  tg_sixteenShades :: bool

text \<open>One listed override; its address is the context its callbacks get.\<close>

record Entry =
  en_address :: nat
  en_target :: Target
  en_listed :: DisplaySrcId
  en_bytesPerPixel :: nat
  en_live :: bool
  en_servedDark :: bool
  en_out :: "bytes \<times> bytes"
  en_dark :: bytes
  en_next :: bool
  en_srcFrameId :: u32
  en_outFrameId :: u32
  en_lastComposited :: bool
  en_record :: overlay_record
  en_recordSequence :: u64
  en_platform :: "Platform option"
  en_idBlank :: bytes
  en_lastIdFrameId :: u32

datatype overlay_message_op = OP_UPLOAD | OP_SHOW | OP_HIDE | OP_OTHER

record DropEvent =
  de_op :: overlay_message_op
  de_bytes :: bytes

record dmd_overlay =
  do_endpointId :: u32
  do_detached :: bool
  do_applyPending :: bool
  do_platformKnown :: bool
  do_nextResId :: u16
  do_entries :: "Entry list"
  do_retired :: "(Entry \<times> time_point) list"
  do_controller :: u32
  do_platform :: Platform
  do_surface :: bool
  do_surfaceGeneration :: u64
  do_compositedFrames :: u64
  do_sources :: "DisplaySrcId list"
  do_cache :: overlay_cache
  do_dropDir :: string
  do_dropRunning :: bool
  do_dropQueue :: "DropEvent list"
  do_live :: bool

definition DmdOverlay :: "u32 \<Rightarrow> dmd_overlay" where
  "DmdOverlay endpoint = \<lparr>do_endpointId = endpoint, do_detached = False, do_applyPending = False, do_platformKnown = False, do_nextResId = 1,
     do_entries = [], do_retired = [], do_controller = 0, do_platform = Unknown, do_surface = False, do_surfaceGeneration = 0,
     do_compositedFrames = 0, do_sources = [], do_cache = OverlayCache, do_dropDir = [], do_dropRunning = False, do_dropQueue = [], do_live = True\<rparr>"

definition RETIRE_AFTER :: int where "RETIRE_AFTER = seconds 1"

section \<open>Which sources to override\<close>

text \<open>The list as the subscription fills it, and what the filter leaves of it.\<close>

definition OnGetDisplays :: "nat \<Rightarrow> dmd_overlay \<Rightarrow> nat \<times> (nat \<Rightarrow> DisplaySrcId option) \<Rightarrow> nat \<times> (nat \<Rightarrow> DisplaySrcId option)" where
  "OnGetDisplays maxEntryCount o1 msg =
     foldl (\<lambda>(count, slots) e. (count + 1, if count < maxEntryCount then slots(count \<mapsto> en_listed e) else slots)) msg (do_entries o1)"

definition overlay_FilterSources :: "dmd_overlay \<Rightarrow> DisplaySrcId list \<Rightarrow> DisplaySrcId list" where
  "overlay_FilterSources o1 items = filter (\<lambda>s. \<not> ri_endpointId (di_id s) = do_endpointId o1) items"

text \<open>The loop that picks the root, by its position.\<close>

definition root_candidate :: "u32 \<Rightarrow> DisplaySrcId \<Rightarrow> bool" where
  "root_candidate controller s \<longleftrightarrow> \<not> (ri_endpointId (di_id s) \<noteq> controller \<or> di_getRenderFrame s = 0) \<and>
     \<not> (di_frameFormat s \<noteq> LUM32F \<and> di_frameFormat s \<noteq> SRGB888)"

definition root_better :: "DisplaySrcId list \<Rightarrow> nat option \<Rightarrow> nat \<Rightarrow> bool" where
  "root_better all root i \<longleftrightarrow> (case root of None \<Rightarrow> True
     | Some r \<Rightarrow> di_width (all ! i) * di_height (all ! i) > di_width (all ! r) * di_height (all ! r))"

definition find_root :: "u32 \<Rightarrow> DisplaySrcId list \<Rightarrow> nat option" where
  "find_root controller all =
     foldl (\<lambda>root i. if root_candidate controller (all ! i) \<and> root_better all root i then Some i else root) None [0..<length all]"

definition find_node :: "DisplaySrcId list \<Rightarrow> u64 \<Rightarrow> nat option" where
  "find_node all i = find (\<lambda>k. res_word (di_id (all ! k)) = i) [0..<length all]"

definition target_of :: "DisplaySrcId list \<Rightarrow> nat \<Rightarrow> nat \<Rightarrow> Target" where
  "target_of all r k = \<lparr>tg_source = all ! k, tg_identify = (k = r \<and> di_getIdentifyFrame (all ! k) \<noteq> 0), tg_baseWidth = di_width (all ! r),
     tg_baseHeight = di_height (all ! r), tg_sixteenShades = (di_identifyFormat (all ! r) = IdBitplane4)\<rparr>"

definition overridable :: "DisplaySrcId \<Rightarrow> bool" where
  "overridable s \<longleftrightarrow> \<not> (di_getRenderFrame s = 0 \<or> BytesPerPixel (di_frameFormat s) = 0 \<or> di_width s = 0 \<or> di_height s = 0)"

definition override_chain :: "dmd_overlay \<Rightarrow> Source list" where
  "override_chain o1 =
     map (\<lambda>s. \<lparr>source_id = res_word (di_id s), overrides = res_word (di_overrideId s), ours = False\<rparr>) (do_sources o1) @
     map (\<lambda>e. \<lparr>source_id = res_word (di_id (en_listed e)), overrides = res_word (di_id (tg_source (en_target e))), ours = True\<rparr>) (do_entries o1)"

definition Desired :: "dmd_overlay \<Rightarrow> Target list" where
  "Desired o1 =
     (let all = do_sources o1 in
      if do_controller o1 = 0 \<or> do_detached o1 then []
      else case find_root (do_controller o1) all of None \<Rightarrow> []
      | Some r \<Rightarrow>
          if di_width (all ! r) = 0 \<or> di_height (all ! r) = 0 then []
          else List.map_filter (\<lambda>i. case find_node all i of None \<Rightarrow> None
                 | Some k \<Rightarrow> if \<not> overridable (all ! k) then None else Some (target_of all r k))
               (Targets (override_chain o1) (res_word (di_id (all ! r)))))"

definition NeedsApply :: "dmd_overlay \<Rightarrow> bool" where
  "NeedsApply o1 =
     (let desired = Desired o1 in
      if length desired \<noteq> length (do_entries o1) then True
      else \<exists>e \<in> set (do_entries o1). \<not> en_live e \<or> en_target e \<notin> set desired)"

section \<open>Keeping the overrides\<close>

definition ScheduleApply :: "dmd_overlay \<Rightarrow> dmd_overlay" where
  "ScheduleApply o1 = (if do_applyPending o1 then o1 else o1\<lparr>do_applyPending := True\<rparr>)"

definition UpdateSurface :: "dmd_overlay \<Rightarrow> dmd_overlay" where
  "UpdateSurface o1 =
     (let any = (\<exists>e \<in> set (do_entries o1). en_live e) in
      if do_surface o1 \<noteq> any then o1\<lparr>do_surface := any, do_surfaceGeneration := do_surfaceGeneration o1 + 1\<rparr> else o1)"

definition DarkenStale :: "dmd_overlay \<Rightarrow> dmd_overlay" where
  "DarkenStale o1 =
     UpdateSurface (o1\<lparr>do_entries := map (\<lambda>e. if tg_source (en_target e) \<in> set (do_sources o1) then e else e\<lparr>en_live := False\<rparr>) (do_entries o1)\<rparr>)"

definition overlay_OnSourcesChanged :: "dmd_overlay \<Rightarrow> dmd_overlay" where
  "overlay_OnSourcesChanged o1 =
     (let o1 = DarkenStale o1 in if \<not> do_detached o1 \<and> NeedsApply o1 then ScheduleApply o1 else o1)"

text \<open>A display list the host reports.\<close>

definition sources_report :: "DisplaySrcId list \<Rightarrow> dmd_overlay \<Rightarrow> dmd_overlay" where
  "sources_report items o1 = overlay_OnSourcesChanged (o1\<lparr>do_sources := overlay_FilterSources o1 items\<rparr>)"

definition Broadcast :: "DisplaySrcId list list \<Rightarrow> dmd_overlay \<Rightarrow> dmd_overlay" where
  "Broadcast reports o1 = fold sources_report reports o1"

definition overlay_SetController :: "u32 \<Rightarrow> dmd_overlay \<Rightarrow> dmd_overlay" where
  "overlay_SetController controller o1 =
     (let o1 = o1\<lparr>do_controller := controller, do_platformKnown := False, do_platform := Unknown\<rparr>
      in if \<not> do_detached o1 \<and> NeedsApply o1 then ScheduleApply o1 else o1)"

definition record0 :: overlay_record where
  "record0 = \<lparr>rec_width = 0, rec_height = 0, rec_enabled = 0, rec_untilHidden = 0, rec_hideAt = 0, rec_pixels = []\<rparr>"

text \<open>\<open>at\<close> is where the entry is allocated; \<open>render\<close> and \<open>identify\<close> are the addresses of the two callbacks.\<close>

definition RENDER_CALLBACK :: nat where "RENDER_CALLBACK = 1"
definition IDENTIFY_CALLBACK :: nat where "IDENTIFY_CALLBACK = 2"

definition MakeEntry :: "nat \<Rightarrow> Target \<Rightarrow> dmd_overlay \<Rightarrow> Entry \<times> dmd_overlay" where
  "MakeEntry at t o1 =
     (let s = tg_source t; bpp = BytesPerPixel (di_frameFormat s); n = unat (di_width s) * unat (di_height s);
          blank = replicate (n * bpp) 0;
          listed = \<lparr>di_id = \<lparr>ri_endpointId = do_endpointId o1, ri_resId = ucast (do_nextResId o1)\<rparr>, di_overrideId = di_id s, di_callContext = at,
            di_width = di_width s, di_height = di_height s, di_hardware = di_hardware s, di_frameFormat = di_frameFormat s,
            di_getRenderFrame = RENDER_CALLBACK, di_identifyFormat = (if tg_identify t then di_identifyFormat s else IdNone),
            di_getIdentifyFrame = (if tg_identify t then IDENTIFY_CALLBACK else 0)\<rparr>
      in (\<lparr>en_address = at, en_target = t, en_listed = listed, en_bytesPerPixel = bpp, en_live = True, en_servedDark = False, en_out = (blank, blank),
            en_dark = blank, en_next = False, en_srcFrameId = 0, en_outFrameId = 0, en_lastComposited = False, en_record = record0,
            en_recordSequence = 0, en_platform = None, en_idBlank = (if tg_identify t then replicate n 0 else []), en_lastIdFrameId = 0\<rparr>,
          o1\<lparr>do_nextResId := (if do_nextResId o1 + 1 = 0xFFFF then 1 else do_nextResId o1 + 1)\<rparr>))"

text \<open>The two loops of \<open>Apply\<close>.\<close>

definition wanted :: "Target list \<Rightarrow> Entry \<Rightarrow> bool" where
  "wanted desired e \<longleftrightarrow> en_live e \<and> en_target e \<in> set desired"

definition withdraw :: "time_point \<Rightarrow> Target list \<Rightarrow> dmd_overlay \<Rightarrow> bool \<times> dmd_overlay" where
  "withdraw now desired o1 =
     (\<exists>e \<in> set (do_entries o1). \<not> wanted desired e,
      o1\<lparr>do_entries := filter (wanted desired) (do_entries o1),
         do_retired := do_retired o1 @ map (\<lambda>e. (e\<lparr>en_live := False\<rparr>, now)) (filter (\<lambda>e. \<not> wanted desired e) (do_entries o1))\<rparr>)"

fun add_entries :: "nat list \<Rightarrow> Target list \<Rightarrow> bool \<times> dmd_overlay \<Rightarrow> bool \<times> dmd_overlay" where
  "add_entries ats [] st = st"
| "add_entries ats (t # ts) (added, o1) =
     (if \<exists>e \<in> set (do_entries o1). en_target e = t then add_entries (tl ats) ts (added, o1)
      else case MakeEntry (hd ats) t o1 of (e, o1) \<Rightarrow> add_entries (tl ats) ts (True, o1\<lparr>do_entries := do_entries o1 @ [e]\<rparr>))"

text \<open>\<open>ats\<close> are the addresses of the allocations, \<open>withdrawn\<close> and \<open>published\<close> the display lists reported inside the two broadcasts.\<close>

definition Apply :: "time_point \<Rightarrow> nat list \<Rightarrow> DisplaySrcId list list \<Rightarrow> DisplaySrcId list list \<Rightarrow> dmd_overlay \<Rightarrow> dmd_overlay" where
  "Apply now ats withdrawn published o1 =
     (let o1 = o1\<lparr>do_retired := filter (\<lambda>r. \<not> now - snd r \<ge> RETIRE_AFTER) (do_retired o1)\<rparr>;
          desired = Desired o1
      in case withdraw now desired o1 of (removed, o1) \<Rightarrow>
         let o1 = (if removed then Broadcast withdrawn o1 else o1);
             desired = (if removed then Desired o1 else desired)
         in case add_entries ats desired (False, o1) of (added, o1) \<Rightarrow>
         let o1 = (if added then Broadcast published o1 else o1);
             o1 = (if removed \<or> added then o1\<lparr>do_surfaceGeneration := do_surfaceGeneration o1 + 1\<rparr> else o1)
         in UpdateSurface o1)"

definition OnDeferredApply :: "time_point \<Rightarrow> nat list \<Rightarrow> DisplaySrcId list list \<Rightarrow> DisplaySrcId list list \<Rightarrow> dmd_overlay \<Rightarrow> dmd_overlay" where
  "OnDeferredApply now ats withdrawn published o1 =
     (if \<not> do_live o1 \<or> \<not> do_applyPending o1 \<or> do_detached o1 then o1
      else Apply now ats withdrawn published (o1\<lparr>do_applyPending := False\<rparr>))"

text \<open>The drop worker's thread starts and stops with \<open>do_dropRunning\<close>.\<close>

definition SetDropDir :: "string \<Rightarrow> dmd_overlay \<Rightarrow> dmd_overlay" where
  "SetDropDir dir o1 =
     (let o1 = o1\<lparr>do_dropRunning := False, do_dropDir := dir\<rparr> in if dir = [] then o1 else o1\<lparr>do_dropRunning := True\<rparr>)"

definition Detach :: "dmd_overlay \<Rightarrow> dmd_overlay" where
  "Detach o1 =
     (if do_detached o1 then o1
      else SetDropDir [] (o1\<lparr>do_detached := True, do_entries := map (\<lambda>e. e\<lparr>en_live := False\<rparr>) (do_entries o1), do_surface := False\<rparr>))"

definition DmdOverlay_destroy :: "time_point \<Rightarrow> dmd_overlay \<Rightarrow> dmd_overlay" where
  "DmdOverlay_destroy now o1 =
     (let o1 = Detach (o1\<lparr>do_live := False\<rparr>);
          o1 = o1\<lparr>do_retired := do_retired o1 @ map (\<lambda>e. (e, now)) (do_entries o1), do_entries := []\<rparr>
      in o1\<lparr>do_retired := []\<rparr>)"

section \<open>The overlay's operations\<close>

record ScorbitOverlayMsg =
  om_version :: int
  om_op :: overlay_message_op
  om_payload :: bytes
  om_durationMs :: u32
  om_applied :: int

definition HasSurface :: "dmd_overlay \<Rightarrow> bool" where "HasSurface o1 = do_surface o1"

definition overlay_Control :: "bool \<Rightarrow> u32 \<Rightarrow> time_point \<Rightarrow> dmd_overlay \<Rightarrow> dmd_overlay" where
  "overlay_Control enable duration now o1 =
     (let o1 = o1\<lparr>do_cache := oc_Control enable duration now (do_cache o1)\<rparr> in if enable then o1\<lparr>do_compositedFrames := 0\<rparr> else o1)"

definition overlay_Store :: "bytes \<Rightarrow> dmd_overlay \<Rightarrow> Upload \<times> dmd_overlay" where
  "overlay_Store pl o1 = (case oc_Store pl (do_cache o1) of (r, c) \<Rightarrow> (r, o1\<lparr>do_cache := c\<rparr>))"

definition overlay_Clear :: "dmd_overlay \<Rightarrow> dmd_overlay" where
  "overlay_Clear o1 = o1\<lparr>do_cache := oc_Clear (do_cache o1)\<rparr>"

definition overlay_DrainPending :: "bool \<Rightarrow> dmd_overlay \<Rightarrow> dmd_overlay" where
  "overlay_DrainPending free o1 = (if \<not> do_detached o1 then o1\<lparr>do_cache := DrainPending free (do_cache o1)\<rparr> else o1)"

text \<open>A message is \<open>None\<close> when its data is null; \<open>free\<close> is whether the writers' mutex is.\<close>

definition OnOverlayMsg :: "bool \<Rightarrow> time_point \<Rightarrow> ScorbitOverlayMsg option \<Rightarrow> dmd_overlay \<Rightarrow> ScorbitOverlayMsg option \<times> dmd_overlay" where
  "OnOverlayMsg free now data o1 =
     (case data of None \<Rightarrow> (None, o1)
      | Some msg \<Rightarrow>
          if om_version msg \<noteq> 1 then (Some msg, o1)
          else let msg = msg\<lparr>om_applied := 0\<rparr>; accepted = Some (msg\<lparr>om_applied := 1\<rparr>) in
          if \<not> HasSurface o1 then (Some msg, o1)
          else case om_op msg of
            OP_UPLOAD \<Rightarrow>
              (if ov_Check (om_payload msg) \<noteq> Stored then (Some msg, o1)
               else case PostUpload free (om_payload msg) (do_cache o1) of (ok, c) \<Rightarrow> (if ok then accepted else Some msg, o1\<lparr>do_cache := c\<rparr>))
          | OP_SHOW \<Rightarrow>
              (case PostControl free True (om_durationMs msg) now (do_cache o1) of (ok, c) \<Rightarrow>
                 if \<not> ok then (Some msg, o1\<lparr>do_cache := c\<rparr>) else (accepted, o1\<lparr>do_cache := c, do_compositedFrames := 0\<rparr>))
          | OP_HIDE \<Rightarrow>
              (case PostControl free False 0 now (do_cache o1) of (ok, c) \<Rightarrow> (if ok then accepted else Some msg, o1\<lparr>do_cache := c\<rparr>))
          | OP_OTHER \<Rightarrow> (Some msg, o1))"

definition QueryPlatform :: "u64 \<Rightarrow> dmd_overlay \<Rightarrow> dmd_overlay" where
  "QueryPlatform hardwareGen o1 =
     (if do_platformKnown o1 \<or> do_controller o1 = 0 then o1
      else if hardwareGen = 0 then o1
      else o1\<lparr>do_platformKnown := True, do_platform := PlatformOf hardwareGen\<rparr>)"

text \<open>One round of the drop worker over its two files: the times seen, and what each file is now (its time, its bytes).\<close>

definition drop_round :: "(int \<times> bytes) option \<times> (int \<times> bytes) option \<Rightarrow> int \<times> int \<Rightarrow> dmd_overlay \<Rightarrow> (int \<times> int) \<times> dmd_overlay" where
  "drop_round files seen o1 =
     (let look = (\<lambda>file was. case file of None \<Rightarrow> (was, []) | Some (t, bs) \<Rightarrow> if t = was then (was, []) else (t, bs));
          (t0, up) = look (fst files) (fst seen); (t1, ctl) = look (snd files) (snd seen);
          events = (if up = [] then [] else [\<lparr>de_op = OP_UPLOAD, de_bytes = up\<rparr>]) @
            (if ctl = [] then [] else [\<lparr>de_op = (if hd ctl AND 1 \<noteq> 0 then OP_SHOW else OP_HIDE), de_bytes = ctl\<rparr>])
      in ((t0, t1), o1\<lparr>do_dropQueue := do_dropQueue o1 @ events\<rparr>))"

definition drop_message :: "DropEvent \<Rightarrow> ScorbitOverlayMsg" where
  "drop_message ev = \<lparr>om_version = 1, om_op = de_op ev, om_payload = (if de_op ev = OP_UPLOAD then de_bytes ev else []),
     om_durationMs = (if de_op ev = OP_SHOW \<and> length (de_bytes ev) \<ge> 3 then push_bit 8 (ucast (de_bytes ev ! 1)) OR ucast (de_bytes ev ! 2) else 0),
     om_applied = 0\<rparr>"

text \<open>Each drained event is broadcast as a message, which this plugin answers; \<open>free\<close> says of each whether it finds the mutex free.\<close>

definition DrainDrops :: "(nat \<Rightarrow> bool) \<Rightarrow> time_point \<Rightarrow> dmd_overlay \<Rightarrow> dmd_overlay" where
  "DrainDrops free now o1 =
     (let pending = do_dropQueue o1; o1 = o1\<lparr>do_dropQueue := []\<rparr>
      in fold (\<lambda>i o1. snd (OnOverlayMsg (free i) now (Some (drop_message (pending ! i))) o1)) [0..<length pending] o1)"

definition overlay_OnPrepareFrame :: "u64 \<Rightarrow> bool \<Rightarrow> (nat \<Rightarrow> bool) \<Rightarrow> time_point \<Rightarrow> dmd_overlay \<Rightarrow> dmd_overlay" where
  "overlay_OnPrepareFrame hardwareGen free frees now o1 =
     (let o1 = QueryPlatform hardwareGen o1; o1 = o1\<lparr>do_cache := DrainPending free (do_cache o1)\<rparr> in DrainDrops frees now o1)"

end
