(* ===== verification/Overlay_Render.thy ===== *)
theory Overlay_Render
  imports Dmd_Overlay
begin

text \<open>
  The render path of \<^verbatim>\<open>src/DmdOverlay.cpp\<close>: what an override serves when a consumer asks it for a frame, and the compositing of the bitmap
  over the target's frame. The target's own frame and whether the sequence lock tore every copy are given with the call.
\<close>

section \<open>Compositing\<close>

text \<open>The rounded shades of a luminance: the bytes of its 32-bit float, its 8-bit code, and its five- and six-bit codes.\<close>

record shading =
  sh_float :: "nat \<times> nat \<Rightarrow> bytes"
  sh_code8 :: "nat \<times> nat \<Rightarrow> u8"
  sh_code5 :: "nat \<times> nat \<Rightarrow> u16"
  sh_code6 :: "nat \<times> nat \<Rightarrow> u16"

abbreviation (input) TRANSPARENT_BIT :: u8 where "TRANSPARENT_BIT \<equiv> 0x80"

definition le_pair :: "u16 \<Rightarrow> bytes" where
  "le_pair v = [ucast v, ucast (drop_bit 8 v)]"

text \<open>The bytes an opaque pixel puts at a dot, by the target's format.\<close>

definition dot_bytes :: "shading \<Rightarrow> frame_format \<Rightarrow> nat \<times> nat \<Rightarrow> bytes" where
  "dot_bytes sh format lum =
     (if format = LUM32F then sh_float sh lum
      else if format = SRGB888 then [sh_code8 sh lum, sh_code8 sh lum, sh_code8 sh lum]
      else le_pair (push_bit 11 (sh_code5 sh lum) OR push_bit 5 (sh_code6 sh lum) OR sh_code5 sh lum))"

definition put_bytes :: "nat \<Rightarrow> bytes \<Rightarrow> bytes \<Rightarrow> bytes" where
  "put_bytes i bs out = take i out @ bs @ drop (i + length bs) out"

text \<open>The base dot an output dot covers, along one axis.\<close>

definition base_dot :: "nat \<Rightarrow> u32 \<Rightarrow> u32 \<Rightarrow> u32" where
  "base_dot n base side = of_nat (n * unat base div unat side)"

definition outside :: "u32 \<Rightarrow> u32 \<Rightarrow> u32 \<Rightarrow> bool" where
  "outside b start len \<longleftrightarrow> b < start \<or> b \<ge> start + len"

definition composite_dot :: "shading \<Rightarrow> Platform \<Rightarrow> Target \<Rightarrow> overlay_record \<Rightarrow> Placement \<Rightarrow> nat \<Rightarrow> nat \<Rightarrow> bytes \<Rightarrow> bytes" where
  "composite_dot sh platform t r at y x out =
     (let by = base_dot y (tg_baseHeight t) (di_height (tg_source t));
          bx = base_dot x (tg_baseWidth t) (di_width (tg_source t));
          row = unat (srcY at + (by - dstY at)) * unat (rec_width r) + unat (srcX at)
      in if outside bx (dstX at) (placedWidth at) then out
         else let px = rec_pixels r ! (row + unat (bx - dstX at)) in
           if px AND TRANSPARENT_BIT \<noteq> 0 then out
           else let i = y * unat (di_width (tg_source t)) + x; bs = dot_bytes sh (di_frameFormat (tg_source t)) (Luminance platform px (tg_sixteenShades t))
                in put_bytes (i * length bs) bs out)"

definition composite_row :: "shading \<Rightarrow> Platform \<Rightarrow> Target \<Rightarrow> overlay_record \<Rightarrow> Placement \<Rightarrow> nat \<Rightarrow> bytes \<Rightarrow> bytes" where
  "composite_row sh platform t r at y out =
     (if outside (base_dot y (tg_baseHeight t) (di_height (tg_source t))) (dstY at) (placedHeight at) then out
      else fold (composite_dot sh platform t r at y) [0..<unat (di_width (tg_source t))] out)"

definition composite_over :: "shading \<Rightarrow> Platform \<Rightarrow> Target \<Rightarrow> overlay_record \<Rightarrow> bytes \<Rightarrow> bytes" where
  "composite_over sh platform t r out =
     (let at = Place (tg_baseWidth t) (tg_baseHeight t) (rec_width r) (rec_height r)
      in if placedWidth at = 0 \<or> placedHeight at = 0 then out
         else fold (composite_row sh platform t r at) [0..<unat (di_height (tg_source t))] out)"

text \<open>The buffers are two, \<open>en_next\<close> the one the next composite writes.\<close>

definition buffer :: "bool \<Rightarrow> bytes \<times> bytes \<Rightarrow> bytes" where
  "buffer b out = (if b then snd out else fst out)"

definition set_buffer :: "bool \<Rightarrow> bytes \<Rightarrow> bytes \<times> bytes \<Rightarrow> bytes \<times> bytes" where
  "set_buffer b v out = (if b then (fst out, v) else (v, snd out))"

definition Composite :: "shading \<Rightarrow> bytes \<Rightarrow> Entry \<Rightarrow> bytes \<times> Entry" where
  "Composite sh src e =
     (let copied = take (length (buffer (en_next e) (en_out e))) src;
          platform = (case en_platform e of None \<Rightarrow> Unknown | Some p \<Rightarrow> p);
          out = composite_over sh platform (en_target e) (en_record e) copied
      in (out, e\<lparr>en_out := set_buffer (en_next e) out (en_out e), en_next := \<not> en_next e\<rparr>))"

section \<open>The frames an override serves\<close>

text \<open>What a call finds: the target's frame (its id, its bytes unless null), the published overlay, the platform and the time.\<close>

record render_env =
  re_frameId :: u32
  re_frame :: "bytes option"
  re_torn :: bool
  re_cache :: overlay_cache
  re_platform :: Platform
  re_now :: time_point
  re_shading :: shading

definition last_out :: "Entry \<Rightarrow> bytes" where
  "last_out e = buffer (\<not> en_next e) (en_out e)"

text \<open>The copy of the record and of the platform a live call starts with.\<close>

definition sync_entry :: "render_env \<Rightarrow> Entry \<Rightarrow> Entry" where
  "sync_entry v e =
     (let e = (case ReadIfChanged (re_torn v) (re_cache v) (en_recordSequence e) (en_record e) of (changed, sq, r) \<Rightarrow>
                 let e = e\<lparr>en_recordSequence := sq, en_record := r\<rparr> in if changed then e\<lparr>en_lastComposited := False\<rparr> else e)
      in if Some (re_platform v) \<noteq> en_platform e then e\<lparr>en_platform := Some (re_platform v), en_lastComposited := False\<rparr> else e)"

text \<open>The frame's id, its bytes, and whether a frame was composited, which the owner counts.\<close>

definition GetRenderFrame :: "render_env \<Rightarrow> Entry \<Rightarrow> (u32 \<times> bytes \<times> bool) \<times> Entry" where
  "GetRenderFrame v e =
     (if \<not> en_live e
      then let e = (if \<not> en_servedDark e then e\<lparr>en_servedDark := True, en_outFrameId := en_outFrameId e + 1\<rparr> else e)
           in ((en_outFrameId e, en_dark e, False), e)
      else case re_frame v of
        None \<Rightarrow> ((en_outFrameId e, last_out e, False), e)
      | Some src \<Rightarrow>
          let e = sync_entry v e in
          if \<not> rec_Visible (en_record e) (re_now v)
          then let e = (if en_lastComposited e \<or> re_frameId v \<noteq> en_srcFrameId e then e\<lparr>en_outFrameId := en_outFrameId e + 1\<rparr> else e);
                   e = e\<lparr>en_lastComposited := False, en_srcFrameId := re_frameId v\<rparr>
               in ((en_outFrameId e, src, False), e)
          else if \<not> en_lastComposited e \<or> re_frameId v \<noteq> en_srcFrameId e
          then case Composite (re_shading v) src e of (out, e) \<Rightarrow>
                 let e = e\<lparr>en_lastComposited := True, en_srcFrameId := re_frameId v, en_outFrameId := en_outFrameId e + 1\<rparr>
                 in ((en_outFrameId e, out, True), e)
          else ((en_outFrameId e, last_out e, False), e))"

text \<open>What the target answers is its frame's id and its frame.\<close>

definition GetIdentifyFrame :: "u32 \<times> bytes option \<Rightarrow> Entry \<Rightarrow> (u32 \<times> bytes option) \<times> Entry" where
  "GetIdentifyFrame answer e =
     (if \<not> en_live e then ((en_lastIdFrameId e, Some (en_idBlank e)), e) else (answer, e\<lparr>en_lastIdFrameId := fst answer\<rparr>))"

text \<open>A consumer's call through the context of the entry at \<open>k\<close>: its answer, and what it leaves in the entry and the owner.\<close>

definition render_call :: "nat \<Rightarrow> render_env \<Rightarrow> dmd_overlay \<Rightarrow> (u32 \<times> bytes) \<times> dmd_overlay" where
  "render_call k v o1 =
     (case GetRenderFrame v (do_entries o1 ! k) of ((i, pic, composited), e) \<Rightarrow>
        ((i, pic), o1\<lparr>do_entries := (do_entries o1)[k := e],
           do_compositedFrames := (if composited then do_compositedFrames o1 + 1 else do_compositedFrames o1)\<rparr>))"

definition identify_call :: "nat \<Rightarrow> u32 \<times> bytes option \<Rightarrow> dmd_overlay \<Rightarrow> (u32 \<times> bytes option) \<times> dmd_overlay" where
  "identify_call k answer o1 =
     (case GetIdentifyFrame answer (do_entries o1 ! k) of (f, e) \<Rightarrow> (f, o1\<lparr>do_entries := (do_entries o1)[k := e]\<rparr>))"

section \<open>Dots\<close>

text \<open>The bytes of the dot \<open>i\<close>, of \<open>b\<close> bytes each.\<close>

definition dot :: "nat \<Rightarrow> nat \<Rightarrow> bytes \<Rightarrow> bytes" where
  "dot b i out = take b (drop (i * b) out)"

lemma length_put_bytes: "i + length bs \<le> length out \<Longrightarrow> length (put_bytes i bs out) = length out"
  by (simp add: put_bytes_def)

lemma dot_put_bytes:
  assumes "length bs = b" "(i + 1) * b \<le> length out"
  shows "dot b j (put_bytes (i * b) bs out) = (if j = i then bs else dot b j out)"
proof -
  have l: "i * b \<le> length out" "i * b + b \<le> length out" using assms(2) by simp_all
  consider "j < i" | "j = i" | "i < j" by linarith
  then show ?thesis
  proof cases
    case 1
    then have "j * b + b \<le> i * b" by (metis Suc_leI add.commute mult_Suc mult_le_mono1)
    with 1 l show ?thesis by (simp add: dot_def put_bytes_def take_drop min_absorb2)
  next
    case 2
    with assms(1) l show ?thesis by (simp add: dot_def put_bytes_def)
  next
    case 3
    then have "i * b + b \<le> j * b" by (metis Suc_leI add.commute mult_Suc mult_le_mono1)
    with 3 l assms(1) show ?thesis by (simp add: dot_def put_bytes_def drop_take)
  qed
qed

text \<open>The overlay's pixel at an output dot, if it has an opaque one there.\<close>

definition overlay_pixel :: "Target \<Rightarrow> overlay_record \<Rightarrow> nat \<Rightarrow> nat \<Rightarrow> u8 option" where
  "overlay_pixel t r y x =
     (let at = Place (tg_baseWidth t) (tg_baseHeight t) (rec_width r) (rec_height r);
          by = y * unat (tg_baseHeight t) div unat (di_height (tg_source t));
          bx = x * unat (tg_baseWidth t) div unat (di_width (tg_source t));
          oy = by - unat (dstY at) + unat (srcY at);
          ox = bx - unat (dstX at) + unat (srcX at)
      in if unat (dstX at) \<le> bx \<and> bx < unat (dstX at) + unat (placedWidth at) \<and> unat (dstY at) \<le> by \<and> by < unat (dstY at) + unat (placedHeight at)
         then let px = rec_pixels r ! (oy * unat (rec_width r) + ox) in if px < 0x80 then Some px else None
         else None)"

definition shown_dot :: "shading \<Rightarrow> Platform \<Rightarrow> Target \<Rightarrow> overlay_record \<Rightarrow> nat \<Rightarrow> nat \<Rightarrow> bytes \<Rightarrow> bytes" where
  "shown_dot sh platform t r y x old =
     (case overlay_pixel t r y x of None \<Rightarrow> old | Some px \<Rightarrow> dot_bytes sh (di_frameFormat (tg_source t)) (Luminance platform px (tg_sixteenShades t)))"

text \<open>A target as the plugin makes it: it has dots, and so has the display it is scaled from; shades of the size of a dot.\<close>

definition target_ok :: "Target \<Rightarrow> bool" where
  "target_ok t \<longleftrightarrow> di_width (tg_source t) \<noteq> 0 \<and> di_height (tg_source t) \<noteq> 0 \<and> di_frameFormat (tg_source t) \<noteq> FormatOther \<and>
     tg_baseWidth t \<noteq> 0 \<and> tg_baseHeight t \<noteq> 0"

definition shading_ok :: "shading \<Rightarrow> bool" where
  "shading_ok sh \<longleftrightarrow> (\<forall>l. length (sh_float sh l) = 4)"

abbreviation dot_size :: "Target \<Rightarrow> nat" where
  "dot_size t \<equiv> BytesPerPixel (di_frameFormat (tg_source t))"

lemma length_dot_bytes: "shading_ok sh \<Longrightarrow> format \<noteq> FormatOther \<Longrightarrow> length (dot_bytes sh format lum) = BytesPerPixel format"
  by (cases format) (simp_all only: dot_bytes_def le_pair_def shading_ok_def if_True simp_thms, simp_all)

lemma unat_base_dot:
  assumes "n < unat side"
  shows "unat (base_dot n base side) = n * unat base div unat side" "n * unat base div unat side < unat base \<or> base = 0"
proof -
  have "n * unat base div unat side < unat base" if "base \<noteq> 0"
  proof -
    have "n * unat base < unat base * unat side" using assms that by (simp add: mult.commute unat_gt_0)
    then show ?thesis by (rule less_mult_imp_div_less)
  qed
  then show lt: "n * unat base div unat side < unat base \<or> base = 0" by blast
  have "unat base < 2 ^ 32" using unsigned_less [of base] by simp
  with lt have "n * unat base div unat side < 2 ^ 32" by auto
  then show "unat (base_dot n base side) = n * unat base div unat side" by (simp add: base_dot_def unat_of_nat_u32)
qed

lemma transparent_bit: "px AND TRANSPARENT_BIT \<noteq> 0 \<longleftrightarrow> \<not> px < (0x80 :: u8)"
proof -
  have "px AND TRANSPARENT_BIT \<noteq> 0 \<longleftrightarrow> bit px 7"
    using and_exp_eq_0_iff_not_bit [of px 7] by simp
  also have "\<dots> \<longleftrightarrow> odd (unat px div 128)"
    using bit_iff_odd [of "unat px" 7] by (simp add: bit_unsigned_iff)
  also have "\<dots> \<longleftrightarrow> \<not> unat px < 128"
  proof (cases "unat px < 128")
    case False
    have "unat px < 2 ^ LENGTH(8)" by (rule unsigned_less)
    with False have "unat px div 128 = 1" by (intro div_nat_eqI) simp_all
    with False show ?thesis by simp
  qed simp
  finally show ?thesis by (simp add: word_less_nat_alt)
qed

lemma unat_u32_bound: "unat (w :: u32) < 2 ^ 32"
  using unsigned_less [of w] by simp

lemma Place_bounds:
  assumes "tg_baseWidth t \<noteq> 0" "tg_baseHeight t \<noteq> 0" "at = Place (tg_baseWidth t) (tg_baseHeight t) (rec_width r) (rec_height r)"
  shows "unat (dstX at) + unat (placedWidth at) \<le> unat (tg_baseWidth t)" "unat (dstY at) + unat (placedHeight at) \<le> unat (tg_baseHeight t)"
    "unat (srcX at) + unat (placedWidth at) \<le> unat (rec_width r)" "unat (srcY at) + unat (placedHeight at) \<le> unat (rec_height r)"
proof -
  obtain dx sx w where x: "Axis (tg_baseWidth t) (rec_width r) = (dx, sx, w)" by (cases "Axis (tg_baseWidth t) (rec_width r)")
  obtain dy sy h where y: "Axis (tg_baseHeight t) (rec_height r) = (dy, sy, h)" by (cases "Axis (tg_baseHeight t) (rec_height r)")
  have ax: "unat d + unat l \<le> unat a \<and> unat s + unat l \<le> unat b" if "Axis a b = (d, s, l)" "a \<noteq> 0" for a b d s l
  proof (cases "b = 0")
    case True
    with that Axis_empty [of a b] show ?thesis by simp
  next
    case False
    from Axis_centred [OF that(1,2) False] have "uint d + uint l \<le> uint a" "uint s + uint l \<le> uint b" by simp_all
    then have "int (unat d) + int (unat l) \<le> int (unat a)" "int (unat s) + int (unat l) \<le> int (unat b)" by (simp_all only: uint_nat)
    then show ?thesis by linarith
  qed
  from ax [OF x assms(1)] ax [OF y assms(2)]
  show "unat (dstX at) + unat (placedWidth at) \<le> unat (tg_baseWidth t)" "unat (dstY at) + unat (placedHeight at) \<le> unat (tg_baseHeight t)"
    "unat (srcX at) + unat (placedWidth at) \<le> unat (rec_width r)" "unat (srcY at) + unat (placedHeight at) \<le> unat (rec_height r)"
    unfolding assms(3) Place_def x y by (auto simp: Placement0_def)
qed

lemma outside_unat: "unat start + unat len < 2 ^ 32 \<Longrightarrow> \<not> outside b start len \<longleftrightarrow> unat start \<le> unat b \<and> unat b < unat start + unat len"
  by (auto simp: unat_word_ariths outside_def word_less_nat_alt word_le_nat_alt not_less not_le)

text \<open>One dot of the loops: it keeps every other dot, and shows the overlay's pixel at its own.\<close>

lemma dot_index: "x < W \<Longrightarrow> x' < W \<Longrightarrow> y' * W + x' = y * W + x \<longleftrightarrow> y' = y \<and> x' = (x :: nat)"
proof
  assume "x < W" "x' < W" and eq: "y' * W + x' = y * W + x"
  have a: "(y' * W + x') div W = y'" using \<open>x' < W\<close> by simp
  have b: "(y * W + x) div W = y" using \<open>x < W\<close> by simp
  from a [unfolded eq] b have "y' = y" by (rule trans [OF sym])
  with eq show "y' = y \<and> x' = x" by simp
qed simp

lemma dot_room: "x < W \<Longrightarrow> y < H \<Longrightarrow> (y * W + x + 1) * b \<le> W * H * (b :: nat)"
proof -
  assume "x < W" "y < H"
  then have "y * W + x + 1 \<le> y * W + W" by simp
  also have "\<dots> = Suc y * W" by simp
  also have "\<dots> \<le> H * W" using \<open>y < H\<close> by (intro mult_le_mono1) simp
  finally have "(y * W + x + 1) * b \<le> (H * W) * b" by (rule mult_le_mono1)
  then show ?thesis by (simp only: mult.commute [of H W])
qed

lemma composite_dot_shows:
  assumes t: "target_ok t" and sh: "shading_ok sh" and at: "at = Place (tg_baseWidth t) (tg_baseHeight t) (rec_width r) (rec_height r)"
    and x: "x < unat (di_width (tg_source t))" and y: "y < unat (di_height (tg_source t))"
    and in_rows: "\<not> outside (base_dot y (tg_baseHeight t) (di_height (tg_source t))) (dstY at) (placedHeight at)"
    and len: "length out = unat (di_width (tg_source t)) * unat (di_height (tg_source t)) * dot_size t"
  shows "length (composite_dot sh platform t r at y x out) = length out \<and>
    dot (dot_size t) j (composite_dot sh platform t r at y x out) =
      (if j = y * unat (di_width (tg_source t)) + x then shown_dot sh platform t r y x (dot (dot_size t) j out) else dot (dot_size t) j out)"
proof -
  let ?W = "unat (di_width (tg_source t))"
  have base: "tg_baseWidth t \<noteq> 0" "tg_baseHeight t \<noteq> 0" using t by (simp_all add: target_ok_def)
  note b = Place_bounds [OF base at]
  note w32 = unat_u32_bound
  have nowrap: "unat (dstX at) + unat (placedWidth at) < 2 ^ 32" "unat (dstY at) + unat (placedHeight at) < 2 ^ 32"
    using b(1,2) w32 [of "tg_baseWidth t"] w32 [of "tg_baseHeight t"] by linarith+
  define bx by1 where "bx = x * unat (tg_baseWidth t) div ?W" and "by1 = y * unat (tg_baseHeight t) div unat (di_height (tg_source t))"
  have ux: "unat (base_dot x (tg_baseWidth t) (di_width (tg_source t))) = bx" using unat_base_dot(1) [OF x] by (simp add: bx_def)
  have uy: "unat (base_dot y (tg_baseHeight t) (di_height (tg_source t))) = by1" using unat_base_dot(1) [OF y] by (simp add: by1_def)
  have rows: "unat (dstY at) \<le> by1" "by1 < unat (dstY at) + unat (placedHeight at)" using in_rows outside_unat [OF nowrap(2)] uy by simp_all
  show ?thesis
  proof (cases "outside (base_dot x (tg_baseWidth t) (di_width (tg_source t))) (dstX at) (placedWidth at)")
    case True
    then have "overlay_pixel t r y x = None"
      using outside_unat [OF nowrap(1)] ux by (auto simp: overlay_pixel_def Let_def at [symmetric] bx_def [symmetric])
    with True show ?thesis by (simp add: composite_dot_def Let_def shown_dot_def)
  next
    case False
    then have cols: "unat (dstX at) \<le> bx" "bx < unat (dstX at) + unat (placedWidth at)" using outside_unat [OF nowrap(1)] ux by simp_all
    have row: "unat (srcY at + (base_dot y (tg_baseHeight t) (di_height (tg_source t)) - dstY at)) = by1 - unat (dstY at) + unat (srcY at)"
      using rows b(4) w32 [of "rec_height r"] uy by (simp add: unat_word_ariths unat_sub word_le_nat_alt)
    have col: "unat (base_dot x (tg_baseWidth t) (di_width (tg_source t)) - dstX at) = bx - unat (dstX at)"
      using cols ux by (simp add: unat_sub word_le_nat_alt)
    define px where "px = rec_pixels r ! ((by1 - unat (dstY at) + unat (srcY at)) * unat (rec_width r) + (bx - unat (dstX at) + unat (srcX at)))"
    have pixel: "overlay_pixel t r y x = (if px < 0x80 then Some px else None)"
      using rows cols by (simp add: overlay_pixel_def Let_def at [symmetric] bx_def [symmetric] by1_def [symmetric] px_def)
    let ?bs = "dot_bytes sh (di_frameFormat (tg_source t)) (Luminance platform px (tg_sixteenShades t))"
    have dot_eq: "composite_dot sh platform t r at y x out = (if px < 0x80 then put_bytes ((y * ?W + x) * length ?bs) ?bs out else out)"
      using False by (simp add: composite_dot_def Let_def row col px_def add.assoc add.commute [of "unat (srcX at)"] transparent_bit)
    have bs: "length ?bs = dot_size t" using length_dot_bytes [OF sh] t by (simp add: target_ok_def)
    have room: "(y * ?W + x + 1) * dot_size t \<le> length out" using dot_room [OF x y] by (simp add: len)
    then have "(y * ?W + x) * dot_size t + dot_size t \<le> length out" by simp
    note room' = length_put_bytes [of "(y * ?W + x) * dot_size t" ?bs out, unfolded bs, OF this]
    show ?thesis
    proof (cases "px < 0x80")
      case True
      show ?thesis unfolding dot_eq shown_dot_def pixel if_P [OF True] option.case bs dot_put_bytes [OF bs room, of j] room' by simp
    qed (simp add: dot_eq shown_dot_def pixel)
  qed
qed

lemma composite_row_shows:
  assumes t: "target_ok t" and sh: "shading_ok sh" and at: "at = Place (tg_baseWidth t) (tg_baseHeight t) (rec_width r) (rec_height r)"
    and y: "y < unat (di_height (tg_source t))"
    and len: "length out = unat (di_width (tg_source t)) * unat (di_height (tg_source t)) * dot_size t"
  shows "length (composite_row sh platform t r at y out) = length out \<and>
    (\<forall>y' x'. x' < unat (di_width (tg_source t)) \<longrightarrow>
      dot (dot_size t) (y' * unat (di_width (tg_source t)) + x') (composite_row sh platform t r at y out) =
      (if y' = y then shown_dot sh platform t r y x' (dot (dot_size t) (y' * unat (di_width (tg_source t)) + x') out)
       else dot (dot_size t) (y' * unat (di_width (tg_source t)) + x') out))"
proof -
  let ?W = "unat (di_width (tg_source t))" and ?b = "dot_size t"
  show ?thesis
  proof (cases "outside (base_dot y (tg_baseHeight t) (di_height (tg_source t))) (dstY at) (placedHeight at)")
    case True
    have base: "tg_baseWidth t \<noteq> 0" "tg_baseHeight t \<noteq> 0" using t by (simp_all add: target_ok_def)
    have "unat (dstY at) + unat (placedHeight at) < 2 ^ 32"
      using Place_bounds(2) [OF base at] unat_u32_bound [of "tg_baseHeight t"] by linarith
    from outside_unat [OF this, of "base_dot y (tg_baseHeight t) (di_height (tg_source t))"] True
    have out: "\<not> (unat (dstY at) \<le> y * unat (tg_baseHeight t) div unat (di_height (tg_source t)) \<and>
        y * unat (tg_baseHeight t) div unat (di_height (tg_source t)) < unat (dstY at) + unat (placedHeight at))"
      unfolding unat_base_dot(1) [OF y] by blast
    have "overlay_pixel t r y x = None" for x
      unfolding overlay_pixel_def Let_def at [symmetric] by (rule if_not_P) (use out in blast)
    with True show ?thesis by (simp add: composite_row_def shown_dot_def)
  next
    case rows: False
    have "n \<le> ?W \<Longrightarrow> length (fold (composite_dot sh platform t r at y) [0..<n] out) = length out \<and>
      (\<forall>y' x'. x' < ?W \<longrightarrow> dot ?b (y' * ?W + x') (fold (composite_dot sh platform t r at y) [0..<n] out) =
        (if y' = y \<and> x' < n then shown_dot sh platform t r y x' (dot ?b (y' * ?W + x') out) else dot ?b (y' * ?W + x') out))" for n
    proof (induction n)
      case (Suc n)
      then have n: "n < ?W" by simp
      let ?f = "fold (composite_dot sh platform t r at y) [0..<n] out"
      have IH: "length ?f = length out" "\<And>y' x'. x' < ?W \<Longrightarrow> dot ?b (y' * ?W + x') ?f =
        (if y' = y \<and> x' < n then shown_dot sh platform t r y x' (dot ?b (y' * ?W + x') out) else dot ?b (y' * ?W + x') out)"
        using Suc by simp_all
      note step = composite_dot_shows [OF t sh at n y rows, of ?f platform, unfolded IH(1), OF len]
      have f: "fold (composite_dot sh platform t r at y) [0..<Suc n] out = composite_dot sh platform t r at y n ?f" by simp
      show ?case unfolding f
      proof (intro conjI allI impI)
        show "length (composite_dot sh platform t r at y n ?f) = length out" using step by simp
        fix y' x' assume x': "x' < ?W"
        show "dot ?b (y' * ?W + x') (composite_dot sh platform t r at y n ?f) =
          (if y' = y \<and> x' < Suc n then shown_dot sh platform t r y x' (dot ?b (y' * ?W + x') out) else dot ?b (y' * ?W + x') out)"
          using conjunct2 [OF step, of "y' * ?W + x'"] IH(2) [OF x'] dot_index [OF n x', of y' y] by auto
      qed
    qed simp
    from this [OF order_refl] rows show ?thesis by (auto simp: composite_row_def)
  qed
qed

lemma composite_over_shows:
  assumes t: "target_ok t" and sh: "shading_ok sh" and len: "length out = unat (di_width (tg_source t)) * unat (di_height (tg_source t)) * dot_size t"
    and x: "x < unat (di_width (tg_source t))" and y: "y < unat (di_height (tg_source t))"
  shows "length (composite_over sh platform t r out) = length out \<and>
    dot (dot_size t) (y * unat (di_width (tg_source t)) + x) (composite_over sh platform t r out) =
      shown_dot sh platform t r y x (dot (dot_size t) (y * unat (di_width (tg_source t)) + x) out)"
proof -
  let ?W = "unat (di_width (tg_source t))" and ?H = "unat (di_height (tg_source t))" and ?b = "dot_size t"
  define at where "at = Place (tg_baseWidth t) (tg_baseHeight t) (rec_width r) (rec_height r)"
  show ?thesis
  proof (cases "placedWidth at = 0 \<or> placedHeight at = 0")
    case True
    then have "overlay_pixel t r y x = None" by (auto simp: overlay_pixel_def Let_def at_def)
    with True show ?thesis by (simp add: composite_over_def Let_def at_def shown_dot_def)
  next
    case False
    have "n \<le> ?H \<Longrightarrow> length (fold (composite_row sh platform t r at) [0..<n] out) = length out \<and>
      (\<forall>y' x'. x' < ?W \<longrightarrow> dot ?b (y' * ?W + x') (fold (composite_row sh platform t r at) [0..<n] out) =
        (if y' < n then shown_dot sh platform t r y' x' (dot ?b (y' * ?W + x') out) else dot ?b (y' * ?W + x') out))" for n
    proof (induction n)
      case (Suc n)
      then have n: "n < ?H" by simp
      let ?f = "fold (composite_row sh platform t r at) [0..<n] out"
      have IH: "length ?f = length out" "\<And>y' x'. x' < ?W \<Longrightarrow> dot ?b (y' * ?W + x') ?f =
        (if y' < n then shown_dot sh platform t r y' x' (dot ?b (y' * ?W + x') out) else dot ?b (y' * ?W + x') out)"
        using Suc by simp_all
      note step = composite_row_shows [OF t sh at_def n, of ?f platform, unfolded IH(1), OF len]
      have f: "fold (composite_row sh platform t r at) [0..<Suc n] out = composite_row sh platform t r at n ?f" by simp
      show ?case unfolding f
      proof (intro conjI allI impI)
        show "length (composite_row sh platform t r at n ?f) = length out" using step by simp
        fix y' x' assume x': "x' < ?W"
        show "dot ?b (y' * ?W + x') (composite_row sh platform t r at n ?f) =
          (if y' < Suc n then shown_dot sh platform t r y' x' (dot ?b (y' * ?W + x') out) else dot ?b (y' * ?W + x') out)"
          using conjunct2 [OF step, rule_format, OF x', of y'] IH(2) [OF x', of y'] by (cases "y' = n") auto
      qed
    qed simp
    from this [OF order_refl] x y False show ?thesis by (simp add: composite_over_def Let_def at_def)
  qed
qed

section \<open>Runs of calls\<close>

lemma last_out_Composite: "Composite sh src e = (out, e') \<Longrightarrow> last_out e' = out"
  by (auto simp: Composite_def Let_def last_out_def buffer_def set_buffer_def)

fun serve_all :: "render_env list \<Rightarrow> Entry \<Rightarrow> (u32 \<times> bytes) list" where
  "serve_all [] e = []"
| "serve_all (v # vs) e = (case GetRenderFrame v e of ((i, pic, _), e') \<Rightarrow> (i, pic) # serve_all vs e')"

text \<open>Calls during which nobody writes the overlay, and whose target numbers its frames: one id, one frame.\<close>

definition quiet_env :: "overlay_cache \<Rightarrow> Platform \<Rightarrow> (u32 \<Rightarrow> bytes) \<Rightarrow> render_env \<Rightarrow> bool" where
  "quiet_env c pl frame_at v \<longleftrightarrow> re_cache v = c \<and> re_platform v = pl \<and> re_frame v = Some (frame_at (re_frameId v))"

definition synced :: "overlay_cache \<Rightarrow> Platform \<Rightarrow> Entry \<Rightarrow> bool" where
  "synced c pl e \<longleftrightarrow> en_live e \<and> en_recordSequence e = oc_sequence c \<and> en_platform e = Some pl"

definition shows_last :: "(u32 \<Rightarrow> bytes) \<Rightarrow> Entry \<Rightarrow> bytes \<Rightarrow> bool" where
  "shows_last frame_at e pic \<longleftrightarrow> pic = (if en_lastComposited e then last_out e else frame_at (en_srcFrameId e))"

lemma sync_synced: "synced c pl e \<Longrightarrow> quiet_env c pl frame_at v \<Longrightarrow> sync_entry v e = e"
  by (simp add: synced_def quiet_env_def sync_entry_def ReadIfChanged_def)

lemma quiet_serve:
  assumes "synced c pl e" "quiet_env c pl frame_at v" "GetRenderFrame v e = ((i, pic, b), e')"
  shows "synced c pl e' \<and> shows_last frame_at e' pic \<and> i = en_outFrameId e' \<and>
    (en_outFrameId e' = en_outFrameId e \<and> shows_last frame_at e pic \<or> en_outFrameId e' = en_outFrameId e + 1)"
proof -
  have e: "en_live e" "sync_entry v e = e" and f: "re_frame v = Some (frame_at (re_frameId v))"
    using assms(1,2) sync_synced [OF assms(1,2)] by (simp_all add: synced_def quiet_env_def)
  obtain out e1 where c: "Composite (re_shading v) (frame_at (re_frameId v)) e = (out, e1)" by fastforce
  then have e1: "en_live e1 = en_live e" "en_recordSequence e1 = en_recordSequence e" "en_platform e1 = en_platform e" "en_outFrameId e1 = en_outFrameId e"
    by (auto simp: Composite_def Let_def)
  have keep: "last_out (x\<lparr>en_lastComposited := l, en_srcFrameId := k, en_outFrameId := m\<rparr>) = last_out x"
    "last_out (x\<lparr>en_outFrameId := m, en_lastComposited := l, en_srcFrameId := k\<rparr>) = last_out x" for x l k m
    by (simp_all add: last_out_def)
  consider (raw) "\<not> rec_Visible (en_record e) (re_now v)"
    | (fresh) "rec_Visible (en_record e) (re_now v)" "\<not> en_lastComposited e \<or> re_frameId v \<noteq> en_srcFrameId e"
    | (again) "rec_Visible (en_record e) (re_now v)" "en_lastComposited e" "re_frameId v = en_srcFrameId e" by blast
  then show ?thesis
  proof cases
    case raw
    then show ?thesis using assms(1,3) unfolding GetRenderFrame_def synced_def shows_last_def by (auto simp: e f Let_def split: if_splits)
  next
    case fresh
    then have g: "i = en_outFrameId e + 1" "pic = out"
      "e' = e1\<lparr>en_lastComposited := True, en_srcFrameId := re_frameId v, en_outFrameId := en_outFrameId e + 1\<rparr>"
      using assms(3) unfolding GetRenderFrame_def by (auto simp: e f c e1)
    show ?thesis unfolding g using assms(1) last_out_Composite [OF c] by (simp add: synced_def shows_last_def e1 keep)
  next
    case again
    then show ?thesis using assms(1,3) unfolding GetRenderFrame_def by (auto simp: e f shows_last_def)
  qed
qed

lemma quiet_ids:
  assumes "synced c pl e" "shows_last frame_at e pic" "\<forall>v \<in> set vs. quiet_env c pl frame_at v" "j < length (serve_all vs e)"
  shows "\<exists>k \<le> Suc j. fst (serve_all vs e ! j) = en_outFrameId e + of_nat k \<and> (k = 0 \<longrightarrow> snd (serve_all vs e ! j) = pic)"
  using assms
proof (induction vs arbitrary: e pic j)
  case (Cons v vs)
  obtain i q b e' where g: "GetRenderFrame v e = ((i, q, b), e')" by (metis prod.exhaust)
  have v: "quiet_env c pl frame_at v" "\<forall>v \<in> set vs. quiet_env c pl frame_at v" using Cons.prems(3) by simp_all
  from quiet_serve [OF Cons.prems(1) v(1) g]
  have e': "synced c pl e'" "shows_last frame_at e' q" "i = en_outFrameId e'"
    and move: "en_outFrameId e' = en_outFrameId e \<and> q = pic \<or> en_outFrameId e' = en_outFrameId e + 1"
    using Cons.prems(2) by (auto simp: shows_last_def)
  show ?case
  proof (cases j)
    case 0
    with move e'(3) show ?thesis by (auto simp: g intro: exI [of _ 0] exI [of _ 1])
  next
    case (Suc l)
    with Cons.prems(4) have "l < length (serve_all vs e')" by (simp add: g)
    from Cons.IH [OF e'(1,2) v(2) this] obtain k where k: "k \<le> Suc l"
      "fst (serve_all vs e' ! l) = en_outFrameId e' + of_nat k" "k = 0 \<longrightarrow> snd (serve_all vs e' ! l) = q" by blast
    from move show ?thesis
    proof
      assume "en_outFrameId e' = en_outFrameId e \<and> q = pic"
      with k show ?thesis by (intro exI [of _ k]) (simp add: g Suc)
    next
      assume "en_outFrameId e' = en_outFrameId e + 1"
      with k show ?thesis by (intro exI [of _ "Suc k"]) (simp add: g Suc add.commute add.left_commute)
    qed
  qed
qed simp

lemma length_serve_all: "length (serve_all vs e) = length vs"
  by (induction vs arbitrary: e) (auto split: prod.split)

lemma quiet_pairs:
  assumes "synced c pl e" "\<forall>v \<in> set vs. quiet_env c pl frame_at v" "length vs < 2 ^ 32" "i < j" "j < length vs"
    "fst (serve_all vs e ! i) = fst (serve_all vs e ! j)"
  shows "snd (serve_all vs e ! i) = snd (serve_all vs e ! j)"
  using assms
proof (induction vs arbitrary: e i j)
  case (Cons v vs)
  obtain n q b e' where g: "GetRenderFrame v e = ((n, q, b), e')" by (metis prod.exhaust)
  have v: "quiet_env c pl frame_at v" "\<forall>v \<in> set vs. quiet_env c pl frame_at v" using Cons.prems(2) by simp_all
  from quiet_serve [OF Cons.prems(1) v(1) g] have e': "synced c pl e'" "shows_last frame_at e' q" "n = en_outFrameId e'" by simp_all
  obtain l where j: "j = Suc l" "l < length vs" using Cons.prems(4,5) by (cases j) auto
  show ?case
  proof (cases i)
    case 0
    from j(2) have "l < length (serve_all vs e')" by (simp add: length_serve_all)
    from quiet_ids [OF e'(1,2) v(2) this] obtain k where k: "k \<le> Suc l" "fst (serve_all vs e' ! l) = en_outFrameId e' + of_nat k"
      "k = 0 \<longrightarrow> snd (serve_all vs e' ! l) = q" by blast
    have "of_nat k = (0 :: u32)" using k(2) Cons.prems(6) e'(3) by (simp add: g 0 j)
    moreover have "unat (of_nat k :: u32) = k" using k(1) j(2) Cons.prems(3) by (intro unat_of_nat_u32) simp
    ultimately have "k = 0" by (metis unat_0)
    with k(3) show ?thesis by (simp add: g 0 j)
  next
    case (Suc h)
    with Cons.prems Cons.IH [OF e'(1) v(2), of h l] show ?thesis by (simp add: g j)
  qed
qed simp

section \<open>An example\<close>

definition source_2x2 :: DisplaySrcId where
  "source_2x2 = \<lparr>di_id = \<lparr>ri_endpointId = 7, ri_resId = 1\<rparr>, di_overrideId = CtlResId0, di_callContext = 0, di_width = 2, di_height = 2, di_hardware = 0,
     di_frameFormat = SRGB888, di_getRenderFrame = 9, di_identifyFormat = IdNone, di_getIdentifyFrame = 0\<rparr>"

definition target_2x2 :: Target where
  "target_2x2 = \<lparr>tg_source = source_2x2, tg_identify = False, tg_baseWidth = 2, tg_baseHeight = 2, tg_sixteenShades = False\<rparr>"

definition record_2x2 :: overlay_record where
  "record_2x2 = \<lparr>rec_width = 2, rec_height = 2, rec_enabled = 1, rec_untilHidden = 0, rec_hideAt = 10, rec_pixels = [0x0F, 0x80, 0x00, 0x05]\<rparr>"

definition entry_2x2 :: Entry where
  "entry_2x2 = (fst (MakeEntry 5 target_2x2 (DmdOverlay 3)))\<lparr>en_record := record_2x2, en_recordSequence := 2, en_platform := Some Wpc\<rparr>"

definition shades_demo :: shading where
  "shades_demo = \<lparr>sh_float = (\<lambda>_. [0, 0, 0, 0]), sh_code8 = (\<lambda>l. of_nat (50 * fst l)), sh_code5 = (\<lambda>_. 0), sh_code6 = (\<lambda>_. 0)\<rparr>"

definition frame_2x2 :: bytes where "frame_2x2 = replicate 12 1"

definition cache_2x2 :: overlay_cache where
  "cache_2x2 = OverlayCache\<lparr>oc_published := record_2x2, oc_sequence := 2\<rparr>"

definition call_at :: "time_point \<Rightarrow> render_env" where
  "call_at t = \<lparr>re_frameId = 4, re_frame = Some frame_2x2, re_torn = False, re_cache = cache_2x2, re_platform = Wpc, re_now = t, re_shading = shades_demo\<rparr>"

lemma entry_2x2_eq: "en_target entry_2x2 = target_2x2" "en_live entry_2x2" "en_recordSequence entry_2x2 = 2" "en_platform entry_2x2 = Some Wpc"
  "en_record entry_2x2 = record_2x2" "en_out entry_2x2 = (replicate 12 0, replicate 12 0)" "\<not> en_next entry_2x2" "\<not> en_lastComposited entry_2x2"
  "en_outFrameId entry_2x2 = 0" "en_srcFrameId entry_2x2 = 0"
  by (simp_all add: entry_2x2_def MakeEntry_def Let_def target_2x2_def source_2x2_def)

lemma place_2x2: "Place 2 2 2 2 = \<lparr>dstX = 0, dstY = 0, srcX = 0, srcY = 0, placedWidth = 2, placedHeight = 2\<rparr>"
  by (simp add: Place_def Axis_def Let_def half_def)

lemma pixels_2x2: "overlay_pixel target_2x2 record_2x2 0 0 = Some 0x0F" "overlay_pixel target_2x2 record_2x2 0 1 = None"
  by (simp_all add: overlay_pixel_def Let_def target_2x2_def source_2x2_def record_2x2_def place_2x2)

lemma target_ok_2x2: "target_ok target_2x2" "shading_ok shades_demo"
  by (simp_all add: target_ok_def shading_ok_def target_2x2_def source_2x2_def shades_demo_def)

lemma ids_2x2: "map fst (serve_all [call_at 5, call_at 20, call_at 25] entry_2x2) = [1, 2, 2]"
  by (simp add: GetRenderFrame_def entry_2x2_eq call_at_def sync_entry_def ReadIfChanged_def cache_2x2_def record_2x2_def rec_Visible_def Let_def
      Composite_def split: prod.split)

section \<open>Properties\<close>

text \<open>
  C31. A composite shows the overlay exactly where the probe places it, and the target's own frame everywhere else: whatever the target's size
  and format, the dot at \<open>x\<close>, \<open>y\<close> is the shade of the overlay's pixel over the base dot it covers when that pixel is inside the placement and opaque,
  and otherwise the target's dot unchanged; the frame keeps its size, and is what the override then serves again.
\<close>

theorem composite_exact:
  assumes "target_ok (en_target e)" "shading_ok sh" "Composite sh src e = (out, e')" "en_platform e = Some pl"
    and "length (buffer (en_next e) (en_out e)) = unat (di_width (tg_source (en_target e))) * unat (di_height (tg_source (en_target e))) * dot_size (en_target e)"
    and "length (buffer (en_next e) (en_out e)) \<le> length src"
    and "x < unat (di_width (tg_source (en_target e)))" "y < unat (di_height (tg_source (en_target e)))"
  shows "dot (dot_size (en_target e)) (y * unat (di_width (tg_source (en_target e))) + x) out =
      (case overlay_pixel (en_target e) (en_record e) y x of
         None \<Rightarrow> dot (dot_size (en_target e)) (y * unat (di_width (tg_source (en_target e))) + x) src
       | Some px \<Rightarrow> dot_bytes sh (di_frameFormat (tg_source (en_target e))) (Luminance pl px (tg_sixteenShades (en_target e)))) \<and>
    length out = length (buffer (en_next e) (en_out e)) \<and> last_out e' = out"
proof -
  let ?t = "en_target e" and ?n = "length (buffer (en_next e) (en_out e))"
  let ?W = "unat (di_width (tg_source ?t))" and ?b = "dot_size ?t"
  have out: "out = composite_over sh pl ?t (en_record e) (take ?n src)" using assms(3,4) by (auto simp: Composite_def Let_def)
  have len: "length (take ?n src) = ?W * unat (di_height (tg_source ?t)) * ?b" using assms(5,6) by simp
  note shows_dot = composite_over_shows [OF assms(1,2) len assms(7,8), of pl "en_record e", folded out]
  have "(y * ?W + x + 1) * ?b \<le> ?n" using dot_room [OF assms(7,8)] assms(5) by simp
  then have "(y * ?W + x) * ?b + ?b \<le> ?n" by simp
  then have "dot ?b (y * ?W + x) (take ?n src) = dot ?b (y * ?W + x) src" by (simp add: dot_def drop_take min_absorb1)
  with shows_dot last_out_Composite [OF assms(3)] len show ?thesis by (simp add: shown_dot_def assms(5) split: option.split)
qed

theorem composite_exact_witness:
  "\<exists>out e'. Composite shades_demo frame_2x2 entry_2x2 = (out, e') \<and> dot 3 0 out = [150, 150, 150] \<and> dot 3 1 out = [1, 1, 1]"
proof -
  obtain out e' where c: "Composite shades_demo frame_2x2 entry_2x2 = (out, e')" by fastforce
  have s: "di_width (tg_source target_2x2) = 2" "di_height (tg_source target_2x2) = 2" "dot_size target_2x2 = 3"
    "di_frameFormat (tg_source target_2x2) = SRGB888" "tg_sixteenShades target_2x2 = False"
    by (simp_all add: target_2x2_def source_2x2_def)
  have l: "length (buffer (en_next entry_2x2) (en_out entry_2x2)) = 12" "length frame_2x2 = 12"
    by (simp_all add: buffer_def entry_2x2_eq frame_2x2_def)
  have lum: "Luminance Wpc 15 False = (3, 3)" by code_simp
  have "dot 3 (y * 2 + x) out = (case overlay_pixel target_2x2 record_2x2 y x of None \<Rightarrow> dot 3 (y * 2 + x) frame_2x2
      | Some px \<Rightarrow> dot_bytes shades_demo SRGB888 (Luminance Wpc px False))" if "x < 2" "y < 2" for x y
    using composite_exact [OF _ _ c, of Wpc x y] that l unfolding entry_2x2_eq(1,4,5) s by (simp add: target_ok_2x2 entry_2x2_eq split: option.split)
  from this [of 0 0, unfolded pixels_2x2(1)] this [of 1 0, unfolded pixels_2x2(2)] have "dot 3 0 out = [150, 150, 150]" "dot 3 1 out = [1, 1, 1]"
    by (simp_all add: lum dot_bytes_def shades_demo_def frame_2x2_def dot_def numeral_3_eq_3)
  with c show ?thesis by blast
qed

text \<open>
  C32. While nobody writes the overlay, a frame's id names its picture: any two calls of a run answered with one id are answered with the
  same bytes, also across the moment the overlay's timer runs out, so a consumer that skips repeated ids misses nothing.
  The override has seen the overlay and the platform, the target gives one frame per id, and the 32-bit ids have not wrapped.
\<close>

theorem same_id_same_picture:
  assumes "synced c pl e" "\<forall>v \<in> set vs. quiet_env c pl frame_at v" "length vs < 2 ^ 32" "i < length vs" "j < length vs"
    "fst (serve_all vs e ! i) = fst (serve_all vs e ! j)"
  shows "snd (serve_all vs e ! i) = snd (serve_all vs e ! j)"
proof -
  consider "i < j" | "j < i" | "i = j" by linarith
  then show ?thesis
  proof cases
    case 1
    then show ?thesis using quiet_pairs [OF assms(1-3) 1 assms(5,6)] by simp
  next
    case 2
    then show ?thesis using quiet_pairs [OF assms(1-3) 2 assms(4) assms(6) [symmetric]] by simp
  qed simp
qed

theorem same_id_same_picture_witness:
  "map fst (serve_all [call_at 5, call_at 20, call_at 25] entry_2x2) = [1, 2, 2] \<and>
   snd (serve_all [call_at 5, call_at 20, call_at 25] entry_2x2 ! 1) = snd (serve_all [call_at 5, call_at 20, call_at 25] entry_2x2 ! 2)"
proof -
  define vs where "vs = [call_at 5, call_at 20, call_at 25]"
  have ids: "map fst (serve_all vs entry_2x2) = [1, 2, 2]" unfolding vs_def by (rule ids_2x2)
  have len: "length vs = 3" by (simp add: vs_def)
  have "synced cache_2x2 Wpc entry_2x2" by (simp add: synced_def entry_2x2_eq cache_2x2_def)
  moreover have "\<forall>v \<in> set vs. quiet_env cache_2x2 Wpc (\<lambda>_. frame_2x2) v" by (simp add: vs_def quiet_env_def call_at_def)
  moreover have "fst (serve_all vs entry_2x2 ! 1) = map fst (serve_all vs entry_2x2) ! 1" "fst (serve_all vs entry_2x2 ! 2) = map fst (serve_all vs entry_2x2) ! 2"
    using len by (simp_all add: length_serve_all)
  then have "fst (serve_all vs entry_2x2 ! 1) = fst (serve_all vs entry_2x2 ! 2)" unfolding ids by simp
  ultimately have "snd (serve_all vs entry_2x2 ! 1) = snd (serve_all vs entry_2x2 ! 2)"
    using same_id_same_picture [of cache_2x2 Wpc entry_2x2 vs "\<lambda>_. frame_2x2" 1 2] len by simp
  with ids show ?thesis unfolding vs_def by blast
qed

section \<open>Hiding over a still display\<close>

text \<open>
  The exception is a write that hides the overlay while the target repeats its frame. The new record resets \<open>en_lastComposited\<close> before the
  pass-through tests it, so the bare frame goes out under the id of the composited one, and a consumer that skips repeated ids keeps the
  overlay on screen until the target's next frame.
\<close>

lemma hide_not_renumbered:
  assumes "en_live e" "re_frame v = Some src" "GetRenderFrame v e = ((i, pic, True), e1)"
    and "re_cache v' = oc_Control False d now (re_cache v)" "\<not> re_torn v'" "re_platform v' = re_platform v"
    and "re_frameId v' = re_frameId v" "re_frame v' = Some src" "en_recordSequence e1 \<noteq> oc_sequence (re_cache v')"
  shows "fst (GetRenderFrame v' e1) = (i, src, False)"
proof -
  obtain out e2 where c: "Composite (re_shading v) src (sync_entry v e) = (out, e2)" by fastforce
  have live: "en_live e2" "en_platform e2 = Some (re_platform v)" using c assms(1)
    by (auto simp: Composite_def Let_def sync_entry_def split: prod.splits if_splits)
  have g: "e1 = e2\<lparr>en_lastComposited := True, en_srcFrameId := re_frameId v, en_outFrameId := en_outFrameId e2 + 1\<rparr>" "i = en_outFrameId e2 + 1"
    using assms(1-3) c unfolding GetRenderFrame_def by (auto simp: Let_def split: if_splits)
  have f1: "en_live e1" "en_platform e1 = Some (re_platform v)" "en_srcFrameId e1 = re_frameId v" "en_outFrameId e1 = i"
    using live by (simp_all add: g)
  define e3 where "e3 = sync_entry v' e1"
  have read: "ReadIfChanged (re_torn v') (re_cache v') (en_recordSequence e1) (en_record e1) = (True, oc_sequence (re_cache v'), oc_published (re_cache v'))"
    using assms(5,9) by (simp add: ReadIfChanged_def)
  have e3: "e3 = e1\<lparr>en_recordSequence := oc_sequence (re_cache v'), en_record := oc_published (re_cache v'), en_lastComposited := False\<rparr>"
    unfolding e3_def sync_entry_def read using f1(2) assms(6) by simp
  have hidden: "\<not> rec_Visible (en_record e3) (re_now v')"
    by (simp add: e3 assms(4) oc_Control_def oc_Publish_def record_of_def ov_Control_def rec_Visible_def)
  show ?thesis
    using hidden f1 assms(7,8) unfolding GetRenderFrame_def e3_def [symmetric] by (simp add: Let_def) (simp add: e3 f1)
qed

end
