(* ===== verification/Overlay_Surface.thy ===== *)
theory Overlay_Surface
  imports Overlay_Render
begin

text \<open>
  The overrides over any history of \<^verbatim>\<open>src/DmdOverlay.cpp\<close>: display lists, controller changes, deferred applies with what other plugins do inside
  their broadcasts, consumers' calls, and the overlay's own messages. An override that is live has a target that is listed, so no call reaches a
  source that is gone.
\<close>

section \<open>The history\<close>

datatype overlay_call =
    V_Sources "DisplaySrcId list"
  | V_Controller u32
  | V_Deferred time_point "nat list" "DisplaySrcId list list" "DisplaySrcId list list"
  | V_Detach
  | V_Render nat render_env
  | V_Identify nat "u32 \<times> bytes option"
  | V_Message bool time_point "ScorbitOverlayMsg option"
  | V_Control bool u32 time_point
  | V_Store bytes
  | V_Clear
  | V_Drain bool
  | V_PrepareFrame u64 bool "nat \<Rightarrow> bool" time_point
  | V_DropDir string
  | V_DropRound "(int \<times> bytes) option \<times> (int \<times> bytes) option" "int \<times> int"

fun overlay_step :: "overlay_call \<Rightarrow> dmd_overlay \<Rightarrow> dmd_overlay" where
  "overlay_step (V_Sources items) o1 = sources_report items o1"
| "overlay_step (V_Controller c) o1 = overlay_SetController c o1"
| "overlay_step (V_Deferred now ats w p) o1 = OnDeferredApply now ats w p o1"
| "overlay_step V_Detach o1 = Detach o1"
| "overlay_step (V_Render k v) o1 = snd (render_call k v o1)"
| "overlay_step (V_Identify k a) o1 = snd (identify_call k a o1)"
| "overlay_step (V_Message free now msg) o1 = snd (OnOverlayMsg free now msg o1)"
| "overlay_step (V_Control b d now) o1 = overlay_Control b d now o1"
| "overlay_step (V_Store pl) o1 = snd (overlay_Store pl o1)"
| "overlay_step V_Clear o1 = overlay_Clear o1"
| "overlay_step (V_Drain free) o1 = overlay_DrainPending free o1"
| "overlay_step (V_PrepareFrame g free frees now) o1 = overlay_OnPrepareFrame g free frees now o1"
| "overlay_step (V_DropDir dir) o1 = SetDropDir dir o1"
| "overlay_step (V_DropRound files seen) o1 = snd (drop_round files seen o1)"

text \<open>A consumer calls through a context it was given, a target's frame has its format's bytes for each dot, and a float is four bytes.\<close>

definition frame_size :: "Target \<Rightarrow> nat" where
  "frame_size t = unat (di_width (tg_source t)) * unat (di_height (tg_source t)) * dot_size t"

fun call_fits :: "overlay_call \<Rightarrow> dmd_overlay \<Rightarrow> bool" where
  "call_fits (V_Render k v) o1 \<longleftrightarrow> k < length (do_entries o1) \<and> shading_ok (re_shading v) \<and>
     (case re_frame v of None \<Rightarrow> True | Some src \<Rightarrow> frame_size (en_target (do_entries o1 ! k)) \<le> length src)"
| "call_fits (V_Identify k a) o1 \<longleftrightarrow> k < length (do_entries o1)"
| "call_fits _ o1 \<longleftrightarrow> True"

text \<open>A host that delivers a broadcast to the plugin's own subscription too reports the display list inside each.\<close>

fun echoes :: "overlay_call \<Rightarrow> bool" where
  "echoes (V_Deferred now ats w p) \<longleftrightarrow> w \<noteq> [] \<and> p \<noteq> []"
| "echoes _ \<longleftrightarrow> True"

text \<open>The first argument says whether the host does.\<close>

inductive overlay_reach :: "bool \<Rightarrow> dmd_overlay \<Rightarrow> bool" where
  or_init: "overlay_reach echo (DmdOverlay endpoint)"
| or_call: "overlay_reach echo o1 \<Longrightarrow> call_fits c o1 \<Longrightarrow> (if echo then echoes c else True) \<Longrightarrow> overlay_reach echo (overlay_step c o1)"

section \<open>The invariant\<close>

definition entry_ok :: "Entry \<Rightarrow> bool" where
  "entry_ok e \<longleftrightarrow> target_ok (en_target e) \<and> length (fst (en_out e)) = frame_size (en_target e) \<and> length (snd (en_out e)) = frame_size (en_target e) \<and>
     length (en_dark e) = frame_size (en_target e)"

definition entries_ok :: "dmd_overlay \<Rightarrow> bool" where
  "entries_ok o1 \<longleftrightarrow> distinct (map en_target (do_entries o1)) \<and> (\<forall>e \<in> set (do_entries o1). entry_ok e) \<and>
     (\<forall>r \<in> set (do_retired o1). \<not> en_live (fst r)) \<and> (do_detached o1 \<longrightarrow> (\<forall>e \<in> set (do_entries o1). \<not> en_live e))"

definition targets_listed :: "dmd_overlay \<Rightarrow> bool" where
  "targets_listed o1 \<longleftrightarrow> (\<forall>e \<in> set (do_entries o1). en_live e \<longrightarrow> tg_source (en_target e) \<in> set (do_sources o1))"

definition surface_true :: "dmd_overlay \<Rightarrow> bool" where
  "surface_true o1 \<longleftrightarrow> do_surface o1 = (\<exists>e \<in> set (do_entries o1). en_live e)"

definition overlay_inv :: "dmd_overlay \<Rightarrow> bool" where
  "overlay_inv o1 \<longleftrightarrow> entries_ok o1 \<and> targets_listed o1 \<and> surface_true o1"

text \<open>The fields the invariant reads.\<close>

definition surface_part :: "dmd_overlay \<Rightarrow> _" where
  "surface_part o1 = (do_entries o1, do_retired o1, do_detached o1, do_sources o1, do_surface o1)"

lemma overlay_inv_cong: "surface_part o2 = surface_part o1 \<Longrightarrow> overlay_inv o1 \<Longrightarrow> overlay_inv o2"
  by (simp add: surface_part_def overlay_inv_def entries_ok_def targets_listed_def surface_true_def)

lemma UpdateSurface_inv: "entries_ok o1 \<Longrightarrow> targets_listed o1 \<Longrightarrow> overlay_inv (UpdateSurface o1)"
  by (auto simp: UpdateSurface_def Let_def overlay_inv_def entries_ok_def targets_listed_def surface_true_def)

lemma ScheduleApply_part: "surface_part (ScheduleApply o1) = surface_part o1"
  by (simp add: ScheduleApply_def surface_part_def)

lemma sources_report_inv: "entries_ok o1 \<Longrightarrow> overlay_inv (sources_report items o1)"
proof -
  assume ok: "entries_ok o1"
  let ?o = "o1\<lparr>do_sources := overlay_FilterSources o1 items\<rparr>"
  let ?f = "\<lambda>e. if tg_source (en_target e) \<in> set (do_sources ?o) then e else e\<lparr>en_live := False\<rparr>"
  have map: "map en_target (map ?f (do_entries o1)) = map en_target (do_entries o1)" by simp
  have "entries_ok (?o\<lparr>do_entries := map ?f (do_entries o1)\<rparr>)"
    using ok unfolding entries_ok_def by (auto simp: comp_def entry_ok_def if_distrib [of en_target] cong: if_cong)
  moreover have "targets_listed (?o\<lparr>do_entries := map ?f (do_entries o1)\<rparr>)" by (auto simp: targets_listed_def)
  ultimately have "overlay_inv (DarkenStale ?o)" unfolding DarkenStale_def by (intro UpdateSurface_inv) simp_all
  then show ?thesis unfolding sources_report_def overlay_OnSourcesChanged_def Let_def
    using overlay_inv_cong [OF ScheduleApply_part] by simp
qed

lemma Broadcast_inv: "entries_ok o1 \<Longrightarrow> targets_listed o1 \<Longrightarrow> entries_ok (Broadcast reports o1) \<and> targets_listed (Broadcast reports o1)"
  unfolding Broadcast_def
proof (induction reports arbitrary: o1)
  case (Cons r rs)
  from sources_report_inv [OF Cons.prems(1), of r] have "entries_ok (sources_report r o1)" "targets_listed (sources_report r o1)"
    by (simp_all add: overlay_inv_def)
  from Cons.IH [OF this] show ?case by simp
qed simp

lemma Desired_targets:
  assumes "t \<in> set (Desired o1)"
  shows "tg_source t \<in> set (do_sources o1) \<and> target_ok t"
proof -
  obtain r i k where r: "\<not> (di_width (do_sources o1 ! r) = 0 \<or> di_height (do_sources o1 ! r) = 0)"
    and k: "find_node (do_sources o1) i = Some k" "overridable (do_sources o1 ! k)" "t = target_of (do_sources o1) r k"
    using assms by (auto simp: Desired_def Let_def List.map_filter_def split: if_splits option.splits)
  have "k < length (do_sources o1)" using k(1) by (auto simp: find_node_def find_Some_iff)
  with k r show ?thesis by (auto simp: target_of_def target_ok_def overridable_def)
qed

lemma withdraw_inv:
  assumes "entries_ok o1" "targets_listed o1" "withdraw now desired o1 = (removed, o2)"
  shows "entries_ok o2 \<and> targets_listed o2 \<and> do_sources o2 = do_sources o1 \<and> do_detached o2 = do_detached o1"
proof -
  have o2: "o2 = snd (withdraw now desired o1)" using assms(3) by simp
  show ?thesis using assms(1,2) unfolding o2 withdraw_def entries_ok_def targets_listed_def
    by (auto simp: distinct_map inj_on_def)
qed

lemma add_entries_inv:
  assumes "entries_ok o1" "targets_listed o1" "\<not> do_detached o1" "\<forall>t \<in> set desired. tg_source t \<in> set (do_sources o1) \<and> target_ok t"
    and "add_entries ats desired (b, o1) = (added, o2)"
  shows "entries_ok o2 \<and> targets_listed o2"
  using assms
proof (induction desired arbitrary: ats b o1)
  case (Cons t ts)
  show ?case
  proof (cases "\<exists>e \<in> set (do_entries o1). en_target e = t")
    case True
    with Cons.prems Cons.IH [OF Cons.prems(1-3), of "tl ats" b] show ?thesis by simp
  next
    case False
    obtain e o3 where m: "MakeEntry (hd ats) t o1 = (e, o3)" by fastforce
    then have e: "en_target e = t" "entry_ok e" "en_live e" "o3 = o1\<lparr>do_nextResId := do_nextResId o3\<rparr>"
      using Cons.prems(4) by (auto simp: MakeEntry_def Let_def entry_ok_def frame_size_def)
    let ?o = "o3\<lparr>do_entries := do_entries o3 @ [e]\<rparr>"
    have f: "do_entries o3 = do_entries o1" "do_retired o3 = do_retired o1" "do_detached o3 = do_detached o1" "do_sources o3 = do_sources o1"
      by (subst e(4), simp)+
    have "entries_ok ?o" using Cons.prems(1,3) False e by (auto simp: entries_ok_def f)
    moreover have "targets_listed ?o" using Cons.prems(2,4) e by (auto simp: targets_listed_def f)
    ultimately show ?thesis using Cons.IH [of ?o "tl ats" True] Cons.prems(3-5) False by (simp add: m f)
  qed
qed simp

lemma Apply_inv:
  assumes "entries_ok o1" "targets_listed o1" "\<not> do_detached o1"
  shows "overlay_inv (Apply now ats w p o1)"
proof -
  have det: "do_detached (sources_report r x) = do_detached x" for r x
    by (simp add: sources_report_def overlay_OnSourcesChanged_def DarkenStale_def UpdateSurface_def ScheduleApply_def Let_def)
  have bdet: "do_detached (Broadcast rs x) = do_detached x" for rs x
    unfolding Broadcast_def by (induction rs arbitrary: x) (simp_all add: det)
  define o0 where "o0 = o1\<lparr>do_retired := filter (\<lambda>r. \<not> now - snd r \<ge> RETIRE_AFTER) (do_retired o1)\<rparr>"
  have o0: "entries_ok o0" "targets_listed o0" "\<not> do_detached o0" using assms by (auto simp: o0_def entries_ok_def targets_listed_def)
  obtain removed o2 where w: "withdraw now (Desired o0) o0 = (removed, o2)" by fastforce
  note o2 = withdraw_inv [OF o0(1,2) w]
  define o3 where "o3 = (if removed then Broadcast w o2 else o2)"
  have o3: "entries_ok o3" "targets_listed o3" "\<not> do_detached o3"
    using o2 Broadcast_inv [of o2 w] o0(3) by (simp_all add: o3_def bdet)
  define desired where "desired = (if removed then Desired o3 else Desired o0)"
  have des: "\<forall>t \<in> set desired. tg_source t \<in> set (do_sources o3) \<and> target_ok t"
    using Desired_targets o2 by (auto simp: desired_def o3_def)
  obtain added o4 where a: "add_entries ats desired (False, o3) = (added, o4)" by fastforce
  note o4 = add_entries_inv [OF o3 des a]
  define o5 where "o5 = (if added then Broadcast p o4 else o4)"
  have o5: "entries_ok o5" "targets_listed o5" using o4 Broadcast_inv [of o4 p] by (simp_all add: o5_def)
  define o6 where "o6 = (if removed \<or> added then o5\<lparr>do_surfaceGeneration := do_surfaceGeneration o5 + 1\<rparr> else o5)"
  have "entries_ok o6" "targets_listed o6" using o5 by (simp_all add: o6_def entries_ok_def targets_listed_def)
  from UpdateSurface_inv [OF this] show ?thesis
    unfolding Apply_def Let_def o0_def [symmetric] w prod.case o3_def [symmetric] desired_def [symmetric] a o5_def [symmetric] o6_def [symmetric] .
qed

lemma sync_keeps:
  "en_target (sync_entry v e) = en_target e" "en_live (sync_entry v e) = en_live e" "en_out (sync_entry v e) = en_out e"
  "en_dark (sync_entry v e) = en_dark e" "en_next (sync_entry v e) = en_next e" "en_listed (sync_entry v e) = en_listed e"
  by (simp_all add: sync_entry_def Let_def split: prod.split)

lemma Composite_keeps:
  assumes "Composite sh src e = (out, e')" "entry_ok e" "shading_ok sh" "frame_size (en_target e) \<le> length src"
  shows "entry_ok e' \<and> en_target e' = en_target e \<and> en_live e' = en_live e \<and> en_listed e' = en_listed e"
proof -
  let ?t = "en_target e" and ?c = "take (length (buffer (en_next e) (en_out e))) src"
  have b: "length (buffer (en_next e) (en_out e)) = frame_size ?t" using assms(2) by (simp add: entry_ok_def buffer_def)
  have t: "target_ok ?t" using assms(2) by (simp add: entry_ok_def)
  then have pos: "0 < unat (di_width (tg_source ?t))" "0 < unat (di_height (tg_source ?t))" by (simp_all add: target_ok_def unat_gt_0)
  have "length ?c = unat (di_width (tg_source ?t)) * unat (di_height (tg_source ?t)) * dot_size ?t"
    using assms(4) by (simp add: b) (simp add: frame_size_def)
  from composite_over_shows [OF t assms(3) this pos]
  have "length (composite_over sh pl ?t (en_record e) ?c) = frame_size ?t" for pl using assms(4) by (simp add: b)
  then show ?thesis using assms(1,2) by (auto simp: Composite_def Let_def entry_ok_def set_buffer_def)
qed

lemma GetRenderFrame_keeps:
  assumes "GetRenderFrame v e = (f, e')" "entry_ok e" "shading_ok (re_shading v)"
    "case re_frame v of None \<Rightarrow> True | Some src \<Rightarrow> frame_size (en_target e) \<le> length src"
  shows "entry_ok e' \<and> en_target e' = en_target e \<and> en_live e' = en_live e \<and> en_listed e' = en_listed e"
proof -
  have same: "entry_ok e' \<and> en_target e' = en_target e \<and> en_live e' = en_live e \<and> en_listed e' = en_listed e"
    if "en_target e' = en_target x" "en_live e' = en_live x" "en_out e' = en_out x" "en_dark e' = en_dark x" "en_listed e' = en_listed x" "entry_ok x" "en_target x = en_target e" "en_live x = en_live e" "en_listed x = en_listed e"
    for x using that by (simp add: entry_ok_def)
  have s: "entry_ok (sync_entry v e)" using assms(2) by (simp add: entry_ok_def sync_keeps)
  show ?thesis
  proof (cases "en_live e")
    case False
    with assms(1) have "en_target e' = en_target e \<and> en_live e' = en_live e \<and> en_out e' = en_out e \<and> en_dark e' = en_dark e \<and> en_listed e' = en_listed e"
      unfolding GetRenderFrame_def by (auto simp: Let_def split: if_splits)
    with same [of e] assms(2) show ?thesis by simp
  next
    case live: True
    show ?thesis
    proof (cases "re_frame v")
      case None
      with live assms(1,2) show ?thesis by (simp add: GetRenderFrame_def)
    next
      case (Some src)
      define s0 where "s0 = sync_entry v e"
      have s0: "entry_ok s0" "en_target s0 = en_target e" "en_live s0 = en_live e" "en_listed s0 = en_listed e" using s by (simp_all add: s0_def sync_keeps)
      obtain out e1 where c: "Composite (re_shading v) src s0 = (out, e1)" by fastforce
      have fits: "frame_size (en_target s0) \<le> length src" using assms(4) Some by (simp add: s0)
      note e1 = Composite_keeps [OF c s0(1) assms(3) fits]
      have g: "GetRenderFrame v e = (if \<not> rec_Visible (en_record s0) (re_now v)
          then let e = (if en_lastComposited s0 \<or> re_frameId v \<noteq> en_srcFrameId s0 then s0\<lparr>en_outFrameId := en_outFrameId s0 + 1\<rparr> else s0);
                   e = e\<lparr>en_lastComposited := False, en_srcFrameId := re_frameId v\<rparr>
               in ((en_outFrameId e, src, False), e)
          else if \<not> en_lastComposited s0 \<or> re_frameId v \<noteq> en_srcFrameId s0
          then let e = e1\<lparr>en_lastComposited := True, en_srcFrameId := re_frameId v, en_outFrameId := en_outFrameId e1 + 1\<rparr>
               in ((en_outFrameId e, out, True), e)
          else ((en_outFrameId s0, last_out s0, False), s0))"
        using live Some unfolding GetRenderFrame_def s0_def [symmetric] by (simp add: Let_def c)
      consider (raw) "\<not> rec_Visible (en_record s0) (re_now v)"
        | (fresh) "rec_Visible (en_record s0) (re_now v)" "\<not> en_lastComposited s0 \<or> re_frameId v \<noteq> en_srcFrameId s0"
        | (again) "rec_Visible (en_record s0) (re_now v)" "\<not> (\<not> en_lastComposited s0 \<or> re_frameId v \<noteq> en_srcFrameId s0)" by blast
      then show ?thesis
      proof cases
        case raw
        then show ?thesis using assms(1) unfolding g Let_def by (intro same [OF _ _ _ _ _ s0]) (auto split: if_splits)
      next
        case fresh
        then have "e' = e1\<lparr>en_lastComposited := True, en_srcFrameId := re_frameId v, en_outFrameId := en_outFrameId e1 + 1\<rparr>"
          using assms(1) unfolding g Let_def by simp
        with e1 s0 show ?thesis by (intro same [of e1]) simp_all
      next
        case again
        then have "e' = s0" using assms(1) unfolding g by simp
        with s0 show ?thesis by simp
      qed
    qed
  qed
qed

lemma list_update_inv:
  assumes "overlay_inv o1" "k < length (do_entries o1)" "entry_ok e'" "en_target e' = en_target (do_entries o1 ! k)" "en_live e' = en_live (do_entries o1 ! k)"
  shows "overlay_inv (o1\<lparr>do_entries := (do_entries o1)[k := e']\<rparr>)"
proof -
  let ?es = "do_entries o1"
  have t: "map en_target (?es[k := e']) = map en_target ?es" using assms(2,4) by (simp add: map_update list_update_same_conv)
  have l: "map en_live (?es[k := e']) = map en_live ?es" using assms(2,5) by (simp add: map_update list_update_same_conv)
  have mem: "\<exists>x \<in> set ?es. en_target x = en_target y \<and> en_live x = en_live y" if "y \<in> set (?es[k := e'])" for y
    using that set_update_subset_insert [of ?es k e'] assms(2,4,5) by (metis insertE nth_mem subsetD)
  have live: "(\<exists>e \<in> set (?es[k := e']). en_live e) = (\<exists>e \<in> set ?es. en_live e)"
  proof -
    have "True \<in> set (map en_live (?es[k := e'])) \<longleftrightarrow> True \<in> set (map en_live ?es)" by (simp only: l)
    then show ?thesis by (auto simp: image_iff)
  qed
  have ok: "\<forall>y \<in> set (?es[k := e']). entry_ok y"
    using assms(1,3) set_update_subset_insert [of ?es k e'] by (auto simp: overlay_inv_def entries_ok_def)
  have inv: "distinct (map en_target ?es)" "\<forall>r \<in> set (do_retired o1). \<not> en_live (fst r)" "do_detached o1 \<Longrightarrow> e \<in> set ?es \<Longrightarrow> \<not> en_live e"
    "e \<in> set ?es \<Longrightarrow> en_live e \<Longrightarrow> tg_source (en_target e) \<in> set (do_sources o1)" "do_surface o1 = (\<exists>e \<in> set ?es. en_live e)" for e
    using assms(1) by (simp_all add: overlay_inv_def entries_ok_def targets_listed_def surface_true_def)
  have "\<not> en_live y" if "do_detached o1" "y \<in> set (?es[k := e'])" for y using mem [OF that(2)] inv(3) [OF that(1)] by metis
  moreover have "tg_source (en_target y) \<in> set (do_sources o1)" if "y \<in> set (?es[k := e'])" "en_live y" for y
    using mem [OF that(1)] inv(4) that(2) by metis
  ultimately show ?thesis
    using inv(1,2,5) ok unfolding overlay_inv_def entries_ok_def targets_listed_def surface_true_def by (simp add: t live)
qed

lemma message_part: "surface_part (snd (OnOverlayMsg free now msg o1)) = surface_part o1"
  by (auto simp: OnOverlayMsg_def surface_part_def Let_def split: option.split overlay_message_op.split prod.split)

lemma DrainDrops_part: "surface_part (DrainDrops free now o1) = surface_part o1"
proof -
  have "surface_part (fold (\<lambda>i o1. snd (OnOverlayMsg (f i) now (Some (g i)) o1)) is o2) = surface_part o2" for f g "is" o2
    by (induction "is" arbitrary: o2) (simp_all add: message_part)
  from this [of free "\<lambda>i. drop_message (do_dropQueue o1 ! i)"] show ?thesis by (simp add: DrainDrops_def Let_def) (simp add: surface_part_def)
qed

lemma overlay_inv_step: "overlay_inv o1 \<Longrightarrow> call_fits c o1 \<Longrightarrow> overlay_inv (overlay_step c o1)"
proof (cases c)
  case (V_Sources items)
  assume "overlay_inv o1"
  with sources_report_inv show ?thesis by (simp add: V_Sources overlay_inv_def)
next
  case (V_Deferred now ats w p)
  assume inv: "overlay_inv o1"
  then have "overlay_inv (o1\<lparr>do_applyPending := False\<rparr>)" by (rule overlay_inv_cong [rotated]) (simp add: surface_part_def)
  with inv show ?thesis using Apply_inv [of "o1\<lparr>do_applyPending := False\<rparr>" now ats w p]
    by (simp add: V_Deferred OnDeferredApply_def overlay_inv_def)
next
  case V_Detach
  assume "overlay_inv o1"
  then show ?thesis
    by (auto simp: V_Detach Detach_def SetDropDir_def Let_def overlay_inv_def entries_ok_def targets_listed_def surface_true_def comp_def entry_ok_def)
next
  case (V_Render k v)
  assume inv: "overlay_inv o1" and fits: "call_fits c o1"
  obtain i pic b e' where g: "GetRenderFrame v (do_entries o1 ! k) = ((i, pic, b), e')" by (metis prod.exhaust)
  have k: "k < length (do_entries o1)" using fits by (simp add: V_Render)
  have ok: "entry_ok (do_entries o1 ! k)" using inv k by (simp add: overlay_inv_def entries_ok_def)
  note e' = GetRenderFrame_keeps [OF g ok]
  have "overlay_inv (o1\<lparr>do_entries := (do_entries o1)[k := e']\<rparr>)"
    using e' fits by (intro list_update_inv [OF inv k]) (simp_all add: V_Render)
  then show ?thesis by (rule overlay_inv_cong [rotated]) (simp add: V_Render render_call_def g surface_part_def)
next
  case (V_Identify k a)
  assume inv: "overlay_inv o1" and fits: "call_fits c o1"
  obtain f e' where g: "GetIdentifyFrame a (do_entries o1 ! k) = (f, e')" by fastforce
  have k: "k < length (do_entries o1)" using fits by (simp add: V_Identify)
  have ok: "entry_ok (do_entries o1 ! k)" using inv k by (simp add: overlay_inv_def entries_ok_def)
  have "overlay_inv (o1\<lparr>do_entries := (do_entries o1)[k := e']\<rparr>)"
    using g ok by (intro list_update_inv [OF inv k]) (auto simp: GetIdentifyFrame_def entry_ok_def split: if_splits)
  then show ?thesis by (simp add: V_Identify identify_call_def g)
next
  case (V_Controller ctl)
  assume inv: "overlay_inv o1"
  show ?thesis by (rule overlay_inv_cong [OF _ inv]) (simp add: V_Controller overlay_SetController_def Let_def ScheduleApply_def surface_part_def)
next
  case (V_Message free now msg)
  assume inv: "overlay_inv o1"
  show ?thesis by (rule overlay_inv_cong [OF _ inv]) (simp add: V_Message message_part)
next
  case (V_PrepareFrame g free frees now)
  assume inv: "overlay_inv o1"
  show ?thesis
    by (rule overlay_inv_cong [OF _ inv]) (simp add: V_PrepareFrame overlay_OnPrepareFrame_def Let_def DrainDrops_part, simp add: QueryPlatform_def surface_part_def)
next
  case (V_DropRound files seen)
  assume inv: "overlay_inv o1"
  show ?thesis by (rule overlay_inv_cong [OF _ inv]) (simp add: V_DropRound drop_round_def Let_def surface_part_def split: prod.split)
next
  case (V_Store pl)
  assume inv: "overlay_inv o1"
  show ?thesis by (rule overlay_inv_cong [OF _ inv]) (simp add: V_Store overlay_Store_def surface_part_def split: prod.split)
next
  case (V_Control b d now)
  assume inv: "overlay_inv o1"
  show ?thesis by (rule overlay_inv_cong [OF _ inv]) (simp add: V_Control overlay_Control_def Let_def surface_part_def)
next
  case (V_Drain free)
  assume inv: "overlay_inv o1"
  show ?thesis by (rule overlay_inv_cong [OF _ inv]) (simp add: V_Drain overlay_DrainPending_def surface_part_def)
next
  case (V_DropDir dir)
  assume inv: "overlay_inv o1"
  show ?thesis by (rule overlay_inv_cong [OF _ inv]) (simp add: V_DropDir SetDropDir_def Let_def surface_part_def)
next
  case V_Clear
  assume inv: "overlay_inv o1"
  show ?thesis by (rule overlay_inv_cong [OF _ inv]) (simp add: V_Clear overlay_Clear_def surface_part_def)
qed

lemma overlay_reach_inv: "overlay_reach echo o1 \<Longrightarrow> overlay_inv o1"
proof (induction rule: overlay_reach.induct)
  case (or_init echo endpoint)
  show ?case by (simp add: overlay_inv_def entries_ok_def targets_listed_def surface_true_def DmdOverlay_def)
next
  case (or_call echo o1 c)
  with overlay_inv_step show ?case by blast
qed

section \<open>What is due is scheduled\<close>

definition settled :: "dmd_overlay \<Rightarrow> bool" where
  "settled o1 \<longleftrightarrow> do_detached o1 \<or> \<not> NeedsApply o1 \<or> do_applyPending o1"

text \<open>What \<open>NeedsApply\<close> reads, and the flag.\<close>

definition apply_part :: "dmd_overlay \<Rightarrow> _" where
  "apply_part o1 = (map (\<lambda>e. (en_listed e, en_target e, en_live e)) (do_entries o1), do_sources o1, do_controller o1, do_detached o1, do_applyPending o1)"

lemma NeedsApply_cong:
  assumes "map (\<lambda>e. (en_listed e, en_target e, en_live e)) (do_entries o2) = map (\<lambda>e. (en_listed e, en_target e, en_live e)) (do_entries o1)"
    "do_sources o2 = do_sources o1" "do_controller o2 = do_controller o1" "do_detached o2 = do_detached o1"
  shows "NeedsApply o2 = NeedsApply o1" "Desired o2 = Desired o1"
proof -
  let ?view = "\<lambda>e. (en_listed e, en_target e, en_live e)"
  have m: "map (\<lambda>e. f (?view e)) (do_entries o2) = map (\<lambda>e. f (?view e)) (do_entries o1)" for f
    using arg_cong [OF assms(1), of "map f"] by (simp add: comp_def)
  have "override_chain o2 = override_chain o1"
    using m [of "\<lambda>(l, t, v). \<lparr>source_id = res_word (di_id l), overrides = res_word (di_id (tg_source t)), ours = True\<rparr>"]
    by (simp add: override_chain_def assms(2))
  then show d: "Desired o2 = Desired o1" by (simp only: Desired_def assms(2-4))
  have l: "length (do_entries o2) = length (do_entries o1)" using arg_cong [OF assms(1), of length] by simp
  have e: "(\<exists>e \<in> set (do_entries x). \<not> en_live e \<or> en_target e \<notin> D) \<longleftrightarrow> True \<in> set (map (\<lambda>e. (\<lambda>(l, t, v). \<not> v \<or> t \<notin> D) (?view e)) (do_entries x))" for D x
    by (auto simp: image_iff)
  show "NeedsApply o2 = NeedsApply o1" unfolding NeedsApply_def Let_def d l e m ..
qed

lemma settled_cong: "apply_part o2 = apply_part o1 \<Longrightarrow> settled o1 \<Longrightarrow> settled o2"
  using NeedsApply_cong(1) [of o2 o1] by (simp add: apply_part_def settled_def)

lemma settled_eq: "apply_part o2 = apply_part o1 \<Longrightarrow> settled o2 = settled o1"
  using settled_cong [of o2 o1] settled_cong [of o1 o2] by metis

lemma settled_simps [simp]: "settled (UpdateSurface x) = settled x" "settled (x\<lparr>do_surfaceGeneration := g\<rparr>) = settled x"
  by (rule settled_eq, simp add: apply_part_def UpdateSurface_def Let_def)+

lemma schedule_settled: "settled (if \<not> do_detached o1 \<and> NeedsApply o1 then ScheduleApply o1 else o1)"
  by (auto simp: settled_def ScheduleApply_def)

lemma Broadcast_settled: "reports \<noteq> [] \<Longrightarrow> settled (Broadcast reports o1)"
proof (induction reports arbitrary: o1 rule: rev_induct)
  case (snoc r rs)
  show ?case by (simp add: Broadcast_def sources_report_def overlay_OnSourcesChanged_def Let_def) (intro conjI impI; use schedule_settled in \<open>simp add: settled_def ScheduleApply_def\<close>)
qed simp

lemma Targets_distinct: "distinct (Targets sources root)"
proof -
  obtain kept parents where lp: "link_parents sources sources = (kept, parents)" by fastforce
  have "walk_inv (zip sources parents) kept root 0 [root] []" by (simp add: walk_inv_def)
  from walk_exact [OF this] show ?thesis by (simp add: Targets_def lp)
qed

lemma distinct_map_filter:
  "distinct xs \<Longrightarrow> (\<And>x y z. x \<in> set xs \<Longrightarrow> y \<in> set xs \<Longrightarrow> f x = Some z \<Longrightarrow> f y = Some z \<Longrightarrow> x = y) \<Longrightarrow> distinct (List.map_filter f xs)"
proof (induction xs)
  case (Cons x xs)
  have "distinct (List.map_filter f xs)" using Cons.prems by (intro Cons.IH) auto
  moreover have "z \<notin> set (List.map_filter f xs)" if "f x = Some z" for z
  proof
    assume "z \<in> set (List.map_filter f xs)"
    then obtain y where "y \<in> set xs" "f y = Some z" by (auto simp: List.map_filter_def)
    with Cons.prems that show False by auto
  qed
  ultimately show ?case by (cases "f x") simp_all
qed simp

lemma Desired_distinct: "distinct (Desired o1)"
proof -
  have nodes: "i = j" if "find_node all i = Some k" "find_node all j = Some l" "target_of all r k = target_of all r l" for all i j k l r
  proof -
    from that(1,2) have "res_word (di_id (all ! k)) = i" "res_word (di_id (all ! l)) = j" by (auto simp: find_node_def find_Some_iff)
    moreover from that(3) have "all ! k = all ! l" by (simp add: target_of_def)
    ultimately show ?thesis by simp
  qed
  show ?thesis
    unfolding Desired_def Let_def
    by (auto split: option.split intro!: distinct_map_filter [OF Targets_distinct] split: if_splits option.splits) (metis nodes)
qed

lemma add_entries_none:
  assumes "add_entries ats desired (False, o1) = (False, o2)"
  shows "o2 = o1 \<and> (\<forall>t \<in> set desired. \<exists>e \<in> set (do_entries o1). en_target e = t)"
proof -
  have stuck: "fst (add_entries ats ts (True, x))" for ats ts x
    by (induction ts arbitrary: ats x) (auto split: prod.split)
  show ?thesis using assms
  proof (induction desired arbitrary: ats)
    case (Cons t ts)
    show ?case
    proof (cases "\<exists>e \<in> set (do_entries o1). en_target e = t")
      case True
      with Cons show ?thesis by simp
    next
      case False
      with Cons.prems stuck show ?thesis by (auto split: prod.splits) (metis fst_conv)
    qed
  qed simp
qed

lemma Apply_settled:
  assumes "entries_ok o1" "w \<noteq> []" "p \<noteq> []"
  shows "settled (Apply now ats w p o1)"
proof -
  define o0 where "o0 = o1\<lparr>do_retired := filter (\<lambda>r. \<not> now - snd r \<ge> RETIRE_AFTER) (do_retired o1)\<rparr>"
  have dist: "distinct (map en_target (do_entries o0))" using assms(1) by (simp add: o0_def entries_ok_def)
  obtain removed o2 where wd: "withdraw now (Desired o0) o0 = (removed, o2)" by fastforce
  define o3 where "o3 = (if removed then Broadcast w o2 else o2)"
  define desired where "desired = (if removed then Desired o3 else Desired o0)"
  obtain added o4 where a: "add_entries ats desired (False, o3) = (added, o4)" by fastforce
  define o5 where "o5 = (if added then Broadcast p o4 else o4)"
  define o6 where "o6 = (if removed \<or> added then o5\<lparr>do_surfaceGeneration := do_surfaceGeneration o5 + 1\<rparr> else o5)"
  have A: "Apply now ats w p o1 = UpdateSurface o6"
    unfolding Apply_def Let_def o0_def [symmetric] wd prod.case o3_def [symmetric] desired_def [symmetric] a o5_def [symmetric] o6_def [symmetric] ..
  have "settled o5"
  proof (cases added)
    case True
    then show ?thesis using Broadcast_settled [OF assms(3)] by (simp add: o5_def)
  next
    case False
    with a have none: "o4 = o3" "\<forall>t \<in> set desired. \<exists>e \<in> set (do_entries o3). en_target e = t" using add_entries_none [of ats desired o3 o4] by simp_all
    show ?thesis
    proof (cases removed)
      case True
      then show ?thesis using Broadcast_settled [OF assms(2)] False none(1) by (simp add: o5_def o3_def)
    next
      case kept: False
      then have all: "\<forall>e \<in> set (do_entries o0). wanted (Desired o0) e" using wd by (simp add: withdraw_def)
      have "do_entries o2 = filter (wanted (Desired o0)) (do_entries o0)" using wd by (auto simp: withdraw_def)
      then have e2: "do_entries o2 = do_entries o0" using all by (simp add: filter_id_conv)
      have o2: "NeedsApply o2 = NeedsApply o0" using wd e2 by (intro NeedsApply_cong) (auto simp: withdraw_def)
      have "set (map en_target (do_entries o0)) = set (Desired o0)"
        using all none(2) kept e2 by (auto simp: wanted_def desired_def o3_def)
      then have "length (do_entries o0) = length (Desired o0)"
        using distinct_card [OF dist] distinct_card [OF Desired_distinct [of o0]] by simp
      then have "\<not> NeedsApply o0" using all by (auto simp: NeedsApply_def Let_def wanted_def)
      with False none(1) kept o2 show ?thesis by (simp add: settled_def o5_def o3_def)
    qed
  qed
  then show ?thesis unfolding A by (simp add: o6_def)
qed

lemma list_update_part:
  assumes "k < length (do_entries o1)" "en_listed e' = en_listed (do_entries o1 ! k)" "en_target e' = en_target (do_entries o1 ! k)"
    "en_live e' = en_live (do_entries o1 ! k)"
  shows "apply_part (o1\<lparr>do_entries := (do_entries o1)[k := e']\<rparr>) = apply_part o1"
  using assms by (simp add: apply_part_def map_update list_update_same_conv)

lemma message_apply: "apply_part (snd (OnOverlayMsg free now msg o1)) = apply_part o1"
  by (auto simp: OnOverlayMsg_def apply_part_def Let_def split: option.split overlay_message_op.split prod.split)

lemma DrainDrops_apply: "apply_part (DrainDrops free now o1) = apply_part o1"
proof -
  have "apply_part (fold (\<lambda>i o1. snd (OnOverlayMsg (f i) now (Some (g i)) o1)) is o2) = apply_part o2" for f g "is" o2
    by (induction "is" arbitrary: o2) (simp_all add: message_apply)
  from this [of free "\<lambda>i. drop_message (do_dropQueue o1 ! i)"] show ?thesis by (simp add: DrainDrops_def Let_def) (simp add: apply_part_def)
qed

lemma settled_step:
  assumes "overlay_inv o1" "settled o1" "call_fits c o1" "echoes c"
  shows "settled (overlay_step c o1)"
proof (cases c)
  case (V_Sources items)
  show ?thesis using schedule_settled by (simp only: V_Sources overlay_step.simps sources_report_def overlay_OnSourcesChanged_def Let_def)
next
  case (V_Controller ctl)
  show ?thesis using schedule_settled by (simp only: V_Controller overlay_step.simps overlay_SetController_def Let_def)
next
  case (V_Deferred now ats w p)
  have "entries_ok (o1\<lparr>do_applyPending := False\<rparr>)" using assms(1) by (simp add: overlay_inv_def entries_ok_def)
  with assms(2,4) Apply_settled show ?thesis by (simp add: V_Deferred OnDeferredApply_def)
next
  case V_Detach
  then show ?thesis by (simp add: Detach_def SetDropDir_def Let_def settled_def)
next
  case (V_Render k v)
  obtain i pic b e' where g: "GetRenderFrame v (do_entries o1 ! k) = ((i, pic, b), e')" by (metis prod.exhaust)
  have k: "k < length (do_entries o1)" using assms(3) by (simp add: V_Render)
  have ok: "entry_ok (do_entries o1 ! k)" using assms(1) k by (simp add: overlay_inv_def entries_ok_def)
  note e' = GetRenderFrame_keeps [OF g ok]
  have part: "apply_part (o1\<lparr>do_entries := (do_entries o1)[k := e']\<rparr>) = apply_part o1"
    using e' assms(3) by (intro list_update_part [OF k]) (simp_all add: V_Render)
  have count: "apply_part (x\<lparr>do_compositedFrames := n\<rparr>) = apply_part x" for x n by (simp add: apply_part_def)
  show ?thesis
    by (rule settled_cong [OF _ assms(2)]) (simp only: V_Render overlay_step.simps render_call_def g prod.case snd_conv count part)
next
  case (V_Identify k a)
  obtain f e' where g: "GetIdentifyFrame a (do_entries o1 ! k) = (f, e')" by fastforce
  have k: "k < length (do_entries o1)" using assms(3) by (simp add: V_Identify)
  have "apply_part (o1\<lparr>do_entries := (do_entries o1)[k := e']\<rparr>) = apply_part o1"
    using g by (intro list_update_part [OF k]) (auto simp: GetIdentifyFrame_def split: if_splits)
  then show ?thesis by (intro settled_cong [OF _ assms(2)]) (simp only: V_Identify overlay_step.simps identify_call_def g prod.case snd_conv)
next
  case (V_Message free now msg)
  then show ?thesis using settled_cong [OF message_apply assms(2)] by simp
next
  case (V_PrepareFrame g free frees now)
  show ?thesis
    by (rule settled_cong [OF _ assms(2)]) (simp add: V_PrepareFrame overlay_OnPrepareFrame_def Let_def DrainDrops_apply, simp add: QueryPlatform_def apply_part_def)
next
  case (V_DropRound files seen)
  show ?thesis by (rule settled_cong [OF _ assms(2)]) (simp add: V_DropRound drop_round_def Let_def apply_part_def split: prod.split)
qed (rule settled_cong [OF _ assms(2)],
    simp add: overlay_Store_def overlay_Control_def overlay_DrainPending_def SetDropDir_def overlay_Clear_def Let_def apply_part_def split: prod.split)+

lemma overlay_reach_settled: "overlay_reach echo o1 \<Longrightarrow> echo \<Longrightarrow> settled o1"
proof (induction rule: overlay_reach.induct)
  case (or_init echo endpoint)
  show ?case by (simp add: settled_def NeedsApply_def Desired_def DmdOverlay_def)
next
  case (or_call echo o1 c)
  then have "settled o1" "echoes c" by simp_all
  from settled_step [OF overlay_reach_inv [OF or_call.hyps(1)] this(1) or_call.hyps(2) this(2)] show ?case .
qed

section \<open>An example\<close>

definition calls_2x2 :: "overlay_call list" where
  "calls_2x2 = [V_Controller 7, V_Sources [source_2x2], V_Deferred 0 [5] [[source_2x2]] [[source_2x2]]]"

definition run_2x2 :: dmd_overlay where
  "run_2x2 = fold overlay_step calls_2x2 (DmdOverlay 3)"

lemma run_2x2_reach: "overlay_reach True run_2x2"
  unfolding run_2x2_def calls_2x2_def fold.simps comp_def id_apply
  by (intro or_call or_init) simp_all

lemma run_2x2_targets: "map en_target (do_entries run_2x2) = [target_2x2]" "\<not> do_detached run_2x2" "\<not> do_applyPending run_2x2"
  by code_simp+

section \<open>Properties\<close>

text \<open>
  C6. No call reaches a source that is gone. In every reachable state an override that is live has a target the host lists, a withdrawn one is
  never live, no two override the same target, and the overlay says it has a surface exactly when some override is live; this holds whatever
  display lists arrive inside the broadcasts of an apply.
\<close>

theorem overrides_listed:
  assumes "overlay_reach echo o1"
  shows "(\<forall>e \<in> set (do_entries o1). en_live e \<longrightarrow> tg_source (en_target e) \<in> set (do_sources o1)) \<and>
    (\<forall>r \<in> set (do_retired o1). \<not> en_live (fst r)) \<and> distinct (map en_target (do_entries o1)) \<and>
    HasSurface o1 = (\<exists>e \<in> set (do_entries o1). en_live e)"
  using overlay_reach_inv [OF assms]
  by (simp add: overlay_inv_def entries_ok_def targets_listed_def surface_true_def HasSurface_def)

theorem overrides_listed_witness:
  "do_entries run_2x2 \<noteq> [] \<and> (\<lambda>e. tg_source (en_target e)) ` set (filter en_live (do_entries run_2x2)) \<subseteq> set (do_sources run_2x2)"
  using overrides_listed [OF run_2x2_reach] run_2x2_targets(1) by auto

text \<open>
  C30. What is due is scheduled. When the host reports the display list inside each broadcast of ours, then in every reachable state that is not
  detached, either the overrides are exactly those the display list calls for, all live, or an apply is pending.
\<close>

theorem apply_never_forgotten:
  assumes "overlay_reach True o1" "\<not> do_detached o1" "\<not> do_applyPending o1"
  shows "set (map en_target (do_entries o1)) = set (Desired o1) \<and> distinct (map en_target (do_entries o1)) \<and>
    (\<forall>e \<in> set (do_entries o1). en_live e)"
proof -
  have "\<not> NeedsApply o1" using overlay_reach_settled [OF assms(1)] assms(2,3) by (simp add: settled_def)
  then have n: "length (Desired o1) = length (do_entries o1)" "\<forall>e \<in> set (do_entries o1). en_live e \<and> en_target e \<in> set (Desired o1)"
    by (auto simp: NeedsApply_def Let_def split: if_splits)
  have d: "distinct (map en_target (do_entries o1))" using overlay_reach_inv [OF assms(1)] by (simp add: overlay_inv_def entries_ok_def)
  have "set (map en_target (do_entries o1)) \<subseteq> set (Desired o1)" using n(2) by auto
  moreover have "card (set (map en_target (do_entries o1))) = card (set (Desired o1))"
    using distinct_card [OF d] distinct_card [OF Desired_distinct [of o1]] n(1) by simp
  ultimately have "set (map en_target (do_entries o1)) = set (Desired o1)" by (intro card_subset_eq) simp_all
  with n d show ?thesis by simp
qed

theorem apply_never_forgotten_witness:
  "set (Desired run_2x2) = {target_2x2} \<and> list_all en_live (do_entries run_2x2)"
  using apply_never_forgotten [OF run_2x2_reach run_2x2_targets(2,3)] by (simp add: run_2x2_targets(1) list_all_iff)

end
