(* ===== verification/Plugin_Entry.thy ===== *)
theory Plugin_Entry
  imports Script_Binding Overlay_Surface Status_Light
begin

text \<open>
  \<^verbatim>\<open>src/ScorbitPlugin.cpp\<close>: the plugin as the host sees it. Loading and unloading it, the quarter-second tick, the list of controllers and
  what follows from it, and the status light's call. It owns the tap, the overlay, the session source and the worker, and is where they meet.
  \<open>CtrlItemConsumer\<close> is the host's: it delivers lists of controllers, in the lists that stand for what it delivers inside each of its own calls.
  The declarations of the settings, the window behind \<open>UpdateStatusWindow\<close> (with the call that takes it away at unload) and the texts logged are not modelled.
\<close>

section \<open>State\<close>

record ControllerDef =
  cd_endpointId :: u32
  cd_gameId :: "string option"

text \<open>
  The file's variables. \<open>pl_session\<close> is \<^verbatim>\<open>vpxSession\<close> and the object behind it, to which the script binding holds a pointer of its own;
  \<open>pl_worker\<close> is whether the worker's thread runs and \<open>pl_authored\<close> its configuration's \<^verbatim>\<open>authoredTables\<close>; \<open>pl_controllers\<close> is the consumer with
  the items its filter left; \<open>pl_leaked\<close> is an overlay left to the OS.
\<close>

record plugin =
  pl_msgApi :: bool
  pl_quitHook :: bool
  pl_unloadingAtQuit :: bool
  pl_tap :: "dmd_tap option"
  pl_overlay :: "dmd_overlay option"
  pl_session :: "session_source option"
  pl_binding :: script_binding
  pl_worker :: bool
  pl_authored :: bool
  pl_logDrain :: bool
  pl_controllers :: "ControllerDef list option"
  pl_romId :: string
  pl_endpointId :: u32
  pl_light :: LightView
  pl_claims :: u32
  pl_unavailableLogged :: bool
  pl_leaked :: "dmd_overlay option"

definition plugin_init :: plugin where
  "plugin_init = \<lparr>pl_msgApi = False, pl_quitHook = False, pl_unloadingAtQuit = False, pl_tap = None, pl_overlay = None, pl_session = None,
     pl_binding = \<lparr>sb_msgApi = False, sb_scriptApi = False, sb_session = None\<rparr>, pl_worker = False, pl_authored = False, pl_logDrain = False,
     pl_controllers = None, pl_romId = [], pl_endpointId = 0, pl_light = LightView0, pl_claims = 0, pl_unavailableLogged = False,
     pl_leaked = None\<rparr>"

text \<open>The session object changes for every pointer to it.\<close>

definition put_session :: "session_source \<Rightarrow> plugin \<Rightarrow> plugin" where
  "put_session s p = p\<lparr>pl_session := Some s, pl_binding := (case sb_session (pl_binding p) of None \<Rightarrow> pl_binding p
     | Some _ \<Rightarrow> (pl_binding p)\<lparr>sb_session := Some s\<rparr>)\<rparr>"

text \<open>What a declaration is built from beside the session: the pinned build, and what the tap and the overlay say now.\<close>

record plugin_host =
  ph_version :: string
  ph_revision :: string
  ph_displays :: "DisplaySrc list"
  ph_reading :: tap_reading

definition surface_now :: "plugin \<Rightarrow> u64" where
  "surface_now p = (case pl_overlay p of None \<Rightarrow> 0 | Some o1 \<Rightarrow> do_surfaceGeneration o1)"

definition env_of :: "plugin_host \<Rightarrow> plugin \<Rightarrow> declare_env" where
  "env_of h p = \<lparr>de_pinnedVersion = ph_version h, de_pinnedRevision = ph_revision h, de_tap = ph_reading h, de_surfaceGeneration = surface_now p\<rparr>"

section \<open>Controllers\<close>

text \<open>\<open>pmpi\<close> is PinMAME's \<^verbatim>\<open>PMPI_GAMEID_PREFIX\<close>.\<close>

definition FilterControllers :: "string \<Rightarrow> ControllerDef list \<Rightarrow> ControllerDef list" where
  "FilterControllers pmpi items =
     filter (\<lambda>def. \<not> (case cd_gameId def of None \<Rightarrow> True | Some g \<Rightarrow> take (length pmpi) g \<noteq> pmpi)) items"

definition controller_now :: "string \<Rightarrow> plugin \<Rightarrow> string \<times> u32" where
  "controller_now pmpi p =
     (case pl_controllers p of
        Some (c # _) \<Rightarrow> (case cd_gameId c of Some g \<Rightarrow> drop (length pmpi) g | None \<Rightarrow> [], cd_endpointId c)
      | _ \<Rightarrow> ([], 0))"

definition OnControllersChanged :: "string \<Rightarrow> plugin_host \<Rightarrow> plugin \<Rightarrow> plugin" where
  "OnControllersChanged pmpi h p =
     (case controller_now pmpi p of (rom, controller) \<Rightarrow>
        if rom = pl_romId p \<and> controller = pl_endpointId p then p
        else let p = p\<lparr>pl_romId := rom, pl_endpointId := controller\<rparr>;
                 p = (case pl_tap p of None \<Rightarrow> p | Some t \<Rightarrow> p\<lparr>pl_tap := Some (SetController (pl_endpointId p) (ph_displays h) t)\<rparr>);
                 p = (case pl_overlay p of None \<Rightarrow> p | Some o1 \<Rightarrow> p\<lparr>pl_overlay := Some (overlay_SetController (pl_endpointId p) o1)\<rparr>)
             in case pl_session p of None \<Rightarrow> p | Some s \<Rightarrow> put_session (SetRomId (env_of h p) rom s) p)"

text \<open>A list of controllers the host delivers.\<close>

definition controllers_report :: "string \<Rightarrow> plugin_host \<Rightarrow> ControllerDef list \<Rightarrow> plugin \<Rightarrow> plugin" where
  "controllers_report pmpi h items p = OnControllersChanged pmpi h (p\<lparr>pl_controllers := Some (FilterControllers pmpi items)\<rparr>)"

section \<open>The tick\<close>

text \<open>One call of \<open>UpdateStatusWindow\<close>; the opacity is in percent.\<close>

record window_call =
  wc_corner :: int
  wc_view :: LightView
  wc_opacity :: int
  wc_flash :: bool
  wc_caption :: string

record light_settings =
  ls_show :: bool
  ls_corner :: int
  ls_opacity :: int

text \<open>\<open>update\<close> is the window's answer to the call, \<open>unavailable\<close> whether it says why it cannot show.\<close>

definition ApplyStatusWindow ::
  "light_settings \<Rightarrow> time_point \<Rightarrow> (window_call \<Rightarrow> bool) \<Rightarrow> bool \<Rightarrow> plugin \<Rightarrow> window_call option \<times> plugin" where
  "ApplyStatusWindow settings now update unavailable p =
     (case pl_session p of
        None \<Rightarrow> (None, p)
      | Some s \<Rightarrow>
          case ScriptStatus s of (r, s) \<Rightarrow>
          let p = p\<lparr>pl_light := LightFor r now (pl_light p)\<rparr>;
              corner = (if vs_playerRunning s \<and> ls_show settings then ls_corner settings else 0)
          in case ScriptReadBack now s of (rb, s) \<Rightarrow>
          let claims = Claims rb;
              claimed = (claims \<noteq> pl_claims p \<and> corner \<noteq> 0);
              p = put_session s (p\<lparr>pl_claims := claims\<rparr>);
              call = \<lparr>wc_corner = corner, wc_view = pl_light p, wc_opacity = ls_opacity settings, wc_flash = claimed, wc_caption = CaptionFor r now\<rparr>
          in (Some call,
              if update call then p
              else if corner \<noteq> 0 \<and> \<not> pl_unavailableLogged p \<and> unavailable then p\<lparr>pl_unavailableLogged := True\<rparr> else p))"

text \<open>The lines written, the window call, and whether the tick is scheduled again.\<close>

record tick_env =
  te_host :: plugin_host
  te_settings :: light_settings
  te_now :: time_point
  te_update :: "window_call \<Rightarrow> bool"
  te_unavailable :: bool
  te_free :: bool

definition DrainSocketLog :: "tick_env \<Rightarrow> plugin \<Rightarrow> ((int \<times> string) list \<times> window_call option \<times> bool) \<times> plugin" where
  "DrainSocketLog e p =
     (if \<not> pl_logDrain p then (([], None, False), p)
      else let (lines, p) = (case pl_session p of None \<Rightarrow> ([], p)
             | Some s \<Rightarrow> (case DrainLog s of (lines, s) \<Rightarrow> (lines, put_session (UpdateDeclare (env_of (te_host e) p) s) p)));
             (call, p) = ApplyStatusWindow (te_settings e) (te_now e) (te_update e) (te_unavailable e) p;
             p = (case pl_overlay p of None \<Rightarrow> p | Some o1 \<Rightarrow> p\<lparr>pl_overlay := Some (overlay_DrainPending (te_free e) o1)\<rparr>)
           in ((lines, call, True), p))"

section \<open>Loading\<close>

text \<open>\<^verbatim>\<open>std::filesystem::path\<close> on a POSIX system: a relative path does not start at the root, and \<open>a / b\<close> puts one separator between.\<close>

definition is_relative :: "string \<Rightarrow> bool" where
  "is_relative path \<longleftrightarrow> \<not> (path \<noteq> [] \<and> hd path = CHR ''/'')"

definition path_append :: "string \<Rightarrow> string \<Rightarrow> string" where
  "path_append a b = (if \<not> is_relative b then b else if a = [] \<or> last a = CHR ''/'' then a @ b else a @ ''/'' @ b)"

text \<open>A relative path is taken against the pref dir; \<open>vpx\<close> is the VPX API's answer for it, \<open>None\<close> without the API.\<close>

definition under_prefs :: "string option option \<Rightarrow> string \<Rightarrow> string" where
  "under_prefs vpx path =
     (if path \<noteq> [] \<and> is_relative path
      then case vpx of Some (Some prefPath) \<Rightarrow> path_append prefPath path | _ \<Rightarrow> path
      else path)"

record load_env =
  le_sessionId :: u32
  le_vpx :: "string option option"
  le_dmdDump :: string
  le_dumpOpens :: bool
  le_overlayDrop :: string
  le_displays :: "DisplaySrcId list list"
  le_scriptApi :: bool
  le_host :: plugin_host
  le_now :: time_point
  le_reports :: "ControllerDef list list"

text \<open>
  \<open>le_displays\<close> are the display lists delivered as the overlay subscribes, \<open>le_reports\<close> the lists of controllers as the plugin does. The tap
  subscribes to displays too, but keeps none before it has a controller.
\<close>

definition ScorbitPluginLoad :: "string \<Rightarrow> load_env \<Rightarrow> plugin \<Rightarrow> plugin" where
  "ScorbitPluginLoad pmpi e p =
     (let p = p\<lparr>pl_msgApi := True, pl_unloadingAtQuit := False, pl_quitHook := True\<rparr>;
          tap = SetDumpFile (under_prefs (le_vpx e) (le_dmdDump e)) (le_dumpOpens e) DmdTap;
          p = p\<lparr>pl_tap := Some tap\<rparr>;
          overlay = SetDropDir (under_prefs (le_vpx e) (le_overlayDrop e)) (fold sources_report (le_displays e) (DmdOverlay (le_sessionId e)));
          p = p\<lparr>pl_overlay := Some overlay\<rparr>;
          session = VpxSessionSource (env_of (le_host e) p) (le_now e);
          p = p\<lparr>pl_session := Some session\<rparr>
      in case RegisterScriptBinding (le_scriptApi e) session of (ok, b, calls) \<Rightarrow>
         let p = p\<lparr>pl_binding := b, pl_authored := ok, pl_worker := True, pl_logDrain := True, pl_controllers := Some []\<rparr>
         in fold (controllers_report pmpi (le_host e)) (le_reports e) p)"

section \<open>Unloading\<close>

text \<open>
  \<open>ue_flush\<close> is what the deferred apply finds if the first flush runs it (its time, allocations and the lists delivered inside its broadcasts);
  \<open>ue_reports\<close> are the lists of controllers delivered as the plugin unsubscribes. The second flush finds no overlay.
\<close>

record unload_env =
  ue_host :: plugin_host
  ue_flush :: "time_point \<times> nat list \<times> DisplaySrcId list list \<times> DisplaySrcId list list"
  ue_reports :: "ControllerDef list list"
  ue_now :: time_point

definition FlushPendingCallbacks :: "time_point \<times> nat list \<times> DisplaySrcId list list \<times> DisplaySrcId list list \<Rightarrow> plugin \<Rightarrow> plugin" where
  "FlushPendingCallbacks a p =
     (case pl_overlay p of None \<Rightarrow> p
      | Some o1 \<Rightarrow> (case a of (now, ats, w, pub) \<Rightarrow> p\<lparr>pl_overlay := Some (OnDeferredApply now ats w pub o1)\<rparr>))"

text \<open>The lines the session writes as it goes, and what is left.\<close>

definition ScorbitPluginUnload :: "string \<Rightarrow> unload_env \<Rightarrow> plugin \<Rightarrow> (int \<times> string) list \<times> plugin" where
  "ScorbitPluginUnload pmpi e p =
     (if \<not> pl_msgApi p then ([], p)
      else let p = p\<lparr>pl_quitHook := False, pl_logDrain := False\<rparr>;
               p = (if pl_unloadingAtQuit p then p\<lparr>pl_overlay := map_option Detach (pl_overlay p)\<rparr> else p);
               p = FlushPendingCallbacks (ue_flush e) (p\<lparr>pl_worker := False\<rparr>);
               p = fold (controllers_report pmpi (ue_host e)) (ue_reports e) p;
               p = p\<lparr>pl_controllers := None\<rparr>;
               p = p\<lparr>pl_binding := fst (UnregisterScriptBinding (pl_unloadingAtQuit p) (pl_binding p))\<rparr>;
               lines = (case pl_session p of None \<Rightarrow> [] | Some s \<Rightarrow> fst (DrainLog s));
               p = p\<lparr>pl_session := None\<rparr>;
               p = (if pl_unloadingAtQuit p then p\<lparr>pl_leaked := pl_overlay p\<rparr> else p);
               p = p\<lparr>pl_overlay := None, pl_tap := None, pl_romId := [], pl_endpointId := 0\<rparr>
           in (lines, (FlushPendingCallbacks (ue_flush e) p)\<lparr>pl_msgApi := False\<rparr>))"

definition UnloadOnQuit :: "string \<Rightarrow> unload_env \<Rightarrow> plugin \<Rightarrow> (int \<times> string) list \<times> plugin" where
  "UnloadOnQuit pmpi e p =
     (if \<not> pl_msgApi p then ([], p) else ScorbitPluginUnload pmpi e (p\<lparr>pl_unloadingAtQuit := True\<rparr>))"

section \<open>The history\<close>

text \<open>
  What reaches the plugin, one call at a time: loading, unloading by the host or at quit, a list of controllers, a tick, an event or a worker's call
  for the session source, a script's call through the binding, a call on the overlay, a display list for the tap and a poll of its thread.
\<close>

datatype plugin_call =
    P_Load load_env
  | P_Unload unload_env
  | P_Quit unload_env
  | P_Controllers plugin_host "ControllerDef list"
  | P_Tick tick_env
  | P_Session source_call
  | P_Script script_call
  | P_Overlay overlay_call
  | P_Displays "DisplaySrc list"
  | P_Poll identify_read

fun plugin_step :: "string \<Rightarrow> plugin_call \<Rightarrow> plugin \<Rightarrow> plugin" where
  "plugin_step pmpi (P_Load e) p = ScorbitPluginLoad pmpi e p"
| "plugin_step pmpi (P_Unload e) p = snd (ScorbitPluginUnload pmpi e p)"
| "plugin_step pmpi (P_Quit e) p = snd (UnloadOnQuit pmpi e p)"
| "plugin_step pmpi (P_Controllers h items) p = controllers_report pmpi h items p"
| "plugin_step pmpi (P_Tick e) p = snd (DrainSocketLog e p)"
| "plugin_step pmpi (P_Session c) p = (case pl_session p of None \<Rightarrow> p | Some s \<Rightarrow> put_session (source_step c s) p)"
| "plugin_step pmpi (P_Script c) p =
     (case script_step c (sb_session (pl_binding p)) of None \<Rightarrow> p | Some s \<Rightarrow> put_session s p)"
| "plugin_step pmpi (P_Overlay c) p = p\<lparr>pl_overlay := map_option (overlay_step c) (pl_overlay p)\<rparr>"
| "plugin_step pmpi (P_Displays items) p = p\<lparr>pl_tap := map_option (sources_changed items) (pl_tap p)\<rparr>"
| "plugin_step pmpi (P_Poll r) p = p\<lparr>pl_tap := map_option (\<lambda>t. snd (tap_poll r t)) (pl_tap p)\<rparr>"

text \<open>
  The host loads the plugin when it is not loaded and delivers controllers to a plugin that is. The ROM and the controller are set by
  \<open>OnControllersChanged\<close> alone, the script's game calls come through the binding, and a consumer calls an override as \<open>call_fits\<close> says.
\<close>

fun plugin_fits :: "plugin_call \<Rightarrow> plugin \<Rightarrow> bool" where
  "plugin_fits (P_Load e) p \<longleftrightarrow> \<not> pl_msgApi p"
| "plugin_fits (P_Controllers h items) p \<longleftrightarrow> pl_msgApi p"
| "plugin_fits (P_Session c) p \<longleftrightarrow> (case c of C_SetRomId e r \<Rightarrow> False | C_Commit \<Rightarrow> False | C_GameOp op \<Rightarrow> False | _ \<Rightarrow> True)"
| "plugin_fits (P_Overlay c) p \<longleftrightarrow> (case c of V_Controller x \<Rightarrow> False | _ \<Rightarrow> (case pl_overlay p of None \<Rightarrow> True | Some o1 \<Rightarrow> call_fits c o1))"
| "plugin_fits _ p \<longleftrightarrow> True"

inductive plugin_reach :: "string \<Rightarrow> plugin \<Rightarrow> bool" where
  pr_init: "plugin_reach pmpi plugin_init"
| pr_call: "plugin_reach pmpi p \<Longrightarrow> plugin_fits c p \<Longrightarrow> plugin_reach pmpi (plugin_step pmpi c p)"

section \<open>The parts\<close>

text \<open>What only \<open>OnControllersChanged\<close> changes.\<close>

lemma core_rom: "core s' = core s \<Longrightarrow> vs_romId s' = vs_romId s"
  by (simp add: core_def)

lemmas rom_core = core_steps [THEN core_rom]

lemma rom_ops [simp]:
  "vs_romId (ScriptGameOp g s) = vs_romId s" "vs_romId (ScriptCommit s) = vs_romId s" "vs_romId (UpdateDeclare e s) = vs_romId s"
  "vs_romId (SetRomId e r s) = r" "vs_romId (snd (DrainLog s)) = vs_romId s" "vs_romId (snd (ScriptStatus s)) = vs_romId s"
  "vs_romId (snd (ScriptReadBack now s)) = vs_romId s" "vs_romId (DeclareMachine e m s) = vs_romId s"
  "vs_romId (snd (ScriptRequestTopScores q s)) = vs_romId s" "vs_romId (PostStatusNotice h s) = vs_romId s" "vs_romId (OnPrepareFrame e h s) = vs_romId s"
  by (auto simp: SetRomId_def UpdateDeclare_fields DrainLog_def ScriptStatus_def ScriptReadBack_def OnPrepareFrame_def QueryAddressSpace_def
      DeclareMachine_def bump_epoch_def ScriptRequestTopScores_def rom_core Let_def split: prod.splits)

lemma rom_step: "plugin_fits (P_Session c) p \<Longrightarrow> vs_romId (source_step c s) = vs_romId s"
  by (cases c)
    (auto simp: OnGameStart_def OnGameEnd_def source_TakeDeclare_def source_TakeGames_def GetFrame_def PushLog_def bump_epoch_def
      UpdateDeclare_fields Let_def split: prod.splits option.splits)

lemma rom_results:
  "ScriptStatus s = (r, s') \<Longrightarrow> vs_romId s' = vs_romId s" "ScriptReadBack now s = (rb, s') \<Longrightarrow> vs_romId s' = vs_romId s"
  "ScriptRequestTopScores q s = (i, s') \<Longrightarrow> vs_romId s' = vs_romId s" "DrainLog s = (ls, s') \<Longrightarrow> vs_romId s' = vs_romId s"
  by (metis rom_ops snd_conv)+

lemma rom_script: "\<exists>s'. script_step c (Some s) = Some s' \<and> vs_romId s' = vs_romId s"
  by (cases c)
    (auto simp: script_Declare_def SetGameStarted_def SetGameFinished_def SetCurrentBall_def SetActivePlayer_def SetScore_def AddMode_def AddModeExpiring_def
      SetModeCompleted_def RemoveMode_def ClearModes_def Commit_def Op_def Small_def Mode_def script_Status_def RequestTopScores_def script_ReadBack_eq
      ReleaseTopScores_def Let_def dest: rom_results split: prod.splits option.splits)

lemma controller_Broadcast [simp]: "do_controller (Broadcast rs o1) = do_controller o1"
  unfolding Broadcast_def
  by (induction rs arbitrary: o1)
    (simp_all add: sources_report_def overlay_OnSourcesChanged_def DarkenStale_def UpdateSurface_def ScheduleApply_def Let_def)

lemma controller_add_entries: "do_controller (snd (add_entries ats ts (b, o1))) = do_controller o1"
  by (induction ats ts "(b, o1)" arbitrary: b o1 rule: add_entries.induct) (auto simp: MakeEntry_def Let_def)

lemma controller_UpdateSurface [simp]: "do_controller (UpdateSurface o1) = do_controller o1"
  by (simp add: UpdateSurface_def Let_def)

lemma controller_withdraw: "do_controller (snd (withdraw now ts o1)) = do_controller o1"
  by (simp add: withdraw_def)

lemma controller_Apply: "do_controller (Apply now ats w pub o1) = do_controller o1"
proof -
  define o0 where "o0 = o1\<lparr>do_retired := filter (\<lambda>r. \<not> now - snd r \<ge> RETIRE_AFTER) (do_retired o1)\<rparr>"
  obtain removed o2 where wd: "withdraw now (Desired o0) o0 = (removed, o2)" by fastforce
  define o3 where "o3 = (if removed then Broadcast w o2 else o2)"
  define desired where "desired = (if removed then Desired o3 else Desired o0)"
  obtain added o4 where a: "add_entries ats desired (False, o3) = (added, o4)" by fastforce
  define o5 where "o5 = (if added then Broadcast pub o4 else o4)"
  define o6 where "o6 = (if removed \<or> added then o5\<lparr>do_surfaceGeneration := do_surfaceGeneration o5 + 1\<rparr> else o5)"
  have "do_controller o2 = do_controller o0" using controller_withdraw [of now "Desired o0" o0] by (simp add: wd)
  moreover have "do_controller o0 = do_controller o1" by (simp add: o0_def)
  moreover have "do_controller o4 = do_controller o3" using controller_add_entries [of ats desired False o3] by (simp add: a)
  ultimately have "do_controller o6 = do_controller o1" by (simp add: o3_def o5_def o6_def)
  then show ?thesis
    unfolding Apply_def Let_def o0_def [symmetric] wd prod.case o3_def [symmetric] desired_def [symmetric] a o5_def [symmetric] o6_def [symmetric] by simp
qed

lemma controller_apply_part: "apply_part o2 = apply_part o1 \<Longrightarrow> do_controller o2 = do_controller o1"
  by (simp add: apply_part_def)

lemmas controller_message = message_apply [THEN controller_apply_part] DrainDrops_apply [THEN controller_apply_part]

lemma controller_step: "plugin_fits (P_Overlay c) p \<Longrightarrow> do_controller (overlay_step c o1) = do_controller o1"
  by (cases c)
    (auto simp: sources_report_def overlay_OnSourcesChanged_def DarkenStale_def UpdateSurface_def ScheduleApply_def OnDeferredApply_def controller_Apply
      Detach_def SetDropDir_def render_call_def identify_call_def controller_message overlay_Control_def overlay_Store_def overlay_Clear_def overlay_DrainPending_def
      overlay_OnPrepareFrame_def QueryPlatform_def drop_round_def Let_def split: prod.splits)

section \<open>The parts agree\<close>

text \<open>Each part is in a state its own history reaches, and knows the controller and the ROM the plugin last took from the list.\<close>

definition parts_ok :: "plugin \<Rightarrow> bool" where
  "parts_ok p \<longleftrightarrow> (\<exists>t o1 s ps. pl_tap p = Some t \<and> pl_overlay p = Some o1 \<and> pl_session p = Some s \<and> sb_session (pl_binding p) = Some s \<and>
     dt_controller t = pl_endpointId p \<and> do_controller o1 = pl_endpointId p \<and> vs_romId s = pl_romId p \<and> overlay_reach False o1 \<and> script_reach s ps)"

definition listed_ok :: "string \<Rightarrow> plugin \<Rightarrow> bool" where
  "listed_ok pmpi p \<longleftrightarrow> pl_controllers p \<noteq> None \<and> controller_now pmpi p = (pl_romId p, pl_endpointId p)"

definition plugin_running :: "plugin \<Rightarrow> bool" where
  "plugin_running p \<longleftrightarrow> pl_quitHook p \<and> pl_worker p \<and> pl_logDrain p \<and> \<not> pl_unloadingAtQuit p"

definition gone :: "plugin \<Rightarrow> bool" where
  "gone p \<longleftrightarrow> \<not> pl_quitHook p \<and> \<not> pl_worker p \<and> \<not> pl_logDrain p \<and> pl_tap p = None \<and> pl_overlay p = None \<and> pl_session p = None \<and>
     sb_session (pl_binding p) = None \<and> pl_controllers p = None \<and> pl_romId p = [] \<and> pl_endpointId p = 0"

definition plugin_inv :: "string \<Rightarrow> plugin \<Rightarrow> bool" where
  "plugin_inv pmpi p \<longleftrightarrow> (if pl_msgApi p then parts_ok p \<and> listed_ok pmpi p \<and> plugin_running p else gone p)"

lemma overlay_event: "overlay_reach False o1 \<Longrightarrow> call_fits c o1 \<Longrightarrow> overlay_reach False (overlay_step c o1)"
  using or_call [of False o1 c] by simp

lemma session_event: "script_reach s ps \<Longrightarrow> plugin_fits (P_Session c) p \<or> (\<exists>e r. c = C_SetRomId e r) \<Longrightarrow> script_reach (source_step c s) ps"
  by (intro sr_event) auto

lemma session_event_ops:
  assumes "script_reach s ps"
  shows "script_reach (SetRomId e r s) ps" "script_reach (UpdateDeclare e s) ps" "script_reach (snd (DrainLog s)) ps"
    "script_reach (snd (ScriptStatus s)) ps" "script_reach (snd (ScriptReadBack now s)) ps"
  using session_event [OF assms, of "C_SetRomId e r"] session_event [OF assms, of "C_UpdateDeclare e"] session_event [OF assms, of C_DrainLog]
    session_event [OF assms, of C_ScriptStatus] session_event [OF assms, of "C_ScriptReadBack now"]
  by simp_all

lemma tap_controller [simp]: "dt_controller (SetController c items t) = c" "dt_controller (sources_changed items t) = dt_controller t"
  "dt_controller (snd (tap_poll r t)) = dt_controller t" "dt_controller (SetDumpFile path opened t) = dt_controller t"
  by (auto simp: SetController_def sources_changed_def OnSourcesChanged_def tap_poll_def SetDumpFile_def Let_def)

text \<open>A new state of the session leaves the parts agreeing.\<close>

lemma put_session_parts:
  assumes "parts_ok p" "script_reach s' ps" "vs_romId s' = pl_romId p"
  shows "parts_ok (put_session s' p)"
  using assms by (auto simp: parts_ok_def put_session_def)

lemma put_session_keeps [simp]:
  "listed_ok pmpi (put_session s p) = listed_ok pmpi p" "plugin_running (put_session s p) = plugin_running p" "pl_msgApi (put_session s p) = pl_msgApi p"
  "pl_overlay (put_session s p) = pl_overlay p" "pl_session (put_session s p) = Some s" "pl_unloadingAtQuit (put_session s p) = pl_unloadingAtQuit p"
  "pl_controllers (put_session s p) = pl_controllers p" "pl_romId (put_session s p) = pl_romId p" "pl_endpointId (put_session s p) = pl_endpointId p"
  "pl_claims (put_session s p) = pl_claims p" "pl_light (put_session s p) = pl_light p" "pl_logDrain (put_session s p) = pl_logDrain p"
  by (simp_all add: put_session_def listed_ok_def controller_now_def plugin_running_def)

lemma controllers_changed_ok:
  assumes "parts_ok p" "pl_controllers p \<noteq> None"
  shows "parts_ok (OnControllersChanged pmpi h p) \<and> listed_ok pmpi (OnControllersChanged pmpi h p)"
proof -
  obtain t o1 s ps where p: "pl_tap p = Some t" "pl_overlay p = Some o1" "pl_session p = Some s" "sb_session (pl_binding p) = Some s"
    "overlay_reach False o1" "script_reach s ps" using assms(1) by (auto simp: parts_ok_def)
  obtain rom c where now: "controller_now pmpi p = (rom, c)" by fastforce
  have ov: "overlay_reach False (overlay_SetController c o1)" using overlay_event [OF p(5), of "V_Controller c"] by simp
  have ctl: "do_controller (overlay_SetController c o1) = c" by (simp add: overlay_SetController_def ScheduleApply_def Let_def)
  show ?thesis
  proof (cases "rom = pl_romId p \<and> c = pl_endpointId p")
    case True
    with assms now show ?thesis by (simp add: OnControllersChanged_def listed_ok_def)
  next
    case False
    let ?p = "p\<lparr>pl_romId := rom, pl_endpointId := c, pl_tap := Some (SetController c (ph_displays h) t), pl_overlay := Some (overlay_SetController c o1)\<rparr>"
    have eq: "OnControllersChanged pmpi h p = put_session (SetRomId (env_of h ?p) rom s) ?p"
      using False by (auto simp: OnControllersChanged_def now p Let_def)
    have "controller_now pmpi ?p = (rom, c)" using now by (simp add: controller_now_def)
    then have "listed_ok pmpi ?p" using assms(2) by (simp add: listed_ok_def)
    moreover have "parts_ok (put_session (SetRomId (env_of h ?p) rom s) ?p)"
      using p ov ctl session_event_ops(1) [OF p(6)] by (auto simp: parts_ok_def put_session_def)
    ultimately show ?thesis unfolding eq by simp
  qed
qed

lemma controllers_changed_keeps [simp]:
  "pl_msgApi (OnControllersChanged pmpi h p) = pl_msgApi p" "plugin_running (OnControllersChanged pmpi h p) = plugin_running p"
  "pl_unloadingAtQuit (OnControllersChanged pmpi h p) = pl_unloadingAtQuit p"
  by (auto simp: OnControllersChanged_def Let_def plugin_running_def put_session_def split: prod.split option.split)

lemma report_ok:
  assumes "parts_ok p"
  shows "parts_ok (controllers_report pmpi h items p) \<and> listed_ok pmpi (controllers_report pmpi h items p)"
proof -
  have "parts_ok (p\<lparr>pl_controllers := Some (FilterControllers pmpi items)\<rparr>)" using assms by (simp add: parts_ok_def)
  from controllers_changed_ok [OF this] show ?thesis by (simp add: controllers_report_def)
qed

lemma plugin_running_controllers [simp]: "plugin_running (p\<lparr>pl_controllers := x\<rparr>) = plugin_running p"
  by (simp add: plugin_running_def)

lemma report_keeps [simp]:
  "pl_msgApi (controllers_report pmpi h items p) = pl_msgApi p" "plugin_running (controllers_report pmpi h items p) = plugin_running p"
  "pl_unloadingAtQuit (controllers_report pmpi h items p) = pl_unloadingAtQuit p"
  by (simp_all add: controllers_report_def)

lemma reports_ok:
  "parts_ok p \<Longrightarrow> listed_ok pmpi p \<Longrightarrow>
     parts_ok (fold (controllers_report pmpi h) rs p) \<and> listed_ok pmpi (fold (controllers_report pmpi h) rs p)"
  by (induction rs arbitrary: p) (simp_all add: report_ok)

lemma reports_keep [simp]:
  "pl_msgApi (fold (controllers_report pmpi h) rs p) = pl_msgApi p" "plugin_running (fold (controllers_report pmpi h) rs p) = plugin_running p"
  "pl_unloadingAtQuit (fold (controllers_report pmpi h) rs p) = pl_unloadingAtQuit p"
  by (induction rs arbitrary: p) simp_all

section \<open>Every call keeps it\<close>

lemma sources_reach: "overlay_reach False o1 \<Longrightarrow> overlay_reach False (fold sources_report items o1)"
proof (induction items arbitrary: o1)
  case (Cons i items)
  from overlay_event [OF Cons.prems, of "V_Sources i"] have "overlay_reach False (sources_report i o1)" by simp
  from Cons.IH [OF this] show ?case by simp
qed simp

lemma sources_controller: "do_controller (fold sources_report items o1) = do_controller o1"
  using controller_Broadcast [of items o1] by (simp only: Broadcast_def)

lemma load_inv:
  assumes "gone p"
  shows "plugin_inv pmpi (ScorbitPluginLoad pmpi e p)"
proof -
  define tap where "tap = SetDumpFile (under_prefs (le_vpx e) (le_dmdDump e)) (le_dumpOpens e) DmdTap"
  define ov where "ov = SetDropDir (under_prefs (le_vpx e) (le_overlayDrop e)) (fold sources_report (le_displays e) (DmdOverlay (le_sessionId e)))"
  define p0 where "p0 = p\<lparr>pl_msgApi := True, pl_unloadingAtQuit := False, pl_quitHook := True, pl_tap := Some tap, pl_overlay := Some ov\<rparr>"
  define s where "s = VpxSessionSource (env_of (le_host e) p0) (le_now e)"
  obtain ok b calls where r: "RegisterScriptBinding (le_scriptApi e) s = (ok, b, calls)" by (metis prod.exhaust)
  define p1 where "p1 = p0\<lparr>pl_session := Some s, pl_binding := b, pl_authored := ok, pl_worker := True, pl_logDrain := True, pl_controllers := Some []\<rparr>"
  have load: "ScorbitPluginLoad pmpi e p = fold (controllers_report pmpi (le_host e)) (le_reports e) p1"
    unfolding ScorbitPluginLoad_def Let_def by (simp add: p0_def [symmetric] tap_def [symmetric] ov_def [symmetric] s_def [symmetric] r p1_def)
  have reach: "overlay_reach False (fold sources_report (le_displays e) (DmdOverlay (le_sessionId e)))" by (rule sources_reach [OF or_init])
  have o1: "overlay_reach False ov" using overlay_event [OF reach, of "V_DropDir (under_prefs (le_vpx e) (le_overlayDrop e))"] by (simp add: ov_def)
  have ctl: "do_controller ov = 0" by (simp add: ov_def SetDropDir_def Let_def sources_controller) (simp add: DmdOverlay_def)
  have s: "script_reach s []" "vs_romId s = []" unfolding s_def by (rule sr_init, simp add: VpxSessionSource_def)
  have b: "sb_session b = Some s" using r by (auto simp: RegisterScriptBinding_def Let_def split: if_splits)
  have tap: "dt_controller tap = 0" by (simp add: tap_def) (simp add: DmdTap_def)
  have "parts_ok p1" using assms o1 ctl s b tap by (auto simp: parts_ok_def p1_def p0_def gone_def)
  moreover have "listed_ok pmpi p1" using assms by (simp add: listed_ok_def controller_now_def p1_def p0_def gone_def)
  ultimately have "parts_ok (ScorbitPluginLoad pmpi e p) \<and> listed_ok pmpi (ScorbitPluginLoad pmpi e p)" unfolding load by (rule reports_ok)
  moreover have "plugin_running p1" "pl_msgApi p1" by (simp_all add: plugin_running_def p1_def p0_def)
  ultimately show ?thesis by (simp add: plugin_inv_def) (simp add: load)
qed

lemma status_window_inv:
  assumes "parts_ok p" "ApplyStatusWindow st now u un p = (call, p')"
  shows "parts_ok p' \<and> listed_ok pmpi p' = listed_ok pmpi p \<and> plugin_running p' = plugin_running p \<and> pl_msgApi p' = pl_msgApi p"
proof -
  obtain s ps where s: "pl_session p = Some s" "script_reach s ps" "vs_romId s = pl_romId p" using assms(1) by (auto simp: parts_ok_def)
  obtain r s1 where s1: "ScriptStatus s = (r, s1)" by fastforce
  obtain rb s2 where s2: "ScriptReadBack now s1 = (rb, s2)" by fastforce
  have "script_reach s1 ps" using session_event_ops(4) [OF s(2)] by (simp add: s1)
  from session_event_ops(5) [OF this, of now] have reach: "script_reach s2 ps" by (simp add: s2)
  have rom: "vs_romId s2 = pl_romId p" using rom_results(1) [OF s1] rom_results(2) [OF s2] s(3) by simp
  have flags: "parts_ok (p\<lparr>pl_light := l, pl_claims := c\<rparr>)" "parts_ok q \<Longrightarrow> parts_ok (q\<lparr>pl_unavailableLogged := x\<rparr>)" for l c x q
    using assms(1) by (simp_all add: parts_ok_def)
  have same: "listed_ok pmpi (p\<lparr>pl_light := l, pl_claims := c\<rparr>) = listed_ok pmpi p" "listed_ok pmpi (q\<lparr>pl_unavailableLogged := x\<rparr>) = listed_ok pmpi q"
    "plugin_running (p\<lparr>pl_light := l, pl_claims := c\<rparr>) = plugin_running p" "plugin_running (q\<lparr>pl_unavailableLogged := x\<rparr>) = plugin_running q" for l c x q
    by (simp_all add: listed_ok_def controller_now_def plugin_running_def)
  let ?p = "put_session s2 (p\<lparr>pl_light := LightFor r now (pl_light p), pl_claims := Claims rb\<rparr>)"
  have "parts_ok ?p" using reach rom by (intro put_session_parts [OF flags(1)]) simp_all
  moreover have "p' = ?p \<or> p' = ?p\<lparr>pl_unavailableLogged := True\<rparr>" using assms(2) by (auto simp: ApplyStatusWindow_def s s1 s2 Let_def)
  ultimately show ?thesis using flags(2) [of ?p True] by (elim disjE) (simp_all add: same)
qed

lemma tick_inv:
  assumes "parts_ok p"
  shows "parts_ok (snd (DrainSocketLog e p)) \<and> listed_ok pmpi (snd (DrainSocketLog e p)) = listed_ok pmpi p \<and>
    plugin_running (snd (DrainSocketLog e p)) = plugin_running p \<and> pl_msgApi (snd (DrainSocketLog e p)) = pl_msgApi p"
proof (cases "pl_logDrain p")
  case False
  with assms show ?thesis by (simp add: DrainSocketLog_def)
next
  case True
  obtain s ps where s: "pl_session p = Some s" "script_reach s ps" "vs_romId s = pl_romId p" using assms(1) by (auto simp: parts_ok_def)
  obtain ls s1 where s1: "DrainLog s = (ls, s1)" by fastforce
  define p1 where "p1 = put_session (UpdateDeclare (env_of (te_host e) p) s1) p"
  obtain call p2 where w: "ApplyStatusWindow (te_settings e) (te_now e) (te_update e) (te_unavailable e) p1 = (call, p2)" by fastforce
  have "script_reach s1 ps" using session_event_ops(3) [OF s(2)] by (simp add: s1)
  from session_event_ops(2) [OF this] rom_results(4) [OF s1] s(3) have p1: "parts_ok p1"
    unfolding p1_def by (intro put_session_parts [OF assms, where ps = ps]) simp_all
  note p2 = status_window_inv [OF p1 w, of pmpi]
  obtain o1 where o1: "pl_overlay p2 = Some o1" "overlay_reach False o1" using p2 by (auto simp: parts_ok_def)
  have tick: "snd (DrainSocketLog e p) = p2\<lparr>pl_overlay := Some (overlay_DrainPending (te_free e) o1)\<rparr>"
    using True by (simp add: DrainSocketLog_def s s1 p1_def [symmetric] w o1)
  have "overlay_reach False (overlay_DrainPending (te_free e) o1)" using overlay_event [OF o1(2), of "V_Drain (te_free e)"] by simp
  moreover have "do_controller (overlay_DrainPending (te_free e) o1) = do_controller o1" by (simp add: overlay_DrainPending_def)
  ultimately have "parts_ok (snd (DrainSocketLog e p))" using p2 o1(1) unfolding tick by (auto simp: parts_ok_def)
  moreover have "listed_ok pmpi (q\<lparr>pl_overlay := x\<rparr>) = listed_ok pmpi q" "plugin_running (q\<lparr>pl_overlay := x\<rparr>) = plugin_running q" for q x
    by (simp_all add: listed_ok_def controller_now_def plugin_running_def)
  ultimately show ?thesis using p2 unfolding tick by (simp add: p1_def)
qed

section \<open>Unloading\<close>

text \<open>An overlay detached with its overrides still listed: none calls its target, and a display request is answered as before.\<close>

definition left_listed :: "dmd_overlay \<Rightarrow> dmd_overlay \<Rightarrow> bool" where
  "left_listed o1 o2 \<longleftrightarrow> do_detached o2 \<and> \<not> do_surface o2 \<and> map en_listed (do_entries o2) = map en_listed (do_entries o1) \<and>
     (\<forall>e \<in> set (do_entries o2). \<not> en_live e)"

lemma Detach_left:
  assumes "overlay_reach echo o1"
  shows "left_listed o1 (Detach o1)"
  using overlay_reach_inv [OF assms]
  by (auto simp: left_listed_def Detach_def SetDropDir_def Let_def comp_def overlay_inv_def entries_ok_def surface_true_def)

lemma deferred_left: "left_listed o1 o2 \<Longrightarrow> OnDeferredApply now ats w pub o2 = o2"
  by (simp add: left_listed_def OnDeferredApply_def)

lemma report_left:
  assumes "pl_overlay p = Some o2" "left_listed o1 o2"
  shows "\<exists>o3. pl_overlay (controllers_report pmpi h items p) = Some o3 \<and> left_listed o1 o3"
proof -
  have "left_listed o1 (overlay_SetController c o2)" for c using assms(2) by (auto simp: left_listed_def overlay_SetController_def Let_def)
  with assms show ?thesis
    by (auto simp: controllers_report_def OnControllersChanged_def Let_def put_session_def split: prod.split option.split)
qed

lemma reports_left:
  "pl_overlay p = Some o2 \<Longrightarrow> left_listed o1 o2 \<Longrightarrow>
     \<exists>o3. pl_overlay (fold (controllers_report pmpi h) rs p) = Some o3 \<and> left_listed o1 o3"
proof (induction rs arbitrary: p o2)
  case (Cons r rs)
  from report_left [OF Cons.prems] obtain o3 where "pl_overlay (controllers_report pmpi h r p) = Some o3" "left_listed o1 o3" by blast
  from Cons.IH [OF this] show ?case by simp
qed simp

lemma report_other [simp]:
  "pl_leaked (controllers_report pmpi h items p) = pl_leaked p" "pl_quitHook (controllers_report pmpi h items p) = pl_quitHook p"
  "pl_worker (controllers_report pmpi h items p) = pl_worker p" "pl_logDrain (controllers_report pmpi h items p) = pl_logDrain p"
  "sb_msgApi (pl_binding (controllers_report pmpi h items p)) = sb_msgApi (pl_binding p)"
  "sb_scriptApi (pl_binding (controllers_report pmpi h items p)) = sb_scriptApi (pl_binding p)"
  by (auto simp: controllers_report_def OnControllersChanged_def Let_def put_session_def split: prod.split option.split)

lemma reports_other [simp]:
  "pl_leaked (fold (controllers_report pmpi h) rs p) = pl_leaked p" "pl_quitHook (fold (controllers_report pmpi h) rs p) = pl_quitHook p"
  "pl_worker (fold (controllers_report pmpi h) rs p) = pl_worker p" "pl_logDrain (fold (controllers_report pmpi h) rs p) = pl_logDrain p"
  "sb_msgApi (pl_binding (fold (controllers_report pmpi h) rs p)) = sb_msgApi (pl_binding p)"
  "sb_scriptApi (pl_binding (fold (controllers_report pmpi h) rs p)) = sb_scriptApi (pl_binding p)"
  by (induction rs arbitrary: p) simp_all

lemma flush_other [simp]:
  "pl_leaked (FlushPendingCallbacks a p) = pl_leaked p" "pl_quitHook (FlushPendingCallbacks a p) = pl_quitHook p"
  "pl_worker (FlushPendingCallbacks a p) = pl_worker p" "pl_logDrain (FlushPendingCallbacks a p) = pl_logDrain p"
  "pl_binding (FlushPendingCallbacks a p) = pl_binding p" "pl_unloadingAtQuit (FlushPendingCallbacks a p) = pl_unloadingAtQuit p"
  by (auto simp: FlushPendingCallbacks_def split: option.split prod.split)

lemma flush_none: "pl_overlay p = None \<Longrightarrow> FlushPendingCallbacks a p = p"
  by (simp add: FlushPendingCallbacks_def)

lemma unload_gone:
  assumes "pl_msgApi p"
  shows "gone (snd (ScorbitPluginUnload pmpi e p)) \<and> \<not> pl_msgApi (snd (ScorbitPluginUnload pmpi e p))"
  using assms by (simp add: ScorbitPluginUnload_def Let_def flush_none gone_def UnregisterScriptBinding_def)

lemma unload_normal:
  assumes "pl_msgApi p" "\<not> pl_unloadingAtQuit p"
  shows "pl_leaked (snd (ScorbitPluginUnload pmpi e p)) = pl_leaked p \<and>
    \<not> sb_msgApi (pl_binding (snd (ScorbitPluginUnload pmpi e p))) \<and> \<not> sb_scriptApi (pl_binding (snd (ScorbitPluginUnload pmpi e p)))"
  using assms by (auto simp: ScorbitPluginUnload_def Let_def flush_none UnregisterScriptBinding_def)

lemma unload_quit:
  assumes "pl_msgApi p" "pl_overlay p = Some o1" "overlay_reach echo o1"
  shows "\<exists>o2. pl_leaked (snd (UnloadOnQuit pmpi e p)) = Some o2 \<and> left_listed o1 o2"
proof -
  define p1 where "p1 = FlushPendingCallbacks (ue_flush e)
    (p\<lparr>pl_unloadingAtQuit := True, pl_quitHook := False, pl_logDrain := False, pl_overlay := Some (Detach o1), pl_worker := False\<rparr>)"
  have "pl_overlay p1 = Some (Detach o1)"
    using deferred_left [OF Detach_left [OF assms(3)]] by (simp add: p1_def FlushPendingCallbacks_def split: prod.split)
  from reports_left [OF this Detach_left [OF assms(3)]]
  obtain o2 where o2: "pl_overlay (fold (controllers_report pmpi (ue_host e)) (ue_reports e) p1) = Some o2" "left_listed o1 o2" by blast
  have "pl_unloadingAtQuit p1" by (simp add: p1_def)
  then have "pl_leaked (snd (UnloadOnQuit pmpi e p)) = Some o2"
    using assms(1,2) o2(1) by (simp add: UnloadOnQuit_def ScorbitPluginUnload_def Let_def p1_def [symmetric] flush_none)
  with o2(2) show ?thesis by blast
qed

lemma script_none: "script_step c None = None"
  by (cases c)
    (simp_all add: script_Declare_def SetGameStarted_def SetGameFinished_def SetCurrentBall_def SetActivePlayer_def SetScore_def AddMode_def AddModeExpiring_def
      SetModeCompleted_def RemoveMode_def ClearModes_def Commit_def Op_def Small_def Mode_def script_Status_def RequestTopScores_def script_ReadBack_def
      ReleaseTopScores_def)

lemma plugin_inv_step:
  assumes "plugin_inv pmpi p" "plugin_fits c p"
  shows "plugin_inv pmpi (plugin_step pmpi c p)"
proof (cases "pl_msgApi p")
  case False
  then have g: "gone p" using assms(1) by (simp add: plugin_inv_def)
  show ?thesis
  proof (cases c)
    case (P_Load e)
    with load_inv [OF g] show ?thesis by simp
  qed (use assms False g script_none in \<open>simp_all add: plugin_inv_def gone_def ScorbitPluginUnload_def UnloadOnQuit_def DrainSocketLog_def\<close>)
next
  case True
  then have inv: "parts_ok p" "listed_ok pmpi p" "plugin_running p" using assms(1) by (simp_all add: plugin_inv_def)
  obtain t o1 s ps where p: "pl_tap p = Some t" "pl_overlay p = Some o1" "pl_session p = Some s" "sb_session (pl_binding p) = Some s"
    "dt_controller t = pl_endpointId p" "do_controller o1 = pl_endpointId p" "vs_romId s = pl_romId p" "overlay_reach False o1" "script_reach s ps"
    using inv(1) by (auto simp: parts_ok_def)
  have tap: "plugin_inv pmpi (p\<lparr>pl_tap := Some t'\<rparr>)" if "dt_controller t' = dt_controller t" for t'
    using that True inv p by (auto simp: plugin_inv_def parts_ok_def listed_ok_def controller_now_def plugin_running_def)
  have session: "plugin_inv pmpi (put_session s' p)" if "script_reach s' ps'" "vs_romId s' = pl_romId p" for s' ps'
    using put_session_parts [OF inv(1) that] True inv by (simp add: plugin_inv_def)
  show ?thesis
  proof (cases c)
    case (P_Load e)
    with assms(2) True show ?thesis by simp
  next
    case (P_Unload e)
    with unload_gone [OF True] show ?thesis by (simp add: plugin_inv_def)
  next
    case (P_Quit e)
    with unload_gone [of "p\<lparr>pl_unloadingAtQuit := True\<rparr>"] True show ?thesis by (simp add: plugin_inv_def UnloadOnQuit_def)
  next
    case (P_Controllers h items)
    with report_ok [OF inv(1)] True inv show ?thesis by (simp add: plugin_inv_def)
  next
    case (P_Tick e)
    with tick_inv [OF inv(1), of e pmpi] True inv show ?thesis by (simp add: plugin_inv_def)
  next
    case (P_Session x)
    with assms(2) have fits: "plugin_fits (P_Session x) p" by simp
    from session [of "source_step x s" ps] session_event [OF p(9) disjI1 [OF fits]] rom_step [OF fits] p show ?thesis by (simp add: P_Session)
  next
    case (P_Script x)
    obtain s' where s': "script_step x (Some s) = Some s'" "vs_romId s' = vs_romId s" using rom_script by blast
    from session [OF sr_script [OF p(9) s'(1)]] s' p show ?thesis by (simp add: P_Script)
  next
    case (P_Overlay x)
    with assms(2) have fits: "plugin_fits (P_Overlay x) p" by simp
    then have "overlay_reach False (overlay_step x o1)" using p(2) by (intro overlay_event [OF p(8)]) (cases x; simp)
    with controller_step [OF fits] True inv p show ?thesis
      by (auto simp: P_Overlay plugin_inv_def parts_ok_def listed_ok_def controller_now_def plugin_running_def)
  next
    case (P_Displays items)
    with tap [of "sources_changed items t"] p show ?thesis by simp
  next
    case (P_Poll r)
    with tap [of "snd (tap_poll r t)"] p show ?thesis by simp
  qed
qed

lemma plugin_reach_inv: "plugin_reach pmpi p \<Longrightarrow> plugin_inv pmpi p"
proof (induction rule: plugin_reach.induct)
  case (pr_init pmpi)
  show ?case by (simp add: plugin_inv_def gone_def plugin_init_def)
qed (rule plugin_inv_step)

lemma displays_cong:
  assumes "map en_listed (do_entries o2) = map en_listed (do_entries o1)"
  shows "OnGetDisplays n o2 msg = OnGetDisplays n o1 msg"
proof -
  have "OnGetDisplays n x msg =
    foldl (\<lambda>(count, slots) l. (count + 1, if count < n then slots(count \<mapsto> l) else slots)) msg (map en_listed (do_entries x))" for x
    by (simp add: OnGetDisplays_def foldl_map split_def)
  with assms show ?thesis by simp
qed

section \<open>An example\<close>

definition load_demo :: load_env where
  "load_demo = \<lparr>le_sessionId = 3, le_vpx = None, le_dmdDump = [], le_dumpOpens = False, le_overlayDrop = [], le_displays = [], le_scriptApi = True,
     le_host = \<lparr>ph_version = ''10.8.1'', ph_revision = ''demo'', ph_displays = [], ph_reading = de_tap run_env\<rparr>, le_now = 0, le_reports = [[]]\<rparr>"

definition unload_demo :: unload_env where
  "unload_demo = \<lparr>ue_host = le_host load_demo, ue_flush = (9, [6], [[]], [[]]), ue_reports = [[]], ue_now = 9\<rparr>"

definition calls_demo :: "plugin_call list" where
  "calls_demo = [P_Load load_demo, P_Controllers (le_host load_demo) [\<lparr>cd_endpointId = 7, cd_gameId = Some ''rom:afm_113b''\<rparr>],
     P_Overlay (V_Sources [source_2x2]), P_Overlay (V_Deferred 0 [5] [[source_2x2]] [[source_2x2]])]"

definition plugin_demo :: plugin where
  "plugin_demo = fold (plugin_step ''rom:'') calls_demo plugin_init"

lemma plugin_demo_loaded: "pl_msgApi (ScorbitPluginLoad pmpi e p)"
  by (simp add: ScorbitPluginLoad_def Let_def split: prod.split)

lemma plugin_demo_reach: "plugin_reach ''rom:'' plugin_demo"
  unfolding plugin_demo_def calls_demo_def fold.simps comp_def id_apply
  by (intro pr_call pr_init) (simp_all add: plugin_init_def plugin_demo_loaded split: option.split)

definition overlay_demo :: dmd_overlay where
  "overlay_demo = fold overlay_step calls_2x2 (SetDropDir [] (DmdOverlay 3))"

lemma overlay_demo_targets: "map en_target (do_entries overlay_demo) = [target_2x2]" "do_surface overlay_demo"
  by code_simp+

lemma plugin_demo_load:
  fixes p :: plugin
  defines "p \<equiv> ScorbitPluginLoad ''rom:'' load_demo plugin_init"
  shows "pl_msgApi p \<and> pl_romId p = [] \<and> pl_endpointId p = 0 \<and> pl_overlay p = Some (SetDropDir [] (DmdOverlay 3)) \<and> pl_tap p \<noteq> None \<and> pl_session p \<noteq> None"
  by (simp add: p_def ScorbitPluginLoad_def load_demo_def Let_def under_prefs_def plugin_init_def RegisterScriptBinding_def
      controllers_report_def OnControllersChanged_def controller_now_def FilterControllers_def put_session_def)

lemma plugin_demo_state:
  "pl_msgApi plugin_demo \<and> pl_romId plugin_demo = ''afm_113b'' \<and> pl_endpointId plugin_demo = 7 \<and> pl_overlay plugin_demo = Some overlay_demo"
proof -
  let ?p = "ScorbitPluginLoad ''rom:'' load_demo plugin_init"
  have "\<exists>t s. pl_tap ?p = Some t \<and> pl_session ?p = Some s" using plugin_demo_load by auto
  then show ?thesis using plugin_demo_load
    by (auto simp: plugin_demo_def calls_demo_def overlay_demo_def calls_2x2_def controllers_report_def OnControllersChanged_def controller_now_def
      FilterControllers_def Let_def)
qed

section \<open>Properties\<close>



text \<open>
  C5. Quitting withdraws nothing. When VPX quits without unloading, the unload the quit hook runs leaves the overlay detached with every override still
  listed, whatever controllers are delivered and whatever callback runs inside it: a display request is answered as before, no override calls its
  target, and a deferred apply that comes later does nothing. Everything else is gone.
\<close>

theorem quit_leaves_listed:
  assumes "plugin_reach pmpi p" "pl_msgApi p" "pl_overlay p = Some o1"
  shows "\<exists>o2. pl_leaked (snd (UnloadOnQuit pmpi e p)) = Some o2 \<and> (\<forall>n msg. OnGetDisplays n o2 msg = OnGetDisplays n o1 msg) \<and>
    list_all (\<lambda>x. \<not> en_live x) (do_entries o2) \<and> \<not> HasSurface o2 \<and> (\<forall>now ats w pub. OnDeferredApply now ats w pub o2 = o2) \<and>
    gone (snd (UnloadOnQuit pmpi e p))"
proof -
  have "overlay_reach False o1" using plugin_reach_inv [OF assms(1)] assms(2,3) by (auto simp: plugin_inv_def parts_ok_def)
  from unload_quit [OF assms(2,3) this] obtain o2 where o2: "pl_leaked (snd (UnloadOnQuit pmpi e p)) = Some o2" "left_listed o1 o2" by blast
  have "gone (snd (UnloadOnQuit pmpi e p))"
    using unload_gone [of "p\<lparr>pl_unloadingAtQuit := True\<rparr>" pmpi e] assms(2) by (simp add: UnloadOnQuit_def)
  with o2 deferred_left [OF o2(2)] displays_cong [of o2 o1] show ?thesis by (simp add: left_listed_def HasSurface_def list_all_iff)
qed

theorem quit_leaves_listed_witness:
  "\<exists>o2. pl_leaked (snd (UnloadOnQuit ''rom:'' unload_demo plugin_demo)) = Some o2 \<and> HasSurface overlay_demo \<and> \<not> HasSurface o2 \<and>
    OnGetDisplays 8 o2 (0, Map.empty) = OnGetDisplays 8 overlay_demo (0, Map.empty)"
  using quit_leaves_listed [OF plugin_demo_reach, of overlay_demo unload_demo] plugin_demo_state overlay_demo_targets(2)
  by (auto simp: HasSurface_def)



end
