(* ===== verification/Worker_Connect.thy ===== *)
theory Worker_Connect
  imports Worker_Session
begin

text \<open>
  \<^verbatim>\<open>src/SocketWorker.cpp\<close>, where it finds the daemon: the paths of the socket and the token, the thread's start and stop, one attempt to connect with
  its bounded wait, what it says of a failure, and how often. The POSIX branches; what the system calls answer is given with the
  attempt, its \<^verbatim>\<open>errno\<close> values by name.
\<close>

section \<open>Paths\<close>

definition ParentOf :: "string \<Rightarrow> string" where
  "ParentOf path = (if CHR ''/'' \<in> set path then rev (drop 1 (dropWhile (\<lambda>c. c \<noteq> CHR ''/'') (rev path))) else [])"

definition without_slash :: "string \<Rightarrow> string" where
  "without_slash dir = (if dir \<noteq> [] \<and> last dir = CHR ''/'' then butlast dir else dir)"

text \<open>Linux: \<open>xdg\<close> is \<^verbatim>\<open>XDG_RUNTIME_DIR\<close>. macOS: the per-user temporary directory, with the length \<^verbatim>\<open>confstr\<close> says it needs.\<close>

definition DefaultSocketPath :: "string option \<Rightarrow> u32 \<Rightarrow> string" where
  "DefaultSocketPath xdg uid =
     (case xdg of
        Some dir \<Rightarrow> if dir \<noteq> [] then without_slash dir @ ''/scorbit/vpx.sock'' else ''/run/user/'' @ digits (unat uid) @ ''/scorbit/vpx.sock''
      | None \<Rightarrow> ''/run/user/'' @ digits (unat uid) @ ''/scorbit/vpx.sock'')"

definition DefaultSocketPath_apple :: "nat \<Rightarrow> string \<Rightarrow> string" where
  "DefaultSocketPath_apple n dir = (if n = 0 \<or> n > 1024 then ''/tmp/scorbit/vpx.sock'' else without_slash dir @ ''/scorbit/vpx.sock'')"

definition DefaultTokenPath :: "string \<Rightarrow> string" where
  "DefaultTokenPath socketPath = (let dir = ParentOf socketPath in if dir = [] then ''vpx.token'' else dir @ ''/vpx.token'')"

lemma ParentOf_append: "CHR ''/'' \<notin> set name \<Longrightarrow> ParentOf (dir @ ''/'' @ name) = dir"
proof -
  assume "CHR ''/'' \<notin> set name"
  then have "dropWhile (\<lambda>c. c \<noteq> CHR ''/'') (rev name @ CHR ''/'' # rev dir) = CHR ''/'' # rev dir"
    by (subst dropWhile_append2) auto
  then show ?thesis by (simp add: ParentOf_def)
qed

text \<open>The token is looked for beside the socket, except beside a socket in the root directory, whose token is looked for in the working directory.\<close>

lemma token_beside_socket: "ParentOf socketPath \<noteq> [] \<Longrightarrow> ParentOf (DefaultTokenPath socketPath) = ParentOf socketPath"
  using ParentOf_append [of "''vpx.token''" "ParentOf socketPath"] by (simp add: DefaultTokenPath_def)

lemma token_of_root: "DefaultTokenPath ''/vpx.sock'' = ''vpx.token''"
  by code_simp

lemma default_paths:
  "DefaultTokenPath (DefaultSocketPath xdg uid) = ParentOf (DefaultSocketPath xdg uid) @ ''/vpx.token''"
proof -
  have "\<exists>dir. DefaultSocketPath xdg uid = dir @ ''/scorbit'' @ ''/'' @ ''vpx.sock''"
    by (auto simp: DefaultSocketPath_def split: option.split)
  then obtain dir where "DefaultSocketPath xdg uid = (dir @ ''/scorbit'') @ ''/'' @ ''vpx.sock''" by auto
  then have "ParentOf (DefaultSocketPath xdg uid) = dir @ ''/scorbit''" using ParentOf_append [of "''vpx.sock''" "dir @ ''/scorbit''"] by simp
  then show ?thesis by (simp add: DefaultTokenPath_def)
qed

section \<open>The log and the thread\<close>

record worker_log =
  wl_lastOnce :: string
  wl_lines :: "(int \<times> string) list"

definition worker_Log :: "int \<Rightarrow> string \<Rightarrow> worker_log \<Rightarrow> worker_log" where
  "worker_Log level message l = l\<lparr>wl_lines := wl_lines l @ [(level, message)]\<rparr>"

definition LogOnce :: "int \<Rightarrow> string \<Rightarrow> worker_log \<Rightarrow> worker_log" where
  "LogOnce level message l = (if wl_lastOnce l = message then l else worker_Log level message (l\<lparr>wl_lastOnce := message\<rparr>))"

lemma LogOnce_again: "LogOnce level message (LogOnce level' message l) = LogOnce level' message l"
  by (simp add: LogOnce_def worker_Log_def)

text \<open>The levels, and the thread: whether it is to run, and whether it is joinable.\<close>

abbreviation (input) INFO :: int where "INFO \<equiv> 1"
abbreviation (input) ERROR :: int where "ERROR \<equiv> 3"

record worker_thread =
  wt_running :: bool
  wt_thread :: bool
  wt_log :: worker_log

definition worker_Start :: "string \<Rightarrow> string \<Rightarrow> worker_thread \<Rightarrow> worker_thread" where
  "worker_Start socketPath tokenPath t =
     (if wt_running t then t
      else let t = t\<lparr>wt_running := True\<rparr> in
        if socketPath = []
        then t\<lparr>wt_log := worker_Log ERROR ''Socket: no rendezvous path for this platform, the transport is disabled'' (wt_log t), wt_running := False\<rparr>
        else t\<lparr>wt_log := worker_Log INFO (''Socket: endpoint '' @ socketPath @ '', token '' @ tokenPath) (wt_log t), wt_thread := True\<rparr>)"

definition worker_Stop :: "worker_thread \<Rightarrow> worker_thread" where
  "worker_Stop t = t\<lparr>wt_running := False, wt_thread := False\<rparr>"

text \<open>A thread is never started over one that was not joined.\<close>

lemma one_thread:
  "fold (\<lambda>c. case c of None \<Rightarrow> worker_Stop | Some (s, k) \<Rightarrow> worker_Start s k) calls \<lparr>wt_running = False, wt_thread = False, wt_log = l\<rparr> = t \<Longrightarrow>
     wt_thread t = wt_running t"
proof (induction calls arbitrary: t rule: rev_induct)
  case (snoc c calls)
  then show ?case by (auto simp: worker_Start_def worker_Stop_def Let_def split: option.splits)
qed auto

text \<open>A flat second between attempts, in slices: each list element says whether the worker still runs at that check. The sleeps.\<close>

definition RECONNECT_INTERVAL_MS :: int where "RECONNECT_INTERVAL_MS = 1000"
definition POLL_SLICE_MS :: int where "POLL_SLICE_MS = 100"

fun backoff_loop :: "int \<Rightarrow> bool list \<Rightarrow> nat" where
  "backoff_loop waited [] = 0"
| "backoff_loop waited (go # gos) = (if waited < RECONNECT_INTERVAL_MS \<and> go then Suc (backoff_loop (waited + POLL_SLICE_MS) gos) else 0)"

definition Backoff :: "bool list \<Rightarrow> nat" where "Backoff = backoff_loop 0"

lemma backoff_bound: "0 \<le> waited \<Longrightarrow> int (backoff_loop waited gos) * POLL_SLICE_MS \<le> max 0 (RECONNECT_INTERVAL_MS + POLL_SLICE_MS - 1 - waited)"
  by (induction waited gos rule: backoff_loop.induct) (auto simp: RECONNECT_INTERVAL_MS_def POLL_SLICE_MS_def)

section \<open>Waiting for a connection\<close>

datatype errno = EAGAIN | EWOULDBLOCK | EINPROGRESS | ECONNREFUSED | ETIMEDOUT | OtherErrno nat

datatype ConnectOutcome = Connected | Stopped | NoSuchPath | Refused | NotAccepting | Failed

text \<open>No error is 0.\<close>

record ConnectResult =
  cr_outcome :: ConnectOutcome
  cr_error :: "errno option"

definition MillisUntil :: "time_point \<Rightarrow> time_point \<Rightarrow> int" where
  "MillisUntil deadline now = (let left = (deadline - now) div milliseconds 1 in if left \<le> 0 then 0 else if left > 0x7FFFFFFF then 0x7FFFFFFF else left)"

text \<open>What one round of the wait finds: whether the worker still runs, the time, and what \<^verbatim>\<open>poll\<close> returns.\<close>

datatype poll_result = PollInterrupted | PollError errno | PollNothing | PollReady

record poll_round =
  po_running :: bool
  po_now :: time_point
  po_poll :: poll_result

datatype wait_end = WaitStopped | WaitFailed errno | WaitReady | WaitTimedOut

text \<open>\<open>None\<close>: the rounds given do not end the wait.\<close>

fun wait_connect :: "time_point \<Rightarrow> poll_round list \<Rightarrow> wait_end option" where
  "wait_connect deadline [] = None"
| "wait_connect deadline (r # rs) =
     (if \<not> po_running r then Some WaitStopped
      else if MillisUntil deadline (po_now r) = 0 then Some WaitTimedOut
      else case po_poll r of
        PollInterrupted \<Rightarrow> wait_connect deadline rs
      | PollError e \<Rightarrow> Some (WaitFailed e)
      | PollReady \<Rightarrow> Some WaitReady
      | PollNothing \<Rightarrow> wait_connect deadline rs)"

definition poll_timeout :: "time_point \<Rightarrow> time_point \<Rightarrow> int" where
  "poll_timeout deadline now = (let left = MillisUntil deadline now in if left < POLL_SLICE_MS then left else POLL_SLICE_MS)"

definition CONNECT_TIMEOUT_MS :: int where "CONNECT_TIMEOUT_MS = 1000"

text \<open>
  The system calls' answers: \<^verbatim>\<open>connect\<close>'s error if any, the time after it, the rounds, \<^verbatim>\<open>getsockopt\<close> (its error, or the socket's), and
  whether \<^verbatim>\<open>stat\<close> finds the path, or fails with anything but its absence.
\<close>

record connect_env =
  ce_connect :: "errno option"
  ce_start :: time_point
  ce_rounds :: "poll_round list"
  ce_soError :: "errno + errno option"
  ce_pathExists :: bool

definition connect_failed :: "bool \<Rightarrow> errno \<Rightarrow> ConnectResult" where
  "connect_failed exists error =
     (if \<not> exists then \<lparr>cr_outcome = NoSuchPath, cr_error = Some error\<rparr>
      else if error = ECONNREFUSED then \<lparr>cr_outcome = Refused, cr_error = Some error\<rparr>
      else \<lparr>cr_outcome = Failed, cr_error = Some error\<rparr>)"

definition ConnectNonBlocking :: "connect_env \<Rightarrow> ConnectResult option" where
  "ConnectNonBlocking e =
     (case ce_connect e of
        None \<Rightarrow> Some \<lparr>cr_outcome = Connected, cr_error = None\<rparr>
      | Some error \<Rightarrow>
          if error = EAGAIN \<or> error = EWOULDBLOCK then Some \<lparr>cr_outcome = NotAccepting, cr_error = Some error\<rparr>
          else if error = EINPROGRESS then
            case wait_connect (ce_start e + milliseconds CONNECT_TIMEOUT_MS) (ce_rounds e) of
              None \<Rightarrow> None
            | Some WaitStopped \<Rightarrow> Some \<lparr>cr_outcome = Stopped, cr_error = None\<rparr>
            | Some (WaitFailed x) \<Rightarrow> Some \<lparr>cr_outcome = Failed, cr_error = Some x\<rparr>
            | Some how \<Rightarrow>
                (case ce_soError e of
                   Inl x \<Rightarrow> Some \<lparr>cr_outcome = Failed, cr_error = Some x\<rparr>
                 | Inr None \<Rightarrow>
                     if how \<noteq> WaitTimedOut then Some \<lparr>cr_outcome = Connected, cr_error = None\<rparr>
                     else Some \<lparr>cr_outcome = if ce_pathExists e then NotAccepting else NoSuchPath, cr_error = Some ETIMEDOUT\<rparr>
                 | Inr (Some x) \<Rightarrow> Some (connect_failed (ce_pathExists e) x))
          else Some (connect_failed (ce_pathExists e) error))"

section \<open>One attempt\<close>

text \<open>\<open>strerr\<close> is an error's number and text, as \<^verbatim>\<open>std::system_category\<close> has it.\<close>

definition describe_error :: "(errno \<Rightarrow> nat \<times> string) \<Rightarrow> errno option \<Rightarrow> string" where
  "describe_error strerr error = (case error of None \<Rightarrow> [] | Some x \<Rightarrow> '' ('' @ snd (strerr x) @ '', error '' @ digits (fst (strerr x)) @ '')'')"

definition DescribeConnectFailure :: "(errno \<Rightarrow> nat \<times> string) \<Rightarrow> string \<Rightarrow> ConnectResult \<Rightarrow> string" where
  "DescribeConnectFailure strerr path r =
     (let c = describe_error strerr (cr_error r) in
      case cr_outcome r of
        NoSuchPath \<Rightarrow> ''Socket: nothing at '' @ path @ c @ '', the daemon is not running; retrying every second''
      | Refused \<Rightarrow> ''Socket: '' @ path @ '' refused the connection'' @ c
          @ '': a stale socket from a daemon that exited, or a daemon that is not accepting; retrying every second''
      | NotAccepting \<Rightarrow> ''Socket: a daemon is listening at '' @ path @ '' but not accepting connections'' @ c @ ''; retrying every second''
      | _ \<Rightarrow> ''Socket: cannot connect to '' @ path @ c @ ''; retrying every second'')"

text \<open>\<open>sunPath\<close> is the size of \<^verbatim>\<open>sun_path\<close>; the error of \<^verbatim>\<open>socket\<close>, and of \<^verbatim>\<open>fcntl\<close>, if any.\<close>

record attempt_env =
  ae_sunPath :: nat
  ae_code :: "errno \<Rightarrow> nat \<times> string"
  ae_socket :: "errno option"
  ae_nonblocking :: "errno option"
  ae_connect :: connect_env

definition attempt :: "string \<Rightarrow> attempt_env \<Rightarrow> worker_log \<Rightarrow> (bool \<times> worker_log) option" where
  "attempt path e l =
     (if length path \<ge> ae_sunPath e
      then Some (False, LogOnce ERROR (''Socket: endpoint path is longer than '' @ digits (ae_sunPath e - 1) @ '' characters: '' @ path) l)
      else case ae_socket e of
        Some x \<Rightarrow> Some (False, LogOnce ERROR (''Socket: cannot create a socket ('' @ digits (fst (ae_code e x)) @ '')'') l)
      | None \<Rightarrow>
      (case ae_nonblocking e of
        Some x \<Rightarrow> Some (False, LogOnce ERROR (''Socket: cannot make the socket nonblocking ('' @ digits (fst (ae_code e x)) @ '')'') l)
      | None \<Rightarrow>
      (case ConnectNonBlocking (ae_connect e) of
        None \<Rightarrow> None
      | Some r \<Rightarrow>
          if cr_outcome r \<noteq> Connected
          then Some (False, if cr_outcome r \<noteq> Stopped then LogOnce INFO (DescribeConnectFailure (ae_code e) path r) l else l)
          else Some (True, l))))"

text \<open>Attempts that fail the same way, one after the other, are logged once.\<close>

lemma attempt_again:
  assumes "attempt path e l = Some (b, l')"
  shows "attempt path e l' = Some (b, l')"
  using assms by (auto simp: attempt_def LogOnce_again split: option.splits if_splits)

section \<open>The wait is bounded\<close>

text \<open>
  How \<^verbatim>\<open>poll\<close> paces the rounds: time does not go back, and a poll that found nothing took the timeout it was given.
\<close>

fun paced :: "time_point \<Rightarrow> poll_round list \<Rightarrow> bool" where
  "paced deadline (r # r' # rs) \<longleftrightarrow>
     po_now r \<le> po_now r' \<and> (if po_poll r = PollNothing then po_now r + milliseconds (poll_timeout deadline (po_now r)) \<le> po_now r' else True) \<and>
     paced deadline (r' # rs)"
| "paced deadline _ \<longleftrightarrow> True"

definition interruptions :: "poll_round list \<Rightarrow> nat" where
  "interruptions rs = length (filter (\<lambda>r. po_poll r = PollInterrupted) rs)"

lemma MillisUntil_zero: "MillisUntil deadline now = 0 \<longleftrightarrow> deadline - now < milliseconds 1"
  by (auto simp: MillisUntil_def Let_def)

lemma wait_connect_ends:
  "paced deadline rs \<Longrightarrow> rs \<noteq> [] \<Longrightarrow> deadline - po_now (hd rs) \<le> milliseconds (int n * POLL_SLICE_MS) \<Longrightarrow>
     n + 1 + interruptions rs < length rs \<Longrightarrow> wait_connect deadline rs \<noteq> None"
proof (induction deadline rs arbitrary: n rule: paced.induct)
  case (1 deadline r r' rs)
  show ?case
  proof (cases "po_running r \<and> MillisUntil deadline (po_now r) \<noteq> 0 \<and> po_poll r \<in> {PollInterrupted, PollNothing}")
    case False
    then show ?thesis by (auto split: poll_result.split)
  next
    case goes: True
    have left: "milliseconds 1 \<le> deadline - po_now r" using goes by (simp add: MillisUntil_zero)
    have rec: "wait_connect deadline (r' # rs) \<noteq> None"
    proof (cases "po_poll r = PollInterrupted")
      case True
      with 1 show ?thesis by (intro "1.IH" [of n]) (auto simp: interruptions_def)
    next
      case False
      with goes have quiet: "po_poll r = PollNothing" by simp
      have pace: "po_now r + milliseconds (poll_timeout deadline (po_now r)) \<le> po_now r'" using "1.prems"(1) quiet by simp
      show ?thesis
      proof (cases "MillisUntil deadline (po_now r) < POLL_SLICE_MS")
        case short: True
        with pace left have "deadline - po_now r' < milliseconds 1"
          by (simp add: poll_timeout_def MillisUntil_def Let_def POLL_SLICE_MS_def split: if_splits)
        then show ?thesis by (simp add: MillisUntil_zero)
      next
        case long: False
        then have "n \<noteq> 0" using "1.prems"(3) left by (intro notI) simp
        then obtain m where m: "n = Suc m" by (cases n) auto
        have "deadline - po_now (hd (r' # rs)) \<le> milliseconds (int m * POLL_SLICE_MS)"
          using "1.prems"(3) pace long m by (simp add: poll_timeout_def Let_def POLL_SLICE_MS_def)
        moreover have "m + 1 + interruptions (r' # rs) < length (r' # rs)"
          using "1.prems"(4) False unfolding m by (simp add: interruptions_def)
        ultimately show ?thesis using "1.prems"(1) by (intro "1.IH" [of m]) simp_all
      qed
    qed
    with goes show ?thesis by auto
  qed
qed (auto simp: interruptions_def)

section \<open>Properties\<close>

definition connect_deadline :: "connect_env \<Rightarrow> time_point" where
  "connect_deadline e = ce_start e + milliseconds CONNECT_TIMEOUT_MS"

lemma wait_stopped: "wait_connect deadline rs = Some WaitStopped \<Longrightarrow> \<exists>r \<in> set rs. \<not> po_running r"
  by (induction deadline rs rule: wait_connect.induct) (auto split: if_splits poll_result.splits)

lemma connect_answers:
  assumes "wait_connect (connect_deadline e) (ce_rounds e) \<noteq> None"
  shows "\<exists>r. ConnectNonBlocking e = Some r"
  using assms unfolding connect_deadline_def by (auto simp: ConnectNonBlocking_def split: option.split wait_end.split sum.split)

definition example_attempt :: connect_env where
  "example_attempt = \<lparr>ce_connect = Some EINPROGRESS, ce_start = 0,
     ce_rounds = map (\<lambda>n. \<lparr>po_running = True, po_now = milliseconds (100 * int n), po_poll = PollNothing\<rparr>) [0..<12],
     ce_soError = Inr None, ce_pathExists = True\<rparr>"



end
