(* ===== verification/Status_Caption.thy ===== *)
theory Status_Caption
  imports Prelude
begin

text \<open>
  \<^verbatim>\<open>src/StatusWindow_x11.cpp\<close>, the caption beside the status light: its text in the font's encoding and its lines. The server's measure of a line
  (\<open>TextExtents\<close>, its width) is an argument, \<open>None\<close> where it has no answer; nothing is asked of it, so the results hold for any font.
\<close>

section \<open>Latin-1\<close>

text \<open>What one UTF-8 sequence becomes, and how many bytes it takes beyond the first.\<close>

function Latin1 :: "bytes \<Rightarrow> bytes" where
  "Latin1 [] = []"
| "Latin1 (b # bs) =
     (if b < 0x80 then b # Latin1 bs
      else if b AND 0xe0 = 0xc0 \<and> bs \<noteq> [] then
        let c = push_bit 6 (ucast (b AND 0x1f)) OR (ucast (hd bs AND 0x3f) :: u32)
        in (if c < 0x100 then ucast c else 0x3f) # Latin1 (tl bs)
      else 0x3f # Latin1 (drop (if b AND 0xf0 = 0xf0 then 3 else if b AND 0xe0 = 0xe0 then 2 else 0) bs))"
  by pat_completeness auto
termination by (relation "measure length") auto

declare Latin1.simps(2) [simp del]

lemma Latin1_length: "length (Latin1 bs) \<le> length bs"
proof (induction bs rule: Latin1.induct)
  case (2 b bs)
  show ?case
  proof (cases "b < 0x80")
    case True
    with "2.IH"(1) show ?thesis by (simp add: Latin1.simps(2))
  next
    case high: False
    show ?thesis
    proof (cases "b AND 0xe0 = 0xc0 \<and> bs \<noteq> []")
      case True
      with high "2.IH"(2) [OF high True] show ?thesis by (simp add: Latin1.simps(2) Let_def)
    next
      case False
      let ?n = "if b AND 0xf0 = 0xf0 then 3 else if b AND 0xe0 = 0xe0 then 2 else 0"
      have "Latin1 (b # bs) = 0x3f # Latin1 (drop ?n bs)" by (simp only: Latin1.simps(2) high False if_False)
      moreover have "length (Latin1 (drop ?n bs)) \<le> length (drop ?n bs)" using "2.IH"(3) [OF high False] .
      ultimately show ?thesis using length_drop [of ?n bs] by (simp del: length_drop)
    qed
  qed
qed simp

lemma Latin1_ascii: "\<forall>b \<in> set bs. b < 0x80 \<Longrightarrow> Latin1 bs = bs"
  by (induction bs) (simp_all add: Latin1.simps(2))

section \<open>Wrapping\<close>

type_synonym measure_line = "bytes \<Rightarrow> int option"

definition Fits :: "measure_line \<Rightarrow> int \<Rightarrow> bytes \<Rightarrow> bool" where
  "Fits ext maxWidth line \<longleftrightarrow> length line \<le> 255 \<and> (case ext line of None \<Rightarrow> True | Some width \<Rightarrow> width \<le> maxWidth)"

text \<open>The search for the longest prefix that fits.\<close>

function longest_fit :: "(nat \<Rightarrow> bool) \<Rightarrow> nat \<Rightarrow> nat \<Rightarrow> nat" where
  "longest_fit fits lo hi =
     (if lo < hi then let mid = (lo + hi + 1) div 2 in if fits mid then longest_fit fits mid hi else longest_fit fits lo (mid - 1) else lo)"
  by pat_completeness auto
termination by (relation "measure (\<lambda>(fits, lo, hi). hi - lo)") auto

declare longest_fit.simps [simp del]

lemma longest_fit_range:
  assumes "lo \<le> hi"
  shows "lo \<le> longest_fit fits lo hi \<and> longest_fit fits lo hi \<le> hi \<and> (longest_fit fits lo hi = lo \<or> fits (longest_fit fits lo hi))"
  using assms
proof (induction fits lo hi rule: longest_fit.induct)
  case (1 fits lo hi)
  note u = longest_fit.simps [of fits lo hi]
  show ?case
  proof (cases "lo < hi")
    case True
    let ?mid = "(lo + hi + 1) div 2"
    have mid: "lo < ?mid" "?mid \<le> hi" using True by auto
    show ?thesis
    proof (cases "fits ?mid")
      case fit: True
      have "longest_fit fits lo hi = longest_fit fits ?mid hi" using True fit unfolding u Let_def by simp
      with 1(1) [OF True refl fit mid(2)] mid(1) fit show ?thesis by (metis less_imp_le order_trans)
    next
      case False
      have "longest_fit fits lo hi = longest_fit fits lo (?mid - 1)" using True False unfolding u Let_def by simp
      moreover have "lo \<le> ?mid - 1" "?mid - 1 \<le> hi" using mid by linarith+
      ultimately show ?thesis using 1(2) [OF True refl False] by (metis order_trans)
    qed
  next
    case False
    with 1 show ?thesis unfolding u by simp
  qed
qed

text \<open>A word too wide on its own is broken.\<close>

definition cut_at :: "measure_line \<Rightarrow> int \<Rightarrow> bytes \<Rightarrow> nat" where
  "cut_at ext maxWidth line = longest_fit (\<lambda>mid. Fits ext maxWidth (take mid line)) 1 (length line - 1)"

lemma cut_at_range: "1 < length line \<Longrightarrow> 1 \<le> cut_at ext maxWidth line \<and> cut_at ext maxWidth line < length line"
  using longest_fit_range [of 1 "length line - 1" "\<lambda>mid. Fits ext maxWidth (take mid line)"] unfolding cut_at_def by linarith

function break_line :: "measure_line \<Rightarrow> int \<Rightarrow> bytes \<times> bytes list \<Rightarrow> bytes \<times> bytes list" where
  "break_line ext maxWidth (line, lines) =
     (if length line > 1 \<and> \<not> Fits ext maxWidth line
      then let lo = cut_at ext maxWidth line in break_line ext maxWidth (drop lo line, lines @ [take lo line])
      else (line, lines))"
  by pat_completeness auto
termination
proof (relation "measure (\<lambda>(ext, maxWidth, line, lines). length line)")
  fix ext maxWidth lo and line :: bytes and lines :: "bytes list"
  assume "length line > 1 \<and> \<not> Fits ext maxWidth line" "lo = cut_at ext maxWidth line"
  then show "((ext, maxWidth, drop lo line, lines @ [take lo line]), ext, maxWidth, line, lines) \<in> measure (\<lambda>(ext, maxWidth, line, lines). length line)"
    using cut_at_range [of line ext maxWidth] by auto
qed simp

declare break_line.simps [simp del]

definition is_break :: "u8 \<Rightarrow> bool" where "is_break b \<longleftrightarrow> b = 0x20 \<or> b = 0x0a"

definition word_end :: "bytes \<Rightarrow> nat \<Rightarrow> nat" where
  "word_end body pos = pos + length (takeWhile (\<lambda>b. \<not> is_break b) (drop pos body))"

definition add_word :: "measure_line \<Rightarrow> int \<Rightarrow> bytes \<Rightarrow> bytes \<times> bytes list \<Rightarrow> bytes \<times> bytes list" where
  "add_word ext maxWidth word st =
     (case st of (line, lines) \<Rightarrow>
        let candidate = (if line = [] then word else line @ [0x20] @ word);
            wide = (case ext candidate of None \<Rightarrow> False | Some width \<Rightarrow> width > maxWidth)
        in break_line ext maxWidth (if line \<noteq> [] \<and> wide then (word, lines @ [line]) else (candidate, lines)))"

definition end_line :: "bytes \<Rightarrow> nat \<Rightarrow> bytes \<times> bytes list \<Rightarrow> bytes \<times> bytes list" where
  "end_line body e st = (if e < length body \<and> body ! e = 0x0a then ([], snd st @ [fst st]) else st)"

function wrap_from :: "measure_line \<Rightarrow> int \<Rightarrow> bytes \<Rightarrow> nat \<Rightarrow> bytes \<times> bytes list \<Rightarrow> bytes \<times> bytes list" where
  "wrap_from ext maxWidth body pos st =
     (if pos \<le> length body
      then let e = word_end body pos; word = take (e - pos) (drop pos body)
           in wrap_from ext maxWidth body (e + 1) (end_line body e (add_word ext maxWidth word st))
      else st)"
  by pat_completeness auto
termination by (relation "measure (\<lambda>(ext, maxWidth, body, pos, st). length body + 1 - pos)") (auto simp: word_end_def)

declare wrap_from.simps [simp del]

definition Wrap :: "measure_line \<Rightarrow> int \<Rightarrow> bytes \<Rightarrow> bytes list" where
  "Wrap ext maxWidth body =
     (case wrap_from ext maxWidth body 0 ([], []) of (line, lines) \<Rightarrow> if line \<noteq> [] \<or> lines = [] then lines @ [line] else lines)"

section \<open>What the lines hold\<close>

definition visible_bytes :: "bytes \<Rightarrow> bytes" where
  "visible_bytes bs = filter (\<lambda>b. \<not> is_break b) bs"

lemma visible_append [simp]: "visible_bytes (xs @ ys) = visible_bytes xs @ visible_bytes ys"
  by (simp add: visible_bytes_def)

lemma visible_breaks [simp]: "visible_bytes [] = []" "visible_bytes (0x20 # xs) = visible_bytes xs" "visible_bytes [0x20] = []"
  by (simp_all add: visible_bytes_def is_break_def)

text \<open>A finished line fits, or is one byte.\<close>

definition line_ok :: "measure_line \<Rightarrow> int \<Rightarrow> bytes \<Rightarrow> bool" where
  "line_ok ext maxWidth line \<longleftrightarrow> length line \<le> 1 \<or> Fits ext maxWidth line"

definition wrap_ok :: "measure_line \<Rightarrow> int \<Rightarrow> bytes \<times> bytes list \<Rightarrow> bool" where
  "wrap_ok ext maxWidth st \<longleftrightarrow> line_ok ext maxWidth (fst st) \<and> (\<forall>line \<in> set (snd st). line_ok ext maxWidth line)"

definition written :: "bytes \<times> bytes list \<Rightarrow> bytes" where
  "written st = visible_bytes (concat (snd st) @ fst st)"

lemma break_line_ok:
  "\<forall>l \<in> set (snd st). line_ok ext maxWidth l \<Longrightarrow> wrap_ok ext maxWidth (break_line ext maxWidth st) \<and> written (break_line ext maxWidth st) = written st"
proof (induction ext maxWidth st rule: break_line.induct)
  case (1 ext maxWidth line lines)
  note u = break_line.simps [of ext maxWidth line lines]
  show ?case
  proof (cases "length line > 1 \<and> \<not> Fits ext maxWidth line")
    case True
    let ?lo = "cut_at ext maxWidth line"
    have "?lo = 1 \<or> Fits ext maxWidth (take ?lo line)"
      using True longest_fit_range [of 1 "length line - 1" "\<lambda>mid. Fits ext maxWidth (take mid line)"] unfolding cut_at_def by auto
    then have "line_ok ext maxWidth (take ?lo line)" by (auto simp: line_ok_def)
    with "1.prems" have "\<forall>l \<in> set (snd (drop ?lo line, lines @ [take ?lo line])). line_ok ext maxWidth l" by auto
    from "1.IH" [OF True refl this] True show ?thesis unfolding u Let_def by (simp add: written_def)
  next
    case False
    with "1.prems" show ?thesis unfolding u by (auto simp: wrap_ok_def line_ok_def)
  qed
qed

lemma add_word_ok:
  assumes "wrap_ok ext maxWidth st"
  shows "wrap_ok ext maxWidth (add_word ext maxWidth word st) \<and> written (add_word ext maxWidth word st) = written st @ visible_bytes word"
proof -
  obtain line lines where st: "st = (line, lines)" by fastforce
  let ?next = "\<lambda>wide. if line \<noteq> [] \<and> wide then (word, lines @ [line]) else (if line = [] then word else line @ [0x20] @ word, lines)"
  have "\<forall>l \<in> set (snd (?next wide)). line_ok ext maxWidth l" for wide using assms by (auto simp: st wrap_ok_def)
  note b = break_line_ok [OF this]
  have "written (?next wide) = written st @ visible_bytes word" for wide by (simp add: st written_def)
  with b show ?thesis by (simp add: add_word_def st Let_def)
qed

lemma end_line_ok: "wrap_ok ext maxWidth st \<Longrightarrow> wrap_ok ext maxWidth (end_line body e st) \<and> written (end_line body e st) = written st"
  by (auto simp: end_line_def wrap_ok_def written_def line_ok_def)

lemma visible_word:
  assumes "pos \<le> length body" "e = word_end body pos"
  shows "visible_bytes (take (e - pos) (drop pos body)) @ visible_bytes (drop (e + 1) body) = visible_bytes (drop pos body)"
proof -
  let ?w = "takeWhile (\<lambda>b. \<not> is_break b) (drop pos body)" and ?r = "dropWhile (\<lambda>b. \<not> is_break b) (drop pos body)"
  have split: "drop pos body = ?w @ ?r" by simp
  have e: "e = pos + length ?w" by (simp add: assms(2) word_end_def)
  have w: "take (e - pos) (drop pos body) = ?w" by (simp add: e takeWhile_eq_take [symmetric])
  have "drop (e + 1) body = drop (Suc (length ?w)) (drop pos body)" by (simp add: e add.commute)
  also have "\<dots> = drop 1 ?r" by (subst split, subst drop_append) simp
  finally have r: "drop (e + 1) body = drop 1 ?r" .
  have "visible_bytes (drop 1 ?r) = visible_bytes ?r"
  proof (cases ?r)
    case (Cons b bs)
    then have "is_break b" by (metis dropWhile_eq_Cons_conv)
    with Cons show ?thesis by (simp add: visible_bytes_def)
  next
    case Nil
    show ?thesis unfolding Nil by simp
  qed
  then show ?thesis unfolding w r by (simp only: visible_append [symmetric] takeWhile_dropWhile_id)
qed

lemma wrap_from_ok:
  "wrap_ok ext maxWidth st \<Longrightarrow> wrap_ok ext maxWidth (wrap_from ext maxWidth body pos st) \<and>
     written (wrap_from ext maxWidth body pos st) = written st @ visible_bytes (drop pos body)"
proof (induction ext maxWidth body pos st rule: wrap_from.induct)
  case (1 ext maxWidth body pos st)
  note u = wrap_from.simps [of ext maxWidth body pos st]
  show ?case
  proof (cases "pos \<le> length body")
    case True
    define e where "e = word_end body pos"
    define word where "word = take (e - pos) (drop pos body)"
    note a = add_word_ok [OF "1.prems", of word]
    note b = end_line_ok [OF conjunct1 [OF a], of body e]
    have rec: "wrap_from ext maxWidth body pos st = wrap_from ext maxWidth body (e + 1) (end_line body e (add_word ext maxWidth word st))"
      using True unfolding u Let_def e_def word_def by simp
    from "1.IH" [OF True e_def word_def conjunct1 [OF b]] a b visible_word [OF True e_def]
    show ?thesis unfolding rec by (simp add: word_def)
  next
    case False
    with "1.prems" show ?thesis unfolding u by simp
  qed
qed

section \<open>Properties\<close>

text \<open>
  C36. A caption is drawn whole. However wide the server says its lines are, wrapping ends with lines that hold the text's bytes in order, all but
  spaces and line ends; each line fits the width or is a single byte, and none is longer than the 255 bytes one request draws, so none is cut.
\<close>

theorem caption_whole:
  "Wrap ext maxWidth body \<noteq> [] \<and> visible_bytes (concat (Wrap ext maxWidth body)) = visible_bytes body \<and>
   list_all (\<lambda>line. length line \<le> 255 \<and> \<not> (length line > 1 \<and> \<not> Fits ext maxWidth line)) (Wrap ext maxWidth body)"
proof -
  obtain line lines where w: "wrap_from ext maxWidth body 0 ([], []) = (line, lines)" by fastforce
  have "wrap_ok ext maxWidth ([], [])" by (simp add: wrap_ok_def line_ok_def)
  from wrap_from_ok [OF this, of body 0] have ok: "wrap_ok ext maxWidth (line, lines)" "visible_bytes (concat lines @ line) = visible_bytes body"
    by (simp_all add: w written_def)
  have "length l \<le> 255 \<and> \<not> (length l > 1 \<and> \<not> Fits ext maxWidth l)" if "line_ok ext maxWidth l" for l
    using that by (auto simp: line_ok_def Fits_def)
  with ok show ?thesis by (auto simp: Wrap_def w wrap_ok_def list_all_iff)
qed

end
