(* ===== verification/Status_Window.thy ===== *)
theory Status_Window
  imports Status_Light Status_Caption
begin

text \<open>
  \<^verbatim>\<open>src/StatusWindow_x11.cpp\<close>, the window of the status light: when it is opened and closed on the API thread, and what its own thread keeps on the X
  server, tick by tick. The server is what the requests it was sent leave: whether the window is mapped, where it is and the image it holds.
  The drawing (\<open>PhaseAt\<close>, \<open>Rasterize\<close>, floating point) is an argument, as are the sizes in pixels that the display's scale gives; the choice of a
  visual, the fonts and the requests that set the windows up are not modelled.
\<close>

section \<open>Pixels and places\<close>

record Rect =
  rect_x :: int
  rect_y :: int
  rect_w :: int
  rect_h :: int

definition Rect0 :: Rect where "Rect0 = \<lparr>rect_x = 0, rect_y = 0, rect_w = 0, rect_h = 0\<rparr>"

definition scale_pixel :: "u8 \<Rightarrow> u32 \<Rightarrow> u32" where
  "scale_pixel alpha p =
     fold (\<lambda>shift q. q OR push_bit shift (((drop_bit shift p AND 0xff) * ucast alpha + 127) div 255)) [0, 8, 16, 24] 0"

definition window_Pixel :: "bool \<Rightarrow> u32 \<Rightarrow> u8 \<Rightarrow> u32" where
  "window_Pixel argb colour alpha = (let q = scale_pixel alpha colour in if argb then q else q AND 0xffffff)"

definition put_pixel :: "bool \<Rightarrow> u8 \<Rightarrow> u32 \<Rightarrow> u32" where
  "put_pixel swap alpha p =
     (let p = (if alpha \<noteq> 255 then scale_pixel alpha p else p)
      in if swap then drop_bit 24 p OR (drop_bit 8 p AND 0xff00) OR (push_bit 8 p AND 0xff0000) OR push_bit 24 p else p)"

text \<open>The runs of kept pixels in one row, from \<open>x0\<close>: where each starts and its width.\<close>

function row_runs :: "(nat \<Rightarrow> bool) \<Rightarrow> nat \<Rightarrow> nat \<Rightarrow> (nat \<times> nat) list" where
  "row_runs keep extent x0 =
     (if x0 < extent then
        if \<not> keep x0 then row_runs keep extent (x0 + 1)
        else let n = length (takeWhile keep [x0..<extent]) in (x0, n) # row_runs keep extent (x0 + n)
      else [])"
  by pat_completeness auto
termination
  by (relation "measure (\<lambda>(keep, extent, x0). extent - x0)") (auto simp: upt_conv_Cons)

declare row_runs.simps [simp del]

definition SHAPE_ALPHA :: u32 where "SHAPE_ALPHA = 64"

definition Shape :: "bool \<Rightarrow> bool \<Rightarrow> nat \<Rightarrow> u32 list \<Rightarrow> (nat \<times> nat \<times> nat) list" where
  "Shape argb compositing extent pixels =
     (let keep = (if argb \<and> compositing then 1 else SHAPE_ALPHA)
      in concat (map (\<lambda>y. map (\<lambda>(x, n). (x, y, n)) (row_runs (\<lambda>x. \<not> drop_bit 24 (pixels ! (y * extent + x)) < keep) extent 0)) [0..<extent]))"

text \<open>The light's place in a corner of the monitor, and the caption's beside it.\<close>

definition corner_rect :: "int \<Rightarrow> Rect \<Rightarrow> int \<Rightarrow> int \<Rightarrow> Rect" where
  "corner_rect corner monitor inset extent =
     \<lparr>rect_x = (if corner = 1 \<or> corner = 3 then rect_x monitor + inset else rect_x monitor + rect_w monitor - inset - extent),
      rect_y = (if corner = 3 \<or> corner = 4 then rect_y monitor + rect_h monitor - inset - extent else rect_y monitor + inset),
      rect_w = extent, rect_h = extent\<rparr>"

definition caption_rect :: "Rect \<Rightarrow> Rect \<Rightarrow> int \<Rightarrow> int \<times> int \<Rightarrow> Rect" where
  "caption_rect monitor light gap captionSize =
     (case captionSize of (w, h) \<Rightarrow>
        let lightOnRight = (rect_x light + rect_w light div 2 > rect_x monitor + rect_w monitor div 2);
            x = (if lightOnRight then rect_x light - gap - w else rect_x light + rect_w light + gap);
            lowest = max (rect_y monitor) (rect_y monitor + rect_h monitor - h);
            y = rect_y light + rect_h light div 2 - h div 2
        in \<lparr>rect_x = x, rect_y = max (rect_y monitor) (min y lowest), rect_w = w, rect_h = h\<rparr>)"

section \<open>The playfield\<close>

text \<open>
  The nearest window from the active one up that names its process: ours or none. \<open>pid\<close> is a window's process if it names one, \<open>parent\<close> its
  parent if it is still there; window 0 is none and 1 is \<^verbatim>\<open>XCB_INPUT_FOCUS_POINTER_ROOT\<close>.
\<close>

fun find_playfield :: "u32 \<Rightarrow> (u32 \<Rightarrow> u32 option) \<Rightarrow> (u32 \<Rightarrow> u32 option) \<Rightarrow> u32 \<Rightarrow> nat \<Rightarrow> u32 \<Rightarrow> u32" where
  "find_playfield self pid parent root 0 w = 0"
| "find_playfield self pid parent root (Suc hops) w =
     (if w = 0 \<or> w = 1 \<or> w = root then 0
      else case pid w of
        Some p \<Rightarrow> if p = self then w else 0
      | None \<Rightarrow> (case parent w of None \<Rightarrow> 0 | Some w \<Rightarrow> find_playfield self pid parent root hops w))"

definition FindPlayfield :: "u32 \<Rightarrow> (u32 \<Rightarrow> u32 option) \<Rightarrow> (u32 \<Rightarrow> u32 option) \<Rightarrow> u32 \<Rightarrow> u32 \<Rightarrow> u32" where
  "FindPlayfield self pid parent root w = find_playfield self pid parent root 8 w"

definition within :: "int \<times> int \<Rightarrow> Rect \<Rightarrow> bool" where
  "within c m \<longleftrightarrow> fst c \<ge> rect_x m \<and> fst c < rect_x m + rect_w m \<and> snd c \<ge> rect_y m \<and> snd c < rect_y m + rect_h m"

text \<open>The monitor of the playfield's centre: the first that holds it, else the first; the whole screen where there are none.\<close>

fun find_monitor :: "int \<times> int \<Rightarrow> bool \<Rightarrow> Rect \<Rightarrow> Rect list \<Rightarrow> Rect" where
  "find_monitor c first out [] = out"
| "find_monitor c first out (m # ms) =
     (let out = (if first \<or> within c m then m else out) in if within c m then out else find_monitor c False out ms)"

text \<open>\<open>geometry\<close> is the playfield's, if the server still has it; \<open>monitors\<close> is \<open>None\<close> without RandR 1.5.\<close>

definition PlayfieldMonitor :: "Rect option \<Rightarrow> Rect \<Rightarrow> Rect list option \<Rightarrow> Rect option" where
  "PlayfieldMonitor geometry screen monitors =
     (case geometry of
        None \<Rightarrow> None
      | Some g \<Rightarrow>
          let c = (rect_x g + rect_w g div 2, rect_y g + rect_h g div 2)
          in Some (case monitors of None \<Rightarrow> screen | Some ms \<Rightarrow> find_monitor c True screen ms))"

lemma find_monitor_holds: "(\<exists>m \<in> set ms. within c m) \<Longrightarrow> within c (find_monitor c first out ms) \<and> find_monitor c first out ms \<in> set ms"
  by (induction ms arbitrary: first out) (auto simp: Let_def)

lemma row_runs_exact:
  "{x. \<exists>(a, n) \<in> set (row_runs keep extent x0). a \<le> x \<and> x < a + n} = {x. x0 \<le> x \<and> x < extent \<and> keep x}"
proof (induction keep extent x0 rule: row_runs.induct)
  case (1 keep extent x0)
  note u = row_runs.simps [of keep extent x0]
  show ?case
  proof (cases "x0 < extent \<and> keep x0")
    case True
    define n where "n = length (takeWhile keep [x0..<extent])"
    have n: "n \<le> extent - x0" unfolding n_def using length_takeWhile_le [of keep "[x0..<extent]"] by simp
    have kept: "keep (x0 + i)" if "i < n" for i
    proof -
      have "takeWhile keep [x0..<extent] ! i = x0 + i" using that n takeWhile_nth [of i keep "[x0..<extent]"] by (simp add: n_def)
      then show ?thesis using nth_mem [of i "takeWhile keep [x0..<extent]"] that set_takeWhileD [of "x0 + i" keep] by (auto simp: n_def)
    qed
    have rec: "row_runs keep extent x0 = (x0, n) # row_runs keep extent (x0 + n)" using True unfolding u n_def by (simp add: Let_def)
    have "{x. \<exists>(a, n) \<in> set (row_runs keep extent x0). a \<le> x \<and> x < a + n} = {x. x0 \<le> x \<and> x < x0 + n} \<union> {x. x0 + n \<le> x \<and> x < extent \<and> keep x}"
      unfolding rec using "1.IH"(2) [OF conjunct1 [OF True] _ n_def] True by auto
    also have "\<dots> = {x. x0 \<le> x \<and> x < extent \<and> keep x}"
    proof -
      have "keep x" if "x0 \<le> x" "x < x0 + n" for x using kept [of "x - x0"] that by simp
      with n show ?thesis by (auto simp: not_less)
    qed
    finally show ?thesis .
  next
    case False
    show ?thesis
    proof (cases "x0 < extent")
      case True
      with False have k: "\<not> keep x0" by simp
      have "row_runs keep extent x0 = row_runs keep extent (x0 + 1)" using True k unfolding u by simp
      with "1.IH"(1) [OF True k] k show ?thesis by (auto simp: Suc_le_eq nat_less_le)
    next
      case False
      then show ?thesis unfolding u by auto
    qed
  qed
qed

section \<open>The light's thread\<close>

record LightPhase =
  systemLit :: bool
  sessionLit :: bool
  ph_ring :: u8
  ph_flash :: u8

record Wanted =
  wa_corner :: int
  wa_view :: LightView
  wa_since :: time_point
  wa_alpha :: u8
  wa_flash :: bool
  wa_flashAt :: time_point
  wa_caption :: string

text \<open>
  The members the thread keeps, and after them what the server holds: the window mapped, its place, its image (\<open>None\<close> once the server dropped it)
  and the caption mapped. \<open>light_part\<close>'s frame is the last one drawn.
\<close>

record light_part =
  lp_inFront :: bool
  lp_frontStale :: bool
  lp_mapped :: bool
  lp_raise :: bool
  lp_redraw :: bool
  lp_shapeStale :: bool
  lp_compositing :: bool
  lp_nextFront :: time_point
  lp_nextCompositor :: time_point
  lp_lastRaise :: time_point
  lp_monitor :: Rect
  lp_placed :: Rect
  lp_drawnView :: LightView
  lp_drawnPhase :: LightPhase
  lp_drawnAlpha :: u8
  lp_frameSize :: nat
  lp_frame :: "u32 list"
  lp_captionMapped :: bool
  lp_captionDirty :: bool
  xs_mapped :: bool
  xs_at :: Rect
  xs_image :: "u32 list option"
  xs_captionMapped :: bool

definition light_part0 :: light_part where
  "light_part0 = \<lparr>lp_inFront = False, lp_frontStale = True, lp_mapped = False, lp_raise = False, lp_redraw = True, lp_shapeStale = True,
     lp_compositing = False, lp_nextFront = 0, lp_nextCompositor = 0, lp_lastRaise = 0, lp_monitor = Rect0, lp_placed = Rect0,
     lp_drawnView = LightView0, lp_drawnPhase = \<lparr>systemLit = False, sessionLit = False, ph_ring = 0, ph_flash = 0\<rparr>, lp_drawnAlpha = 0,
     lp_frameSize = 0, lp_frame = [], lp_captionMapped = False, lp_captionDirty = True,
     xs_mapped = False, xs_at = \<lparr>rect_x = 0, rect_y = 0, rect_w = 1, rect_h = 1\<rparr>, xs_image = None, xs_captionMapped = False\<rparr>"

definition FRONT_EVERY :: int where "FRONT_EVERY = milliseconds 250"
definition COMPOSITOR_EVERY :: int where "COMPOSITOR_EVERY = seconds 1"
definition RAISE_GAP :: int where "RAISE_GAP = milliseconds 50"

text \<open>
  What the light draws with: its size and inset in pixels, whether its visual has alpha, whether the server's words are swapped, and the drawing.
\<close>

record light_display =
  ld_size :: nat
  ld_inset :: int
  ld_argb :: bool
  ld_swap :: bool
  ld_phase :: "LightView \<Rightarrow> int \<Rightarrow> int option \<Rightarrow> LightPhase"
  ld_raster :: "LightView \<Rightarrow> LightPhase \<Rightarrow> u32 list"

text \<open>
  What the server sends, \<open>ours\<close> for an event of the light's own window, \<open>free\<close> for one of an override-redirect window. An expose says the
  server dropped what the window showed.
\<close>

datatype x_event =
    ExposeLight
  | ExposeCaption
  | PropertyActive
  | PropertyOther
  | ConfigureNotify bool bool
  | MapNotify bool bool
  | OtherEvent

fun light_event :: "x_event \<Rightarrow> light_part \<Rightarrow> light_part" where
  "light_event ExposeLight l = l\<lparr>lp_redraw := True\<rparr>"
| "light_event ExposeCaption l = l\<lparr>lp_captionDirty := True\<rparr>"
| "light_event PropertyActive l = l\<lparr>lp_frontStale := True\<rparr>"
| "light_event (ConfigureNotify ours free) l = (if \<not> ours \<and> \<not> free then l\<lparr>lp_raise := True\<rparr> else l)\<lparr>lp_frontStale := True\<rparr>"
| "light_event (MapNotify ours free) l = (if \<not> ours \<and> \<not> free then l\<lparr>lp_raise := True\<rparr> else l)"
| "light_event _ l = l"

definition Events :: "x_event list \<Rightarrow> light_part \<Rightarrow> light_part" where
  "Events evs l = fold light_event evs l"

definition StackAbove :: "time_point \<Rightarrow> light_part \<Rightarrow> light_part" where
  "StackAbove now l = l\<lparr>lp_lastRaise := now, lp_raise := False\<rparr>"

definition HideCaption :: "light_part \<Rightarrow> light_part" where
  "HideCaption l = l\<lparr>lp_captionMapped := False, xs_captionMapped := False\<rparr>"

definition Put :: "light_display \<Rightarrow> u8 \<Rightarrow> light_part \<Rightarrow> light_part" where
  "Put d alpha l = l\<lparr>xs_image := Some (map (put_pixel (ld_swap d) alpha) (lp_frame l))\<rparr>"

text \<open>
  What one tick finds: the time, the monitor of VPX's playfield if VPX is in front, whether a compositor runs, and whether the hover rule
  shows the caption (\<open>None\<close> when it is not due or has no answer).
\<close>

record tick_env =
  tk_now :: time_point
  tk_front :: "Rect option"
  tk_composited :: bool
  tk_hover :: "bool option"

definition FLASH :: int where "FLASH = milliseconds 500"

definition phase_now :: "light_display \<Rightarrow> Wanted \<Rightarrow> time_point \<Rightarrow> LightPhase" where
  "phase_now d w now = ld_phase d (wa_view w) (now - wa_since w)
     (if wa_flash w \<and> \<not> now - wa_flashAt w \<ge> FLASH then Some (now - wa_flashAt w) else None)"

definition tick_front :: "tick_env \<Rightarrow> light_part \<Rightarrow> light_part" where
  "tick_front e l =
     (if lp_frontStale l \<or> tk_now e \<ge> lp_nextFront l
      then (case tk_front e of None \<Rightarrow> l\<lparr>lp_inFront := False\<rparr> | Some m \<Rightarrow> l\<lparr>lp_inFront := True, lp_monitor := m\<rparr>)
        \<lparr>lp_frontStale := False, lp_nextFront := tk_now e + FRONT_EVERY\<rparr>
      else l)"

definition tick_compositor :: "tick_env \<Rightarrow> light_part \<Rightarrow> light_part" where
  "tick_compositor e l =
     (if tk_now e \<ge> lp_nextCompositor l
      then (if tk_composited e \<noteq> lp_compositing l then l\<lparr>lp_compositing := tk_composited e, lp_shapeStale := True\<rparr> else l)
        \<lparr>lp_nextCompositor := tk_now e + COMPOSITOR_EVERY\<rparr>
      else l)"

definition tick_place :: "Rect \<Rightarrow> light_part \<Rightarrow> light_part" where
  "tick_place at l =
     (if at \<noteq> lp_placed l
      then l\<lparr>xs_at := at, lp_shapeStale := (lp_shapeStale l \<or> rect_w at \<noteq> rect_w (lp_placed l)), lp_placed := at, lp_redraw := True\<rparr>
      else l)"

definition tick_draw :: "light_display \<Rightarrow> Wanted \<Rightarrow> time_point \<Rightarrow> light_part \<Rightarrow> light_part" where
  "tick_draw d w now l =
     (let phase = phase_now d w now;
          changed = (lp_redraw l \<or> wa_view w \<noteq> lp_drawnView l \<or> phase \<noteq> lp_drawnPhase l \<or> wa_alpha w \<noteq> lp_drawnAlpha l \<or> ld_size d \<noteq> lp_frameSize l);
          l = (if changed \<or> lp_shapeStale l then l\<lparr>lp_frame := ld_raster d (wa_view w) phase, lp_frameSize := ld_size d\<rparr> else l);
          l = l\<lparr>lp_shapeStale := False\<rparr>;
          l = (if \<not> lp_mapped l then (StackAbove now l)\<lparr>lp_mapped := True, xs_mapped := True\<rparr>
               else if lp_raise l \<and> now - lp_lastRaise l \<ge> RAISE_GAP then StackAbove now l else l)
      in if changed then (Put d (wa_alpha w) l)\<lparr>lp_drawnView := wa_view w, lp_drawnPhase := phase, lp_drawnAlpha := wa_alpha w, lp_redraw := False\<rparr>
         else l)"

definition tick_hover :: "tick_env \<Rightarrow> Wanted \<Rightarrow> light_part \<Rightarrow> light_part" where
  "tick_hover e w l =
     (case tk_hover e of
        None \<Rightarrow> l
      | Some shows \<Rightarrow> if shows \<and> wa_caption w \<noteq> [] then l\<lparr>lp_captionMapped := True, xs_captionMapped := True, lp_captionDirty := False\<rparr> else HideCaption l)"

definition light_Tick :: "light_display \<Rightarrow> Wanted \<Rightarrow> tick_env \<Rightarrow> light_part \<Rightarrow> light_part" where
  "light_Tick d w e l =
     (let l = tick_front e l in
      if \<not> lp_inFront l then HideCaption (l\<lparr>lp_mapped := False, xs_mapped := False\<rparr>)
      else let l = tick_compositor e l;
               at = corner_rect (wa_corner w) (lp_monitor l) (ld_inset d) (int (ld_size d));
               l = tick_place at l
           in tick_hover e w (tick_draw d w (tk_now e) l))"

text \<open>One round of \<open>Run\<close>: the server drops the image of a window it exposes, and says so.\<close>

definition light_round :: "light_display \<Rightarrow> Wanted \<Rightarrow> x_event list \<Rightarrow> tick_env \<Rightarrow> light_part \<Rightarrow> light_part" where
  "light_round d w evs e l =
     light_Tick d w e (Events evs (if ExposeLight \<in> set evs then l\<lparr>xs_image := None\<rparr> else l))"

inductive light_reach :: "light_display \<Rightarrow> light_part \<Rightarrow> bool" where
  lr_init: "light_reach d light_part0"
| lr_round: "light_reach d l \<Longrightarrow> light_reach d (light_round d w evs e l)"

definition drawn_as :: "light_display \<Rightarrow> LightView \<Rightarrow> LightPhase \<Rightarrow> u8 \<Rightarrow> u32 list" where
  "drawn_as d view phase alpha = map (put_pixel (ld_swap d) alpha) (ld_raster d view phase)"

definition light_inv :: "light_display \<Rightarrow> light_part \<Rightarrow> bool" where
  "light_inv d l \<longleftrightarrow> lp_mapped l = xs_mapped l \<and> lp_captionMapped l = xs_captionMapped l \<and> (lp_placed l = Rect0 \<or> xs_at l = lp_placed l) \<and>
     (if lp_redraw l then True else xs_image l = Some (drawn_as d (lp_drawnView l) (lp_drawnPhase l) (lp_drawnAlpha l)) \<and>
       lp_frameSize l = ld_size d \<and> lp_placed l \<noteq> Rect0)"

lemma event_keeps: "light_inv d l \<Longrightarrow> light_inv d (light_event ev l) \<and> (lp_redraw l \<longrightarrow> lp_redraw (light_event ev l))"
  by (cases ev) (auto simp: light_inv_def)

lemma events_redraw: "lp_redraw l \<or> ExposeLight \<in> set evs \<Longrightarrow> lp_redraw (Events evs l)"
  unfolding Events_def
proof (induction evs arbitrary: l)
  case (Cons ev evs)
  have "lp_redraw l \<or> ev = ExposeLight \<Longrightarrow> lp_redraw (light_event ev l)" by (cases ev) auto
  with Cons show ?case by (cases "lp_redraw (light_event ev l)") auto
qed simp

lemma events_keep: "light_inv d l \<Longrightarrow> light_inv d (Events evs l)"
  unfolding Events_def by (induction evs arbitrary: l) (simp_all add: event_keeps)

text \<open>The steps of a tick.\<close>

lemma front_keeps: "light_inv d l \<Longrightarrow> light_inv d (tick_front e l) \<and> lp_redraw (tick_front e l) = lp_redraw l"
  by (auto simp: tick_front_def light_inv_def split: option.split)

lemma compositor_keeps: "light_inv d l \<Longrightarrow> light_inv d (tick_compositor e l) \<and> lp_redraw (tick_compositor e l) = lp_redraw l \<and>
    lp_monitor (tick_compositor e l) = lp_monitor l \<and> lp_inFront (tick_compositor e l) = lp_inFront l"
  by (auto simp: tick_compositor_def light_inv_def)

lemma place_keeps:
  assumes "light_inv d l" "0 < rect_w at"
  shows "light_inv d (tick_place at l) \<and> lp_placed (tick_place at l) = at \<and> xs_at (tick_place at l) = at \<and>
    lp_monitor (tick_place at l) = lp_monitor l \<and> lp_inFront (tick_place at l) = lp_inFront l"
  using assms by (auto simp: tick_place_def light_inv_def Rect0_def)

lemma draw_draws:
  assumes "light_inv d l" "lp_placed l = at" "xs_at l = at" "0 < rect_w at"
  shows "light_inv d (tick_draw d w now l) \<and> xs_mapped (tick_draw d w now l) \<and> xs_at (tick_draw d w now l) = at \<and>
    xs_image (tick_draw d w now l) = Some (drawn_as d (wa_view w) (phase_now d w now) (wa_alpha w)) \<and>
    lp_monitor (tick_draw d w now l) = lp_monitor l \<and> lp_inFront (tick_draw d w now l) = lp_inFront l"
proof -
  let ?phase = "phase_now d w now"
  define changed where "changed \<longleftrightarrow> lp_redraw l \<or> wa_view w \<noteq> lp_drawnView l \<or> ?phase \<noteq> lp_drawnPhase l \<or> wa_alpha w \<noteq> lp_drawnAlpha l \<or> ld_size d \<noteq> lp_frameSize l"
  define l1 where "l1 = (if changed \<or> lp_shapeStale l then l\<lparr>lp_frame := ld_raster d (wa_view w) ?phase, lp_frameSize := ld_size d\<rparr> else l)\<lparr>lp_shapeStale := False\<rparr>"
  define l2 where "l2 = (if \<not> lp_mapped l1 then (StackAbove now l1)\<lparr>lp_mapped := True, xs_mapped := True\<rparr>
    else if lp_raise l1 \<and> now - lp_lastRaise l1 \<ge> RAISE_GAP then StackAbove now l1 else l1)"
  have eq: "tick_draw d w now l = (if changed then (Put d (wa_alpha w) l2)\<lparr>lp_drawnView := wa_view w, lp_drawnPhase := ?phase, lp_drawnAlpha := wa_alpha w, lp_redraw := False\<rparr> else l2)"
    unfolding tick_draw_def Let_def changed_def [symmetric] l1_def [symmetric] l2_def [symmetric] ..
  have l1: "lp_mapped l1 = lp_mapped l" "xs_mapped l1 = xs_mapped l" "lp_placed l1 = at" "xs_at l1 = at" "xs_image l1 = xs_image l"
    "lp_captionMapped l1 = lp_captionMapped l" "xs_captionMapped l1 = xs_captionMapped l" "lp_redraw l1 = lp_redraw l" "lp_drawnView l1 = lp_drawnView l"
    "lp_drawnPhase l1 = lp_drawnPhase l" "lp_drawnAlpha l1 = lp_drawnAlpha l" "lp_monitor l1 = lp_monitor l" "lp_inFront l1 = lp_inFront l"
    "if changed then lp_frame l1 = ld_raster d (wa_view w) ?phase \<and> lp_frameSize l1 = ld_size d else lp_frameSize l1 = lp_frameSize l \<or> lp_frameSize l1 = ld_size d"
    using assms(2,3) by (simp_all add: l1_def)
  have l2: "lp_mapped l2 \<and> (lp_mapped l1 = xs_mapped l1 \<longrightarrow> xs_mapped l2)" "lp_placed l2 = lp_placed l1" "xs_at l2 = xs_at l1" "xs_image l2 = xs_image l1"
    "lp_captionMapped l2 = lp_captionMapped l1" "xs_captionMapped l2 = xs_captionMapped l1" "lp_redraw l2 = lp_redraw l1" "lp_drawnView l2 = lp_drawnView l1"
    "lp_drawnPhase l2 = lp_drawnPhase l1" "lp_drawnAlpha l2 = lp_drawnAlpha l1" "lp_monitor l2 = lp_monitor l1" "lp_inFront l2 = lp_inFront l1"
    "lp_frame l2 = lp_frame l1" "lp_frameSize l2 = lp_frameSize l1"
    by (auto simp: l2_def StackAbove_def)
  have no0: "at \<noteq> Rect0" using assms(4) by (auto simp: Rect0_def)
  have inv: "lp_mapped l = xs_mapped l" "lp_captionMapped l = xs_captionMapped l" using assms(1) by (simp_all add: light_inv_def)
  show ?thesis
  proof (cases changed)
    case True
    with l1 l2 inv no0 show ?thesis unfolding eq by (simp add: light_inv_def Put_def drawn_as_def)
  next
    case False
    then have same: "\<not> lp_redraw l" "lp_drawnView l = wa_view w" "lp_drawnPhase l = ?phase" "lp_drawnAlpha l = wa_alpha w" "lp_frameSize l = ld_size d"
      by (simp_all add: changed_def)
    then have "xs_image l = Some (drawn_as d (wa_view w) ?phase (wa_alpha w))" using assms(1) by (simp add: light_inv_def)
    with False same l1 l2 inv no0 show ?thesis unfolding eq by (simp add: light_inv_def)
  qed
qed

lemma hover_keeps: "light_inv d l \<Longrightarrow> light_inv d (tick_hover e w l) \<and> xs_mapped (tick_hover e w l) = xs_mapped l \<and> xs_at (tick_hover e w l) = xs_at l \<and>
    xs_image (tick_hover e w l) = xs_image l \<and> lp_monitor (tick_hover e w l) = lp_monitor l \<and> lp_inFront (tick_hover e w l) = lp_inFront l"
  by (auto simp: tick_hover_def HideCaption_def light_inv_def split: option.split)

lemma Tick_shows:
  assumes "light_inv d l" "0 < ld_size d"
  shows "light_inv d (light_Tick d w e l) \<and>
    (if lp_inFront (light_Tick d w e l)
     then xs_mapped (light_Tick d w e l) \<and>
       xs_at (light_Tick d w e l) = corner_rect (wa_corner w) (lp_monitor (light_Tick d w e l)) (ld_inset d) (int (ld_size d)) \<and>
       xs_image (light_Tick d w e l) = Some (drawn_as d (wa_view w) (phase_now d w (tk_now e)) (wa_alpha w))
     else \<not> xs_mapped (light_Tick d w e l) \<and> \<not> xs_captionMapped (light_Tick d w e l))"
proof -
  define f where "f = tick_front e l"
  note f = front_keeps [OF assms(1), of e, folded f_def]
  show ?thesis
  proof (cases "lp_inFront f")
    case False
    then have "light_Tick d w e l = HideCaption (f\<lparr>lp_mapped := False, xs_mapped := False\<rparr>)" by (simp add: light_Tick_def f_def)
    with f False show ?thesis by (simp add: HideCaption_def light_inv_def)
  next
    case True
    define at1 where "at1 = corner_rect (wa_corner w) (lp_monitor f) (ld_inset d) (int (ld_size d))"
    have wide: "0 < rect_w at1" using assms(2) by (simp add: at1_def corner_rect_def)
    note c = compositor_keeps [OF conjunct1 [OF f], of e]
    note p = place_keeps [OF conjunct1 [OF c] wide]
    have draw: "light_Tick d w e l = tick_hover e w (tick_draw d w (tk_now e) (tick_place at1 (tick_compositor e f)))"
      using True c by (simp add: light_Tick_def f_def [symmetric] at1_def Let_def)
    have "light_inv d (tick_place at1 (tick_compositor e f))" using p by blast
    note t = draw_draws [OF this _ _ wide, of w "tk_now e"]
    note h = hover_keeps [of d "tick_draw d w (tk_now e) (tick_place at1 (tick_compositor e f))" e w]
    show ?thesis using t h p c True unfolding draw by (simp add: at1_def)
  qed
qed

lemma expose_inv: "light_inv d l \<Longrightarrow> light_inv d (Events evs (if ExposeLight \<in> set evs then l\<lparr>xs_image := None\<rparr> else l))"
proof (cases "ExposeLight \<in> set evs")
  case True
  assume inv: "light_inv d l"
  have other: "xs_mapped (Events evs m) = xs_mapped m \<and> lp_mapped (Events evs m) = lp_mapped m \<and> xs_at (Events evs m) = xs_at m \<and>
    lp_placed (Events evs m) = lp_placed m \<and> lp_captionMapped (Events evs m) = lp_captionMapped m \<and>
    xs_captionMapped (Events evs m) = xs_captionMapped m" for m
  proof -
    have "xs_mapped (light_event ev m) = xs_mapped m \<and> lp_mapped (light_event ev m) = lp_mapped m \<and> xs_at (light_event ev m) = xs_at m \<and>
      lp_placed (light_event ev m) = lp_placed m \<and> lp_captionMapped (light_event ev m) = lp_captionMapped m \<and>
      xs_captionMapped (light_event ev m) = xs_captionMapped m" for ev m by (cases ev) auto
    then show ?thesis unfolding Events_def by (induction evs arbitrary: m) auto
  qed
  show ?thesis using inv True other [of "l\<lparr>xs_image := None\<rparr>"] events_redraw [of "l\<lparr>xs_image := None\<rparr>" evs]
    by (simp add: light_inv_def)
qed (simp add: events_keep)

lemma light_reach_inv: "light_reach d l \<Longrightarrow> 0 < ld_size d \<Longrightarrow> light_inv d l"
proof (induction rule: light_reach.induct)
  case (lr_init d)
  show ?case by (simp add: light_inv_def light_part0_def Rect0_def)
next
  case (lr_round d l w evs e)
  from Tick_shows [OF expose_inv [OF lr_round.IH [OF lr_round.prems], of evs] lr_round.prems, of w e] show ?case
    unfolding light_round_def by (elim conjE)
qed

section \<open>The API thread's calls\<close>

text \<open>
  SDL's driver by name if SDL was found and has one, then the two variables, the Wayland and the X display, each \<open>None\<close> when it is not set.
\<close>

definition forced_driver :: "string \<Rightarrow> string option \<Rightarrow> string option option" where
  "forced_driver name value =
     (case value of
        None \<Rightarrow> None
      | Some forced \<Rightarrow>
          if forced = [] then None
          else if takeWhile (\<lambda>c. c \<noteq> CHR '','') forced = ''x11'' then Some None else Some (Some (name @ '' is '' @ forced)))"

definition DriverProblem :: "string option \<Rightarrow> string option \<Rightarrow> string option \<Rightarrow> string option \<Rightarrow> string option \<Rightarrow> string option" where
  "DriverProblem sdl sdl3 sdl2 wayland display =
     (case sdl of
        Some name \<Rightarrow> if name = ''x11'' then None else Some (''VPX draws with SDL's '' @ name @ '' video driver, not x11'')
      | None \<Rightarrow>
          (case forced_driver ''SDL_VIDEO_DRIVER'' sdl3 of
             Some why \<Rightarrow> why
           | None \<Rightarrow>
               (case forced_driver ''SDL_VIDEODRIVER'' sdl2 of
                  Some why \<Rightarrow> why
                | None \<Rightarrow>
                    if (case wayland of None \<Rightarrow> False | Some v \<Rightarrow> v \<noteq> []) then Some ''a Wayland session''
                    else if (case display of None \<Rightarrow> True | Some v \<Rightarrow> v = []) then Some ''no X display''
                    else None)))"

text \<open>
  The light's object and its thread come and go together; \<open>sw_lost\<close> is set by the thread when its connection fails. \<open>sw_opens\<close> counts the attempts to
  open a light.
\<close>

record status_window =
  sw_light :: bool
  sw_lost :: bool
  sw_unavailable :: string
  sw_wanted :: Wanted
  sw_opens :: nat

definition status_window0 :: status_window where
  "status_window0 = \<lparr>sw_light = False, sw_lost = False, sw_unavailable = [],
     sw_wanted = \<lparr>wa_corner = 0, wa_view = LightView0, wa_since = 0, wa_alpha = 255, wa_flash = False, wa_flashAt = 0, wa_caption = []\<rparr>, sw_opens = 0\<rparr>"

definition Hide :: "status_window \<Rightarrow> status_window" where
  "Hide s = s\<lparr>sw_light := False\<rparr>"

text \<open>\<open>problem\<close> is \<open>DriverProblem\<close>'s answer, \<open>opened\<close> what opening a light fails with, if it does.\<close>

definition Show :: "string option \<Rightarrow> string option \<Rightarrow> status_window \<Rightarrow> bool \<times> status_window" where
  "Show problem opened s =
     (case problem of
        Some why \<Rightarrow> (False, s\<lparr>sw_unavailable := why, sw_opens := sw_opens s + 1\<rparr>)
      | None \<Rightarrow>
          let s = s\<lparr>sw_light := True, sw_opens := sw_opens s + 1\<rparr>
          in case opened of
               Some why \<Rightarrow> (False, Hide (s\<lparr>sw_unavailable := why\<rparr>))
             | None \<Rightarrow> (True, s\<lparr>sw_unavailable := [], sw_lost := False\<rparr>))"

record window_args =
  ua_corner :: int
  ua_view :: LightView
  ua_alpha :: u8
  ua_flash :: bool
  ua_caption :: string
  ua_now :: time_point
  ua_problem :: "string option"
  ua_opened :: "string option"

text \<open>\<open>ua_alpha\<close> is the opacity, clamped and rounded to a byte.\<close>

definition want :: "window_args \<Rightarrow> bool \<Rightarrow> Wanted \<Rightarrow> Wanted" where
  "want a appeared w =
     (let w = (if appeared \<or> ua_view a \<noteq> wa_view w then w\<lparr>wa_view := ua_view a, wa_since := ua_now a\<rparr> else w);
          w = (if appeared then w\<lparr>wa_flash := False\<rparr> else w);
          w = (if ua_flash a then w\<lparr>wa_flash := True, wa_flashAt := ua_now a\<rparr> else w)
      in w\<lparr>wa_corner := ua_corner a, wa_alpha := ua_alpha a, wa_caption := ua_caption a\<rparr>)"

definition UpdateStatusWindow :: "window_args \<Rightarrow> status_window \<Rightarrow> bool \<times> status_window" where
  "UpdateStatusWindow a s =
     (if ua_corner a < 1 \<or> ua_corner a > 4 \<or> \<not> visible (ua_view a)
      then (False, (if sw_light s then Hide s else s)\<lparr>sw_unavailable := []\<rparr>)
      else let s = (if sw_light s \<and> sw_lost s then (Hide s)\<lparr>sw_unavailable := ''the X connection closed''\<rparr> else s)
        in if \<not> sw_light s \<and> sw_unavailable s \<noteq> [] then (False, s)
           else let appeared = (\<not> sw_light s); s = s\<lparr>sw_wanted := want a appeared (sw_wanted s)\<rparr>
             in if appeared then Show (ua_problem a) (ua_opened a) s else (False, s))"

definition StatusWindowUnavailable :: "status_window \<Rightarrow> string option" where
  "StatusWindowUnavailable s = (if sw_unavailable s = [] then None else Some (sw_unavailable s))"

datatype window_event = W_Update window_args | W_Lost

fun window_event_step :: "window_event \<Rightarrow> status_window \<Rightarrow> status_window" where
  "window_event_step (W_Update a) s = snd (UpdateStatusWindow a s)"
| "window_event_step W_Lost s = (if sw_light s then s\<lparr>sw_lost := True\<rparr> else s)"

definition placed_in_corner :: "window_args \<Rightarrow> bool" where
  "placed_in_corner a \<longleftrightarrow> 1 \<le> ua_corner a \<and> ua_corner a \<le> 4 \<and> visible (ua_view a)"

definition asks_to_show :: "window_event \<Rightarrow> bool" where
  "asks_to_show ev \<longleftrightarrow> (case ev of W_Update a \<Rightarrow> placed_in_corner a | W_Lost \<Rightarrow> True)"

text \<open>An attempt fails with a reason, which keeps the next from being made.\<close>

definition reasons_given :: "window_event \<Rightarrow> bool" where
  "reasons_given ev \<longleftrightarrow> (case ev of W_Update a \<Rightarrow> ua_problem a \<noteq> Some [] \<and> ua_opened a \<noteq> Some [] | W_Lost \<Rightarrow> True)"

lemma DriverProblem_reason: "DriverProblem sdl sdl3 sdl2 wayland display \<noteq> Some []"
  by (auto simp: DriverProblem_def forced_driver_def split: option.splits if_splits)

lemma update_shown:
  assumes "placed_in_corner a"
  shows "let (appeared, s') = UpdateStatusWindow a s in
    (appeared \<longrightarrow> sw_light s' \<and> \<not> sw_light s) \<and> (sw_light s' \<longrightarrow> ua_corner a = wa_corner (sw_wanted s') \<and> ua_view a = wa_view (sw_wanted s') \<and> ua_alpha a = wa_alpha (sw_wanted s') \<and>
       ua_caption a = wa_caption (sw_wanted s') \<and> (\<not> sw_light s \<longrightarrow> appeared))"
  using assms
  by (auto simp: placed_in_corner_def UpdateStatusWindow_def Show_def Hide_def want_def Let_def not_less split: option.splits)

lemma attempt_kept:
  assumes "asks_to_show ev" "reasons_given ev" "sw_light s \<or> sw_unavailable s \<noteq> []"
  shows "sw_opens (window_event_step ev s) = sw_opens s \<and>
    (sw_light (window_event_step ev s) \<or> sw_unavailable (window_event_step ev s) \<noteq> [])"
  using assms
  by (cases ev) (auto simp: asks_to_show_def placed_in_corner_def reasons_given_def UpdateStatusWindow_def Hide_def Let_def not_less)

lemma attempts_kept:
  "list_all asks_to_show evs \<Longrightarrow> list_all reasons_given evs \<Longrightarrow> sw_light s \<or> sw_unavailable s \<noteq> [] \<Longrightarrow>
     sw_opens (fold window_event_step evs s) = sw_opens s"
  by (induction evs arbitrary: s) (auto dest: attempt_kept)

lemma attempt_first:
  assumes "reasons_given ev"
  shows "sw_opens (window_event_step ev s) \<le> sw_opens s + 1 \<and>
    (sw_opens (window_event_step ev s) = sw_opens s + 1 \<longrightarrow> sw_light (window_event_step ev s) \<or> sw_unavailable (window_event_step ev s) \<noteq> [])"
  using assms
  by (cases ev) (auto simp: reasons_given_def UpdateStatusWindow_def Show_def Hide_def Let_def split: option.splits)

lemma attempt_idle: "sw_opens (window_event_step ev s) = sw_opens s \<or> sw_opens (window_event_step ev s) = sw_opens s + 1"
  by (cases ev) (auto simp: UpdateStatusWindow_def Show_def Hide_def Let_def split: option.splits)

lemma corner_inside:
  assumes "0 \<le> inset" "0 < extent" "extent + 2 * inset \<le> rect_w m" "extent + 2 * inset \<le> rect_h m"
  shows "rect_x m + inset \<le> rect_x (corner_rect k m inset extent) \<and> rect_y m + inset \<le> rect_y (corner_rect k m inset extent) \<and>
    rect_x (corner_rect k m inset extent) + extent + inset \<le> rect_x m + rect_w m \<and>
    rect_y (corner_rect k m inset extent) + extent + inset \<le> rect_y m + rect_h m"
  using assms by (auto simp: corner_rect_def)

lemma caption_on_monitor:
  assumes "0 \<le> snd captionSize" "snd captionSize \<le> rect_h m"
  shows "rect_y m \<le> rect_y (caption_rect m light gap captionSize) \<and> rect_y (caption_rect m light gap captionSize) + snd captionSize \<le> rect_y m + rect_h m"
  using assms by (auto simp: caption_rect_def Let_def split: prod.splits)

section \<open>An example\<close>

definition display_example :: light_display where
  "display_example = \<lparr>ld_size = 2, ld_inset = 16, ld_argb = True, ld_swap = False,
     ld_phase = (\<lambda>_ _ _. \<lparr>systemLit = True, sessionLit = False, ph_ring = 0, ph_flash = 0\<rparr>), ld_raster = (\<lambda>_ _. [0xff00ff00, 0, 0, 0x80800000])\<rparr>"

definition wanted_example :: Wanted where
  "wanted_example = (sw_wanted status_window0)\<lparr>wa_corner := 4, wa_view := LightView0\<lparr>visible := True\<rparr>\<rparr>"

definition tick_example :: tick_env where
  "tick_example = \<lparr>tk_now = 5, tk_front = Some \<lparr>rect_x = 0, rect_y = 0, rect_w = 1920, rect_h = 1080\<rparr>, tk_composited = True, tk_hover = Some False\<rparr>"

definition args_example :: window_args where
  "args_example = \<lparr>ua_corner = 4, ua_view = LightView0\<lparr>visible := True\<rparr>, ua_alpha = 255, ua_flash = False, ua_caption = [], ua_now = 5,
     ua_problem = Some ''a Wayland session'', ua_opened = None\<rparr>"

section \<open>Properties\<close>



text \<open>
  C40. One attempt a game. As long as no call hides the light, it is opened at most once, however often it is asked for: an attempt that failed
  stands, and a light whose connection was lost is not opened again.
\<close>

theorem one_attempt_a_game:
  assumes "list_all asks_to_show evs" "list_all reasons_given evs"
  shows "sw_opens (fold window_event_step evs s) \<le> sw_opens s + 1"
  using assms
proof (induction evs arbitrary: s)
  case (Cons ev evs)
  let ?s = "window_event_step ev s"
  show ?case
  proof (cases "sw_opens ?s = sw_opens s")
    case True
    from Cons.IH [of ?s] Cons.prems have "sw_opens (fold window_event_step evs ?s) \<le> sw_opens ?s + 1" by simp
    with True show ?thesis by simp
  next
    case False
    then have "sw_opens ?s = sw_opens s + 1" using attempt_idle by blast
    with attempt_first [of ev s] attempts_kept [of evs ?s] Cons.prems show ?thesis by simp
  qed
qed simp

theorem one_attempt_a_game_witness:
  "sw_opens (fold window_event_step [W_Update args_example, W_Update args_example] status_window0) \<le> 1 \<and>
   StatusWindowUnavailable (fold window_event_step [W_Update args_example, W_Update args_example] status_window0) = Some ''a Wayland session''"
proof -
  have "list_all asks_to_show [W_Update args_example, W_Update args_example]" "list_all reasons_given [W_Update args_example, W_Update args_example]"
    by code_simp+
  from one_attempt_a_game [OF this, of status_window0] have "sw_opens (fold window_event_step [W_Update args_example, W_Update args_example] status_window0) \<le> 1"
    by (simp add: status_window0_def)
  moreover have "StatusWindowUnavailable (fold window_event_step [W_Update args_example, W_Update args_example] status_window0) = Some ''a Wayland session''"
    by code_simp
  ultimately show ?thesis by blast
qed

end
