(* ===== verification/Status_Window_Win.thy ===== *)
theory Status_Window_Win
  imports Status_Window "HOL-Library.Signed_Division"
begin

text \<open>
  \<^verbatim>\<open>src/StatusWindow_win.cpp\<close>, the status light's window on Windows, all on the API thread: its timer and the foreground hook come through that
  thread's message queue. What is on the screen is the layered window's last accepted update and whether the window is shown. The scale is that of the
  display's dpi, of which the drawing and the sizes are functions; what the Win32 calls answer is given with each call. The windows' classes and
  styles, and the text GDI draws in the caption, are not modelled.
\<close>

section \<open>The caption's pixels\<close>

text \<open>GDI's white on black gives the coverage; the corner is a quarter circle.\<close>

definition corner_offset :: "int \<Rightarrow> int \<Rightarrow> int \<Rightarrow> int" where
  "corner_offset corner extent x = (if x < corner then corner - 1 - x else if x \<ge> extent - corner then x - (extent - corner) else -1)"

definition caption_alpha :: "u32 \<Rightarrow> u32" where
  "caption_alpha coverage = coverage + 153 * (255 - coverage) div 255"

definition caption_pixel :: "int \<Rightarrow> int \<Rightarrow> int \<Rightarrow> int \<Rightarrow> int \<Rightarrow> u32 \<Rightarrow> u32" where
  "caption_pixel corner width height x y p =
     (let cx = corner_offset corner width x; cy = corner_offset corner height y in
      if cx \<ge> 0 \<and> cy \<ge> 0 \<and> (cx + 1) * (cx + 1) + (cy + 1) * (cy + 1) > corner * corner then 0
      else let coverage = ((p AND 0xFF) + (drop_bit 8 p AND 0xFF) + (drop_bit 16 p AND 0xFF)) div 3
           in push_bit 24 (caption_alpha coverage) OR push_bit 16 coverage OR push_bit 8 coverage OR coverage)"

text \<open>No colour exceeds its alpha, and the corners are the same on each side.\<close>

lemma caption_alpha_bounds: "c \<le> 255 \<Longrightarrow> c \<le> caption_alpha c \<and> caption_alpha c \<le> 255"
proof -
  assume c: "c \<le> 255"
  then have u: "unat c \<le> 255" by (simp add: word_le_nat_alt)
  have s: "unat (255 - c) = 255 - unat c" using c by (simp add: unat_sub)
  have times: "unat (153 * x) = 153 * unat x" if "unat x \<le> 255" for x :: u32 using that by (simp add: unat_word_ariths)
  have "unat (153 * (255 - c)) = 153 * (255 - unat c)" using times [of "255 - c"] s by simp
  then have d: "unat (153 * (255 - c) div 255) = 153 * (255 - unat c) div 255" unfolding unat_div by simp
  have le: "153 * (255 - unat c) div 255 \<le> 255 - unat c" by simp
  have "unat (caption_alpha c) = unat c + 153 * (255 - unat c) div 255"
    unfolding caption_alpha_def unat_word_ariths(1) d using u le by simp
  with u le show ?thesis by (simp add: word_le_nat_alt)
qed

lemma corner_offset_mirror: "2 * corner \<le> extent \<Longrightarrow> 0 \<le> x \<Longrightarrow> x < extent \<Longrightarrow> corner_offset corner extent (extent - 1 - x) = corner_offset corner extent x"
  by (auto simp: corner_offset_def)

section \<open>State\<close>

record layer =
  ly_pixels :: "u32 list"
  ly_at :: "int \<times> int"
  ly_alpha :: u8

text \<open>The file's variables; \<open>wn_layer\<close> and \<open>wn_visible\<close> are the screen's, and 0 is no window.\<close>

record win_window =
  wn_window :: bool
  wn_inFront :: bool
  wn_lastFront :: nat
  wn_shown :: LightView
  wn_shownSince :: time_point
  wn_corner :: int
  wn_alpha :: u8
  wn_flashing :: bool
  wn_flashAt :: time_point
  wn_drawn :: bool
  wn_drawnView :: LightView
  wn_drawnPhase :: LightPhase
  wn_drawnDpi :: nat
  wn_drawnAt :: "int \<times> int"
  wn_drawnAlpha :: u8
  wn_frameSize :: int
  wn_hover :: "int HoverTracker"
  wn_captionShown :: bool
  wn_captionSize :: "int \<times> int"
  wn_captionAt :: "int \<times> int"
  wn_raises :: nat
  wn_drawnCaption :: "(string \<times> nat \<times> u8) option"
  wn_layer :: "layer option"
  wn_visible :: bool

definition win_window0 :: win_window where
  "win_window0 = \<lparr>wn_window = False, wn_inFront = False, wn_lastFront = 0, wn_shown = LightView0, wn_shownSince = 0, wn_corner = 0, wn_alpha = 255,
     wn_flashing = False, wn_flashAt = 0, wn_drawn = False, wn_drawnView = LightView0,
     wn_drawnPhase = \<lparr>systemLit = False, sessionLit = False, ph_ring = 0, ph_flash = 0\<rparr>, wn_drawnDpi = 0, wn_drawnAt = (0, 0), wn_drawnAlpha = 0,
     wn_frameSize = 0, wn_hover = \<lparr>ht_have = False, ht_x = 0, ht_y = 0, ht_movedAt = 0\<rparr>, wn_captionShown = False, wn_captionSize = (0, 0),
     wn_captionAt = (0, 0), wn_raises = 0, wn_drawnCaption = None,
     wn_layer = None, wn_visible = False\<rparr>"

record win_drawing =
  wd_size :: "nat \<Rightarrow> int"
  wd_inset :: "nat \<Rightarrow> int"
  wd_gap :: "nat \<Rightarrow> int"
  wd_caption :: "string \<Rightarrow> nat \<Rightarrow> int \<times> int"
  wd_phase :: "LightView \<Rightarrow> int \<Rightarrow> int option \<Rightarrow> LightPhase"
  wd_raster :: "LightView \<Rightarrow> LightPhase \<Rightarrow> nat \<Rightarrow> u32 list"

text \<open>
  What a call finds: the time; the foreground window and ours (0 is none), the process of each window if it is told, and our process; the dpi of the
  playfield's window, where the system knows that call, and the screen's (0 if it is not told); the playfield's monitor; whether the screen takes an
  update; whether the windows' class can be registered and the light's window made; whether the caption's can and takes an update, and the caption's
  monitor; the cursor (\<open>None\<close> when it cannot be read) and whether it is hidden.
\<close>

record win_env =
  we_now :: time_point
  we_foreground :: nat
  we_light :: nat
  we_pid :: "nat \<Rightarrow> nat option"
  we_self :: nat
  we_windowDpi :: "nat option"
  we_screenDpi :: int
  we_monitor :: "Rect option"
  we_draws :: bool
  we_class :: bool
  we_shows :: bool
  we_captionMade :: bool
  we_captionDraws :: bool
  we_captionMonitor :: "Rect option"
  we_cursor :: "(int \<times> int) option"
  we_hidden :: bool

section \<open>Operations\<close>

definition PlayfieldWindow :: "win_env \<Rightarrow> nat option" where
  "PlayfieldWindow e =
     (let front = we_foreground e
      in if front = 0 \<or> front = we_light e \<or> we_pid e front = None \<or> we_pid e front \<noteq> Some (we_self e) then None else Some front)"

definition WindowDpi :: "win_env \<Rightarrow> nat" where
  "WindowDpi e =
     (case we_windowDpi e of
        Some dpi \<Rightarrow> if dpi \<noteq> 0 then dpi else if we_screenDpi e > 0 then nat (we_screenDpi e) else 96
      | None \<Rightarrow> if we_screenDpi e > 0 then nat (we_screenDpi e) else 96)"

lemma WindowDpi_positive: "0 < WindowDpi e"
  by (simp add: WindowDpi_def split: option.split)

definition win_phase :: "win_drawing \<Rightarrow> time_point \<Rightarrow> win_window \<Rightarrow> LightPhase" where
  "win_phase d now s = wd_phase d (wn_shown s) (now - wn_shownSince s)
     (if wn_flashing s \<and> \<not> now - wn_flashAt s \<ge> FLASH then Some (now - wn_flashAt s) else None)"

definition win_at :: "win_drawing \<Rightarrow> nat \<Rightarrow> Rect \<Rightarrow> int \<Rightarrow> int \<times> int" where
  "win_at d dpi area corner =
     (if corner = 1 \<or> corner = 3 then rect_x area + wd_inset d dpi else rect_x area + rect_w area - wd_inset d dpi - wd_size d dpi,
      if corner = 3 \<or> corner = 4 then rect_y area + rect_h area - wd_inset d dpi - wd_size d dpi else rect_y area + wd_inset d dpi)"

definition win_Draw :: "win_drawing \<Rightarrow> win_env \<Rightarrow> bool \<Rightarrow> win_window \<Rightarrow> win_window" where
  "win_Draw d e force s =
     (if \<not> wn_window s \<or> \<not> wn_inFront s then s
      else case (PlayfieldWindow e, we_monitor e) of
        (Some front, Some area) \<Rightarrow>
          let phase = win_phase d (we_now e) s;
              s = (if wn_flashing s \<and> we_now e - wn_flashAt s \<ge> FLASH then s\<lparr>wn_flashing := False\<rparr> else s);
              at = win_at d (WindowDpi e) area (wn_corner s)
          in if \<not> force \<and> wn_drawn s \<and> wn_shown s = wn_drawnView s \<and> phase = wn_drawnPhase s \<and> WindowDpi e = wn_drawnDpi s \<and> at = wn_drawnAt s \<and>
               wn_alpha s = wn_drawnAlpha s then s
             else let s = s\<lparr>wn_frameSize := wd_size d (WindowDpi e)\<rparr> in
               if we_draws e
               then s\<lparr>wn_layer := Some \<lparr>ly_pixels = wd_raster d (wn_shown s) phase (WindowDpi e), ly_at = at, ly_alpha = wn_alpha s\<rparr>,
                 wn_drawn := True, wn_drawnView := wn_shown s, wn_drawnPhase := phase, wn_drawnDpi := WindowDpi e, wn_drawnAt := at, wn_drawnAlpha := wn_alpha s\<rparr>
               else s
      | _ \<Rightarrow> s)"

definition win_HideCaption :: "win_window \<Rightarrow> win_window" where
  "win_HideCaption s = s\<lparr>wn_captionShown := False\<rparr>"

definition FollowForeground :: "win_drawing \<Rightarrow> win_env \<Rightarrow> win_window \<Rightarrow> win_window" where
  "FollowForeground d e s =
     (case PlayfieldWindow e of
        None \<Rightarrow> (win_HideCaption (if wn_inFront s then s\<lparr>wn_visible := False\<rparr> else s))\<lparr>wn_inFront := False, wn_lastFront := 0\<rparr>
      | Some front \<Rightarrow>
          let appearing = (\<not> wn_inFront s); s = s\<lparr>wn_inFront := True\<rparr>;
              s = (if appearing then win_Draw d e True s else s);
              s = (if appearing \<or> front \<noteq> wn_lastFront s then s\<lparr>wn_raises := wn_raises s + 1, wn_visible := (appearing \<or> wn_visible s)\<rparr> else s)
          in s\<lparr>wn_lastFront := front\<rparr>)"

definition OnForeground :: "win_drawing \<Rightarrow> win_env \<Rightarrow> win_window \<Rightarrow> win_window" where
  "OnForeground d e s = (if wn_window s then FollowForeground d e s else s)"

definition win_Hide :: "win_window \<Rightarrow> win_window" where
  "win_Hide s = s\<lparr>wn_window := False, wn_captionShown := False, wn_drawnCaption := None, wn_inFront := False, wn_lastFront := 0, wn_drawn := False,
     wn_flashing := False, wn_layer := None, wn_visible := False\<rparr>"

definition win_Show :: "win_env \<Rightarrow> win_window \<Rightarrow> bool \<times> win_window" where
  "win_Show e s = (if \<not> we_class e then (False, s) else if \<not> we_shows e then (False, win_Hide s) else (True, s\<lparr>wn_window := True\<rparr>))"

text \<open>
  The caption's place beside the light, from the light's corner and side. The caption is drawn again when its text, scale or opacity changes.
\<close>

definition win_caption_at :: "int \<times> int \<Rightarrow> int \<Rightarrow> Rect \<Rightarrow> int \<Rightarrow> int \<times> int \<Rightarrow> int \<times> int" where
  "win_caption_at at frame area gap extent =
     (let left = rect_x area; right = rect_x area + rect_w area; top = rect_y area; bottom = rect_y area + rect_h area;
          lightOnRight = (fst at + frame sdiv 2 > (left + right) sdiv 2);
          x = (if lightOnRight then fst at - gap - fst extent else fst at + frame + gap);
          lowest = max top (bottom - snd extent)
      in (x, max top (min (snd at + frame sdiv 2 - snd extent sdiv 2) lowest)))"

definition win_ShowCaption :: "win_drawing \<Rightarrow> win_env \<Rightarrow> string \<Rightarrow> win_window \<Rightarrow> win_window" where
  "win_ShowCaption d e caption s =
     (if \<not> we_captionMade e then s
      else let now = Some (caption, wn_drawnDpi s, wn_alpha s) in
        if wn_drawnCaption s \<noteq> now \<and> \<not> we_captionDraws e then s
        else let s = (if wn_drawnCaption s \<noteq> now then s\<lparr>wn_captionSize := wd_caption d caption (wn_drawnDpi s), wn_drawnCaption := now\<rparr> else s) in
          case we_captionMonitor e of
            None \<Rightarrow> s
          | Some area \<Rightarrow>
              s\<lparr>wn_captionAt := win_caption_at (wn_drawnAt s) (wn_frameSize s) area (wd_gap d (wn_drawnDpi s)) (wn_captionSize s), wn_captionShown := True\<rparr>)"

definition win_hover :: "win_drawing \<Rightarrow> win_env \<Rightarrow> string \<Rightarrow> win_window \<Rightarrow> win_window" where
  "win_hover d e caption s =
     (let (x, y) = (case we_cursor e of None \<Rightarrow> (0, 0) | Some c \<Rightarrow> c);
          over = (we_cursor e \<noteq> None \<and> wn_inFront s \<and> wn_drawn s \<and> x \<ge> fst (wn_drawnAt s) \<and> x < fst (wn_drawnAt s) + wn_frameSize s \<and>
            y \<ge> snd (wn_drawnAt s) \<and> y < snd (wn_drawnAt s) + wn_frameSize s);
          (shows_it, h) = Tick x y over (we_hidden e) (we_now e) (wn_hover s);
          s = s\<lparr>wn_hover := h\<rparr>
      in if shows_it \<and> caption \<noteq> [] then win_ShowCaption d e caption s else win_HideCaption s)"

definition win_UpdateStatusWindow :: "win_drawing \<Rightarrow> win_env \<Rightarrow> window_args \<Rightarrow> win_window \<Rightarrow> bool \<times> win_window" where
  "win_UpdateStatusWindow d e a s =
     (if ua_corner a < 1 \<or> ua_corner a > 4 \<or> \<not> visible (ua_view a)
      then (False, (if wn_window s then win_Hide s else s)\<lparr>wn_corner := 0\<rparr>)
      else let appeared = (\<not> wn_window s) in
        case (if appeared then win_Show e s else (True, s)) of (ok, s) \<Rightarrow>
        if \<not> ok then (False, s)
        else let s = (if appeared \<or> ua_view a \<noteq> wn_shown s then s\<lparr>wn_shown := ua_view a, wn_shownSince := we_now e\<rparr> else s);
                 s = (if ua_flash a then s\<lparr>wn_flashing := True, wn_flashAt := we_now e\<rparr> else s);
                 s = s\<lparr>wn_corner := ua_corner a, wn_alpha := ua_alpha a\<rparr>;
                 s = win_Draw d e False (FollowForeground d e s)
             in (appeared, win_hover d e (ua_caption a) s))"

text \<open>The messages of the light's window: its timer draws; it takes no mouse, no focus and no close. \<open>otherwise\<close> is what Windows answers to the rest.\<close>

datatype win_message = WM_TIMER nat | WM_NCHITTEST | WM_MOUSEACTIVATE | WM_CLOSE | WM_OTHER nat

definition HTTRANSPARENT :: int where "HTTRANSPARENT = -1"
definition MA_NOACTIVATE :: int where "MA_NOACTIVATE = 3"
definition TIMER_ID :: nat where "TIMER_ID = 1"

definition WindowProc :: "win_drawing \<Rightarrow> win_env \<Rightarrow> (nat \<Rightarrow> int) \<Rightarrow> win_message \<Rightarrow> win_window \<Rightarrow> int \<times> win_window" where
  "WindowProc d e otherwise m s =
     (case m of
        WM_TIMER i \<Rightarrow> (0, if i = TIMER_ID then win_Draw d e False s else s)
      | WM_NCHITTEST \<Rightarrow> (HTTRANSPARENT, s)
      | WM_MOUSEACTIVATE \<Rightarrow> (MA_NOACTIVATE, s)
      | WM_CLOSE \<Rightarrow> (0, s)
      | WM_OTHER n \<Rightarrow> (otherwise n, s))"

text \<open>Everything the light's window lives through.\<close>

datatype win_event = Win_Update win_env window_args | Win_Message win_env win_message | Win_Foreground win_env

fun win_step :: "win_drawing \<Rightarrow> (nat \<Rightarrow> int) \<Rightarrow> win_event \<Rightarrow> win_window \<Rightarrow> win_window" where
  "win_step d otherwise (Win_Update e a) s = snd (win_UpdateStatusWindow d e a s)"
| "win_step d otherwise (Win_Message e m) s = snd (WindowProc d e otherwise m s)"
| "win_step d otherwise (Win_Foreground e) s = OnForeground d e s"

inductive win_reach :: "win_drawing \<Rightarrow> win_window \<Rightarrow> bool" where
  wr_init: "win_reach d win_window0"
| wr_step: "win_reach d s \<Longrightarrow> win_reach d (win_step d otherwise ev s)"

section \<open>The invariant\<close>

text \<open>What was last drawn is what the screen holds, and the window shows only while VPX is in front.\<close>

definition win_inv :: "win_drawing \<Rightarrow> win_window \<Rightarrow> bool" where
  "win_inv d s \<longleftrightarrow> wn_visible s = wn_inFront s \<and> (wn_window s \<or> \<not> wn_inFront s) \<and> (wn_inFront s \<or> \<not> wn_captionShown s) \<and>
     (if wn_drawn s then wn_layer s = Some \<lparr>ly_pixels = wd_raster d (wn_drawnView s) (wn_drawnPhase s) (wn_drawnDpi s), ly_at = wn_drawnAt s,
       ly_alpha = wn_drawnAlpha s\<rparr> else True)"

text \<open>What \<open>Draw\<close> leaves alone.\<close>

definition win_frame :: "win_window \<Rightarrow> bool \<times> bool \<times> bool \<times> bool \<times> LightView \<times> time_point \<times> int \<times> u8" where
  "win_frame s = (wn_window s, wn_inFront s, wn_visible s, wn_captionShown s, wn_shown s, wn_shownSince s, wn_corner s, wn_alpha s)"

lemma Draw_frame: "win_frame (win_Draw d e force s) = win_frame s"
  by (simp add: win_Draw_def win_frame_def Let_def split: option.split)

lemma Draw_inv: "win_inv d s \<Longrightarrow> win_inv d (win_Draw d e force s)"
  by (simp add: win_Draw_def win_inv_def Let_def split: option.split)

lemma Draw_phase: "win_phase d (we_now e) (win_Draw d e force s) = win_phase d (we_now e) s"
  by (simp add: win_Draw_def win_phase_def Let_def split: option.split)

text \<open>Where the screen takes an update, what is on it after \<open>Draw\<close> is the light of this moment.\<close>

lemma Draw_draws:
  assumes "win_inv d s" "wn_window s" "wn_inFront s" "PlayfieldWindow e = Some front" "we_monitor e = Some area" "we_draws e"
  shows "wn_layer (win_Draw d e force s) =
    Some \<lparr>ly_pixels = wd_raster d (wn_shown s) (win_phase d (we_now e) s) (WindowDpi e), ly_at = win_at d (WindowDpi e) area (wn_corner s), ly_alpha = wn_alpha s\<rparr>"
  using assms by (auto simp: win_Draw_def win_inv_def Let_def win_phase_def)

lemma win_frame_fields:
  "win_frame s = win_frame s' \<Longrightarrow> wn_window s = wn_window s' \<and> wn_inFront s = wn_inFront s' \<and> wn_visible s = wn_visible s' \<and>
    wn_captionShown s = wn_captionShown s' \<and> wn_shown s = wn_shown s' \<and> wn_shownSince s = wn_shownSince s' \<and> wn_corner s = wn_corner s' \<and>
    wn_alpha s = wn_alpha s'"
  by (simp add: win_frame_def)

lemma Draw_fields [simp]:
  "wn_window (win_Draw d e force s) = wn_window s" "wn_inFront (win_Draw d e force s) = wn_inFront s"
  "wn_visible (win_Draw d e force s) = wn_visible s" "wn_captionShown (win_Draw d e force s) = wn_captionShown s"
  "wn_shown (win_Draw d e force s) = wn_shown s" "wn_corner (win_Draw d e force s) = wn_corner s" "wn_alpha (win_Draw d e force s) = wn_alpha s"
  using win_frame_fields [OF Draw_frame, of d e force s] by simp_all

text \<open>The invariant without the caption and the window, which the steps between restore, and what each step keeps of it.\<close>

lemma Follow_inv:
  assumes "win_inv d s" "wn_window s"
  shows "win_inv d (FollowForeground d e s) \<and> wn_window (FollowForeground d e s) \<and> (wn_inFront (FollowForeground d e s) \<longleftrightarrow> PlayfieldWindow e \<noteq> None)"
proof (cases "PlayfieldWindow e")
  case None
  with assms show ?thesis by (simp add: FollowForeground_def win_HideCaption_def win_inv_def)
next
  case (Some front)
  have raised: "wn_layer (win_Draw d e True (s\<lparr>wn_inFront := True\<rparr>)) = Some \<lparr>ly_pixels = wd_raster d (wn_drawnView (win_Draw d e True (s\<lparr>wn_inFront := True\<rparr>)))
      (wn_drawnPhase (win_Draw d e True (s\<lparr>wn_inFront := True\<rparr>))) (wn_drawnDpi (win_Draw d e True (s\<lparr>wn_inFront := True\<rparr>))),
      ly_at = wn_drawnAt (win_Draw d e True (s\<lparr>wn_inFront := True\<rparr>)), ly_alpha = wn_drawnAlpha (win_Draw d e True (s\<lparr>wn_inFront := True\<rparr>))\<rparr>"
    if "wn_drawn (win_Draw d e True (s\<lparr>wn_inFront := True\<rparr>))"
    using that assms by (simp add: win_Draw_def win_inv_def Let_def split: option.splits if_splits)
  show ?thesis
  proof (cases "wn_inFront s")
    case True
    with Some assms show ?thesis by (simp add: FollowForeground_def win_inv_def Let_def)
  next
    case False
    with Some assms raised show ?thesis by (simp add: FollowForeground_def win_inv_def Let_def)
  qed
qed

lemma Follow_fields:
  "wn_shown (FollowForeground d e s) = wn_shown s \<and> wn_corner (FollowForeground d e s) = wn_corner s \<and> wn_alpha (FollowForeground d e s) = wn_alpha s"
  by (simp add: FollowForeground_def win_HideCaption_def Let_def split: option.split)

text \<open>The caption is shown only over a light in front, and touches nothing of the light.\<close>

definition light_of :: "win_window \<Rightarrow> win_window" where
  "light_of s = s\<lparr>wn_hover := \<lparr>ht_have = False, ht_x = 0, ht_y = 0, ht_movedAt = 0\<rparr>, wn_captionShown := False, wn_captionSize := (0, 0),
     wn_captionAt := (0, 0), wn_drawnCaption := None\<rparr>"

lemma hover_light: "light_of (win_hover d e c s) = light_of s"
  by (simp add: win_hover_def win_ShowCaption_def win_HideCaption_def light_of_def Let_def split: prod.split option.split)

lemma hover_caption: "\<not> wn_inFront s \<Longrightarrow> \<not> wn_captionShown (win_hover d e c s)"
  by (simp add: win_hover_def win_HideCaption_def Tick_def Let_def split: prod.split)

lemma light_of_fields:
  assumes "light_of s' = light_of s"
  shows "wn_window s' = wn_window s \<and> wn_inFront s' = wn_inFront s \<and> wn_visible s' = wn_visible s \<and> wn_layer s' = wn_layer s \<and> wn_drawn s' = wn_drawn s \<and>
    wn_drawnView s' = wn_drawnView s \<and> wn_drawnPhase s' = wn_drawnPhase s \<and> wn_drawnDpi s' = wn_drawnDpi s \<and> wn_drawnAt s' = wn_drawnAt s \<and>
    wn_drawnAlpha s' = wn_drawnAlpha s \<and> wn_shown s' = wn_shown s \<and> wn_shownSince s' = wn_shownSince s \<and> wn_flashing s' = wn_flashing s \<and>
    wn_flashAt s' = wn_flashAt s"
  using assms by (cases s, cases s') (simp add: light_of_def)

lemma hover_inv: "win_inv d s \<Longrightarrow> win_inv d (win_hover d e c s)"
  using light_of_fields [OF hover_light, of d e c s] hover_caption [of s d e c] by (auto simp: win_inv_def)

lemma Hide_inv: "win_inv d (win_Hide s)"
  by (simp add: win_inv_def win_Hide_def)

text \<open>What an update that shows the light hands to \<open>FollowForeground\<close>.\<close>

definition win_asked :: "win_env \<Rightarrow> window_args \<Rightarrow> win_window \<Rightarrow> win_window" where
  "win_asked e a s =
     (let s' = (if wn_window s then s else s\<lparr>wn_window := True\<rparr>);
          s' = (if \<not> wn_window s \<or> ua_view a \<noteq> wn_shown s' then s'\<lparr>wn_shown := ua_view a, wn_shownSince := we_now e\<rparr> else s');
          s' = (if ua_flash a then s'\<lparr>wn_flashing := True, wn_flashAt := we_now e\<rparr> else s')
      in s'\<lparr>wn_corner := ua_corner a, wn_alpha := ua_alpha a\<rparr>)"

lemma asked_fields:
  "wn_window (win_asked e a s) \<and> wn_shown (win_asked e a s) = ua_view a \<and> wn_corner (win_asked e a s) = ua_corner a \<and> wn_alpha (win_asked e a s) = ua_alpha a"
  by (simp add: win_asked_def Let_def)

lemma asked_inv: "win_inv d s \<Longrightarrow> win_inv d (win_asked e a s)"
  by (simp add: win_asked_def win_inv_def Let_def)

lemma Update_cases:
  obtains (hidden) "win_UpdateStatusWindow d e a s = (False, (if wn_window s then win_Hide s else s)\<lparr>wn_corner := 0\<rparr>)"
      "ua_corner a < 1 \<or> ua_corner a > 4 \<or> \<not> visible (ua_view a)"
    | (failed) "win_UpdateStatusWindow d e a s = (False, if we_class e then win_Hide s else s)" "\<not> wn_window s" "\<not> (we_class e \<and> we_shows e)"
    | (asked) "win_UpdateStatusWindow d e a s = (\<not> wn_window s,
        win_hover d e (ua_caption a) (win_Draw d e False (FollowForeground d e (win_asked e a s))))"
proof (cases "ua_corner a < 1 \<or> ua_corner a > 4 \<or> \<not> visible (ua_view a)")
  case True
  then show thesis by (intro hidden) (simp_all add: win_UpdateStatusWindow_def)
next
  case False
  note on = this
  show thesis
  proof (cases "wn_window s \<or> we_class e \<and> we_shows e")
    case True
    show thesis
    proof (cases "wn_window s")
      case True
      with on show thesis by (intro asked) (simp add: win_UpdateStatusWindow_def win_asked_def Let_def)
    next
      case False
      with on True show thesis by (intro asked) (simp add: win_UpdateStatusWindow_def win_Show_def win_asked_def Let_def)
    qed
  next
    case False
    with on show thesis by (intro failed) (auto simp: win_UpdateStatusWindow_def win_Show_def Let_def)
  qed
qed

lemma asked_result:
  assumes "win_inv d s" "win_UpdateStatusWindow d e a s = (appeared, s')"
    "s' = win_hover d e (ua_caption a) (win_Draw d e False (FollowForeground d e (win_asked e a s)))"
  shows "win_inv d s' \<and> wn_window s' \<and> (wn_visible s' \<longleftrightarrow> PlayfieldWindow e \<noteq> None) \<and>
    (PlayfieldWindow e \<noteq> None \<longrightarrow> we_draws e \<longrightarrow> (\<forall>area. we_monitor e = Some area \<longrightarrow> wn_layer s' = Some \<lparr>ly_pixels = wd_raster d (ua_view a) (win_phase d (we_now e) s') (WindowDpi e),
      ly_at = win_at d (WindowDpi e) area (ua_corner a), ly_alpha = ua_alpha a\<rparr>))"
proof -
  let ?q = "win_asked e a s"
  let ?f = "FollowForeground d e ?q"
  let ?w = "win_Draw d e False ?f"
  have f: "win_inv d ?f" "wn_window ?f" "wn_inFront ?f \<longleftrightarrow> PlayfieldWindow e \<noteq> None"
    using Follow_inv [OF asked_inv [OF assms(1)]] asked_fields by blast+
  have w: "win_inv d ?w" using f(1) by (rule Draw_inv)
  note l = light_of_fields [OF hover_light, of d e "ua_caption a" ?w, folded assms(3)]
  have "win_phase d (we_now e) s' = win_phase d (we_now e) ?w" unfolding win_phase_def using l by simp
  then have p: "win_phase d (we_now e) s' = win_phase d (we_now e) ?f" unfolding Draw_phase .
  have "wn_layer s' = Some \<lparr>ly_pixels = wd_raster d (ua_view a) (win_phase d (we_now e) s') (WindowDpi e), ly_at = win_at d (WindowDpi e) area (ua_corner a),
      ly_alpha = ua_alpha a\<rparr>" if "PlayfieldWindow e \<noteq> None" "we_draws e" "we_monitor e = Some area" for area
    using that Draw_draws [OF f(1,2), of e _ area False] f(3) l p Follow_fields [of d e ?q] asked_fields [of e a s] by auto
  moreover have inv: "win_inv d s'" unfolding assms(3) by (rule hover_inv [OF w])
  moreover have "wn_visible s' \<longleftrightarrow> PlayfieldWindow e \<noteq> None" using inv l f(3) unfolding win_inv_def by auto
  ultimately show ?thesis using l f(2) by auto
qed

lemma win_reach_inv: "win_reach d s \<Longrightarrow> win_inv d s"
proof (induction rule: win_reach.induct)
  case wr_init
  show ?case by (simp add: win_inv_def win_window0_def)
next
  case (wr_step d s otherwise ev)
  show ?case
  proof (cases ev)
    case (Win_Update e a)
    show ?thesis
    proof (cases rule: Update_cases [of d e a s])
      case hidden
      with wr_step.IH Win_Update show ?thesis by (auto simp: win_inv_def win_Hide_def)
    next
      case failed
      with wr_step.IH Win_Update Hide_inv show ?thesis by simp
    next
      case asked
      with asked_result [OF wr_step.IH asked] Win_Update show ?thesis by simp
    qed
  next
    case (Win_Message e m)
    with wr_step.IH Draw_inv show ?thesis by (simp add: WindowProc_def split: win_message.split)
  next
    case (Win_Foreground e)
    with wr_step.IH Follow_inv show ?thesis by (simp add: OnForeground_def)
  qed
qed

text \<open>The rules of place are those of the X11 window.\<close>

lemma win_at_corner:
  "win_at d dpi area corner = (rect_x (corner_rect corner area (wd_inset d dpi) (wd_size d dpi)), rect_y (corner_rect corner area (wd_inset d dpi) (wd_size d dpi)))"
  by (simp add: win_at_def corner_rect_def)

lemma win_caption_on_monitor:
  assumes "0 \<le> snd extent" "snd extent \<le> rect_h area"
  shows "rect_y area \<le> snd (win_caption_at at frame area gap extent) \<and> snd (win_caption_at at frame area gap extent) + snd extent \<le> rect_y area + rect_h area"
  using assms by (simp add: win_caption_at_def Let_def)

section \<open>An example\<close>

definition drawing_example :: win_drawing where
  "drawing_example = \<lparr>wd_size = (\<lambda>dpi. int dpi div 6), wd_inset = (\<lambda>dpi. int dpi div 6), wd_gap = (\<lambda>dpi. 8), wd_caption = (\<lambda>c dpi. (60, 20)),
     wd_phase = (\<lambda>v t f. \<lparr>systemLit = True, sessionLit = True, ph_ring = 0, ph_flash = (if f = None then 0 else 1)\<rparr>),
     wd_raster = (\<lambda>v p dpi. if ph_flash p = 0 then [0] else [0xffffffff])\<rparr>"

definition env_example :: win_env where
  "env_example = \<lparr>we_now = 7, we_foreground = 5, we_light = 6, we_pid = (\<lambda>w. Some 400), we_self = 400, we_windowDpi = Some 96, we_screenDpi = 0, we_monitor = Some \<lparr>rect_x = 0, rect_y = 0, rect_w = 1920, rect_h = 1080\<rparr>, we_draws = True,
     we_class = True, we_shows = True, we_captionMade = True, we_captionDraws = True, we_captionMonitor = None, we_cursor = None, we_hidden = False\<rparr>"

section \<open>Property\<close>

text \<open>
  C39. On Windows the light on the screen is the one asked for. After any history of updates and changes of the window in front, and whatever messages its window got, an update
  that finds the light's window or can make it leaves it shown exactly while VPX is in front, with no caption otherwise; and where the screen takes the
  drawing it holds the image of the asked view at this moment and this display's scale, in the asked corner of VPX's monitor, at the asked opacity.
\<close>

theorem layer_shows_wanted:
  assumes "win_reach d s" "win_UpdateStatusWindow d e a s = (appeared, s')" "placed_in_corner a"
    "wn_window s \<or> we_class e \<and> we_shows e" "we_draws e" "we_monitor e = Some area"
  shows "wn_window s' \<and> (if PlayfieldWindow e = None then \<not> wn_visible s' \<and> \<not> wn_captionShown s'
    else wn_visible s' \<and> wn_layer s' = Some \<lparr>ly_pixels = wd_raster d (ua_view a) (win_phase d (we_now e) s') (WindowDpi e),
      ly_at = (rect_x (corner_rect (ua_corner a) area (wd_inset d (WindowDpi e)) (wd_size d (WindowDpi e))),
        rect_y (corner_rect (ua_corner a) area (wd_inset d (WindowDpi e)) (wd_size d (WindowDpi e)))), ly_alpha = ua_alpha a\<rparr>)"
proof (cases rule: Update_cases [of d e a s])
  case hidden
  with assms(3) show ?thesis by (auto simp: placed_in_corner_def)
next
  case failed
  with assms(4) show ?thesis by blast
next
  case asked
  then have "s' = win_hover d e (ua_caption a) (win_Draw d e False (FollowForeground d e (win_asked e a s)))" using assms(2) by simp
  from asked_result [OF win_reach_inv [OF assms(1)] assms(2) this] assms(5,6) show ?thesis
    by (auto simp: win_inv_def win_at_corner)
qed

theorem layer_shows_wanted_witness:
  "wn_layer (snd (win_UpdateStatusWindow drawing_example env_example args_example win_window0)) =
     Some \<lparr>ly_pixels = [0], ly_at = (1888, 1048), ly_alpha = 255\<rparr>"
proof -
  obtain appeared s' where u: "win_UpdateStatusWindow drawing_example env_example args_example win_window0 = (appeared, s')" by fastforce
  have "placed_in_corner args_example" "we_draws env_example"
    "wn_window win_window0 \<or> we_class env_example \<and> we_shows env_example"
    "we_monitor env_example = Some \<lparr>rect_x = 0, rect_y = 0, rect_w = 1920, rect_h = 1080\<rparr>" by code_simp+
  moreover have "\<not> wn_flashing (snd (win_UpdateStatusWindow drawing_example env_example args_example win_window0))" by code_simp
  ultimately show ?thesis using layer_shows_wanted [OF wr_init u] u
    by (simp add: env_example_def drawing_example_def args_example_def corner_rect_def win_phase_def PlayfieldWindow_def WindowDpi_def)
qed

end
