(* ===== verification/Picture_Names.thy ===== *)
theory Picture_Names
  imports Player_Table
begin

text \<open>
  \<^verbatim>\<open>src/ReadBack.cpp\<close>, the names of the picture copies: how a sweep reads the process that made a copy off its name, whether that process is
  alive, and the default directory (POSIX). \<^verbatim>\<open>sscanf\<close> reads a number as glibc does: past white space, with a sign, for base 16 with a \<open>0x\<close>, at most
  \<open>width\<close> characters, and kept in the range of 64 bits. What \<^verbatim>\<open>kill\<close> says of a process is an argument: \<open>gone\<close> where it is \<^verbatim>\<open>ESRCH\<close>.
\<close>

section \<open>Reading a name\<close>

definition scan_space :: "char \<Rightarrow> bool" where
  "scan_space c \<longleftrightarrow> of_char c = (32 :: nat) \<or> 9 \<le> (of_char c :: nat) \<and> (of_char c :: nat) \<le> 13"

definition digit_value :: "nat \<Rightarrow> char \<Rightarrow> nat option" where
  "digit_value base c =
     (let n = (of_char c :: nat);
          v = (if 48 \<le> n \<and> n \<le> 57 then n - 48 else if 97 \<le> n \<and> n \<le> 102 then n - 87 else if 65 \<le> n \<and> n \<le> 70 then n - 55 else base)
      in if v < base then Some v else None)"

fun scan_digits :: "nat \<Rightarrow> nat \<Rightarrow> nat \<Rightarrow> string \<Rightarrow> nat \<times> nat \<times> string" where
  "scan_digits base (Suc w) v (c # cs) =
     (case digit_value base c of None \<Rightarrow> (0, v, c # cs) | Some d \<Rightarrow> (case scan_digits base w (v * base + d) cs of (k, v, rest) \<Rightarrow> (Suc k, v, rest)))"
| "scan_digits base w v cs = (0, v, cs)"

definition scan_number :: "nat \<Rightarrow> nat option \<Rightarrow> string \<Rightarrow> (nat \<times> string) option" where
  "scan_number base width cs =
     (let w = (case width of None \<Rightarrow> length cs | Some w \<Rightarrow> w);
          cs = dropWhile scan_space cs;
          sign = (w > 0 \<and> cs \<noteq> [] \<and> hd cs \<in> {CHR ''-'', CHR ''+''});
          neg = (sign \<and> hd cs = CHR ''-'');
          (w, cs) = (if sign then (w - 1, tl cs) else (w, cs));
          hex = (base = 16 \<and> 2 \<le> w \<and> take 1 cs = ''0'' \<and> (take 1 (tl cs) = ''x'' \<or> take 1 (tl cs) = ''X''));
          (w, cs) = (if hex then (w - 2, drop 2 cs) else (w, cs));
          (k, v, rest) = scan_digits base w 0 cs
      in if k = 0 \<and> \<not> hex then None
         else Some (if v \<ge> 2 ^ 64 then 2 ^ 64 - 1 else if neg \<and> v \<noteq> 0 then 2 ^ 64 - v else v, rest))"

definition scan_literal :: "string \<Rightarrow> string \<Rightarrow> string option" where
  "scan_literal lit cs = (if take (length lit) cs = lit then Some (drop (length lit) cs) else None)"

text \<open>The process a name starts with, when the whole name reads as a copy's.\<close>

definition ParseCopyName :: "string \<Rightarrow> nat option" where
  "ParseCopyName name =
     Option.bind (scan_number 10 None name) (\<lambda>(pid, cs).
     Option.bind (scan_literal ''-'' cs) (\<lambda>cs.
     Option.bind (scan_number 16 (Some 16) cs) (\<lambda>(tag, cs).
     Option.bind (scan_literal ''-'' cs) (\<lambda>cs.
     Option.bind (scan_number 10 None cs) (\<lambda>(player, cs).
     Option.bind (scan_literal ''-'' cs) (\<lambda>cs.
     Option.bind (scan_number 10 None cs) (\<lambda>(n, cs).
     Option.bind (scan_literal ''.jpg'' cs) (\<lambda>cs. if cs = [] then Some pid else None))))))))"

definition ProcessAlive :: "(nat \<Rightarrow> bool) \<Rightarrow> nat \<Rightarrow> bool" where
  "ProcessAlive gone pid \<longleftrightarrow> pid = 0 \<or> pid > 0x7FFFFFFF \<or> \<not> gone pid"

text \<open>An entry of the directory as the sweep sees it: its name, whether it is a regular file, and whether removing it fails.\<close>

definition read_entry :: "(nat \<Rightarrow> bool) \<Rightarrow> string \<times> bool \<times> bool \<Rightarrow> dir_entry" where
  "read_entry gone x =
     (case x of (name, regular, fails) \<Rightarrow>
        \<lparr>de_name = name, de_regular = regular, de_pid = ParseCopyName name,
         de_alive = (case ParseCopyName name of None \<Rightarrow> False | Some pid \<Rightarrow> ProcessAlive gone pid), de_fails = fails\<rparr>)"

section \<open>The default directory\<close>

definition DefaultPictureDirectory :: "string option \<Rightarrow> string option \<Rightarrow> string option \<Rightarrow> string option \<Rightarrow> string" where
  "DefaultPictureDirectory runtime cache home pw_dir =
     (let env = (\<lambda>v. case v of None \<Rightarrow> [] | Some s \<Rightarrow> s);
          base = env runtime;
          base = (if base = [] then env cache else base);
          base = (if base = [] then
                    let home = env home;
                        home = (if home = [] then env pw_dir else home)
                    in if home \<noteq> [] then path_join home ''.cache'' else base
                  else base)
      in if base = [] then [] else path_join (path_join base ''scorbit-vpx'') ''pictures'')"

section \<open>Reading a copy's name back\<close>

lemma digits_value:
  "list_all (\<lambda>c. digit_value 10 c \<noteq> None) (digits n) \<and> foldl (\<lambda>v c. v * 10 + the (digit_value 10 c)) 0 (digits n) = n"
proof (induction n rule: digits.induct)
  case (1 n)
  have d: "digit_value 10 (char_of (48 + m)) = Some m" if "m < 10" for m :: nat
    using that by (simp add: digit_value_def)
  show ?case
  proof (cases "n < 10")
    case True
    then show ?thesis by (simp add: digits_small d)
  next
    case False
    with "1.IH" show ?thesis by (simp add: digits_large d)
  qed
qed

lemma scan_digits_all:
  assumes "list_all (\<lambda>c. digit_value base c \<noteq> None) ds" "rest = [] \<or> digit_value base (hd rest) = None \<or> w = length ds" "length ds \<le> w"
  shows "scan_digits base w v (ds @ rest) = (length ds, foldl (\<lambda>v c. v * base + the (digit_value base c)) v ds, rest)"
  using assms
proof (induction ds arbitrary: w v)
  case Nil
  then show ?case by (cases w; cases rest) auto
next
  case (Cons c ds)
  then obtain w' where "w = Suc w'" by (cases w) auto
  with Cons show ?case by auto
qed

lemma hex_value: "d < 16 \<Longrightarrow> digit_value 16 (hex_digit d) = Some d"
  by (auto simp: digit_value_def hex_digit_def)

lemma hex_pad_value:
  "list_all (\<lambda>c. digit_value 16 c \<noteq> None) (hex_pad w n) \<and> foldl (\<lambda>v c. v * 16 + the (digit_value 16 c)) 0 (hex_pad w n) = n mod 16 ^ w"
proof (induction w arbitrary: n)
  case (Suc w)
  have "n div 16 mod 16 ^ w * 16 + n mod 16 = n mod 16 ^ Suc w" by (simp add: mod_mult2_eq mult.commute)
  with Suc [of "n div 16"] show ?case by (simp add: hex_value)
qed simp

text \<open>A number that starts with a digit is read without white space, sign or prefix.\<close>

lemma digit_plain:
  assumes "digit_value base c \<noteq> None"
  shows "\<not> scan_space c \<and> c \<noteq> CHR ''-'' \<and> c \<noteq> CHR ''+'' \<and> c \<noteq> CHR ''x'' \<and> c \<noteq> CHR ''X'' \<or> base > 16"
  using assms by (auto simp: digit_value_def scan_space_def Let_def split: if_splits)

lemma scan_number_plain:
  assumes "list_all (\<lambda>c. digit_value base c \<noteq> None) ds" "ds \<noteq> []" "rest \<noteq> []" "digit_value base (hd rest) = None" "base \<le> 16"
    "hd rest \<noteq> CHR ''x''" "hd rest \<noteq> CHR ''X''" "case width of None \<Rightarrow> True | Some w \<Rightarrow> length ds \<le> w"
    "foldl (\<lambda>v c. v * base + the (digit_value base c)) 0 ds < 2 ^ 64"
  shows "scan_number base width (ds @ rest) = Some (foldl (\<lambda>v c. v * base + the (digit_value base c)) 0 ds, rest)"
proof -
  obtain c cs where ds: "ds = c # cs" using assms(2) by (cases ds) auto
  have all: "\<not> scan_space x \<and> x \<noteq> CHR ''-'' \<and> x \<noteq> CHR ''+'' \<and> x \<noteq> CHR ''x'' \<and> x \<noteq> CHR ''X''" if "x \<in> set ds" for x
    using that assms(1,5) digit_plain [of base x] by (auto simp: list_all_iff)
  have nospace: "dropWhile scan_space (ds @ rest) = ds @ rest" using all [of c] by (simp add: ds)
  have nosign: "\<not> (hd (ds @ rest) = CHR ''-'' \<or> hd (ds @ rest) = CHR ''+'')" using all [of c] by (simp add: ds)
  have "take 1 (tl (ds @ rest)) \<noteq> ''x'' \<and> take 1 (tl (ds @ rest)) \<noteq> ''X''"
    using all assms(3,6,7) by (cases cs; cases rest) (auto simp: ds)
  then have nohex: "\<not> (take 1 (tl (ds @ rest)) = ''x'' \<or> take 1 (tl (ds @ rest)) = ''X'')" by blast
  let ?w = "case width of None \<Rightarrow> length (ds @ rest) | Some w \<Rightarrow> w"
  have "scan_digits base ?w 0 (ds @ rest) = (length ds, foldl (\<lambda>v c. v * base + the (digit_value base c)) 0 ds, rest)"
    using assms(1,4,8) by (intro scan_digits_all) (auto split: option.splits)
  with nospace nosign nohex assms(2,9) show ?thesis by (simp add: scan_number_def Let_def)
qed

lemma scan_digits_number: "n < 2 ^ 64 \<Longrightarrow> rest \<noteq> [] \<Longrightarrow> hd rest = CHR ''-'' \<or> hd rest = CHR ''.'' \<Longrightarrow>
    scan_number 10 None (digits n @ rest) = Some (n, rest)"
  using scan_number_plain [of 10 "digits n" rest None] digits_value [of n] by (auto simp: digit_value_def)

lemma scan_hex_pad: "rest \<noteq> [] \<Longrightarrow> hd rest = CHR ''-'' \<Longrightarrow> scan_number 16 (Some 16) (hex_pad 16 (unat (tag :: u64)) @ rest) = Some (unat tag, rest)"
proof -
  assume rest: "rest \<noteq> []" "hd rest = CHR ''-''"
  have small: "unat tag < 16 ^ 16" using unsigned_less [of tag, where 'a = nat] by simp
  have "hex_pad 16 (unat tag) \<noteq> []" using length_hex_pad [of 16 "unat tag"] by (metis list.size(3) zero_neq_numeral)
  then show ?thesis
    using scan_number_plain [of 16 "hex_pad 16 (unat tag)" rest "Some 16"] hex_pad_value [of 16 "unat tag"] small rest
    by (simp add: digit_value_def)
qed

lemma ParseCopyName_copy:
  assumes "pid < 2 ^ 32" "unat k \<le> 9"
  shows "ParseCopyName (copy_name pid tag k n) = Some pid"
proof -
  have k: "[char_of (48 + unat k)] = digits (unat k)" using assms(2) by (simp add: digits_small)
  have n: "unat n < 2 ^ 64" using unsigned_less [of n, where 'a = nat] by simp
  show ?thesis
    unfolding copy_name_full [OF assms] k ParseCopyName_def
    using assms n by (simp add: scan_digits_number scan_hex_pad scan_literal_def)
qed

section \<open>What a sweep removes\<close>

definition left_behind :: "nat \<Rightarrow> dir_entry \<Rightarrow> bool" where
  "left_behind pid e \<longleftrightarrow> de_regular e \<and> de_pid e \<noteq> None \<and> de_pid e \<noteq> Some pid \<and> \<not> de_alive e"

lemma sweep_files:
  "fs_files (snd (sweep_entries dir pid es failed fs)) q =
    (if list_ex (\<lambda>e. left_behind pid e \<and> \<not> de_fails e \<and> q = path_join dir (de_name e)) es then None else fs_files fs q)"
  by (induction dir pid es failed fs rule: sweep_entries.induct) (auto simp: left_behind_def fs_remove_def)

lemma sweep_dir: "pt_dir (fst (SweepOnce env (t, fs))) = pt_dir t"
  by (simp add: SweepOnce_def Let_def split: option.split prod.split)

lemma SweepOnce_files:
  assumes "\<not> pt_swept t"
  shows "fs_files (snd (SweepOnce env (t, fs))) q =
    (if list_ex (\<lambda>e. left_behind (env_pid env) e \<and> \<not> de_fails e \<and> q = path_join (pt_dir t) (de_name e)) (env_entries env) then None else fs_files fs q)"
proof -
  obtain failed fs' where s: "sweep_entries (pt_dir t) (env_pid env) (env_entries env) False fs = (failed, fs')" by fastforce
  have "snd (SweepOnce env (t, fs)) = fs'" using assms s by (simp add: SweepOnce_def Let_def split: option.split)
  with sweep_files [of "pt_dir t" "env_pid env" "env_entries env" False fs q] s show ?thesis by simp
qed

lemma listed_entry:
  assumes "env_entries env = map (read_entry gone) listing"
  shows "list_ex (\<lambda>e. left_behind (env_pid env) e \<and> \<not> de_fails e \<and> path_join dir name = path_join dir (de_name e)) (env_entries env) \<longleftrightarrow>
    (name, True, False) \<in> set listing \<and> (\<exists>pid. ParseCopyName name = Some pid \<and> pid \<noteq> env_pid env \<and> \<not> ProcessAlive gone pid)"
proof -
  have j: "path_join dir name = path_join dir x \<longleftrightarrow> name = x" for x using path_join_inj by blast
  have q: "left_behind (env_pid env) (read_entry gone x) \<and> \<not> de_fails (read_entry gone x) \<and> name = de_name (read_entry gone x) \<longleftrightarrow>
      x = (name, True, False) \<and> (\<exists>pid. ParseCopyName name = Some pid \<and> pid \<noteq> env_pid env \<and> \<not> ProcessAlive gone pid)" for x
    by (cases x; cases "ParseCopyName (fst x)") (auto simp: left_behind_def read_entry_def)
  show ?thesis unfolding assms j list_ex_iff set_map bex_simps(7) q by blast
qed

section \<open>Property\<close>

text \<open>
  C38. A sweep takes the copies of ended processes and nothing else. It removes exactly the listed regular files whose names read as the copy of another
  process that is gone; every name the plugin gives a copy reads back as its process, so no copy of this process or of a living one is removed, and one of
  an ended process is, unless the system refuses.
\<close>

theorem sweep_spares_living:
  assumes "\<not> pt_swept t" "env_entries env = map (read_entry gone) listing" "SweepOnce env (t, fs) = (t', fs')"
    "owner < 2 ^ 32" "unat k \<le> 9" "copy = copy_name owner tag k n"
  shows "fs_files fs' (path_join (pt_dir t) name) =
      (if (name, True, False) \<in> set listing \<and> (\<exists>pid. ParseCopyName name = Some pid \<and> pid \<noteq> env_pid env \<and> \<not> ProcessAlive gone pid) then None
       else fs_files fs (path_join (pt_dir t) name)) \<and>
    ParseCopyName copy = Some owner \<and>
    fs_files fs' (path_join (pt_dir t) copy) =
      (if (copy, True, False) \<in> set listing \<and> owner \<noteq> env_pid env \<and> 0 < owner \<and> owner \<le> 0x7FFFFFFF \<and> gone owner then None
       else fs_files fs (path_join (pt_dir t) copy))"
proof -
  have r: "fs_files fs' (path_join (pt_dir t) x) =
      (if (x, True, False) \<in> set listing \<and> (\<exists>pid. ParseCopyName x = Some pid \<and> pid \<noteq> env_pid env \<and> \<not> ProcessAlive gone pid) then None
       else fs_files fs (path_join (pt_dir t) x))" for x
    using SweepOnce_files [OF assms(1), of env fs "path_join (pt_dir t) x"] unfolding assms(3) snd_conv listed_entry [OF assms(2)] .
  have p: "ParseCopyName copy = Some owner" unfolding assms(6) by (rule ParseCopyName_copy [OF assms(4,5)])
  from r [of copy] have c: "fs_files fs' (path_join (pt_dir t) copy) =
      (if (copy, True, False) \<in> set listing \<and> owner \<noteq> env_pid env \<and> 0 < owner \<and> owner \<le> 0x7FFFFFFF \<and> gone owner then None
       else fs_files fs (path_join (pt_dir t) copy))"
    by (simp add: p ProcessAlive_def not_less)
  from r [of name] p c show ?thesis by (rule conjI [OF _ conjI])
qed

definition sweep_table :: PlayerTable where
  "sweep_table = PlayerTable_init\<lparr>pt_dir := ''/run/p''\<rparr>"

definition sweep_env :: picture_env where
  "sweep_env = \<lparr>env_pid = 77, env_parent = \<lparr>dc_mkdir = MkdirExists, dc_private = True\<rparr>, env_leaf = \<lparr>dc_mkdir = MkdirExists, dc_private = True\<rparr>,
     env_entries = map (read_entry (\<lambda>pid. pid = 41)) [(copy_name 41 9 2 3, True, False), (copy_name 42 9 2 3, True, False), (''notes.txt'', True, False)],
     env_listError = None, env_size_unreadable = False, env_copyError = None\<rparr>"

definition sweep_fs :: filesystem where
  "sweep_fs = \<lparr>fs_files = (\<lambda>p. Some [1]), fs_others = {}\<rparr>"

theorem sweep_spares_living_witness:
  "fs_files (snd (SweepOnce sweep_env (sweep_table, sweep_fs))) (path_join ''/run/p'' (copy_name 41 9 2 3)) = None \<and>
   fs_files (snd (SweepOnce sweep_env (sweep_table, sweep_fs))) (path_join ''/run/p'' (copy_name 42 9 2 3)) = Some [1] \<and>
   fs_files (snd (SweepOnce sweep_env (sweep_table, sweep_fs))) ''/run/p/notes.txt'' = Some [1]"
proof -
  obtain t' fs' where s: "SweepOnce sweep_env (sweep_table, sweep_fs) = (t', fs')" by fastforce
  have t: "\<not> pt_swept sweep_table" "pt_dir sweep_table = ''/run/p''" by (simp_all add: sweep_table_def PlayerTable_init_def)
  have e: "env_pid sweep_env = 77" "fs_files sweep_fs p = Some [1]" for p by (simp_all add: sweep_env_def sweep_fs_def)
  have l: "env_entries sweep_env = map (read_entry (\<lambda>pid. pid = 41)) [(copy_name 41 9 2 3, True, False), (copy_name 42 9 2 3, True, False), (''notes.txt'', True, False)]"
    by (simp add: sweep_env_def)
  have "ParseCopyName ''notes.txt'' = None" by code_simp
  then show ?thesis
    using sweep_spares_living [OF t(1) l s, of 41 2 "copy_name 41 9 2 3" 9 3 "''notes.txt''"] sweep_spares_living [OF t(1) l s, of 42 2 "copy_name 42 9 2 3" 9 3 "[]"]
    by (simp add: s t(2) e path_join_def)
qed

end
