(* ===== verification/Spec2Isabelle.thy ===== *)
theory Spec2Isabelle
  imports Wire_Session Wire_Memory Wire_Dump Game_Queue Seq_Lock Overlay Override_Chain Status_Light Player_Table Memory_Protocol Worker_Session Script_Binding Sha256 Plugin_Entry Worker_Connect Status_Window Status_Window_Win Picture_Names
begin

text \<open>
  A verification of the Scorbit plugin for Visual Pinball X (VPX), the C++ code under \<^verbatim>\<open>src/\<close>.

  \<^bold>\<open>The program.\<close> The plugin connects a pinball table running in VPX to the Scorbit daemon over a local stream socket. VPX's API thread calls it:
  the plugin is loaded and unloaded, VPX and the emulating controller post events, a table's script calls the \<open>Scorbit.Table\<close> object, and a tick runs
  every quarter second. One socket worker thread speaks the wire protocol; a tap thread copies the display's frames; render threads ask for composited
  frames; on X11 a thread of its own keeps the status light's window. The threads meet in few places, each a component here: a latch, the queue of
  game batches, the read-back channel, the memory bridge, the sequence lock and the overlay's cache.

  \<^bold>\<open>The model.\<close> Every definition is a translation of the code it names in the manifest: a class is a record, an enumeration a datatype, an operation a
  function from state to state with its answer, a thread's critical section one step, and every early return a branch. Machine integers are words where
  their width shows and \<open>int\<close> or \<open>nat\<close> where the code cannot leave their range. Bytes are \<open>u8\<close>, strings lists of characters. What lies
  outside the repository answers through arguments: the operating system's calls, VPX's and PinMAME's interfaces, the X server and Win32, each call's
  outcome being a field of an environment given with the call, so the theorems hold for every answer.

  \<^bold>\<open>The theories\<close>, in the order they build on each other:

  \<^item> \<open>Prelude\<close>: the types of words and bytes, little-endian bytes, clocks, and the lemmas the components share.
  \<^item> \<open>Wire_Codec\<close>, \<open>Wire_Session\<close>, \<open>Wire_Memory\<close>, \<open>Wire_ReadBack\<close>, \<open>Wire_Game\<close> (\<^verbatim>\<open>WireProtocol.h/.cpp\<close>): headers and framing, the bounded
    reader and the writer, then every payload with its encoder, decoder and rules. The locale \<open>field_codec\<close> is the contract of one field's writer and
    reader, interpreted on every field type; \<open>payload_codec\<close> that of a payload, interpreted on the payloads, whose facts the round trips are.
  \<^item> \<open>Wire_Dump\<close> (\<^verbatim>\<open>WireDump.h/.cpp\<close>): the debug recording with sensitive spans blanked, and that nothing else of a frame is changed.
  \<^item> \<open>Handoff\<close> (\<^verbatim>\<open>Latch.h\<close>): the locale \<open>handoff\<close>, what a producer and a consumer of a shared slot or queue may rely on, interpreted on the latch,
    on \<open>Game_Queue\<close> (\<^verbatim>\<open>GameQueue.h\<close>, the bounded queue of batches) and on the two channels of \<open>Read_Back\<close>.
  \<^item> \<open>Seq_Lock\<close> (\<^verbatim>\<open>SeqLock.h\<close>): one writer and many readers, one memory access a step, with every interleaving.
  \<^item> \<open>Overlay\<close> (\<^verbatim>\<open>OverlayPlacement.h\<close>, \<^verbatim>\<open>OverlayState.h\<close>, \<^verbatim>\<open>OverlayCache.h\<close>), \<open>Override_Chain\<close> (\<^verbatim>\<open>OverrideChain.h\<close>), \<open>Dmd_Overlay\<close>,
    \<open>Overlay_Render\<close>, \<open>Overlay_Surface\<close> and \<open>Sha256\<close> (\<^verbatim>\<open>DmdOverlay.h/.cpp\<close>): the bitmap, where it lands, how a render thread sees it, which sources are
    overridden, the deferred apply with what the host does inside it, the compositing, and the digest of the file drop.
  \<^item> \<open>Dmd_Tap\<close> (\<^verbatim>\<open>DmdTap.h/.cpp\<close>): the choice of a source and the polling thread, publishing through the sequence lock.
  \<^item> \<open>Memory_Bridge\<close> and \<open>Memory_Protocol\<close> (\<^verbatim>\<open>MemoryBridge.h/.cpp\<close>): the worker's memory requests answered on the API thread; the first holds the
    operations, the second every interleaving of the two threads.
  \<^item> \<open>Read_Back\<close>, \<open>Player_Table\<close> and \<open>Picture_Names\<close> (\<^verbatim>\<open>ReadBack.h/.cpp\<close>): leaderboards and players for the script, the picture files the plugin
    owns, and how a sweep tells from their names which processes left them.
  \<^item> \<open>Authored_Table\<close> (\<^verbatim>\<open>AuthoredTable.h/.cpp\<close>), \<open>Session_Source\<close> and \<open>Source_History\<close> (\<^verbatim>\<open>VpxSessionSource.h/.cpp\<close>), \<open>Script_Binding\<close>
    (\<^verbatim>\<open>ScriptBinding.h/.cpp\<close>): what the API thread knows of the game, what it declares, the script's calls with every check of their arguments, and the
    two histories (declarations and batches) that have to agree.
  \<^item> \<open>Worker_Status\<close>, \<open>Worker_Games\<close>, \<open>Worker_ReadBack\<close>, \<open>Worker_Transport\<close>, \<open>Worker_Dispatch\<close>, \<open>Worker_Session\<close>, \<open>Worker_Connect\<close>
    (\<^verbatim>\<open>SocketWorker.h/.cpp\<close>): following the daemon's status; the games kept for a restarted daemon; the leaderboard requests; the byte stream; the
    daemon's requests; a session and the main loop; finding the daemon, connecting, starting and stopping.
  \<^item> \<open>Status_Notice\<close> (\<^verbatim>\<open>StatusNotice.h/.cpp\<close>), \<open>Status_Light\<close> (\<^verbatim>\<open>StatusLight.h/.cpp\<close>), \<open>Status_Caption\<close> and \<open>Status_Window\<close>
    (\<^verbatim>\<open>StatusWindow_x11.cpp\<close>), \<open>Status_Window_Win\<close> (\<^verbatim>\<open>StatusWindow_win.cpp\<close>): the words and the light for the worker's record, and the light's
    window on the two systems.
  \<^item> \<open>Plugin_Entry\<close> (\<^verbatim>\<open>ScorbitPlugin.cpp\<close>): the plugin as the host sees it, over the tap, the overlay and the session source, each with its own history.

  \<^bold>\<open>What the theorems show.\<close>

  \<^item> The codec: framing and payloads decode to what was encoded, only payloads that meet the protocol's rules are accepted, oversized ones are never
    framed, and what the dump blanks covers every secret of a frame.
  \<^item> Between threads: no torn read under any interleaving, no batch lost from the middle of a game, a memory write handed over at most once, a poll that
    answers the subscription in force, and every leaderboard request answered exactly once.
  \<^item> The worker: the stream read back whole however it is cut, every request answered once, a connecting attempt decided within its second, the acknowledged
    game replayed whole, no status of a session's first moments ending a ROM game, and the return of the thread once it is told to stop.
  \<^item> The session: a batch belongs to the machine declared under its epoch, one identity names one table, what a script commits arrives exactly, a score is added
    exactly or not at all, and scripts read only the results of their own table.
  \<^item> The display: captured frames are those of their source, overrides are listed by the host and never forgotten, a composited frame is exact pixel by
    pixel, and one frame id stands for one picture while nobody writes.
  \<^item> Pictures: a file under one of the plugin's names exists exactly when a slot shows it, and a sweep takes only what ended processes left.
  \<^item> The status: notices are spaced, the light agrees with the words, and the light's window shows what was asked, in its place, or nothing.
  \<^item> The plugin: its parts follow one controller, and unloading gives everything back.

  \<^bold>\<open>Bounds.\<close> Reachable states are built by inductive relations over lists of events of any length, with no fuel. The counters that wrap are kept as words, and
  the theorems ask for what the code relies on: fewer than \<open>2 ^ 64\<close> published values (two steps of the sequence each) and declared epochs. The worker's loop recurs on
  the calls that remain: the environment numbers the calls and says at which one the thread is stopped, every round makes at least one, and
  \<open>Worker_Session.worker_stops_clean\<close> shows that it returns. Connecting recurs on the rounds of its wait, of which the deadline of one second leaves at
  most twelve beside the interruptions by signals, and every one is accounted for. The search for the playfield's window goes up eight parents, as the
  code does. Loops over bytes, lines and pixels end by measures.

  \<^bold>\<open>What modelling showed.\<close> The manifest lists three divergences: a write that hides the overlay leaves a repeated frame under its old id, so a consumer that skips known
  ids keeps showing it (\<open>DmdOverlay.cpp\<close>); the notice and the light differ for an unknown session state of an unauthenticated daemon
  (\<open>StatusNotice.cpp\<close>); and the token of a socket directly under the root directory is looked for in the working directory (\<open>SocketWorker.cpp\<close>,
  \<open>Worker_Connect.token_of_root\<close>).

  \<^bold>\<open>Not modelled.\<close>

  \<^item> \<^verbatim>\<open>StatusLightRaster.cpp\<close> and the overlay's shading: floating-point drawing. Their rounded results are arguments of the models that use them.
  \<^item> \<^verbatim>\<open>StatusWindow_mac.mm\<close> and \<^verbatim>\<open>QuitHook_mac.mm\<close>: Cocoa glue in Objective-C++.
  \<^item> Of the X11 window: opening the connection, visuals, fonts, the drawing of the caption and the sibling of a stacking request. Of the Windows
    window: classes and styles, GDI's text and the drawing surface.
  \<^item> The Windows branches of the worker's sockets and paths, of the table's path and of the picture directory, and macOS's default for it.
  \<^item> The text and rate limits of log lines, the settings' declarations, the message subscriptions and the type library's tables of the script object: data handed
    to the host, on which no decision of the code rests.
  \<^item> The memory order of atomics beyond sequential consistency of the fenced accesses.
\<close>

end
